(* ===== verification/Prelude.thy ===== *)
theory Prelude
  imports Complex_Main "HOL-Library.Product_Lexorder" "HOL-Library.Monad_Syntax"
begin

text \<open>
  Shared vocabulary of the development: the result type of a fallible statement, the scalar types
  of the PostgreSQL columns, and the list lemmas every component uses.

  \<^item> A statement or a function that can raise is a value of \<^verbatim>\<open>'e + 'a\<close>: \<^verbatim>\<open>Inl\<close> is the
    error, \<^verbatim>\<open>Inr\<close> the result.
  \<^item> A table is a list of rows in heap order; a statement is a function from the table to the new
    table and the rows it returns.
  \<^item> A \<^verbatim>\<open>timestamptz\<close> is an \<^verbatim>\<open>int\<close>, in microseconds since the epoch, which is what
    PostgreSQL stores; an \<^verbatim>\<open>interval '1s'\<close> is \<^verbatim>\<open>second\<close>.
\<close>

named_theorems row_simps \<open>equations that compute a row operation\<close>
named_theorems stmt_defs \<open>definitions of the SQL statements\<close>
named_theorems shape_intros \<open>introduction rules for the table invariants\<close>

type_synonym uuid = nat
type_synonym time = int
type_synonym str = string

abbreviation second :: time where
  "second \<equiv> 1000000"

text \<open>JSON values, as the \<^verbatim>\<open>jsonb\<close> columns hold them.\<close>

datatype json =
    JNull
  | JBool bool
  | JNum rat
  | JStr str
  | JArr "json list"
  | JObj "(str \<times> json) list"

text \<open>Monadic composition of fallible steps: the first error ends the computation.\<close>

definition and_then :: "'e + 'a \<Rightarrow> ('a \<Rightarrow> 'e + 'b) \<Rightarrow> 'e + 'b" where
  "and_then r f = (case r of Inl e \<Rightarrow> Inl e | Inr x \<Rightarrow> f x)"

lemma and_then_simps [simp]:
  "and_then (Inl e) f = Inl e"
  "and_then (Inr x) f = f x"
  by (simp_all add: and_then_def)

lemma and_then_Inr_iff:
  "and_then r f = Inr y \<longleftrightarrow> (\<exists>x. r = Inr x \<and> f x = Inr y)"
  by (cases r) auto

lemma and_then_Inr_E:
  assumes "and_then r f = Inr y"
  obtains x where "r = Inr x" "f x = Inr y"
  using assms by (auto simp: and_then_Inr_iff)

text \<open>An assertion: the error when the condition does not hold.\<close>

definition ensure :: "bool \<Rightarrow> 'e \<Rightarrow> 'e + unit" where
  "ensure b e = (if b then Inr () else Inl e)"

lemma ensure_simps [simp]:
  "ensure True e = Inr ()"
  "ensure False e = Inl e"
  "(ensure b e = Inr u) \<longleftrightarrow> b"
  "(ensure b e = Inl x) \<longleftrightarrow> (\<not> b \<and> x = e)"
  by (auto simp: ensure_def)

text \<open>\<^verbatim>\<open>COALESCE(a, b)\<close>, for a nullable \<^verbatim>\<open>a\<close> and a value \<^verbatim>\<open>b\<close>.\<close>

definition coalesce :: "'a option \<Rightarrow> 'a \<Rightarrow> 'a" where
  "coalesce a b = (case a of None \<Rightarrow> b | Some x \<Rightarrow> x)"

definition coalesce_opt :: "'a option \<Rightarrow> 'a option \<Rightarrow> 'a option" where
  "coalesce_opt a b = (case a of None \<Rightarrow> b | Some x \<Rightarrow> Some x)"

lemma coalesce_simps [simp]:
  "coalesce None b = b"
  "coalesce (Some x) b = x"
  by (simp_all add: coalesce_def)

lemma coalesce_opt_simps [simp]:
  "coalesce_opt None b = b"
  "coalesce_opt (Some x) b = Some x"
  by (simp_all add: coalesce_opt_def)

text \<open>The rows a statement changes and the row function it applies to them.\<close>

definition upd_where :: "('a \<Rightarrow> bool) \<Rightarrow> ('a \<Rightarrow> 'a) \<Rightarrow> 'a list \<Rightarrow> 'a list" where
  "upd_where p f xs = map (\<lambda>x. if p x then f x else x) xs"

lemma upd_where_simps [simp]:
  "upd_where p f [] = []"
  "upd_where p f (x # xs) = (if p x then f x else x) # upd_where p f xs"
  "length (upd_where p f xs) = length xs"
  by (simp_all add: upd_where_def)

lemma set_upd_where:
  "set (upd_where p f xs) = {x \<in> set xs. \<not> p x} \<union> f ` {x \<in> set xs. p x}"
  by (auto simp: upd_where_def)

lemma upd_where_none:
  "(\<And>x. x \<in> set xs \<Longrightarrow> \<not> p x) \<Longrightarrow> upd_where p f xs = xs"
  by (induction xs) auto

lemma map_upd_where_same:
  "(\<And>x. x \<in> set xs \<Longrightarrow> p x \<Longrightarrow> g (f x) = g x) \<Longrightarrow> map g (upd_where p f xs) = map g xs"
  by (induction xs) auto

lemma filter_upd_where_other:
  "(\<And>x. x \<in> set xs \<Longrightarrow> p x \<Longrightarrow> \<not> q (f x) \<and> \<not> q x) \<Longrightarrow>
    filter q (upd_where p f xs) = filter q xs"
  by (induction xs) auto

lemma sorted_wrt_upd_where:
  assumes "sorted_wrt R xs"
    and "\<And>x y. x \<in> set xs \<Longrightarrow> y \<in> set xs \<Longrightarrow> R x y \<Longrightarrow>
        R (if p x then f x else x) (if p y then f y else y)"
  shows "sorted_wrt R (upd_where p f xs)"
  using assms
proof (induction xs)
  case (Cons a xs)
  have "\<forall>y\<in>set xs. R (if p a then f a else a) (if p y then f y else y)"
    using Cons.prems by (meson list.set_intros sorted_wrt.simps(2))
  moreover have "sorted_wrt R (upd_where p f xs)"
    by (rule Cons.IH) (use Cons.prems in auto)
  ultimately show ?case by (auto simp: set_upd_where)
qed simp

lemma sorted_wrt_filter_any:
  "sorted_wrt R xs \<Longrightarrow> sorted_wrt R (filter p xs)"
  by (induction xs) auto

lemma sorted_wrt_snoc:
  "sorted_wrt R (xs @ [y]) \<longleftrightarrow> sorted_wrt R xs \<and> (\<forall>x\<in>set xs. R x y)"
  by (simp add: sorted_wrt_append)

lemma distinct_map_upd_where:
  "(\<And>x. x \<in> set xs \<Longrightarrow> p x \<Longrightarrow> g (f x) = g x) \<Longrightarrow>
    distinct (map g (upd_where p f xs)) = distinct (map g xs)"
  by (simp add: map_upd_where_same)

text \<open>Looking a row up by its key, in a table whose keys are distinct.\<close>

lemma distinct_map_inj:
  "distinct (map g xs) \<Longrightarrow> x \<in> set xs \<Longrightarrow> y \<in> set xs \<Longrightarrow> g x = g y \<Longrightarrow> x = y"
  by (simp add: distinct_map inj_on_def)

lemma filter_key_unique:
  "distinct (map g xs) \<Longrightarrow> x \<in> set xs \<Longrightarrow> filter (\<lambda>y. g y = g x) xs = [x]"
proof (induction xs)
  case (Cons a xs)
  have none: "g a \<in> g ` set xs \<Longrightarrow> False" using Cons.prems(1) by simp
  show ?case
  proof (cases "a = x")
    case True
    hence "\<And>y. y \<in> set xs \<Longrightarrow> g y \<noteq> g x" using none by (metis imageI)
    thus ?thesis using True by (simp add: filter_empty_conv)
  next
    case False
    hence "x \<in> set xs" using Cons.prems(2) by simp
    moreover hence "g a \<noteq> g x" using none by auto
    ultimately show ?thesis using Cons by simp
  qed
qed simp

lemma distinct_filter_map:
  "distinct (map g xs) \<Longrightarrow> distinct (map g (filter p xs))"
  by (induction xs) auto

lemma length_filter_split:
  "length (filter p xs) + length (filter (\<lambda>x. \<not> p x) xs) = length xs"
  by (induction xs) auto

lemma length_filter_mono:
  "(\<And>x. x \<in> set xs \<Longrightarrow> p x \<Longrightarrow> q x) \<Longrightarrow> length (filter p xs) \<le> length (filter q xs)"
  by (induction xs) auto

lemma length_filter_le_card:
  assumes "finite A" "distinct (map g xs)" "\<And>x. x \<in> set xs \<Longrightarrow> p x \<Longrightarrow> g x \<in> A"
  shows "length (filter p xs) \<le> card A"
proof -
  have "distinct (map g (filter p xs))" using assms(2) by (rule distinct_filter_map)
  hence "length (filter p xs) = card (set (map g (filter p xs)))"
    using distinct_card [of "map g (filter p xs)"] by simp
  also have "\<dots> \<le> card A" using assms by (intro card_mono) auto
  finally show ?thesis .
qed

lemma max_elem:
  fixes f :: "'a \<Rightarrow> 'b::linorder"
  assumes "xs \<noteq> []" shows "\<exists>m\<in>set xs. \<forall>b\<in>set xs. f b \<le> f m"
proof -
  have "Max (f ` set xs) \<in> f ` set xs" using assms by (intro Max_in) auto
  then obtain m where "m \<in> set xs" "f m = Max (f ` set xs)" by (metis imageE)
  thus ?thesis using Max_ge [of "f ` set xs"] by (metis List.finite_set finite_imageI imageI)
qed

lemma length_filter_take: "length (filter p (take n xs)) \<le> length (filter p xs)"
proof -
  have "length (filter p xs) = length (filter p (take n xs)) + length (filter p (drop n xs))"
    by (metis append_take_drop_id filter_append length_append)
  thus ?thesis by simp
qed

end
