(* ===== verification/JobTable.thy ===== *)
theory JobTable
  imports Prelude
begin

text \<open>
  The data model of \<^verbatim>\<open>src/src/plans.ts\<close>: the job states and queue policies, the rows of the
  tables \<^verbatim>\<open>job\<close>, \<^verbatim>\<open>queue\<close> and \<^verbatim>\<open>job_dependency\<close>, the unique indexes that make the
  queue policies hold, and the shape every table keeps: the primary key, the unique indexes and the
  check constraint.  Every statement of the other theories is a function on these tables; a
  statement that would break an index is refused with the error PostgreSQL raises.
\<close>

section \<open>States and policies\<close>

datatype job_state = Created | Retry | Active | Completed | Cancelled | Failed

text \<open>The enum order of \<^verbatim>\<open>job_state\<close> is the order the type was created with.\<close>

fun state_rank :: "job_state \<Rightarrow> nat" where
  "state_rank Created = 0"
| "state_rank Retry = 1"
| "state_rank Active = 2"
| "state_rank Completed = 3"
| "state_rank Cancelled = 4"
| "state_rank Failed = 5"

lemma state_rank_inj [simp]: "state_rank s = state_rank t \<longleftrightarrow> s = t"
  by (cases s; cases t) simp_all

instantiation job_state :: linorder
begin

definition less_eq_job_state :: "job_state \<Rightarrow> job_state \<Rightarrow> bool" where
  "less_eq_job_state s t = (state_rank s \<le> state_rank t)"

definition less_job_state :: "job_state \<Rightarrow> job_state \<Rightarrow> bool" where
  "less_job_state s t = (state_rank s < state_rank t)"

instance
  by standard (auto simp: less_eq_job_state_def less_job_state_def)

end

lemma state_less_simps [simp]:
  "(s < Created) = False"
  "(s < Retry) = (s = Created)"
  "(s < Active) = (s = Created \<or> s = Retry)"
  "(s \<le> Active) = (s = Created \<or> s = Retry \<or> s = Active)"
  "(s < Completed) = (s = Created \<or> s = Retry \<or> s = Active)"
  "(Active < s) = (s = Completed \<or> s = Cancelled \<or> s = Failed)"
  by (cases s; simp add: less_job_state_def less_eq_job_state_def)+

datatype queue_policy = Standard | Short | Singleton | Stately | Exclusive | KeyStrictFifo

fun policy_text :: "queue_policy \<Rightarrow> str" where
  "policy_text Standard = ''standard''"
| "policy_text Short = ''short''"
| "policy_text Singleton = ''singleton''"
| "policy_text Stately = ''stately''"
| "policy_text Exclusive = ''exclusive''"
| "policy_text KeyStrictFifo = ''key_strict_fifo''"

text \<open>\<^verbatim>\<open>LIVE_STATES\<close> and \<^verbatim>\<open>RETAINED_STATES\<close>.\<close>

definition live_state :: "job_state \<Rightarrow> bool" where
  "live_state s = (s \<in> {Created, Retry, Active, Failed})"

definition retained_state :: "job_state \<Rightarrow> bool" where
  "retained_state s = (s \<in> {Completed, Cancelled})"

lemma live_or_retained: "live_state s \<longleftrightarrow> \<not> retained_state s"
  by (cases s) (simp_all add: live_state_def retained_state_def)

section \<open>The rows\<close>

text \<open>A row of the table \<^verbatim>\<open>job\<close>.  Nullable columns are options.\<close>

record job =
  job_id :: uuid
  job_name :: str
  priority :: int
  job_data :: "json option"
  state :: job_state
  retry_limit :: int
  retry_count :: int
  retry_delay :: int
  retry_backoff :: bool
  retry_delay_max :: "int option"
  expire_seconds :: int
  deletion_seconds :: int
  singleton_key :: "str option"
  singleton_on :: "time option"
  group_id :: "str option"
  group_tier :: "str option"
  start_after :: time
  created_on :: time
  started_on :: "time option"
  completed_on :: "time option"
  keep_until :: time
  job_output :: "json option"
  dead_letter :: "str option"
  policy :: "queue_policy option"
  heartbeat_on :: "time option"
  heartbeat_seconds :: "int option"
  blocked :: bool
  blocking :: bool
  pending_dependencies :: int
  source_name :: "str option"
  source_id :: "uuid option"
  source_created_on :: "time option"
  source_retry_count :: "int option"
  source_output :: "json option"
  source_root_id :: "uuid option"
  trace_context :: "json option"
  upsert_by_key :: "bool option"

text \<open>A row of the table \<^verbatim>\<open>queue\<close>.\<close>

record queue =
  q_name :: str
  q_policy :: queue_policy
  q_retry_limit :: int
  q_retry_delay :: int
  q_retry_backoff :: bool
  q_retry_delay_max :: "int option"
  q_expire_seconds :: int
  q_retention_seconds :: int
  q_deletion_seconds :: int
  q_dead_letter :: "str option"
  q_partition :: bool
  q_table_name :: str
  q_deferred_count :: int
  q_blocked_count :: int
  q_queued_count :: int
  q_ready_count :: int
  q_warning_queued :: int
  q_active_count :: int
  q_failed_count :: int
  q_total_count :: int
  q_retained_count :: "int option"
  q_retained_on :: "time option"
  q_created_delta :: int
  q_completed_delta :: int
  q_failed_delta :: int
  q_delta_on :: "time option"
  q_delta_seconds :: "int option"
  q_wait_bins :: "int list option"
  q_run_bins :: "int list option"
  q_ready_oldest_seconds :: "int option"
  q_ready_history :: "int list"
  q_heartbeat_seconds :: "int option"
  q_notify :: bool
  q_singletons_active :: "str list option"
  q_monitor_claim_on :: "time option"
  q_monitor_on :: "time option"
  q_maintain_on :: "time option"
  q_created_on :: time
  q_updated_on :: time

text \<open>A row of \<^verbatim>\<open>job_dependency\<close>: the child waits for the parent.\<close>

record dependency =
  child_name :: str
  child_id :: uuid
  parent_name :: str
  parent_id :: uuid

text \<open>The column defaults of \<^verbatim>\<open>createTableJob\<close>, at the time of the insert: what a column the
  \<^verbatim>\<open>INSERT\<close> does not name takes.\<close>

definition job_defaults :: "uuid \<Rightarrow> str \<Rightarrow> time \<Rightarrow> job" where
  "job_defaults i n now = \<lparr>
     job_id = i, job_name = n, priority = 0, job_data = None, state = Created,
     retry_limit = 2, retry_count = 0, retry_delay = 0, retry_backoff = False,
     retry_delay_max = None, expire_seconds = 60 * 15, deletion_seconds = 60 * 60 * 24 * 7,
     singleton_key = None, singleton_on = None, group_id = None, group_tier = None,
     start_after = now, created_on = now, started_on = None, completed_on = None,
     keep_until = now + 60 * 60 * 24 * 14 * second, job_output = None, dead_letter = None,
     policy = None, heartbeat_on = None, heartbeat_seconds = None, blocked = False,
     blocking = False, pending_dependencies = 0, source_name = None, source_id = None,
     source_created_on = None, source_retry_count = None, source_output = None,
     source_root_id = None, trace_context = None, upsert_by_key = None\<rparr>"

text \<open>The row \<^verbatim>\<open>create_queue\<close> inserts when no option is given: \<^verbatim>\<open>QUEUE_DEFAULTS\<close> for the columns
  it names, the column defaults of \<^verbatim>\<open>createTableQueue\<close> for the rest.\<close>

definition queue_defaults :: "str \<Rightarrow> queue_policy \<Rightarrow> str \<Rightarrow> time \<Rightarrow> queue" where
  "queue_defaults n pol tbl now = \<lparr>
     q_name = n, q_policy = pol, q_retry_limit = 2, q_retry_delay = 0, q_retry_backoff = False,
     q_retry_delay_max = None, q_expire_seconds = 60 * 15, q_retention_seconds = 60 * 60 * 24 * 14,
     q_deletion_seconds = 60 * 60 * 24 * 7, q_dead_letter = None, q_partition = False,
     q_table_name = tbl, q_deferred_count = 0, q_blocked_count = 0, q_queued_count = 0,
     q_ready_count = 0, q_warning_queued = 0, q_active_count = 0, q_failed_count = 0,
     q_total_count = 0, q_retained_count = None, q_retained_on = None, q_created_delta = 0,
     q_completed_delta = 0, q_failed_delta = 0, q_delta_on = None, q_delta_seconds = None,
     q_wait_bins = None, q_run_bins = None, q_ready_oldest_seconds = None, q_ready_history = [],
     q_heartbeat_seconds = None, q_notify = False, q_singletons_active = None,
     q_monitor_claim_on = None, q_monitor_on = None, q_maintain_on = None,
     q_created_on = now, q_updated_on = now\<rparr>"

definition job_key :: "job \<Rightarrow> str \<times> uuid" where
  "job_key j = (job_name j, job_id j)"

definition skey :: "job \<Rightarrow> str" where
  "skey j = coalesce (singleton_key j) ''''"

section \<open>The unique indexes\<close>

text \<open>Each index is the entry it holds for a row: the key when the row satisfies the partial
  index's predicate and no key column is null, and nothing otherwise (a null in a key column of a
  unique index never conflicts).  Two rows conflict when an index holds one entry for both.\<close>

definition job_i1 :: "job \<Rightarrow> (str \<times> str) option" where
  "job_i1 j = (if state j = Created \<and> policy j = Some Short
     then Some (job_name j, skey j) else None)"

definition job_i2 :: "job \<Rightarrow> (str \<times> str) option" where
  "job_i2 j = (if state j = Active \<and> policy j = Some Singleton
     then Some (job_name j, skey j) else None)"

definition job_i3 :: "job \<Rightarrow> (str \<times> job_state \<times> str) option" where
  "job_i3 j = (if state j \<le> Active \<and> policy j = Some Stately
     then Some (job_name j, state j, skey j) else None)"

definition job_i4 :: "job \<Rightarrow> (str \<times> time \<times> str) option" where
  "job_i4 j = (case singleton_on j of None \<Rightarrow> None
     | Some t \<Rightarrow> if state j \<noteq> Cancelled then Some (job_name j, t, skey j) else None)"

definition job_i6 :: "job \<Rightarrow> (str \<times> str) option" where
  "job_i6 j = (if state j \<le> Active \<and> policy j = Some Exclusive
     then Some (job_name j, skey j) else None)"

definition fifo_slot :: "job \<Rightarrow> bool" where
  "fifo_slot j = (state j \<in> {Active, Retry, Failed} \<and> policy j = Some KeyStrictFifo)"

definition job_i8 :: "job \<Rightarrow> (str \<times> str) option" where
  "job_i8 j = (case singleton_key j of None \<Rightarrow> None
     | Some k \<Rightarrow> if fifo_slot j then Some (job_name j, k) else None)"

definition job_i13 :: "job \<Rightarrow> (str \<times> str) option" where
  "job_i13 j = (case singleton_key j of None \<Rightarrow> None
     | Some k \<Rightarrow> if state j = Created \<and> upsert_by_key j = Some True
                 then Some (job_name j, k) else None)"

definition same_entry :: "'k option \<Rightarrow> 'k option \<Rightarrow> bool" where
  "same_entry x y = (x \<noteq> None \<and> x = y)"

definition conflict :: "job \<Rightarrow> job \<Rightarrow> bool" where
  "conflict a b = (job_key a = job_key b \<or>
     same_entry (job_i1 a) (job_i1 b) \<or> same_entry (job_i2 a) (job_i2 b) \<or>
     same_entry (job_i3 a) (job_i3 b) \<or> same_entry (job_i4 a) (job_i4 b) \<or>
     same_entry (job_i6 a) (job_i6 b) \<or> same_entry (job_i8 a) (job_i8 b) \<or>
     same_entry (job_i13 a) (job_i13 b))"

lemmas index_defs = job_i1_def job_i2_def job_i3_def job_i4_def job_i6_def
  job_i8_def job_i13_def fifo_slot_def

lemma same_entry_sym: "same_entry x y \<longleftrightarrow> same_entry y x"
  by (auto simp: same_entry_def)

lemma same_entry_simps [simp]:
  "same_entry None y = False"
  "same_entry x None = False"
  "same_entry (Some k) (Some l) = (k = l)"
  by (auto simp: same_entry_def)

lemma conflict_sym: "conflict a b \<longleftrightarrow> conflict b a"
  unfolding conflict_def using same_entry_sym by metis

lemma conflict_same_key: "job_key a = job_key b \<Longrightarrow> conflict a b"
  by (simp add: conflict_def)

lemma same_entry_E:
  assumes "same_entry x y" obtains k where "x = Some k" "y = Some k"
  using assms by (auto simp: same_entry_def)

lemma index_entry_name:
  "job_i1 j = Some (n, k) \<Longrightarrow> job_name j = n"
  "job_i2 j = Some (n, k) \<Longrightarrow> job_name j = n"
  "job_i3 j = Some (n, s, k) \<Longrightarrow> job_name j = n"
  "job_i4 j = Some (n, t, k) \<Longrightarrow> job_name j = n"
  "job_i6 j = Some (n, k) \<Longrightarrow> job_name j = n"
  "job_i8 j = Some (n, k) \<Longrightarrow> job_name j = n"
  "job_i13 j = Some (n, k) \<Longrightarrow> job_name j = n"
  by (auto simp: index_defs split: if_splits option.splits)

lemma conflict_name: "conflict a b \<Longrightarrow> job_name a = job_name b"
  unfolding conflict_def
  by (elim disjE same_entry_E) (auto simp: job_key_def dest!: index_entry_name)

text \<open>A change of a row that keeps its key and only gives up index entries cannot conflict where
  the row did not: the shape of every statement that settles a job.\<close>

definition entry_le :: "'k option \<Rightarrow> 'k option \<Rightarrow> bool" where
  "entry_le x y = (x = None \<or> x = y)"

definition gives_up :: "job \<Rightarrow> job \<Rightarrow> bool" where
  "gives_up a b = (job_key b = job_key a \<and>
     entry_le (job_i1 b) (job_i1 a) \<and> entry_le (job_i2 b) (job_i2 a) \<and>
     entry_le (job_i3 b) (job_i3 a) \<and> entry_le (job_i4 b) (job_i4 a) \<and>
     entry_le (job_i6 b) (job_i6 a) \<and> entry_le (job_i8 b) (job_i8 a) \<and>
     entry_le (job_i13 b) (job_i13 a))"

lemma entry_le_same:
  "same_entry x' y' \<Longrightarrow> entry_le x' x \<Longrightarrow> entry_le y' y \<Longrightarrow> same_entry x y"
  by (auto simp: same_entry_def entry_le_def)

lemma entry_le_refl [simp]: "entry_le x x"
  by (simp add: entry_le_def)

lemma gives_up_refl [simp]: "gives_up a a"
  by (simp add: gives_up_def)

lemma gives_up_conflict:
  assumes "conflict a' b'" "gives_up a a'" "gives_up b b'"
  shows "conflict a b"
  using assms unfolding conflict_def gives_up_def
  by (elim conjE disjE) (simp, (drule (2) entry_le_same, simp)+)

text \<open>\<^verbatim>\<open>job_key_strict_fifo_singleton_key_check\<close>.\<close>

definition key_check :: "job \<Rightarrow> bool" where
  "key_check j = (\<not> (policy j = Some KeyStrictFifo \<and> singleton_key j = None))"

text \<open>What the constraints make of a table: no two rows conflict, every row passes the check.\<close>

definition table_ok :: "job list \<Rightarrow> bool" where
  "table_ok t = (sorted_wrt (\<lambda>a b. \<not> conflict a b) t \<and> list_all key_check t)"

lemma table_ok_Nil [simp]: "table_ok []"
  by (simp add: table_ok_def)

lemma table_ok_Cons:
  "table_ok (x # t) \<longleftrightarrow> table_ok t \<and> key_check x \<and> (\<forall>y\<in>set t. \<not> conflict x y)"
  by (auto simp: table_ok_def)

lemma table_ok_append:
  "table_ok (s @ t) \<longleftrightarrow> table_ok s \<and> table_ok t \<and> (\<forall>x\<in>set s. \<forall>y\<in>set t. \<not> conflict x y)"
  by (auto simp: table_ok_def sorted_wrt_append)

lemma table_ok_filter: "table_ok t \<Longrightarrow> table_ok (filter p t)"
  by (auto simp: table_ok_def list_all_iff intro: sorted_wrt_filter_any)

lemma table_ok_key_check: "table_ok t \<Longrightarrow> j \<in> set t \<Longrightarrow> key_check j"
  by (simp add: table_ok_def list_all_iff)

lemma table_ok_distinct: "table_ok t \<Longrightarrow> distinct (map job_key t)"
proof (induction t)
  case (Cons x t)
  hence "\<And>y. y \<in> set t \<Longrightarrow> job_key x \<noteq> job_key y"
    using conflict_same_key by (metis table_ok_Cons)
  hence "job_key x \<notin> set (map job_key t)" by auto
  thus ?case using Cons by (simp add: table_ok_Cons)
qed simp

lemma table_ok_conflict_eq:
  assumes "table_ok t" "x \<in> set t" "y \<in> set t" "conflict x y"
  shows "x = y"
  using assms
proof (induction t)
  case (Cons a t)
  thus ?case using conflict_sym by (auto simp: table_ok_Cons)
qed simp

lemma table_ok_key_eq:
  "table_ok t \<Longrightarrow> x \<in> set t \<Longrightarrow> y \<in> set t \<Longrightarrow> job_key x = job_key y \<Longrightarrow> x = y"
  using table_ok_conflict_eq conflict_same_key by blast

end
