(* ===== verification/Statements.thy ===== *)
theory Statements
  imports JobTable
begin

text \<open>
  The SQL statements as functions on the job table: an \<^verbatim>\<open>UPDATE\<close>, a \<^verbatim>\<open>DELETE\<close>, an
  \<^verbatim>\<open>INSERT\<close> and an \<^verbatim>\<open>INSERT ... ON CONFLICT DO NOTHING\<close>, with the constraint errors they
  raise.  The statements of \<^verbatim>\<open>src/src/plans.ts\<close> are these, applied to a row predicate (the
  \<^verbatim>\<open>WHERE\<close> clause) and a row function (the \<^verbatim>\<open>SET\<close> clause).  The locale \<^verbatim>\<open>settling\<close> is
  the contract of the statements that only ever give index entries up: they cannot fail, whatever
  the table holds.
\<close>

datatype sql_error =
    UniqueViolation
  | CheckViolation
  | ForeignKeyViolation
  | DivisionByZero
  | CardinalityViolation

type_synonym 'a statement = "sql_error + (job list \<times> 'a)"

text \<open>The constraints, checked on the table a statement leaves.\<close>

definition check_table :: "job list \<Rightarrow> sql_error + job list" where
  "check_table t = (if \<not> list_all key_check t then Inl CheckViolation
     else if sorted_wrt (\<lambda>a b. \<not> conflict a b) t then Inr t
     else Inl UniqueViolation)"

lemma check_table_ok [simp]: "check_table t = Inr t' \<longleftrightarrow> table_ok t \<and> t' = t"
  by (auto simp: check_table_def table_ok_def)

lemma check_table_Inr: "table_ok t \<Longrightarrow> check_table t = Inr t"
  by simp

definition run_update :: "(job \<Rightarrow> bool) \<Rightarrow> (job \<Rightarrow> job) \<Rightarrow> job list \<Rightarrow> job list statement" where
  "run_update p f t = and_then (check_table (upd_where p f t))
     (\<lambda>t'. Inr (t', map f (filter p t)))"

definition run_delete :: "(job \<Rightarrow> bool) \<Rightarrow> job list \<Rightarrow> job list \<times> job list" where
  "run_delete p t = (filter (\<lambda>j. \<not> p j) t, filter p t)"

definition run_insert :: "job list \<Rightarrow> job list \<Rightarrow> job list statement" where
  "run_insert rs t = and_then (check_table (t @ rs)) (\<lambda>t'. Inr (t', rs))"

text \<open>\<^verbatim>\<open>ON CONFLICT DO NOTHING\<close> skips a row that an index already holds an entry for, one of the
  rows this statement inserted included.\<close>

fun insert_skip :: "job list \<Rightarrow> job list \<Rightarrow> job list \<times> job list" where
  "insert_skip t [] = (t, [])"
| "insert_skip t (r # rs) = (if list_ex (\<lambda>x. conflict x r) t then insert_skip t rs
     else (let (t', ins) = insert_skip (t @ [r]) rs in (t', r # ins)))"

definition run_insert_skip :: "job list \<Rightarrow> job list \<Rightarrow> job list statement" where
  "run_insert_skip rs t =
     (if list_all key_check rs then Inr (insert_skip t rs) else Inl CheckViolation)"

lemma run_update_Inr:
  "run_update p f t = Inr (t', rs) \<longleftrightarrow>
    table_ok (upd_where p f t) \<and> t' = upd_where p f t \<and> rs = map f (filter p t)"
  by (auto simp: run_update_def and_then_Inr_iff)

lemma run_insert_Inr:
  "run_insert rs t = Inr (t', ins) \<longleftrightarrow> table_ok (t @ rs) \<and> t' = t @ rs \<and> ins = rs"
  by (auto simp: run_insert_def and_then_Inr_iff)

lemma run_insert_UniqueViolation:
  "table_ok t \<Longrightarrow> list_all key_check rs \<Longrightarrow>
    (run_insert rs t = Inl UniqueViolation) = (\<not> table_ok (t @ rs))"
  by (auto simp: run_insert_def check_table_def table_ok_def)

lemma run_delete_simps [simp]:
  "fst (run_delete p t) = filter (\<lambda>j. \<not> p j) t"
  "snd (run_delete p t) = filter p t"
  by (simp_all add: run_delete_def)

section \<open>Inserting\<close>

lemma insert_skip_append: "insert_skip t rs = (t', ins) \<Longrightarrow> t' = t @ ins"
  by (induction t rs arbitrary: t' ins rule: insert_skip.induct)
    (auto split: if_splits prod.splits)

lemma insert_skip_subset: "insert_skip t rs = (t', ins) \<Longrightarrow> set ins \<subseteq> set rs"
  by (induction t rs arbitrary: t' ins rule: insert_skip.induct)
    (auto split: if_splits prod.splits)

lemma insert_skip_ok:
  "insert_skip t rs = (t', ins) \<Longrightarrow> table_ok t \<Longrightarrow> list_all key_check rs \<Longrightarrow> table_ok t'"
proof (induction t rs arbitrary: t' ins rule: insert_skip.induct)
  case (2 t r rs)
  show ?case
  proof (cases "list_ex (\<lambda>x. conflict x r) t")
    case True
    thus ?thesis using 2 by auto
  next
    case False
    moreover from False have "table_ok (t @ [r])"
      using 2 by (auto simp: table_ok_append table_ok_Cons list_ex_iff)
    ultimately show ?thesis using 2 by (auto split: prod.splits)
  qed
qed auto

lemma insert_skip_all:
  "table_ok (t @ rs) \<Longrightarrow> insert_skip t rs = (t @ rs, rs)"
proof (induction rs arbitrary: t)
  case (Cons r rs)
  hence "table_ok ((t @ [r]) @ rs)" by simp
  hence "insert_skip (t @ [r]) rs = ((t @ [r]) @ rs, rs)" by (rule Cons.IH)
  moreover have "\<not> list_ex (\<lambda>x. conflict x r) t"
    using Cons.prems by (auto simp: table_ok_append list_ex_iff)
  ultimately show ?case by simp
qed simp

text \<open>A row that was skipped was skipped for a reason the table still shows.\<close>

lemma insert_skip_reason:
  assumes "insert_skip t rs = (t', ins)" "r \<in> set rs"
  shows "r \<in> set ins \<or> (\<exists>x\<in>set t'. conflict x r)"
  using assms
proof (induction t rs arbitrary: t' ins rule: insert_skip.induct)
  case (2 t a rs)
  show ?case
  proof (cases "list_ex (\<lambda>x. conflict x a) t")
    case True
    hence eq: "insert_skip t rs = (t', ins)" using "2.prems" by simp
    show ?thesis
    proof (cases "r = a")
      case True
      then obtain x where "x \<in> set t" "conflict x a"
        using \<open>list_ex _ _\<close> by (auto simp: list_ex_iff)
      thus ?thesis using insert_skip_append [OF eq] True by auto
    next
      case False
      thus ?thesis using "2.IH"(1) [OF True eq] "2.prems"(2) by auto
    qed
  next
    case False
    then obtain ins' where eq: "insert_skip (t @ [a]) rs = (t', ins')" and ins: "ins = a # ins'"
      using "2.prems" by (auto split: prod.splits)
    thus ?thesis using "2.IH"(2) [OF False eq] "2.prems"(2) by auto
  qed
qed simp

lemma insert_skip_nil: "insert_skip t [] = (t, [])"
  by simp

lemma insert_skip_one:
  "insert_skip t [r] = (if list_ex (\<lambda>x. conflict x r) t then (t, []) else (t @ [r], [r]))"
  by simp

lemma run_insert_skip_ok:
  "run_insert_skip rs t = Inr (t', ins) \<Longrightarrow> table_ok t \<Longrightarrow> table_ok t'"
  by (auto simp: run_insert_skip_def split: if_splits intro: insert_skip_ok)

section \<open>Statements that only give index entries up\<close>

lemma table_ok_gives_up:
  assumes ok: "table_ok t"
    and up: "\<And>j. j \<in> set t \<Longrightarrow> p j \<Longrightarrow> gives_up j (f j)"
    and chk: "\<And>j. j \<in> set t \<Longrightarrow> p j \<Longrightarrow> key_check j \<Longrightarrow> key_check (f j)"
  shows "table_ok (upd_where p f t)"
proof -
  have "sorted_wrt (\<lambda>a b. \<not> conflict a b) (upd_where p f t)"
  proof (rule sorted_wrt_upd_where)
    show "sorted_wrt (\<lambda>a b. \<not> conflict a b) t" using ok by (simp add: table_ok_def)
    fix x y assume "x \<in> set t" "y \<in> set t" "\<not> conflict x y"
    moreover have "gives_up x (if p x then f x else x)" "gives_up y (if p y then f y else y)"
      using up \<open>x \<in> set t\<close> \<open>y \<in> set t\<close> by auto
    ultimately show "\<not> conflict (if p x then f x else x) (if p y then f y else y)"
      using gives_up_conflict by blast
  qed
  moreover have "list_all key_check (upd_where p f t)"
    using ok chk by (auto simp: list_all_iff set_upd_where table_ok_def)
  ultimately show ?thesis by (simp add: table_ok_def)
qed

locale settling =
  fixes sel :: "job \<Rightarrow> bool"
    and chg :: "job \<Rightarrow> job"
  assumes chg_gives_up: "sel j \<Longrightarrow> gives_up j (chg j)"
    and chg_check: "sel j \<Longrightarrow> key_check j \<Longrightarrow> key_check (chg j)"
begin

text \<open>Such a statement succeeds on every table that keeps its constraints, and the table it leaves
  keeps them; it returns the rows it changed, and a row it did not select stays as it was.\<close>

lemma keeps_ok: "table_ok t \<Longrightarrow> table_ok (upd_where sel chg t)"
  by (rule table_ok_gives_up) (auto intro: chg_gives_up chg_check)

lemma succeeds:
  "table_ok t \<Longrightarrow> run_update sel chg t = Inr (upd_where sel chg t, map chg (filter sel t))"
  by (simp add: run_update_Inr keeps_ok)

lemma keeps_keys: "map job_key (upd_where sel chg t) = map job_key t"
  using chg_gives_up by (intro map_upd_where_same) (auto simp: gives_up_def)

lemma row_after:
  assumes "table_ok t" "run_update sel chg t = Inr (t', rs)" "j \<in> set t"
  shows "(if sel j then chg j else j) \<in> set t'"
  using assms by (auto simp: run_update_Inr set_upd_where)

lemma others_kept:
  assumes "run_update sel chg t = Inr (t', rs)" "j \<in> set t" "\<not> sel j"
  shows "j \<in> set t'"
  using assms by (auto simp: run_update_Inr set_upd_where)

lemma returned_keys:
  assumes "run_update sel chg t = Inr (t', rs)"
  shows "map job_key rs = map job_key (filter sel t)"
  using assms chg_gives_up by (auto simp: run_update_Inr gives_up_def)

end

end
