(* ===== verification/Settle.thy ===== *)
theory Settle
  imports Statements
begin

text \<open>
  The statements that settle a job in place: \<^verbatim>\<open>completeJobs\<close>, \<^verbatim>\<open>completeJobsWithOutputs\<close>,
  \<^verbatim>\<open>cancelJobs\<close>, \<^verbatim>\<open>touchJobs\<close>, \<^verbatim>\<open>resumeJobs\<close>, \<^verbatim>\<open>restoreJobs\<close>, \<^verbatim>\<open>retryJobs\<close> and
  \<^verbatim>\<open>deleteJobsById\<close> of \<^verbatim>\<open>src/src/plans.ts\<close>, the attempt fence that keeps a stale worker off a
  newer attempt, the count of retained jobs, and the calls of \<^verbatim>\<open>src/src/manager.ts\<close> that run them.
\<close>

section \<open>The attempt fence\<close>

definition hex_digit :: "char \<Rightarrow> bool" where
  "hex_digit c = (c \<in> set ''0123456789abcdef'')"

definition uuid_hyphens :: "nat list" where
  "uuid_hyphens = [8, 13, 18, 23]"

definition is_canonical_uuid :: "str \<Rightarrow> bool" where
  "is_canonical_uuid s = (length s = 36 \<and>
     list_all (\<lambda>i. if i \<in> set uuid_hyphens then s ! i = CHR ''-'' else hex_digit (s ! i)) [0..<36])"

definition lower_ascii :: "char \<Rightarrow> char" where
  "lower_ascii c = (if of_char c \<ge> (65::nat) \<and> of_char c \<le> (90::nat)
     then char_of (of_char c + (32::nat)) else c)"

definition uuid_hex :: "str \<Rightarrow> str" where
  "uuid_hex s = map lower_ascii (filter (\<lambda>c. c \<notin> set ''{}-'') s)"

definition hyphenate :: "str \<Rightarrow> str" where
  "hyphenate h = take 8 h @ ''-'' @ take 4 (drop 8 h) @ ''-'' @ take 4 (drop 12 h) @ ''-'' @
     take 4 (drop 16 h) @ ''-'' @ drop 20 h"

definition canonicalUuid :: "str \<Rightarrow> str" where
  "canonicalUuid s = (if is_canonical_uuid s then s
     else if length (uuid_hex s) = 32 \<and> list_all hex_digit (uuid_hex s) then hyphenate (uuid_hex s)
     else s)"

text \<open>\<^verbatim>\<open>attemptPairs\<close> and \<^verbatim>\<open>attemptFence\<close>, on the value an id and a count name.\<close>

definition attemptPairs :: "uuid list \<Rightarrow> int list \<Rightarrow> (uuid \<times> int) list" where
  "attemptPairs ids attempts = zip ids attempts"

definition attemptFence :: "(uuid \<times> int) list option \<Rightarrow> job \<Rightarrow> bool" where
  "attemptFence pairs j = (case pairs of None \<Rightarrow> True
     | Some ps \<Rightarrow> state j = Active \<and> (job_id j, retry_count j) \<in> set ps)"

section \<open>Statements\<close>

definition settled_ids :: "job list \<Rightarrow> nat \<times> uuid list" where
  "settled_ids rs = (length rs, map job_id rs)"

definition complete_sel :: "str \<Rightarrow> uuid list \<Rightarrow> bool \<Rightarrow> (uuid \<times> int) list option \<Rightarrow> job \<Rightarrow> bool" where
  "complete_sel n ids includeQueued fence j = (job_name j = n \<and> job_id j \<in> set ids \<and>
     (if includeQueued then state j < Completed else state j = Active) \<and> attemptFence fence j)"

definition complete_chg :: "json option \<Rightarrow> bool \<Rightarrow> time \<Rightarrow> job \<Rightarrow> job" where
  "complete_chg out includeQueued now j = j\<lparr>
     completed_on := Some now,
     state := Completed,
     job_output := out,
     blocked := (if includeQueued then False else blocked j),
     pending_dependencies := (if includeQueued then 0 else pending_dependencies j)\<rparr>"

definition completeJobs ::
  "str \<Rightarrow> uuid list \<Rightarrow> json option \<Rightarrow> bool \<Rightarrow> (uuid \<times> int) list option \<Rightarrow> time \<Rightarrow> job list \<Rightarrow>
   (nat \<times> uuid list) statement" where
  "completeJobs n ids out includeQueued fence now t = and_then
     (run_update (complete_sel n ids includeQueued fence) (complete_chg out includeQueued now) t)
     (\<lambda>(t', rs). Inr (t', settled_ids rs))"

text \<open>The distributed form is the same update, with the changed ids as its rows.\<close>

definition completeJobsDistributed ::
  "str \<Rightarrow> uuid list \<Rightarrow> json option \<Rightarrow> bool \<Rightarrow> (uuid \<times> int) list option \<Rightarrow> time \<Rightarrow> job list \<Rightarrow>
   uuid list statement" where
  "completeJobsDistributed n ids out includeQueued fence now t = and_then
     (run_update (complete_sel n ids includeQueued fence) (complete_chg out includeQueued now) t)
     (\<lambda>(t', rs). Inr (t', map job_id rs))"

text \<open>Per-job outputs: the rows of the input recordset are (id, retry count, output).\<close>

definition output_row :: "(uuid \<times> int \<times> json option) list \<Rightarrow> job \<Rightarrow> json option option" where
  "output_row inp j = map_option (\<lambda>(_, _, out). out)
     (List.find (\<lambda>(i, c, _). i = job_id j \<and> c = retry_count j) inp)"

definition complete_out_sel :: "str \<Rightarrow> (uuid \<times> int \<times> json option) list \<Rightarrow> job \<Rightarrow> bool" where
  "complete_out_sel n inp j = (job_name j = n \<and> state j = Active \<and> output_row inp j \<noteq> None)"

definition complete_out_chg :: "(uuid \<times> int \<times> json option) list \<Rightarrow> time \<Rightarrow> job \<Rightarrow> job" where
  "complete_out_chg inp now j = j\<lparr>
     completed_on := Some now,
     state := Completed,
     job_output := coalesce (output_row inp j) None\<rparr>"

definition completeJobsWithOutputs ::
  "str \<Rightarrow> (uuid \<times> int \<times> json option) list \<Rightarrow> time \<Rightarrow> job list \<Rightarrow> (nat \<times> uuid list) statement" where
  "completeJobsWithOutputs n inp now t = and_then
     (run_update (complete_out_sel n inp) (complete_out_chg inp now) t)
     (\<lambda>(t', rs). Inr (t', settled_ids rs))"

definition completeJobsWithOutputsDistributed ::
  "str \<Rightarrow> (uuid \<times> int \<times> json option) list \<Rightarrow> time \<Rightarrow> job list \<Rightarrow> uuid list statement" where
  "completeJobsWithOutputsDistributed n inp now t = and_then
     (run_update (complete_out_sel n inp) (complete_out_chg inp now) t)
     (\<lambda>(t', rs). Inr (t', map job_id rs))"

definition cancel_sel :: "str \<Rightarrow> uuid list \<Rightarrow> (uuid \<times> int) list option \<Rightarrow> job \<Rightarrow> bool" where
  "cancel_sel n ids fence j = (job_name j = n \<and> job_id j \<in> set ids \<and> state j < Completed \<and>
     attemptFence fence j)"

definition cancel_chg :: "time \<Rightarrow> job \<Rightarrow> job" where
  "cancel_chg now j = j\<lparr>completed_on := Some now, state := Cancelled\<rparr>"

definition cancelJobs ::
  "str \<Rightarrow> uuid list \<Rightarrow> (uuid \<times> int) list option \<Rightarrow> time \<Rightarrow> job list \<Rightarrow> (nat \<times> uuid list) statement" where
  "cancelJobs n ids fence now t = and_then
     (run_update (cancel_sel n ids fence) (cancel_chg now) t)
     (\<lambda>(t', rs). Inr (t', settled_ids rs))"

definition touch_sel :: "str \<Rightarrow> uuid list \<Rightarrow> (uuid \<times> int) list option \<Rightarrow> job \<Rightarrow> bool" where
  "touch_sel n ids fence j = (job_name j = n \<and> job_id j \<in> set ids \<and> state j = Active \<and>
     attemptFence fence j)"

definition touch_chg :: "time \<Rightarrow> job \<Rightarrow> job" where
  "touch_chg now j = j\<lparr>heartbeat_on := Some now\<rparr>"

definition touchJobs ::
  "str \<Rightarrow> uuid list \<Rightarrow> (uuid \<times> int) list option \<Rightarrow> time \<Rightarrow> job list \<Rightarrow> (nat \<times> uuid list) statement" where
  "touchJobs n ids fence now t = and_then
     (run_update (touch_sel n ids fence) (touch_chg now) t)
     (\<lambda>(t', rs). Inr (t', settled_ids rs))"

text \<open>\<^verbatim>\<open>completed_on <= retained_on\<close>, which is false where either is null.\<close>

definition on_or_before :: "time option \<Rightarrow> time option \<Rightarrow> bool" where
  "on_or_before a b = (case (a, b) of (Some x, Some y) \<Rightarrow> x \<le> y | _ \<Rightarrow> False)"

definition resume_sel :: "str \<Rightarrow> uuid list \<Rightarrow> job \<Rightarrow> bool" where
  "resume_sel n ids j = (job_name j = n \<and> job_id j \<in> set ids \<and> state j = Cancelled)"

definition resume_chg :: "time \<Rightarrow> job \<Rightarrow> job" where
  "resume_chg now j = j\<lparr>
     completed_on := None,
     state := Created,
     upsert_by_key := None,
     start_after := max (start_after j) now\<rparr>"

text \<open>The result is the number of resumed jobs and how many of them \<^verbatim>\<open>retained_count\<close> held, read
  from the \<^verbatim>\<open>completed_on\<close> each had before.\<close>

definition resumeJobs ::
  "str \<Rightarrow> uuid list \<Rightarrow> time option \<Rightarrow> time \<Rightarrow> job list \<Rightarrow> (nat \<times> nat) statement" where
  "resumeJobs n ids retained_on now t = and_then
     (run_update (resume_sel n ids) (resume_chg now) t)
     (\<lambda>(t', rs). Inr (t', (length rs,
        length (filter (\<lambda>j. on_or_before (completed_on j) retained_on) (filter (resume_sel n ids) t)))))"

definition restore_sel :: "str \<Rightarrow> uuid list \<Rightarrow> job \<Rightarrow> bool" where
  "restore_sel n ids j = (job_name j = n \<and> job_id j \<in> set ids)"

definition restore_chg :: "job \<Rightarrow> job" where
  "restore_chg j = j\<lparr>state := Created, started_on := None, heartbeat_on := None,
     upsert_by_key := None\<rparr>"

definition restoreJobs :: "str \<Rightarrow> uuid list \<Rightarrow> job list \<Rightarrow> job list statement" where
  "restoreJobs n ids t = run_update (restore_sel n ids) restore_chg t"

definition retry_sel :: "str \<Rightarrow> uuid list \<Rightarrow> job \<Rightarrow> bool" where
  "retry_sel n ids j = (job_name j = n \<and> job_id j \<in> set ids \<and> state j = Failed)"

definition retry_chg :: "time \<Rightarrow> job \<Rightarrow> job" where
  "retry_chg now j = j\<lparr>state := Retry, retry_limit := retry_limit j + 1, completed_on := None,
     start_after := max (start_after j) now\<rparr>"

definition retryJobs :: "str \<Rightarrow> uuid list \<Rightarrow> time \<Rightarrow> job list \<Rightarrow> nat statement" where
  "retryJobs n ids now t = and_then (run_update (retry_sel n ids) (retry_chg now) t)
     (\<lambda>(t', rs). Inr (t', length rs))"

definition delete_sel :: "str \<Rightarrow> uuid list \<Rightarrow> (uuid \<times> int) list option \<Rightarrow> job \<Rightarrow> bool" where
  "delete_sel n ids fence j = (job_name j = n \<and> job_id j \<in> set ids \<and> attemptFence fence j)"

definition deleteJobsById ::
  "str \<Rightarrow> uuid list \<Rightarrow> (uuid \<times> int) list option \<Rightarrow> time option \<Rightarrow> job list \<Rightarrow>
   job list \<times> nat \<times> uuid list \<times> nat" where
  "deleteJobsById n ids fence retained_on t = (let (t', rs) = run_delete (delete_sel n ids fence) t in
     (t', length rs, map job_id rs, length (filter (\<lambda>j. retained_state (state j) \<and>
        on_or_before (completed_on j) retained_on) rs)))"

definition getActiveGroupCounts :: "str \<Rightarrow> str list \<Rightarrow> job list \<Rightarrow> (str \<times> nat) list" where
  "getActiveGroupCounts n groups t = filter (\<lambda>(_, c). c > 0)
     (map (\<lambda>g. (g, length (filter (\<lambda>j. job_name j = n \<and> state j = Active \<and> group_id j = Some g) t)))
       (remdups groups))"

definition reduceRetainedCount :: "str \<Rightarrow> nat \<Rightarrow> nat \<Rightarrow> queue list \<Rightarrow> queue list" where
  "reduceRetainedCount n k removed qs = upd_where (\<lambda>q. q_name q = n)
     (\<lambda>q. q\<lparr>q_retained_count := map_option (\<lambda>c. max (c - int k) 0) (q_retained_count q),
            q_total_count := max (q_total_count q - int removed) 0\<rparr>) qs"

section \<open>The statements give index entries up\<close>

lemma settled_gives_up:
  assumes "state j < Completed" "s = Completed \<or> s = Cancelled"
    and "j' = j\<lparr>completed_on := c, state := s, job_output := out, blocked := b,
      pending_dependencies := p\<rparr>"
  shows "gives_up j j'"
  unfolding gives_up_def entry_le_def
  using assms by (auto simp: job_key_def index_defs skey_def split: option.splits)

interpretation complete: settling "complete_sel n ids q fence" "complete_chg out q now"
  for n ids q fence out now
proof
  fix j assume "complete_sel n ids q fence j"
  hence "state j < Completed" by (auto simp: complete_sel_def split: if_splits)
  thus "gives_up j (complete_chg out q now j)"
    by (rule settled_gives_up [where s = Completed]) (auto simp: complete_chg_def)
qed (simp add: complete_chg_def key_check_def)

interpretation complete_out: settling "complete_out_sel n inp" "complete_out_chg inp now"
  for n inp now
proof
  fix j assume "complete_out_sel n inp j"
  hence "state j < Completed" by (simp add: complete_out_sel_def)
  moreover have "complete_out_chg inp now j = j\<lparr>completed_on := Some now, state := Completed,
      job_output := coalesce (output_row inp j) None, blocked := blocked j,
      pending_dependencies := pending_dependencies j\<rparr>"
    by (simp add: complete_out_chg_def)
  ultimately show "gives_up j (complete_out_chg inp now j)"
    using settled_gives_up by blast
qed (simp add: complete_out_chg_def key_check_def)

interpretation cancel: settling "cancel_sel n ids fence" "cancel_chg now" for n ids fence now
proof
  fix j assume "cancel_sel n ids fence j"
  hence "state j < Completed" by (simp add: cancel_sel_def)
  moreover have "cancel_chg now j = j\<lparr>completed_on := Some now, state := Cancelled,
      job_output := job_output j, blocked := blocked j,
      pending_dependencies := pending_dependencies j\<rparr>"
    by (simp add: cancel_chg_def)
  ultimately show "gives_up j (cancel_chg now j)"
    using settled_gives_up by blast
qed (simp add: cancel_chg_def key_check_def)

interpretation touch: settling "touch_sel n ids fence" "touch_chg now" for n ids fence now
  by standard (auto simp: touch_chg_def gives_up_def entry_le_def job_key_def index_defs skey_def
      key_check_def split: option.splits)

lemma completeJobs_eq:
  assumes "table_ok t"
  shows "completeJobs n ids out q fence now t =
    Inr (upd_where (complete_sel n ids q fence) (complete_chg out q now) t,
         settled_ids (filter (complete_sel n ids q fence) t))"
  unfolding completeJobs_def complete.succeeds [OF assms]
  by (simp add: settled_ids_def complete_chg_def)

lemma cancelJobs_eq:
  assumes "table_ok t"
  shows "cancelJobs n ids fence now t =
    Inr (upd_where (cancel_sel n ids fence) (cancel_chg now) t,
         settled_ids (filter (cancel_sel n ids fence) t))"
  unfolding cancelJobs_def cancel.succeeds [OF assms]
  by (simp add: settled_ids_def cancel_chg_def)

lemma touchJobs_eq:
  assumes "table_ok t"
  shows "touchJobs n ids fence now t =
    Inr (upd_where (touch_sel n ids fence) (touch_chg now) t,
         settled_ids (filter (touch_sel n ids fence) t))"
  unfolding touchJobs_def touch.succeeds [OF assms]
  by (simp add: settled_ids_def touch_chg_def)

lemma completeJobsWithOutputs_eq:
  assumes "table_ok t"
  shows "completeJobsWithOutputs n inp now t =
    Inr (upd_where (complete_out_sel n inp) (complete_out_chg inp now) t,
         settled_ids (filter (complete_out_sel n inp) t))"
  unfolding completeJobsWithOutputs_def complete_out.succeeds [OF assms]
  by (simp add: settled_ids_def complete_out_chg_def)

lemma deleteJobsById_eq:
  "deleteJobsById n ids fence r t =
    (filter (\<lambda>j. \<not> delete_sel n ids fence j) t, length (filter (delete_sel n ids fence) t),
     map job_id (filter (delete_sel n ids fence) t),
     length (filter (\<lambda>j. retained_state (state j) \<and> on_or_before (completed_on j) r)
       (filter (delete_sel n ids fence) t)))"
  by (simp add: deleteJobsById_def run_delete_def)

text \<open>A second settle finds nothing left to do.\<close>

lemma upd_where_twice:
  "(\<And>j. j \<in> set t \<Longrightarrow> p j \<Longrightarrow> \<not> q (f j)) \<Longrightarrow> (\<And>j. j \<in> set t \<Longrightarrow> q j \<Longrightarrow> p j) \<Longrightarrow>
    filter q (upd_where p f t) = []"
  by (auto simp: filter_empty_conv set_upd_where)

lemma complete_settles: "complete_sel n ids q fence j \<Longrightarrow> \<not> complete_sel n ids q fence' (complete_chg out q' now j)"
  by (auto simp: complete_sel_def complete_chg_def)


section \<open>The calls of the manager\<close>

text \<open>The id argument of \<^verbatim>\<open>complete()\<close>, \<^verbatim>\<open>fail()\<close>, \<^verbatim>\<open>cancel()\<close>, \<^verbatim>\<open>touch()\<close> and
  \<^verbatim>\<open>deleteJob()\<close>: plain ids, or jobs with the attempt they were fetched at.  An item that is
  neither is refused, as is a mix.\<close>

datatype id_item = PlainId uuid | Attempt uuid int | OtherItem

datatype manager_error =
    RequiresId
  | MixedItems
  | SqlError sql_error

fun plain_ids :: "id_item list \<Rightarrow> uuid list option" where
  "plain_ids [] = Some []"
| "plain_ids (PlainId i # xs) = map_option (\<lambda>is. i # is) (plain_ids xs)"
| "plain_ids (_ # xs) = None"

fun attempt_items :: "id_item list \<Rightarrow> (uuid \<times> int) list option" where
  "attempt_items [] = Some []"
| "attempt_items (Attempt i c # xs) =
     (if 0 \<le> c then map_option (\<lambda>is. (i, c) # is) (attempt_items xs) else None)"
| "attempt_items (_ # xs) = None"

definition mapAttemptArg :: "id_item list \<Rightarrow> manager_error + (uuid list \<times> int list option)" where
  "mapAttemptArg items = (if items = [] then Inl RequiresId
     else case plain_ids items of Some ids \<Rightarrow> Inr (ids, None)
       | None \<Rightarrow> (case attempt_items items of Some ps \<Rightarrow> Inr (map fst ps, Some (map snd ps))
           | None \<Rightarrow> Inl MixedItems))"

definition mapCompletionIdArg :: "uuid list \<Rightarrow> manager_error + uuid list" where
  "mapCompletionIdArg ids = (if ids = [] then Inl RequiresId else Inr ids)"

text \<open>\<^verbatim>\<open>mapCompletionDataArg\<close>: the output a settle stores.  \<^verbatim>\<open>undefined\<close>, \<^verbatim>\<open>null\<close> and a function
  are no output; an object is stored as it is, anything else under \<^verbatim>\<open>value\<close>.\<close>

definition mapCompletionDataArg :: "json option \<Rightarrow> json option" where
  "mapCompletionDataArg d = (case d of None \<Rightarrow> None
     | Some JNull \<Rightarrow> None
     | Some (JObj o') \<Rightarrow> Some (JObj o')
     | Some v \<Rightarrow> Some (JObj [(''value'', v)]))"

record command_response =
  cr_jobs :: "uuid list"
  cr_requested :: nat
  cr_affected :: nat
  cr_settled :: "uuid list option"

definition mapCommandResponse :: "uuid list \<Rightarrow> nat \<Rightarrow> uuid list option \<Rightarrow> command_response" where
  "mapCommandResponse ids k settled = \<lparr>cr_jobs = ids, cr_requested = length ids,
     cr_affected = k, cr_settled = settled\<rparr>"

definition lift_sql :: "sql_error + 'a \<Rightarrow> manager_error + 'a" where
  "lift_sql r = (case r of Inl e \<Rightarrow> Inl (SqlError e) | Inr x \<Rightarrow> Inr x)"

lemma lift_sql_simps [simp]:
  "lift_sql (Inl e) = Inl (SqlError e)" "lift_sql (Inr x) = Inr x"
  by (simp_all add: lift_sql_def)

text \<open>The fence of a call: the attempts the items carry, or those of the transactional handler the
  call runs in (\<^verbatim>\<open>#handlerAttempts\<close>), which is a parameter here.\<close>

definition fence_of :: "(uuid list \<Rightarrow> int list option) \<Rightarrow> uuid list \<Rightarrow> int list option \<Rightarrow>
    (uuid \<times> int) list option" where
  "fence_of handler ids fetched =
     map_option (attemptPairs ids) (coalesce_opt fetched (handler ids))"

definition completeDistributed ::
  "str \<Rightarrow> uuid list \<Rightarrow> json option \<Rightarrow> bool \<Rightarrow> (uuid \<times> int) list option \<Rightarrow> time \<Rightarrow> job list \<Rightarrow>
   manager_error + (job list \<times> command_response)" where
  "completeDistributed n ids out includeQueued fence now t = and_then
     (lift_sql (completeJobsDistributed n ids out includeQueued fence now t))
     (\<lambda>(t', settled). Inr (t', mapCommandResponse ids (length settled) (Some settled)))"

definition complete ::
  "bool \<Rightarrow> (uuid list \<Rightarrow> int list option) \<Rightarrow> str \<Rightarrow> id_item list \<Rightarrow> json option \<Rightarrow> bool \<Rightarrow> time \<Rightarrow>
   job list \<Rightarrow> manager_error + (job list \<times> command_response)" where
  "complete noMultiMutationCte handler n items data includeQueued now t =
     and_then (mapAttemptArg items) (\<lambda>(ids, fetched).
       let fence = fence_of handler ids fetched; out = mapCompletionDataArg data in
       if noMultiMutationCte then completeDistributed n ids out includeQueued fence now t
       else and_then (lift_sql (completeJobs n ids out includeQueued fence now t))
         (\<lambda>(t', k, settled). Inr (t', mapCommandResponse ids k (Some settled))))"

definition cancel ::
  "(uuid list \<Rightarrow> int list option) \<Rightarrow> str \<Rightarrow> id_item list \<Rightarrow> time \<Rightarrow> job list \<Rightarrow>
   manager_error + (job list \<times> command_response)" where
  "cancel handler n items now t = and_then (mapAttemptArg items) (\<lambda>(ids, fetched).
     and_then (lift_sql (cancelJobs n ids (fence_of handler ids fetched) now t))
       (\<lambda>(t', k, settled). Inr (t', mapCommandResponse ids k (Some settled))))"

definition touch ::
  "str \<Rightarrow> id_item list \<Rightarrow> time \<Rightarrow> job list \<Rightarrow> manager_error + (job list \<times> command_response)" where
  "touch n items now t = and_then (mapAttemptArg items) (\<lambda>(ids, fetched).
     and_then (lift_sql (touchJobs n ids (map_option (attemptPairs ids) fetched) now t))
       (\<lambda>(t', k, settled). Inr (t', mapCommandResponse ids k (Some settled))))"

text \<open>\<^verbatim>\<open>retained_on\<close> of the queue, for the statements that read it.\<close>

definition retained_on_of :: "str \<Rightarrow> queue list \<Rightarrow> time option" where
  "retained_on_of n qs = (case filter (\<lambda>q. q_name q = n) qs of [] \<Rightarrow> None
     | q # _ \<Rightarrow> q_retained_on q)"

definition reduceRetained :: "bool \<Rightarrow> str \<Rightarrow> nat \<Rightarrow> bool \<Rightarrow> queue list \<Rightarrow> queue list" where
  "reduceRetained callerDb n retained deleted qs =
     (if retained > 0 \<and> \<not> callerDb
      then reduceRetainedCount n retained (if deleted then retained else 0) qs else qs)"

definition deleteJob ::
  "bool \<Rightarrow> (uuid list \<Rightarrow> int list option) \<Rightarrow> str \<Rightarrow> id_item list \<Rightarrow> job list \<Rightarrow> queue list \<Rightarrow>
   manager_error + (job list \<times> queue list \<times> command_response)" where
  "deleteJob callerDb handler n items t qs = and_then (mapAttemptArg items) (\<lambda>(ids, fetched).
     let (t', k, settled, retained) =
           deleteJobsById n ids (fence_of handler ids fetched) (retained_on_of n qs) t
     in Inr (t', reduceRetained callerDb n retained True qs,
             mapCommandResponse ids k (Some settled)))"

definition resume ::
  "bool \<Rightarrow> str \<Rightarrow> uuid list \<Rightarrow> time \<Rightarrow> job list \<Rightarrow> queue list \<Rightarrow>
   manager_error + (job list \<times> queue list \<times> command_response)" where
  "resume callerDb n ids now t qs = and_then (mapCompletionIdArg ids) (\<lambda>ids.
     and_then (lift_sql (resumeJobs n ids (retained_on_of n qs) now t)) (\<lambda>(t', k, retained).
       Inr (t', reduceRetained callerDb n retained False qs, mapCommandResponse ids k None)))"

definition restore :: "str \<Rightarrow> uuid list \<Rightarrow> job list \<Rightarrow> manager_error + job list" where
  "restore n ids t = and_then (mapCompletionIdArg ids) (\<lambda>ids.
     and_then (lift_sql (restoreJobs n ids t)) (\<lambda>(t', _). Inr t'))"

definition retry ::
  "str \<Rightarrow> uuid list \<Rightarrow> time \<Rightarrow> job list \<Rightarrow> manager_error + (job list \<times> command_response)" where
  "retry n ids now t = and_then (mapCompletionIdArg ids) (\<lambda>ids.
     and_then (lift_sql (retryJobs n ids now t))
       (\<lambda>(t', k). Inr (t', mapCommandResponse ids k None)))"

end
