(* ===== verification/Insert.thy ===== *)
theory Insert
  imports Settle
begin

text \<open>
  Creating and editing waiting jobs: the insert of \<^verbatim>\<open>src/src/plans.ts\<close> (\<^verbatim>\<open>insertJobs\<close>), its
  throttle slots, its notification, the in-place edit \<^verbatim>\<open>updateJob\<close>, and the calls of
  \<^verbatim>\<open>src/src/manager.ts\<close> that run them: \<^verbatim>\<open>send()\<close> with its debounce, \<^verbatim>\<open>insert()\<close>, \<^verbatim>\<open>update()\<close>
  and \<^verbatim>\<open>upsert()\<close>.

  The casts of a start time (\<^verbatim>\<open>text\<close> to \<^verbatim>\<open>timestamptz\<close> or \<^verbatim>\<open>interval\<close>) are PostgreSQL's: they
  are a parameter of the model, the record \<^verbatim>\<open>casts\<close>, and fail where the cast does.
\<close>

datatype insert_error =
    InsertSql sql_error
  | InvalidDateTime str
  | InvalidInterval str
  | QueueMissing str
  | RequiresSingletonKey
  | DuplicateId uuid
  | InvalidGroup

record casts =
  cast_timestamptz :: "str \<Rightarrow> time option"
  cast_interval :: "str \<Rightarrow> int option"

definition is_digit :: "char \<Rightarrow> bool" where
  "is_digit c = (c \<in> set ''0123456789'')"

text \<open>\<^verbatim>\<open>right(s, 1) = 'Z' OR s ~ '^[0-9]{4}-[0-9]{2}-[0-9]{2}'\<close>.\<close>

definition isDateTimeString :: "str \<Rightarrow> bool" where
  "isDateTimeString s = ((s \<noteq> [] \<and> last s = CHR ''Z'') \<or>
     (length s \<ge> 10 \<and> list_all (\<lambda>i. is_digit (s ! i)) [0, 1, 2, 3, 5, 6, 8, 9] \<and>
      s ! 4 = CHR ''-'' \<and> s ! 7 = CHR ''-''))"

definition resolve_start_after :: "casts \<Rightarrow> time \<Rightarrow> str option \<Rightarrow> insert_error + time" where
  "resolve_start_after c now sa = (case sa of
       None \<Rightarrow> (case cast_interval c ''0'' of None \<Rightarrow> Inl (InvalidInterval ''0'') | Some d \<Rightarrow> Inr (now + d))
     | Some s \<Rightarrow> if isDateTimeString s
         then (case cast_timestamptz c s of None \<Rightarrow> Inl (InvalidDateTime s) | Some x \<Rightarrow> Inr x)
         else (case cast_interval c s of None \<Rightarrow> Inl (InvalidInterval s) | Some d \<Rightarrow> Inr (now + d)))"

text \<open>One element of the recordset a caller's jobs are passed as.  An absent key is \<^verbatim>\<open>None\<close>.\<close>

record job_input =
  in_id :: "uuid option"
  in_priority :: "int option"
  in_data :: "json option"
  in_start_after :: "str option"
  in_retry_limit :: "int option"
  in_retry_delay :: "int option"
  in_retry_delay_max :: "int option"
  in_retry_backoff :: "bool option"
  in_singleton_key :: "str option"
  in_singleton_seconds :: "int option"
  in_singleton_offset :: "int option"
  in_singleton_slot :: "time option"
  in_group_id :: "str option"
  in_group_tier :: "str option"
  in_expire_seconds :: "int option"
  in_delete_after_seconds :: "int option"
  in_retention_seconds :: "int option"
  in_dead_letter :: "str option"
  in_heartbeat_seconds :: "int option"
  in_blocked :: "bool option"
  in_blocking :: "bool option"
  in_pending_dependencies :: "int option"
  in_trace_context :: "json option"

definition empty_input :: job_input where
  "empty_input = \<lparr>in_id = None, in_priority = None, in_data = None, in_start_after = None,
     in_retry_limit = None, in_retry_delay = None, in_retry_delay_max = None,
     in_retry_backoff = None, in_singleton_key = None, in_singleton_seconds = None,
     in_singleton_offset = None, in_singleton_slot = None, in_group_id = None, in_group_tier = None,
     in_expire_seconds = None, in_delete_after_seconds = None, in_retention_seconds = None,
     in_dead_letter = None, in_heartbeat_seconds = None, in_blocked = None, in_blocking = None,
     in_pending_dependencies = None, in_trace_context = None\<rparr>"

text \<open>The start of the throttle slot \<^verbatim>\<open>now\<close> plus the offset falls in, in slots of \<^verbatim>\<open>secs\<close> seconds
  counted from the epoch.\<close>

definition throttle_slot_on :: "int \<Rightarrow> int \<Rightarrow> time \<Rightarrow> time" where
  "throttle_slot_on secs offset now = secs * second * ((now + offset * second) div (secs * second))"

definition singleton_on_of :: "bool \<Rightarrow> time \<Rightarrow> job_input \<Rightarrow> insert_error + time option" where
  "singleton_on_of slots now i = (
     case (if slots then in_singleton_slot i else None) of Some s \<Rightarrow> Inr (Some s)
     | None \<Rightarrow> (case in_singleton_seconds i of None \<Rightarrow> Inr None
         | Some secs \<Rightarrow> if secs = 0 then Inl (InsertSql DivisionByZero)
             else Inr (Some (throttle_slot_on secs (coalesce (in_singleton_offset i) 0) now))))"

text \<open>The row of one element.  The queue is left-joined: its columns are null when it is missing.\<close>

definition insert_row ::
  "casts \<Rightarrow> queue option \<Rightarrow> str \<Rightarrow> bool \<Rightarrow> bool \<Rightarrow> time \<Rightarrow> uuid \<Rightarrow> job_input \<Rightarrow> insert_error + job" where
  "insert_row c q n slots upsertByKey now gen i =
     and_then (resolve_start_after c now (in_start_after i)) (\<lambda>sa.
     and_then (singleton_on_of slots now i) (\<lambda>son.
     Inr ((job_defaults (coalesce (in_id i) gen) n now)\<lparr>
       job_data := in_data i,
       priority := coalesce (in_priority i) 0,
       start_after := sa,
       created_on := now,
       singleton_key := in_singleton_key i,
       singleton_on := son,
       group_id := in_group_id i,
       group_tier := in_group_tier i,
       expire_seconds := coalesce (coalesce_opt (in_expire_seconds i) (map_option q_expire_seconds q)) (60 * 15),
       deletion_seconds := coalesce (coalesce_opt (in_delete_after_seconds i)
         (map_option q_deletion_seconds q)) (60 * 60 * 24 * 7),
       keep_until := sa + coalesce (coalesce_opt (in_retention_seconds i)
         (map_option q_retention_seconds q)) (60 * 60 * 24 * 14) * second,
       retry_limit := coalesce (coalesce_opt (in_retry_limit i) (map_option q_retry_limit q)) 2,
       retry_delay := coalesce (coalesce_opt (in_retry_delay i) (map_option q_retry_delay q)) 0,
       retry_backoff := coalesce (coalesce_opt (in_retry_backoff i) (map_option q_retry_backoff q)) False,
       retry_delay_max := coalesce_opt (in_retry_delay_max i)
         (case q of None \<Rightarrow> None | Some q \<Rightarrow> q_retry_delay_max q),
       policy := map_option q_policy q,
       dead_letter := coalesce_opt (in_dead_letter i) (case q of None \<Rightarrow> None | Some q \<Rightarrow> q_dead_letter q),
       heartbeat_seconds := coalesce_opt (in_heartbeat_seconds i)
         (case q of None \<Rightarrow> None | Some q \<Rightarrow> q_heartbeat_seconds q),
       blocked := coalesce (in_blocked i) False,
       blocking := coalesce (in_blocking i) False,
       pending_dependencies := coalesce (in_pending_dependencies i) 0,
       trace_context := in_trace_context i,
       upsert_by_key := (if upsertByKey then Some True else None)\<rparr>)))"

fun map_ok :: "('a \<Rightarrow> 'e + 'b) \<Rightarrow> 'a list \<Rightarrow> 'e + 'b list" where
  "map_ok f [] = Inr []"
| "map_ok f (x # xs) = and_then (f x) (\<lambda>y. and_then (map_ok f xs) (\<lambda>ys. Inr (y # ys)))"

definition find_queue :: "str \<Rightarrow> queue list \<Rightarrow> queue option" where
  "find_queue n qs = List.find (\<lambda>q. q_name q = n) qs"

text \<open>\<^verbatim>\<open>q_fkey\<close> and \<^verbatim>\<open>dlq_fkey\<close>, which are checked when the insert commits.\<close>

definition fkeys_ok :: "queue list \<Rightarrow> job list \<Rightarrow> bool" where
  "fkeys_ok qs rows = list_all (\<lambda>j. job_name j \<in> q_name ` set qs \<and>
     (case dead_letter j of None \<Rightarrow> True | Some d \<Rightarrow> d \<in> q_name ` set qs)) rows"

record insert_options =
  io_notify :: bool
  io_slots :: bool
  io_upsert_by_key :: bool

definition plain_insert :: insert_options where
  "plain_insert = \<lparr>io_notify = False, io_slots = False, io_upsert_by_key = False\<rparr>"

text \<open>The statement: the rows, \<^verbatim>\<open>ON CONFLICT DO NOTHING\<close>, and whether it notifies, which it does
  when a row it inserted is due at once.  \<^verbatim>\<open>gen\<close> gives the new id of the element at a position.\<close>

definition insertJobs ::
  "casts \<Rightarrow> queue list \<Rightarrow> insert_options \<Rightarrow> str \<Rightarrow> time \<Rightarrow> (nat \<Rightarrow> uuid) \<Rightarrow> job_input list \<Rightarrow> job list \<Rightarrow>
   insert_error + (job list \<times> job list \<times> bool)" where
  "insertJobs c qs io n now gen inputs t =
     and_then (map_ok (\<lambda>(k, i). insert_row c (find_queue n qs) n (io_slots io) (io_upsert_by_key io) now (gen k) i)
         (zip [0..<length inputs] inputs)) (\<lambda>rows.
     case run_insert_skip rows t of Inl e \<Rightarrow> Inl (InsertSql e)
     | Inr (t', ins) \<Rightarrow> if fkeys_ok qs ins
         then Inr (t', ins, io_notify io \<and> list_ex (\<lambda>j. start_after j \<le> now) ins)
         else Inl (InsertSql ForeignKeyViolation))"

section \<open>Sending\<close>

definition getDebounceStartAfter :: "int \<Rightarrow> int \<Rightarrow> int" where
  "getDebounceStartAfter singletonSeconds now_ms = (
     let interval = singletonSeconds * 1000;
         slot = (now_ms div interval) * interval;
         rest = singletonSeconds - (now_ms - slot) div 1000;
         startAfter = (if rest = 0 then 1 else rest)
     in if singletonSeconds > 1 then startAfter + 1 else startAfter)"

text \<open>Decimal text of a number, as a template string writes it.\<close>

fun digits_of :: "nat \<Rightarrow> nat \<Rightarrow> str" where
  "digits_of 0 n = []"
| "digits_of (Suc f) n = (if n < 10 then [char_of (48 + n)]
     else digits_of f (n div 10) @ [char_of (48 + n mod 10)])"

definition show_nat :: "nat \<Rightarrow> str" where
  "show_nat n = digits_of (Suc n) n"

definition show_int :: "int \<Rightarrow> str" where
  "show_int i = (if i < 0 then CHR ''-'' # show_nat (nat (- i)) else show_nat (nat i))"

definition truthy_str :: "str option \<Rightarrow> bool" where
  "truthy_str s = (case s of None \<Rightarrow> False | Some x \<Rightarrow> x \<noteq> [])"

definition requires_key :: "queue \<Rightarrow> str option \<Rightarrow> bool" where
  "requires_key q key = (q_policy q = KeyStrictFifo \<and> \<not> truthy_str key)"

text \<open>\<^verbatim>\<open>#notifyEnabled\<close>.\<close>

definition notifyEnabled :: "bool \<Rightarrow> queue \<Rightarrow> bool" where
  "notifyEnabled noListenNotify q = (q_notify q \<and> \<not> noListenNotify)"

text \<open>\<^verbatim>\<open>#createJob\<close>, for the queue the cache answers with (\<^verbatim>\<open>q\<close>): the insert, and, for a debounced
  send that found its slot taken, one more insert into the next slot.  The result is the new id, or
  nothing when the job was deduplicated.\<close>

definition createJob ::
  "casts \<Rightarrow> bool \<Rightarrow> queue list \<Rightarrow> queue \<Rightarrow> time \<Rightarrow> int \<Rightarrow> (nat \<Rightarrow> uuid) \<Rightarrow> (nat \<Rightarrow> uuid) \<Rightarrow> job_input \<Rightarrow> bool \<Rightarrow>
   job list \<Rightarrow> insert_error + (job list \<times> uuid option \<times> bool)" where
  "createJob c noListenNotify qs q now now_ms gen1 gen2 i singletonNextSlot t = (
     if requires_key q (in_singleton_key i) then Inl RequiresSingletonKey
     else let io = plain_insert\<lparr>io_notify := notifyEnabled noListenNotify q\<rparr>;
              job = i\<lparr>in_singleton_offset := Some 0\<rparr> in
     and_then (insertJobs c qs io (q_name q) now gen1 [job] t) (\<lambda>(t1, try1, notified1).
       case try1 of [r] \<Rightarrow> Inr (t1, Some (job_id r), notified1)
       | _ \<Rightarrow> if singletonNextSlot
           then let secs = coalesce (in_singleton_seconds i) 0;
                    next_job = job\<lparr>in_start_after := Some (show_int (getDebounceStartAfter secs now_ms)),
                                   in_singleton_offset := Some secs\<rparr> in
             and_then (insertJobs c qs io (q_name q) now gen2 [next_job] t1) (\<lambda>(t2, try2, notified2).
               case try2 of [r] \<Rightarrow> Inr (t2, Some (job_id r), notified1 \<or> notified2)
               | _ \<Rightarrow> Inr (t2, None, notified1 \<or> notified2))
           else Inr (t1, None, notified1)))"

text \<open>\<^verbatim>\<open>#insert\<close>: a batch, refused whole when it names an id twice or holds an invalid group, or when
  a strict FIFO job has no key.  The flow columns a caller passes are dropped, and the throttle slot
  is kept only for the caller that asked for it.\<close>

fun duplicate_id :: "uuid list \<Rightarrow> uuid option" where
  "duplicate_id [] = None"
| "duplicate_id (x # xs) = (if x \<in> set xs then Some x else duplicate_id xs)"

record batch_job =
  bj_input :: job_input
  bj_group :: "(str \<times> str option) option"

definition group_valid :: "(str \<times> str option) option \<Rightarrow> bool" where
  "group_valid g = (case g of None \<Rightarrow> True
     | Some (i, tier) \<Rightarrow> i \<noteq> [] \<and> (case tier of None \<Rightarrow> True | Some x \<Rightarrow> x \<noteq> []))"

definition insert_payload :: "bool \<Rightarrow> json option \<Rightarrow> batch_job \<Rightarrow> job_input" where
  "insert_payload slots trace b = (let i = bj_input b in
     (case bj_group b of None \<Rightarrow> i
      | Some (g, tier) \<Rightarrow> i\<lparr>in_group_id := Some g, in_group_tier := tier\<rparr>)
     \<lparr>in_blocked := None, in_blocking := None, in_pending_dependencies := None,
      in_trace_context := trace,
      in_singleton_slot := (if slots then in_singleton_slot i else None)\<rparr>)"

definition insert_batch ::
  "casts \<Rightarrow> bool \<Rightarrow> queue list \<Rightarrow> queue \<Rightarrow> bool \<Rightarrow> json option \<Rightarrow> time \<Rightarrow> (nat \<Rightarrow> uuid) \<Rightarrow> batch_job list \<Rightarrow>
   job list \<Rightarrow> insert_error + (job list \<times> uuid list \<times> bool)" where
  "insert_batch c noListenNotify qs q slots trace now gen jobs t = (
     case duplicate_id (concat (map (\<lambda>b. case in_id (bj_input b) of None \<Rightarrow> [] | Some i \<Rightarrow> [i]) jobs)) of
       Some i \<Rightarrow> Inl (DuplicateId i)
     | None \<Rightarrow> if \<not> list_all (\<lambda>b. group_valid (bj_group b)) jobs then Inl InvalidGroup
         else if list_ex (\<lambda>b. requires_key q (in_singleton_key (bj_input b))) jobs
         then Inl RequiresSingletonKey
         else and_then (insertJobs c qs (plain_insert\<lparr>io_notify := notifyEnabled noListenNotify q,
                                                      io_slots := slots\<rparr>)
                 (q_name q) now gen (map (insert_payload slots trace) jobs) t)
           (\<lambda>(t', rows, notified). Inr (t', map job_id rows, notified)))"

section \<open>Editing\<close>

text \<open>The payload of an edit: only the keys the caller supplied are present.  A key may be present and
  null, which clears the column where the statement tests for the key.\<close>

record job_edit =
  ed_data :: "json option"
  ed_priority :: "int option"
  ed_start_after :: "str option"
  ed_retention_seconds :: "int option"
  ed_expire_seconds :: "int option"
  ed_delete_after_seconds :: "int option"
  ed_retry_limit :: "int option"
  ed_retry_delay :: "int option"
  ed_retry_backoff :: "bool option"
  ed_retry_delay_max :: "int option option"
  ed_dead_letter :: "str option option"
  ed_heartbeat_seconds :: "int option option"
  ed_group_id :: "str option option"
  ed_group_tier :: "str option option"

datatype edit_target = ById uuid | ByKey str

datatype match_strategy = Newest | Oldest | MatchAll

definition target_matches :: "edit_target \<Rightarrow> job \<Rightarrow> bool" where
  "target_matches tgt j = (case tgt of ById i \<Rightarrow> job_id j = i | ByKey k \<Rightarrow> singleton_key j = Some k)"

text \<open>The \<^verbatim>\<open>target\<close> CTE: the waiting jobs that match, all of them or, by key, the newest or the
  oldest.  Jobs of one creation time keep their heap order.\<close>

definition edit_targets :: "str \<Rightarrow> edit_target \<Rightarrow> match_strategy \<Rightarrow> job list \<Rightarrow> uuid list" where
  "edit_targets n tgt m t = (
     let ms = filter (\<lambda>j. job_name j = n \<and> state j < Active \<and> target_matches tgt j) t in
     map job_id (case (tgt, m) of
         (ByKey _, Newest) \<Rightarrow> take 1 (sort_key (\<lambda>j. - created_on j) ms)
       | (ByKey _, Oldest) \<Rightarrow> take 1 (sort_key created_on ms)
       | _ \<Rightarrow> ms))"

definition edit_row :: "job_edit \<Rightarrow> time option \<Rightarrow> job \<Rightarrow> job" where
  "edit_row e start j = (let sa = coalesce start (start_after j) in j\<lparr>
     job_data := (case ed_data e of None \<Rightarrow> job_data j | Some d \<Rightarrow> Some d),
     priority := coalesce (ed_priority e) (priority j),
     start_after := sa,
     keep_until := (case ed_retention_seconds e of Some r \<Rightarrow> sa + r * second
        | None \<Rightarrow> if ed_start_after e \<noteq> None then sa + (keep_until j - start_after j) else keep_until j),
     expire_seconds := coalesce (ed_expire_seconds e) (expire_seconds j),
     deletion_seconds := coalesce (ed_delete_after_seconds e) (deletion_seconds j),
     retry_limit := coalesce (ed_retry_limit e) (retry_limit j),
     retry_delay := coalesce (ed_retry_delay e) (retry_delay j),
     retry_backoff := coalesce (ed_retry_backoff e) (retry_backoff j),
     retry_delay_max := coalesce (ed_retry_delay_max e) (retry_delay_max j),
     dead_letter := coalesce (ed_dead_letter e) (dead_letter j),
     heartbeat_seconds := coalesce (ed_heartbeat_seconds e) (heartbeat_seconds j),
     group_id := coalesce (ed_group_id e) (group_id j),
     group_tier := coalesce (ed_group_tier e) (group_tier j)\<rparr>)"

definition edit_start :: "casts \<Rightarrow> time \<Rightarrow> job_edit \<Rightarrow> insert_error + time option" where
  "edit_start c now e = (case ed_start_after e of None \<Rightarrow> Inr None
     | Some s \<Rightarrow> and_then (resolve_start_after c now (Some s)) (\<lambda>x. Inr (Some x)))"

text \<open>The physical table of a queue; the queues that are not partitioned share one.\<close>

definition table_of :: "queue list \<Rightarrow> str \<Rightarrow> str option" where
  "table_of qs n = map_option q_table_name (find_queue n qs)"

text \<open>The statement's \<^verbatim>\<open>UPDATE\<close> runs on the queue's physical table and names the target ids and the
  state, not the queue.\<close>

definition edit_sel :: "queue list \<Rightarrow> str \<Rightarrow> uuid list \<Rightarrow> job \<Rightarrow> bool" where
  "edit_sel qs n ids j = (table_of qs (job_name j) = table_of qs n \<and> job_id j \<in> set ids \<and>
     state j < Active)"

definition updateJob ::
  "casts \<Rightarrow> queue list \<Rightarrow> str \<Rightarrow> edit_target \<Rightarrow> match_strategy \<Rightarrow> bool \<Rightarrow> time \<Rightarrow> job_edit \<Rightarrow> job list \<Rightarrow>
   insert_error + (job list \<times> job list \<times> bool)" where
  "updateJob c qs n tgt m notify now e t = (
     let ids = edit_targets n tgt m t in
     if ids = [] then Inr (t, [], False)
     else and_then (edit_start c now e) (\<lambda>start.
       case run_update (edit_sel qs n ids) (edit_row e start) t of Inl err \<Rightarrow> Inl (InsertSql err)
       | Inr (t', rows) \<Rightarrow> Inr (t', rows, notify \<and> list_ex (\<lambda>j. start_after j \<le> now) rows)))"

record update_response =
  ur_jobs :: "uuid list"
  ur_updated :: nat
  ur_inserted :: nat

definition update ::
  "casts \<Rightarrow> bool \<Rightarrow> queue list \<Rightarrow> queue \<Rightarrow> edit_target \<Rightarrow> match_strategy \<Rightarrow> time \<Rightarrow> job_edit \<Rightarrow> job list \<Rightarrow>
   insert_error + (job list \<times> update_response)" where
  "update c noListenNotify qs q tgt m now e t = and_then
     (updateJob c qs (q_name q) tgt m (notifyEnabled noListenNotify q) now e t)
     (\<lambda>(t', rows, _). Inr (t', \<lparr>ur_jobs = map job_id rows, ur_updated = length rows, ur_inserted = 0\<rparr>))"

text \<open>The same payload as an insert: a key that is null is null in the recordset.\<close>

definition flat :: "'a option option \<Rightarrow> 'a option" where
  "flat x = (case x of None \<Rightarrow> None | Some y \<Rightarrow> y)"

definition edit_input :: "edit_target \<Rightarrow> json option \<Rightarrow> job_edit \<Rightarrow> job_input" where
  "edit_input tgt trace e = empty_input\<lparr>
     in_id := (case tgt of ById i \<Rightarrow> Some i | ByKey _ \<Rightarrow> None),
     in_singleton_key := (case tgt of ById _ \<Rightarrow> None | ByKey k \<Rightarrow> Some k),
     in_data := (case ed_data e of Some JNull \<Rightarrow> None | d \<Rightarrow> d),
     in_priority := ed_priority e,
     in_start_after := ed_start_after e,
     in_retention_seconds := ed_retention_seconds e,
     in_expire_seconds := ed_expire_seconds e,
     in_delete_after_seconds := ed_delete_after_seconds e,
     in_retry_limit := ed_retry_limit e,
     in_retry_delay := ed_retry_delay e,
     in_retry_backoff := ed_retry_backoff e,
     in_retry_delay_max := flat (ed_retry_delay_max e),
     in_dead_letter := flat (ed_dead_letter e),
     in_heartbeat_seconds := flat (ed_heartbeat_seconds e),
     in_group_id := flat (ed_group_id e),
     in_group_tier := flat (ed_group_tier e),
     in_trace_context := trace\<rparr>"

text \<open>\<^verbatim>\<open>#upsert\<close>: edit first; insert when nothing matched; edit again when the insert was skipped.\<close>

definition upsert ::
  "casts \<Rightarrow> bool \<Rightarrow> queue list \<Rightarrow> queue \<Rightarrow> edit_target \<Rightarrow> match_strategy \<Rightarrow> json option \<Rightarrow> time \<Rightarrow> (nat \<Rightarrow> uuid) \<Rightarrow>
   job_edit \<Rightarrow> job list \<Rightarrow> insert_error + (job list \<times> update_response)" where
  "upsert c noListenNotify qs q tgt m trace now gen e t = (
     if requires_key q (case tgt of ById _ \<Rightarrow> None | ByKey k \<Rightarrow> Some k) then Inl RequiresSingletonKey
     else let notify = notifyEnabled noListenNotify q; n = q_name q in
     and_then (updateJob c qs n tgt m notify now e t) (\<lambda>(t1, updated, _).
       if updated \<noteq> [] then
         Inr (t1, \<lparr>ur_jobs = map job_id updated, ur_updated = length updated, ur_inserted = 0\<rparr>)
       else and_then (insertJobs c qs \<lparr>io_notify = notify, io_slots = False,
             io_upsert_by_key = (case tgt of ById _ \<Rightarrow> False | ByKey _ \<Rightarrow> True)\<rparr>
           n now gen [edit_input tgt trace e] t1) (\<lambda>(t2, inserted, _).
         if inserted \<noteq> [] then
           Inr (t2, \<lparr>ur_jobs = map job_id inserted, ur_updated = 0, ur_inserted = length inserted\<rparr>)
         else and_then (updateJob c qs n tgt m notify now e t2) (\<lambda>(t3, again, _).
           Inr (t3, \<lparr>ur_jobs = map job_id again, ur_updated = length again, ur_inserted = 0\<rparr>)))))"

section \<open>Lemmas\<close>

lemma edit_row_fixed [simp]:
  "job_id (edit_row e s j) = job_id j" "job_name (edit_row e s j) = job_name j"
  "state (edit_row e s j) = state j" "singleton_key (edit_row e s j) = singleton_key j"
  "singleton_on (edit_row e s j) = singleton_on j" "policy (edit_row e s j) = policy j"
  "upsert_by_key (edit_row e s j) = upsert_by_key j" "created_on (edit_row e s j) = created_on j"
  "retry_count (edit_row e s j) = retry_count j"
  by (simp_all add: edit_row_def Let_def)

text \<open>An edit leaves every index entry alone, so no index can refuse it.\<close>

interpretation edit: settling "edit_sel qs n ids" "edit_row e s" for qs n ids e s
  by standard (auto simp: gives_up_def entry_le_def job_key_def index_defs skey_def key_check_def
      split: option.splits)

lemma insertJobs_Inr:
  assumes "insertJobs c qs io n now gen inputs t = Inr (t', ins, b)"
  obtains rows where
    "map_ok (\<lambda>(k, i). insert_row c (find_queue n qs) n (io_slots io) (io_upsert_by_key io) now (gen k) i)
         (zip [0..<length inputs] inputs) = Inr rows"
    "insert_skip t rows = (t', ins)" "list_all key_check rows" "fkeys_ok qs ins" "t' = t @ ins"
proof -
  obtain rows where rows: "map_ok (\<lambda>(k, i). insert_row c (find_queue n qs) n (io_slots io)
      (io_upsert_by_key io) now (gen k) i) (zip [0..<length inputs] inputs) = Inr rows"
    using assms by (auto simp: insertJobs_def and_then_Inr_iff)
  hence i: "insert_skip t rows = (t', ins)" "list_all key_check rows" "fkeys_ok qs ins"
    using assms by (auto simp: insertJobs_def run_insert_skip_def split: if_splits sum.splits prod.splits)
  show thesis using that [OF rows i] insert_skip_append [OF i(1)] by blast
qed

lemma map_ok_length: "map_ok f xs = Inr ys \<Longrightarrow> length ys = length xs"
  by (induction xs arbitrary: ys) (auto simp: and_then_Inr_iff)

lemma map_ok_mem: "map_ok f xs = Inr ys \<Longrightarrow> y \<in> set ys \<Longrightarrow> \<exists>x\<in>set xs. f x = Inr y"
  by (induction xs arbitrary: ys) (auto simp: and_then_Inr_iff)

lemma map_ok_nth: "map_ok f xs = Inr ys \<Longrightarrow> k < length xs \<Longrightarrow> f (xs ! k) = Inr (ys ! k)"
  by (induction xs arbitrary: ys k) (auto simp: and_then_Inr_iff nth_Cons split: nat.splits)

lemma insert_row_fields:
  assumes "insert_row c q n slots u now gen i = Inr j"
  shows "job_name j = n" "job_id j = coalesce (in_id i) gen" "state j = Created"
    "retry_count j = 0" "created_on j = now" "started_on j = None" "completed_on j = None"
    "singleton_key j = in_singleton_key i" "policy j = map_option q_policy q"
    "singleton_on_of slots now i = Inr (singleton_on j)"
    "upsert_by_key j = (if u then Some True else None)"
  using assms by (auto simp: insert_row_def and_then_Inr_iff job_defaults_def)

lemma insertJobs_ok:
  assumes "insertJobs c qs io n now gen inputs t = Inr (t', ins, b)" "table_ok t"
  shows "table_ok t'"
  using assms by (auto elim!: insertJobs_Inr intro: insert_skip_ok)

section \<open>Throttle slots\<close>

lemma throttle_slot_bounds:
  assumes "0 < secs"
  shows "throttle_slot_on secs offset now \<le> now + offset * second"
    "now + offset * second < throttle_slot_on secs offset now + secs * second"
    "throttle_slot_on secs offset now mod (secs * second) = 0"
proof -
  let ?w = "secs * second" and ?x = "now + offset * second"
  have w: "0 < ?w" using assms by simp
  have eq: "throttle_slot_on secs offset now = ?x - ?x mod ?w"
    unfolding throttle_slot_on_def by (simp add: minus_mod_eq_mult_div)
  show "throttle_slot_on secs offset now \<le> ?x" unfolding eq using w by simp
  show "?x < throttle_slot_on secs offset now + ?w"
    unfolding eq using pos_mod_bound [OF w, of ?x] by linarith
  show "throttle_slot_on secs offset now mod ?w = 0" by (simp add: throttle_slot_on_def)
qed

lemma throttle_next_slot:
  assumes "0 < secs"
  shows "throttle_slot_on secs secs now = throttle_slot_on secs 0 now + secs * second"
proof -
  have "(now + secs * second) div (secs * second) = now div (secs * second) + 1"
    using assms by simp
  thus ?thesis by (simp add: throttle_slot_on_def distrib_left)
qed

lemma insertJobs_notified:
  assumes "insertJobs c qs io n now gen inputs t = Inr (t', ins, b)"
  shows "b = (io_notify io \<and> list_ex (\<lambda>j. start_after j \<le> now) ins)"
proof -
  obtain rows where "(case run_insert_skip rows t of Inl e \<Rightarrow> Inl (InsertSql e)
     | Inr (t', ins) \<Rightarrow> if fkeys_ok qs ins
         then Inr (t', ins, io_notify io \<and> list_ex (\<lambda>j. start_after j \<le> now) ins)
         else Inl (InsertSql ForeignKeyViolation)) = Inr (t', ins, b)"
    using assms unfolding insertJobs_def and_then_Inr_iff by blast
  thus ?thesis by (cases "run_insert_skip rows t") (auto split: if_splits prod.splits)
qed

end
