(* ===== verification/FlowCheck.thy ===== *)
theory FlowCheck
  imports Prelude "HOL-Library.AList"
begin

text \<open>
  The validation of a flow, \<^verbatim>\<open>validateFlowJobs\<close> and \<^verbatim>\<open>findDependencyCycle\<close> of
  \<^verbatim>\<open>src/src/attorney.ts\<close>: the checks on references and names, the topological sort that decides
  whether the dependencies have a cycle, and the search that names one.
\<close>

record flow_job =
  fj_ref :: str
  fj_name :: str
  fj_depends_on :: "str list"

datatype flow_error =
    FewerThanTwoJobs
  | EmptyRef
  | DuplicateRef str
  | EmptyName
  | InvalidName str
  | NoDependencies
  | EmptyDependency
  | SelfDependency str
  | MissingDependency str
  | DependencyCycle "str list"

definition word_char :: "char \<Rightarrow> bool" where
  "word_char c = (let n = of_char c :: nat in (48 \<le> n \<and> n \<le> 57) \<or> (65 \<le> n \<and> n \<le> 90) \<or>
     (97 \<le> n \<and> n \<le> 122) \<or> n = 95)"

text \<open>\<^verbatim>\<open>assertObjectName\<close>: one or more word characters, dots, hyphens and slashes.\<close>

definition object_name :: "str \<Rightarrow> bool" where
  "object_name s = (s \<noteq> [] \<and> list_all (\<lambda>c. word_char c \<or> c \<in> set ''.-/'') s)"

fun check_refs :: "str list \<Rightarrow> flow_job list \<Rightarrow> flow_error + str list" where
  "check_refs refs [] = Inr refs"
| "check_refs refs (j # js) = (
     if fj_ref j = [] then Inl EmptyRef
     else if fj_ref j \<in> set refs then Inl (DuplicateRef (fj_ref j))
     else if fj_name j = [] then Inl EmptyName
     else if \<not> object_name (fj_name j) then Inl (InvalidName (fj_name j))
     else check_refs (refs @ [fj_ref j]) js)"

fun check_deps :: "str list \<Rightarrow> str \<Rightarrow> str list \<Rightarrow> flow_error + unit" where
  "check_deps refs r [] = Inr ()"
| "check_deps refs r (d # ds) = (
     if d = [] then Inl EmptyDependency
     else if d = r then Inl (SelfDependency r)
     else if d \<notin> set refs then Inl (MissingDependency d)
     else check_deps refs r ds)"

fun check_all_deps :: "str list \<Rightarrow> flow_job list \<Rightarrow> flow_error + unit" where
  "check_all_deps refs [] = Inr ()"
| "check_all_deps refs (j # js) =
     and_then (check_deps refs (fj_ref j) (fj_depends_on j)) (\<lambda>_. check_all_deps refs js)"

section \<open>The topological sort\<close>

type_synonym degrees = "(str \<times> int) list"
type_synonym edges = "(str \<times> str list) list"

definition degree :: "degrees \<Rightarrow> str \<Rightarrow> int" where
  "degree ds r = coalesce (map_of ds r) 0"

definition children :: "edges \<Rightarrow> str \<Rightarrow> str list" where
  "children es r = coalesce (map_of es r) []"

definition add_edge :: "str \<Rightarrow> str \<Rightarrow> edges \<times> degrees \<Rightarrow> edges \<times> degrees" where
  "add_edge d r eg = (case eg of (es, ds) \<Rightarrow>
     (AList.update d (children es d @ [r]) es, AList.update r (degree ds r + 1) ds))"

definition flow_graph :: "flow_job list \<Rightarrow> edges \<times> degrees" where
  "flow_graph jobs = fold (\<lambda>j eg. fold (\<lambda>d. add_edge d (fj_ref j)) (fj_depends_on j) eg) jobs
     (map (\<lambda>j. (fj_ref j, [])) jobs, map (\<lambda>j. (fj_ref j, 0)) jobs)"

text \<open>The children of the reference taken from the queue: each loses one incoming edge and joins the
  queue when it has none left.\<close>

fun relax :: "degrees \<Rightarrow> str list \<Rightarrow> str list \<Rightarrow> degrees \<times> str list" where
  "relax ds [] q = (ds, q)"
| "relax ds (c # cs) q = (let newDeg = degree ds c - 1 in
     relax (AList.update c newDeg ds) cs (if newDeg = 0 then q @ [c] else q))"

definition open_refs :: "degrees \<Rightarrow> nat" where
  "open_refs ds = length (filter (\<lambda>(_, d). d > 0) ds)"

lemma open_refs_update:
  "open_refs (AList.update c (degree ds c - 1) ds) =
    (if degree ds c = 1 then open_refs ds - 1 else open_refs ds)"
  "degree ds c = 1 \<Longrightarrow> 0 < open_refs ds"
proof (induction ds)
  case Nil
  { case 1 show ?case by (simp add: open_refs_def degree_def) }
  { case 2 thus ?case by (simp add: degree_def) }
next
  case (Cons p ds)
  obtain k d where p: "p = (k, d)" by force
  have k: "k \<noteq> c \<Longrightarrow> degree (p # ds) c = degree ds c" "degree (p # ds) k = d"
    by (auto simp: degree_def p)
  { case 2 thus ?case using Cons.IH(2) k by (cases "k = c") (auto simp: open_refs_def p) }
  { case 1
    show ?case
    proof (cases "k = c")
      case True
      thus ?thesis using k(2) by (auto simp: open_refs_def p)
    next
      case False
      thus ?thesis using Cons.IH k(1) by (auto simp: open_refs_def p)
    qed }
qed

lemma relax_measure:
  "relax ds cs q = (ds', q') \<Longrightarrow> open_refs ds' + length q' \<le> open_refs ds + length q \<and>
    open_refs ds' \<le> open_refs ds \<and> (open_refs ds' = open_refs ds \<longrightarrow> q' = q)"
proof (induction ds cs q arbitrary: ds' q' rule: relax.induct)
  case (2 ds c cs q)
  let ?ds = "AList.update c (degree ds c - 1) ds"
  have IH: "open_refs ds' + length q' \<le> open_refs ?ds + length (if degree ds c = 1 then q @ [c] else q) \<and>
    open_refs ds' \<le> open_refs ?ds \<and>
    (open_refs ds' = open_refs ?ds \<longrightarrow> q' = (if degree ds c = 1 then q @ [c] else q))"
    using "2.IH" [OF refl] "2.prems" by (simp add: Let_def)
  show ?case
  proof (cases "degree ds c = 1")
    case True
    thus ?thesis using IH open_refs_update [where c = c and ds = ds] by auto
  next
    case False
    thus ?thesis using IH open_refs_update [where c = c and ds = ds] by auto
  qed
qed simp

text \<open>The loop, with the references it visited in order; the source counts them.\<close>

function kahn :: "edges \<Rightarrow> degrees \<Rightarrow> str list \<Rightarrow> str list \<Rightarrow> str list" where
  "kahn es ds [] visited = visited"
| "kahn es ds (current # q) visited =
     (case relax ds (children es current) q of (ds', q') \<Rightarrow> kahn es ds' q' (visited @ [current]))"
  by pat_completeness auto

termination
proof (relation "measures [\<lambda>(_, ds, _, _). open_refs ds, \<lambda>(_, _, q, _). length q]", simp)
  fix es ds current q visited ds' q'
  assume "(ds', q') = relax ds (children es current) q"
  from relax_measure [OF this [symmetric]]
  show "((es, ds', q', visited @ [current]), es, ds, current # q, visited)
      \<in> measures [\<lambda>(_, ds, _, _). open_refs ds, \<lambda>(_, _, q, _). length q]"
    by (cases "open_refs ds' = open_refs ds") auto
qed

definition topological_order :: "flow_job list \<Rightarrow> str list" where
  "topological_order jobs = (case flow_graph jobs of (es, ds) \<Rightarrow>
     kahn es ds (map fst (filter (\<lambda>(_, d). d = 0) ds)) [])"

section \<open>The search for a cycle\<close>

text \<open>\<^verbatim>\<open>visit\<close>: the references being visited are the path; the fuel bounds the depth of the
  recursion, which is at most the number of references, since a reference on the path is not entered
  again.\<close>

fun visit :: "nat \<Rightarrow> edges \<Rightarrow> str list \<Rightarrow> str list \<Rightarrow> str \<Rightarrow> str list option \<times> str list"
and visit_children :: "nat \<Rightarrow> edges \<Rightarrow> str list \<Rightarrow> str list \<Rightarrow> str list \<Rightarrow> str list option \<times> str list" where
  "visit 0 es path visited r = (None, visited)"
| "visit (Suc f) es path visited r = (
     if r \<in> set path then (Some (dropWhile (\<lambda>x. x \<noteq> r) path @ [r]), visited)
     else if r \<in> set visited then (None, visited)
     else (case visit_children f es (path @ [r]) visited (children es r) of
         (Some cyc, vs) \<Rightarrow> (Some cyc, vs)
       | (None, vs) \<Rightarrow> (None, r # vs)))"
| "visit_children f es path visited [] = (None, visited)"
| "visit_children f es path visited (c # cs) = (case visit f es path visited c of
       (Some cyc, vs) \<Rightarrow> (Some cyc, vs)
     | (None, vs) \<Rightarrow> visit_children f es path vs cs)"

definition findDependencyCycle :: "edges \<Rightarrow> str list" where
  "findDependencyCycle es =
     coalesce (fst (visit_children (length es + 2) es [] [] (map fst es))) []"

definition validateFlowJobs :: "flow_job list \<Rightarrow> flow_error + unit" where
  "validateFlowJobs jobs = (
     if length jobs < 2 then Inl FewerThanTwoJobs
     else and_then (check_refs [] jobs) (\<lambda>refs.
       if \<not> list_ex (\<lambda>j. fj_depends_on j \<noteq> []) jobs then Inl NoDependencies
       else and_then (check_all_deps refs jobs) (\<lambda>_.
         if length (topological_order jobs) \<noteq> length jobs
         then Inl (DependencyCycle (findDependencyCycle (fst (flow_graph jobs))))
         else Inr ())))"

section \<open>The graph\<close>

lemma degree_update [simp]: "degree (AList.update c v ds) r = (if r = c then v else degree ds r)"
  by (simp add: degree_def AList.update_conv')

lemma children_update [simp]: "children (AList.update c v es) r = (if r = c then v else children es r)"
  by (simp add: children_def AList.update_conv')

lemma fold_add_edge:
  "fold (\<lambda>d. add_edge d r) deps (es, ds) = (es', ds') \<Longrightarrow>
    degree ds' x = degree ds x + (if x = r then int (length deps) else 0) \<and>
    count_list (children es' d) x = count_list (children es d) x + (if x = r then count_list deps d else 0) \<and>
    (r \<in> fst ` set ds \<longrightarrow> map fst ds' = map fst ds)"
proof (induction deps arbitrary: es ds)
  case (Cons a deps)
  let ?es = "AList.update a (children es a @ [r]) es" and ?ds = "AList.update r (degree ds r + 1) ds"
  have "add_edge a r (es, ds) = (?es, ?ds)" by (simp add: add_edge_def)
  hence "fold (\<lambda>d. add_edge d r) deps (?es, ?ds) = (es', ds')" using Cons.prems by simp
  note IH = Cons.IH [OF this]
  have "r \<in> fst ` set ds \<longrightarrow> map fst ?ds = map fst ds" by (simp add: AList.update_keys)
  moreover have "r \<in> fst ` set ?ds" by (simp add: AList.dom_update)
  ultimately show ?case using IH by auto
qed auto

definition deps_into :: "flow_job list \<Rightarrow> str \<Rightarrow> str \<Rightarrow> nat" where
  "deps_into jobs d x = sum_list (map (\<lambda>j. if fj_ref j = x then count_list (fj_depends_on j) d else 0) jobs)"

lemma flow_graph_fold:
  "fold (\<lambda>j eg. fold (\<lambda>d. add_edge d (fj_ref j)) (fj_depends_on j) eg) jobs (es, ds) = (es', ds') \<Longrightarrow>
    fj_ref ` set jobs \<subseteq> fst ` set ds \<Longrightarrow>
    degree ds' x = degree ds x +
      sum_list (map (\<lambda>j. if fj_ref j = x then int (length (fj_depends_on j)) else 0) jobs) \<and>
    count_list (children es' d) x = count_list (children es d) x + deps_into jobs d x \<and>
    map fst ds' = map fst ds"
proof (induction jobs arbitrary: es ds)
  case (Cons j jobs)
  obtain es1 ds1 where one: "fold (\<lambda>d. add_edge d (fj_ref j)) (fj_depends_on j) (es, ds) = (es1, ds1)"
    by force
  have keys: "map fst ds1 = map fst ds"
    using fold_add_edge [OF one, of x d] Cons.prems(2) by auto
  hence "fst ` set ds1 = fst ` set ds" by (metis list.set_map)
  hence "fj_ref ` set jobs \<subseteq> fst ` set ds1" using Cons.prems(2) by auto
  moreover have "fold (\<lambda>j eg. fold (\<lambda>d. add_edge d (fj_ref j)) (fj_depends_on j) eg) jobs (es1, ds1) =
      (es', ds')"
    using Cons.prems(1) one by simp
  ultimately show ?case
    using Cons.IH [of es1 ds1] fold_add_edge [OF one, of x d] keys by (auto simp: deps_into_def)
qed (simp add: deps_into_def)

lemma map_of_const: "map_of (map (\<lambda>j. (f j, c)) xs) k = (if k \<in> f ` set xs then Some c else None)"
  by (induction xs) auto

lemma flow_graph_props:
  assumes "flow_graph jobs = (es, ds)"
  shows "degree ds x =
      sum_list (map (\<lambda>j. if fj_ref j = x then int (length (fj_depends_on j)) else 0) jobs)"
    "count_list (children es d) x = deps_into jobs d x"
    "map fst ds = map fj_ref jobs"
proof -
  let ?z = "map (\<lambda>j. (fj_ref j, 0::int)) jobs" and ?e = "map (\<lambda>j. (fj_ref j, [])) jobs :: edges"
  have "fold (\<lambda>j eg. fold (\<lambda>d. add_edge d (fj_ref j)) (fj_depends_on j) eg) jobs (?e, ?z) = (es, ds)"
    using assms by (simp add: flow_graph_def)
  from flow_graph_fold [OF this, of x d]
  have "degree ds x = degree ?z x +
      sum_list (map (\<lambda>j. if fj_ref j = x then int (length (fj_depends_on j)) else 0) jobs)"
    "count_list (children es d) x = count_list (children ?e d) x + deps_into jobs d x"
    "map fst ds = map fst ?z"
    by (auto simp: image_image)
  moreover have "degree ?z x = 0" "children ?e d = []"
    by (simp_all add: degree_def children_def map_of_const)
  ultimately show "degree ds x =
      sum_list (map (\<lambda>j. if fj_ref j = x then int (length (fj_depends_on j)) else 0) jobs)"
    "count_list (children es d) x = deps_into jobs d x"
    "map fst ds = map fj_ref jobs"
    by (simp_all add: comp_def)
qed

lemma degree_sum:
  assumes "finite R" "\<forall>j\<in>set jobs. set (fj_depends_on j) \<subseteq> R"
  shows "sum_list (map (\<lambda>j. if fj_ref j = x then int (length (fj_depends_on j)) else 0) jobs) =
    (\<Sum>d\<in>R. int (deps_into jobs d x))"
  using assms(2)
proof (induction jobs)
  case (Cons j jobs)
  have "(\<Sum>d\<in>R. count_list (fj_depends_on j) d) = length (fj_depends_on j)"
    using Cons.prems by (intro sum_count_set assms(1)) auto
  hence "(\<Sum>d\<in>R. int (count_list (fj_depends_on j) d)) = int (length (fj_depends_on j))"
    by (metis of_nat_sum)
  thus ?case using Cons by (auto simp: deps_into_def sum.distrib)
qed (simp add: deps_into_def)

section \<open>The loop\<close>

lemma count_list_pos: "0 < count_list xs x \<longleftrightarrow> x \<in> set xs"
  by (induction xs) auto

lemma relax_effect:
  assumes "relax ds cs q = (ds', q')" "\<forall>r. int (count_list cs r) \<le> degree ds r"
  shows "(\<forall>r. degree ds' r = degree ds r - int (count_list cs r)) \<and>
    (\<exists>new. q' = q @ new \<and> distinct new \<and>
      set new = {r \<in> set cs. degree ds r = int (count_list cs r)})"
  using assms
proof (induction ds cs q arbitrary: ds' q' rule: relax.induct)
  case (2 ds c cs q)
  let ?d = "degree ds c - 1"
  let ?ds = "AList.update c ?d ds" and ?q = "if ?d = 0 then q @ [c] else q"
  have run: "relax ?ds cs ?q = (ds', q')" using "2.prems"(1) by (simp add: Let_def)
  have le: "int (count_list cs r) \<le> degree ?ds r" for r
    using "2.prems"(2) [rule_format, of r] by (auto split: if_splits)
  obtain new where deg: "\<forall>r. degree ds' r = degree ?ds r - int (count_list cs r)"
    and new: "q' = ?q @ new" "distinct new" "set new = {r \<in> set cs. degree ?ds r = int (count_list cs r)}"
    using "2.IH" [OF refl run] le by blast
  have "\<forall>r. degree ds' r = degree ds r - int (count_list (c # cs) r)" using deg by auto
  moreover have "\<exists>new'. q' = q @ new' \<and> distinct new' \<and>
      set new' = {r \<in> set (c # cs). degree ds r = int (count_list (c # cs) r)}"
  proof (cases "?d = 0")
    case True
    have "count_list cs c = 0" using le [of c] True by simp
    hence nc: "c \<notin> set cs" by (simp add: count_list_0_iff)
    have "set (c # new) = {r \<in> set (c # cs). degree ds r = int (count_list (c # cs) r)}"
      unfolding list.set(2) new(3) using True nc \<open>count_list cs c = 0\<close> by auto
    moreover have "c \<notin> set new" using new(3) nc by auto
    ultimately show ?thesis using new(1,2) True by (intro exI [of _ "c # new"]) simp
  next
    case False
    have "set new = {r \<in> set (c # cs). degree ds r = int (count_list (c # cs) r)}"
    proof -
      have "c \<in> set cs" if "degree ds c = int (count_list (c # cs) c)"
        using that False count_list_pos [of cs c] by (cases "count_list cs c") auto
      thus ?thesis unfolding new(3) by auto
    qed
    thus ?thesis using new(1,2) False by (intro exI [of _ new]) simp
  qed
  ultimately show ?case by blast
qed auto

text \<open>The invariant of the loop: the degree of a reference counts its edges from references not yet
  visited; the visited and queued references are those with degree zero; and the dependencies of a
  visited reference were visited before it.\<close>

definition kahn_inv :: "str set \<Rightarrow> edges \<Rightarrow> degrees \<Rightarrow> str list \<Rightarrow> str list \<Rightarrow> bool" where
  "kahn_inv R es ds q ps = (
     (\<forall>r. degree ds r = (\<Sum>d\<in>R - set ps. int (count_list (children es d) r))) \<and>
     distinct (ps @ q) \<and> set (ps @ q) = {r \<in> R. degree ds r = 0} \<and>
     (\<forall>xs r ys. ps = xs @ r # ys \<longrightarrow> (\<forall>d\<in>R. r \<in> set (children es d) \<longrightarrow> d \<in> set xs)))"

lemma kahn_invD:
  assumes "kahn_inv R es ds q ps"
  shows "degree ds r = (\<Sum>d\<in>R - set ps. int (count_list (children es d) r))"
    "distinct (ps @ q)" "set (ps @ q) = {r \<in> R. degree ds r = 0}"
  using assms [unfolded kahn_inv_def, THEN conjunct1] assms [unfolded kahn_inv_def, THEN conjunct2]
  by blast+

lemma kahn_step:
  assumes fin: "finite R" and ch: "\<forall>d\<in>R. set (children es d) \<subseteq> R"
    and inv: "kahn_inv R es ds (c # q) ps" and run: "relax ds (children es c) q = (ds', q')"
  shows "kahn_inv R es ds' q' (ps @ [c])"
proof -
  have deg: "degree ds r = (\<Sum>d\<in>R - set ps. int (count_list (children es d) r))" for r
    using inv by (simp add: kahn_inv_def)
  have dist: "distinct (ps @ c # q)" and zeros: "set (ps @ c # q) = {r \<in> R. degree ds r = 0}"
    using inv by (simp_all add: kahn_inv_def)
  have c: "c \<in> R - set ps" "degree ds c = 0" using dist zeros by auto
  have split: "degree ds r = int (count_list (children es c) r) +
      (\<Sum>d\<in>R - set (ps @ [c]). int (count_list (children es d) r))" for r
  proof -
    have "R - set (ps @ [c]) = (R - set ps) - {c}" by auto
    thus ?thesis unfolding deg using fin c(1) by (simp add: sum.remove)
  qed
  have le: "\<forall>r. int (count_list (children es c) r) \<le> degree ds r"
    unfolding split by (simp add: sum_nonneg)
  obtain new where deg': "\<forall>r. degree ds' r = degree ds r - int (count_list (children es c) r)"
    and new: "q' = q @ new" "distinct new"
      "set new = {r \<in> set (children es c). degree ds r = int (count_list (children es c) r)}"
    using relax_effect [OF run le] by blast
  have d1: "degree ds' r = (\<Sum>d\<in>R - set (ps @ [c]). int (count_list (children es d) r))" for r
    using deg' split by simp
  have pos: "0 < degree ds r" if "r \<in> set new" for r
    using that new(3) count_list_pos [of "children es c" r] by auto
  have d2: "distinct ((ps @ [c]) @ q')"
  proof -
    have "set (ps @ c # q) \<inter> set new = {}" unfolding zeros using pos by fastforce
    thus ?thesis using dist new(1,2) by auto
  qed
  have d3: "set ((ps @ [c]) @ q') = {r \<in> R. degree ds' r = 0}"
  proof -
    have "r \<in> R \<and> degree ds' r = 0 \<longleftrightarrow> r \<in> {r \<in> R. degree ds r = 0} \<or> r \<in> set new" for r
    proof -
      have "degree ds r = 0 \<Longrightarrow> count_list (children es c) r = 0"
        using le [rule_format, of r] by simp
      moreover have "r \<in> set (children es c) \<Longrightarrow> r \<in> R" using ch c(1) by auto
      moreover have "degree ds r \<noteq> 0 \<Longrightarrow> degree ds r = int (count_list (children es c) r) \<Longrightarrow>
          r \<in> set (children es c)"
        using count_list_pos [of "children es c" r] by (cases "count_list (children es c) r") auto
      ultimately show ?thesis using deg' new(3) by auto
    qed
    hence "{r \<in> R. degree ds' r = 0} = {r \<in> R. degree ds r = 0} \<union> set new" by auto
    also have "\<dots> = set ((ps @ [c]) @ q')" unfolding zeros [symmetric] new(1) by auto
    finally show ?thesis by simp
  qed
  have d4: "\<forall>xs r ys. ps @ [c] = xs @ r # ys \<longrightarrow> (\<forall>d\<in>R. r \<in> set (children es d) \<longrightarrow> d \<in> set xs)"
  proof (intro allI impI ballI)
    fix xs r ys d assume eq: "ps @ [c] = xs @ r # ys" and d: "d \<in> R" "r \<in> set (children es d)"
    show "d \<in> set xs"
    proof (cases ys rule: rev_cases)
      case Nil
      hence r: "r = c" "xs = ps" using eq by auto
      have "(\<Sum>d\<in>R - set ps. int (count_list (children es d) c)) = 0" using deg c(2) by simp
      hence "\<forall>x\<in>R - set ps. int (count_list (children es x) c) = 0"
        by (subst (asm) sum_nonneg_eq_0_iff) (use fin in auto)
      hence "d \<in> R - set ps \<Longrightarrow> count_list (children es d) c = 0" by simp
      hence "d \<notin> R - set ps" using d(2) r(1) count_list_pos [of "children es d" c] by auto
      thus ?thesis using d(1) r by simp
    next
      case (snoc ys' y)
      hence "ps = xs @ r # ys'" using eq by simp
      thus ?thesis using inv d unfolding kahn_inv_def by blast
    qed
  qed
  show ?thesis unfolding kahn_inv_def using d1 d2 d3 d4 by blast
qed

lemma kahn_result:
  assumes "finite R" "\<forall>d\<in>R. set (children es d) \<subseteq> R" "kahn_inv R es ds q ps"
  shows "\<exists>ds'. kahn_inv R es ds' [] (kahn es ds q ps)"
  using assms(2,3)
proof (induction es ds q ps rule: kahn.induct)
  case (2 es ds c q ps)
  obtain ds' q' where run: "relax ds (children es c) q = (ds', q')" by force
  have "kahn_inv R es ds' q' (ps @ [c])" by (rule kahn_step [OF assms(1) "2.prems" run])
  thus ?case using "2.IH" [OF run [symmetric]] "2.prems"(1) run by simp
qed auto

section \<open>Acyclic exactly when every reference is visited\<close>

definition edge_rel :: "str set \<Rightarrow> edges \<Rightarrow> (str \<times> str) set" where
  "edge_rel R es = {(d, r). d \<in> R \<and> r \<in> set (children es d)}"

lemma kahn_complete:
  assumes fin: "finite R" and ch: "\<forall>d\<in>R. set (children es d) \<subseteq> R"
    and inv: "kahn_inv R es ds [] ps" and acyc: "acyclic (edge_rel R es)"
  shows "set ps = R"
proof (rule ccontr)
  assume ne: "set ps \<noteq> R"
  have zeros: "set ps = {r \<in> R. degree ds r = 0}" using kahn_invD(3) [OF inv] by simp
  have "edge_rel R es \<subseteq> R \<times> R" using ch by (auto simp: edge_rel_def)
  hence "finite (edge_rel R es)" by (rule finite_subset) (simp add: fin)
  hence wf: "wf (edge_rel R es)" using acyc by (rule finite_acyclic_wf)
  obtain x where "x \<in> R - set ps" using ne zeros by auto
  then obtain r where r: "r \<in> R - set ps" and min: "\<And>d. (d, r) \<in> edge_rel R es \<Longrightarrow> d \<notin> R - set ps"
    using wfE_min [OF wf, of x "R - set ps"] by metis
  have "count_list (children es d) r = 0" if "d \<in> R - set ps" for d
    using min that by (auto simp: edge_rel_def count_list_0_iff)
  hence "degree ds r = 0" using kahn_invD(1) [OF inv, of r] by simp
  thus False using r zeros by auto
qed

lemma takeWhile_until: "r \<notin> set xs \<Longrightarrow> takeWhile (\<lambda>x. x \<noteq> r) (xs @ r # ys) = xs"
  by (induction xs) auto

lemma kahn_sound:
  assumes ch: "\<forall>d\<in>R. set (children es d) \<subseteq> R"
    and inv: "kahn_inv R es ds [] ps" and all: "set ps = R"
  shows "acyclic (edge_rel R es)"
proof -
  let ?pos = "\<lambda>r. length (takeWhile (\<lambda>x. x \<noteq> r) ps)"
  have "edge_rel R es \<subseteq> inv_image less_than ?pos"
  proof (rule subrelI)
    fix d r assume e: "(d, r) \<in> edge_rel R es"
    hence "d \<in> R" "r \<in> set (children es d)" "r \<in> set ps" using ch all by (auto simp: edge_rel_def)
    then obtain xs ys where ps: "ps = xs @ r # ys" "r \<notin> set xs" by (metis split_list_first)
    have "d \<in> set xs" using inv ps(1) \<open>d \<in> R\<close> \<open>r \<in> set (children es d)\<close> unfolding kahn_inv_def by blast
    then obtain as bs where xs: "xs = as @ d # bs" "d \<notin> set as" by (metis split_list_first)
    have "?pos r = length xs" unfolding ps(1) takeWhile_until [OF ps(2)] ..
    moreover have "?pos d = length as" using takeWhile_until [OF xs(2), of "bs @ r # ys"] by (simp add: ps(1) xs(1))
    ultimately show "(d, r) \<in> inv_image less_than ?pos" using xs by simp
  qed
  moreover have "wf (inv_image less_than ?pos)" by (simp add: wf_inv_image)
  ultimately show ?thesis using wf_subset wf_acyclic by blast
qed

section \<open>The checks\<close>

lemma check_refs_iff:
  "distinct refs \<Longrightarrow> check_refs refs jobs = Inr refs' \<longleftrightarrow>
    refs' = refs @ map fj_ref jobs \<and> distinct (refs @ map fj_ref jobs) \<and>
    (\<forall>j\<in>set jobs. fj_ref j \<noteq> [] \<and> fj_name j \<noteq> [] \<and> object_name (fj_name j))"
proof (induction jobs arbitrary: refs)
  case (Cons j jobs)
  show ?case
  proof (cases "fj_ref j = [] \<or> fj_ref j \<in> set refs \<or> fj_name j = [] \<or> \<not> object_name (fj_name j)")
    case True
    thus ?thesis by auto
  next
    case False
    hence "distinct (refs @ [fj_ref j])" using Cons.prems by simp
    from Cons.IH [OF this] show ?thesis using False by auto
  qed
qed auto

lemma check_deps_iff:
  "check_deps refs r ds = Inr () \<longleftrightarrow> (\<forall>d\<in>set ds. d \<noteq> [] \<and> d \<noteq> r \<and> d \<in> set refs)"
  by (induction ds) auto

lemma check_all_deps_iff:
  "check_all_deps refs jobs = Inr () \<longleftrightarrow>
    (\<forall>j\<in>set jobs. \<forall>d\<in>set (fj_depends_on j). d \<noteq> [] \<and> d \<noteq> fj_ref j \<and> d \<in> set refs)"
  by (induction jobs) (auto simp: and_then_Inr_iff check_deps_iff)

text \<open>The dependency relation of a flow, and what \<^verbatim>\<open>validateFlowJobs\<close> checks besides cycles.\<close>

definition depends :: "flow_job list \<Rightarrow> (str \<times> str) set" where
  "depends jobs = {(d, fj_ref j) | d j. j \<in> set jobs \<and> d \<in> set (fj_depends_on j)}"

definition flow_well_formed :: "flow_job list \<Rightarrow> bool" where
  "flow_well_formed jobs = (2 \<le> length jobs \<and> distinct (map fj_ref jobs) \<and>
     (\<forall>j\<in>set jobs. fj_ref j \<noteq> [] \<and> fj_name j \<noteq> [] \<and> object_name (fj_name j)) \<and>
     (\<exists>j\<in>set jobs. fj_depends_on j \<noteq> []) \<and>
     (\<forall>j\<in>set jobs. \<forall>d\<in>set (fj_depends_on j). d \<noteq> [] \<and> d \<noteq> fj_ref j \<and> d \<in> fj_ref ` set jobs))"

lemma deps_into_pos: "0 < deps_into jobs d x \<longleftrightarrow> (d, x) \<in> depends jobs"
proof -
  have "0 < deps_into jobs d x \<longleftrightarrow> (\<exists>j\<in>set jobs. fj_ref j = x \<and> d \<in> set (fj_depends_on j))"
    by (induction jobs) (auto simp: deps_into_def count_list_pos)
  thus ?thesis by (auto simp: depends_def)
qed

lemma topological_order_complete:
  assumes wf: "flow_well_formed jobs"
  shows "length (topological_order jobs) = length jobs \<longleftrightarrow> acyclic (depends jobs)"
proof -
  obtain es ds where g: "flow_graph jobs = (es, ds)" by force
  note props = flow_graph_props [OF g]
  let ?R = "fj_ref ` set jobs"
  let ?q = "map fst (filter (\<lambda>(_, d). d = 0) ds)"
  have sub: "\<forall>j\<in>set jobs. set (fj_depends_on j) \<subseteq> ?R" using wf by (auto simp: flow_well_formed_def)
  have mem: "r \<in> set (children es d) \<longleftrightarrow> (d, r) \<in> depends jobs" for d r
    using count_list_pos [of "children es d" r] props(2) deps_into_pos by simp
  have ch: "\<forall>d\<in>?R. set (children es d) \<subseteq> ?R" using mem by (auto simp: depends_def)
  have rel: "edge_rel ?R es = depends jobs" using mem sub by (auto simp: edge_rel_def depends_def)
  have dk: "distinct (map fst ds)" using props(3) wf by (simp add: flow_well_formed_def)
  have keys: "fst ` set ds = ?R" using props(3) by (metis list.set_map)
  have deg: "degree ds r = (\<Sum>d\<in>?R. int (count_list (children es d) r))" for r
    unfolding props(1) using degree_sum [OF _ sub, of r] props(2) by simp
  have "(k, v) \<in> set ds \<longleftrightarrow> k \<in> ?R \<and> degree ds k = v" for k v
    unfolding map_of_eq_Some_iff [OF dk, symmetric] degree_def keys [symmetric]
    by (cases "map_of ds k") (force simp: map_of_eq_None_iff dest: map_of_SomeD)+
  hence "set ?q = {r \<in> ?R. degree ds r = 0}" by (auto simp: image_iff)
  moreover have "distinct ?q" using dk by (rule distinct_filter_map)
  ultimately have "kahn_inv ?R es ds ?q []" using deg by (simp add: kahn_inv_def)
  hence "\<exists>ds'. kahn_inv ?R es ds' [] (kahn es ds ?q [])" by (rule kahn_result [OF _ ch, rotated]) simp
  then obtain ds' where inv: "kahn_inv ?R es ds' [] (topological_order jobs)"
    unfolding topological_order_def g by auto
  let ?o = "topological_order jobs"
  have "distinct ?o" "set ?o \<subseteq> ?R" using kahn_invD(2,3) [OF inv] by auto
  moreover have "card ?R = length jobs"
    using wf distinct_card [of "map fj_ref jobs"] by (simp add: flow_well_formed_def)
  ultimately have "length ?o = length jobs \<longleftrightarrow> set ?o = ?R"
    by (metis List.finite_set card_subset_eq distinct_card finite_imageI)
  also have "\<dots> \<longleftrightarrow> acyclic (depends jobs)"
    using kahn_complete [OF _ ch inv] kahn_sound [OF ch inv] rel by auto
  finally show ?thesis .
qed

lemma validateFlowJobs_iff:
  "validateFlowJobs jobs = Inr () \<longleftrightarrow> flow_well_formed jobs \<and> acyclic (depends jobs)"
proof (cases "2 \<le> length jobs")
  case True
  have "validateFlowJobs jobs = Inr () \<longleftrightarrow>
      flow_well_formed jobs \<and> length (topological_order jobs) = length jobs"
    using True check_refs_iff [of "[]" jobs] check_all_deps_iff
    by (auto simp: validateFlowJobs_def and_then_Inr_iff flow_well_formed_def list_ex_iff)
  thus ?thesis using topological_order_complete by blast
qed (simp add: validateFlowJobs_def flow_well_formed_def)

section \<open>The reported cycle\<close>

text \<open>What the search reports: a walk along the edges that ends where it starts.\<close>

definition closed_walk :: "edges \<Rightarrow> str list \<Rightarrow> bool" where
  "closed_walk es c = (2 \<le> length c \<and> hd c = last c \<and> successively (\<lambda>a b. b \<in> set (children es a)) c)"

text \<open>The visited refs, newest first: the children of each are among the older ones.\<close>

fun settled_order :: "edges \<Rightarrow> str list \<Rightarrow> bool" where
  "settled_order es [] = True"
| "settled_order es (r # vs) = (set (children es r) \<subseteq> set vs \<and> settled_order es vs)"

lemma visit_sound:
  "visit f es path vs r = (Some c, vs') \<Longrightarrow>
     successively (\<lambda>a b. b \<in> set (children es a)) (path @ [r]) \<Longrightarrow> closed_walk es c"
  "visit_children f es path vs cs = (Some c, vs') \<Longrightarrow>
     (\<forall>r\<in>set cs. successively (\<lambda>a b. b \<in> set (children es a)) (path @ [r])) \<Longrightarrow> closed_walk es c"
proof (induction f es path vs r and f es path vs cs arbitrary: vs' and vs' rule: visit_visit_children.induct)
  case (2 f es path vs r)
  let ?E = "\<lambda>a b. b \<in> set (children es a)"
  show ?case
  proof (cases "r \<in> set path")
    case True
    let ?d = "dropWhile (\<lambda>x. x \<noteq> r) path"
    have d: "?d \<noteq> []" using True by simp
    have hd: "hd ?d = r" using hd_dropWhile [OF d] by simp
    have "path @ [r] = takeWhile (\<lambda>x. x \<noteq> r) path @ ?d @ [r]" by simp
    with "2.prems"(2) have "successively ?E (takeWhile (\<lambda>x. x \<noteq> r) path @ ?d @ [r])" by simp
    hence "successively ?E (?d @ [r])" by (simp add: successively_append_iff)
    moreover have "c = ?d @ [r]" using "2.prems"(1) True by simp
    moreover have "0 < length ?d" using d by simp
    ultimately show ?thesis using hd d by (cases ?d) (auto simp: closed_walk_def)
  next
    case False
    hence nv: "r \<notin> set vs" using "2.prems"(1) by (auto split: if_splits)
    have "visit_children f es (path @ [r]) vs (children es r) = (Some c, vs')"
      using "2.prems"(1) False nv by (auto split: prod.splits option.splits)
    moreover have "\<forall>x\<in>set (children es r). successively ?E ((path @ [r]) @ [x])"
      using "2.prems"(2) by (simp add: successively_append_iff)
    ultimately show ?thesis using "2.IH" False nv by blast
  qed
next
  case (4 f es path vs x cs)
  show ?case
  proof (cases "visit f es path vs x")
    case (Pair o1 v1)
    show ?thesis
    proof (cases o1)
      case None
      hence "visit_children f es path v1 cs = (Some c, vs')" using "4.prems"(1) Pair by simp
      thus ?thesis using "4.IH"(2) [OF Pair [symmetric]] None "4.prems"(2) by simp
    next
      case (Some c')
      thus ?thesis using "4.IH"(1) "4.prems" Pair by simp
    qed
  qed
qed auto

lemma visit_complete:
  assumes fin: "finite N" and ch: "\<forall>d\<in>N. set (children es d) \<subseteq> N"
  shows "visit f es path vs r = (None, vs') \<Longrightarrow> card N < f + length path \<Longrightarrow> distinct path \<Longrightarrow>
      set path \<subseteq> N \<Longrightarrow> r \<in> N \<Longrightarrow> settled_order es vs \<Longrightarrow>
      settled_order es vs' \<and> set vs \<subseteq> set vs' \<and> r \<in> set vs'"
    "visit_children f es path vs cs = (None, vs') \<Longrightarrow> card N < f + length path \<Longrightarrow> distinct path \<Longrightarrow>
      set path \<subseteq> N \<Longrightarrow> set cs \<subseteq> N \<Longrightarrow> settled_order es vs \<Longrightarrow>
      settled_order es vs' \<and> set vs \<subseteq> set vs' \<and> set cs \<subseteq> set vs'"
  using ch
proof (induction f es path vs r and f es path vs cs arbitrary: vs' and vs' rule: visit_visit_children.induct)
  case (1 es path vs r)
  have "length path \<le> card N" using 1 fin by (metis card_mono distinct_card)
  thus ?case using 1 by simp
next
  case (2 f es path vs r)
  show ?case
  proof (cases "r \<in> set vs")
    case True
    thus ?thesis using 2 by (auto split: if_splits)
  next
    case False
    have np: "r \<notin> set path" using 2 by (auto split: if_splits)
    obtain v1 where v1: "visit_children f es (path @ [r]) vs (children es r) = (None, v1)" "vs' = r # v1"
      using 2 np False by (auto split: prod.splits option.splits)
    have "settled_order es v1 \<and> set vs \<subseteq> set v1 \<and> set (children es r) \<subseteq> set v1"
      using 2 np False v1 by (intro 2(1)) auto
    thus ?thesis using v1(2) by auto
  qed
next
  case (4 f es path vs x cs)
  obtain v1 where v1: "visit f es path vs x = (None, v1)" "visit_children f es path v1 cs = (None, vs')"
    using 4 by (auto split: prod.splits option.splits)
  have "settled_order es v1 \<and> set vs \<subseteq> set v1 \<and> x \<in> set v1" using 4 v1 by (intro 4(1)) auto
  moreover from this have "settled_order es vs' \<and> set v1 \<subseteq> set vs' \<and> set cs \<subseteq> set vs'"
    using 4 v1 by (intro 4(2)) auto
  ultimately show ?case by auto
qed auto

lemma settled_acyclic:
  "settled_order es vs \<Longrightarrow> acyclic (edge_rel (set vs) es)"
proof (induction vs)
  case Nil
  thus ?case by (simp add: edge_rel_def acyclic_def)
next
  case (Cons r vs)
  show ?case
  proof (cases "r \<in> set vs")
    case True
    hence "set (r # vs) = set vs" by auto
    thus ?thesis using Cons by simp
  next
    case False
    let ?R = "edge_rel (set vs) es"
    have ran: "?R \<subseteq> set vs \<times> set vs"
    proof -
      have "v \<in> set xs \<Longrightarrow> settled_order es xs \<Longrightarrow> set (children es v) \<subseteq> set xs" for v xs
        by (induction xs) auto
      thus ?thesis using Cons.prems by (fastforce simp: edge_rel_def)
    qed
    have eq: "edge_rel (set (r # vs)) es = ?R \<union> {r} \<times> set (children es r)" by (auto simp: edge_rel_def)
    have sub: "set (children es r) \<subseteq> set vs" using Cons.prems by simp
    have stay: "(a, b) \<in> (?R \<union> {r} \<times> set (children es r))\<^sup>+ \<Longrightarrow> b \<in> set vs \<and> (a \<in> set vs \<longrightarrow> (a, b) \<in> ?R\<^sup>+)" for a b
      by (induction rule: trancl_induct)
        (use ran sub False in \<open>auto intro: trancl_into_trancl\<close>)
    show ?thesis unfolding acyclic_def eq
    proof (intro allI notI)
      fix x assume "(x, x) \<in> (?R \<union> {r} \<times> set (children es r))\<^sup>+"
      with stay have "(x, x) \<in> ?R\<^sup>+" by blast
      thus False using Cons by (auto simp: acyclic_def)
    qed
  qed
qed

lemma findDependencyCycle_correct:
  assumes "\<forall>d\<in>fst ` set es. set (children es d) \<subseteq> fst ` set es" "\<not> acyclic (edge_rel (fst ` set es) es)"
  shows "closed_walk es (findDependencyCycle es)"
proof -
  let ?N = "fst ` set es"
  obtain o1 vs where run: "visit_children (length es + 2) es [] [] (map fst es) = (o1, vs)" by force
  have "o1 \<noteq> None"
  proof
    assume "o1 = None"
    moreover have "card ?N \<le> length es" by (metis card_image_le card_length finite_set le_trans)
    ultimately have "settled_order es vs \<and> set (map fst es) \<subseteq> set vs"
      using visit_complete(2) [OF _ assms(1), of "length es + 2" "[]" "[]" "map fst es" vs] run by auto
    hence "acyclic (edge_rel ?N es)"
      using settled_acyclic acyclic_subset [of "edge_rel (set vs) es" "edge_rel ?N es"]
      by (auto simp: edge_rel_def subset_iff)
    thus False using assms(2) by blast
  qed
  then obtain c where "o1 = Some c" by blast
  thus ?thesis using visit_sound(2) [of "length es + 2" es "[]" "[]" "map fst es" c vs] run
    by (simp add: findDependencyCycle_def)
qed

definition dependency_cycle :: "flow_job list \<Rightarrow> str list \<Rightarrow> bool" where
  "dependency_cycle jobs c =
     (2 \<le> length c \<and> hd c = last c \<and> successively (\<lambda>a b. (a, b) \<in> depends jobs) c)"

lemma fold_add_edge_keys:
  "fold (\<lambda>d. add_edge d r) deps (es, ds) = (es', ds') \<Longrightarrow> fst ` set es' = fst ` set es \<union> set deps"
  by (induction deps arbitrary: es ds) (auto simp: add_edge_def AList.dom_update)

lemma flow_graph_keys:
  "fold (\<lambda>j eg. fold (\<lambda>d. add_edge d (fj_ref j)) (fj_depends_on j) eg) jobs (es, ds) = (es', ds') \<Longrightarrow>
    fst ` set es' = fst ` set es \<union> (\<Union>j\<in>set jobs. set (fj_depends_on j))"
proof (induction jobs arbitrary: es ds)
  case (Cons j jobs)
  obtain es1 ds1 where one: "fold (\<lambda>d. add_edge d (fj_ref j)) (fj_depends_on j) (es, ds) = (es1, ds1)"
    by force
  thus ?case using Cons fold_add_edge_keys [OF one] by auto
qed simp

lemma flow_cycle_reported:
  assumes wf: "flow_well_formed jobs" and cyc: "\<not> acyclic (depends jobs)"
  shows "dependency_cycle jobs (findDependencyCycle (fst (flow_graph jobs)))"
proof -
  obtain es ds where g: "flow_graph jobs = (es, ds)" by force
  note props = flow_graph_props [OF g]
  have mem: "r \<in> set (children es d) \<longleftrightarrow> (d, r) \<in> depends jobs" for d r
    using count_list_pos [of "children es d" r] props(2) deps_into_pos by simp
  have "fst ` set es = fst ` set (map (\<lambda>j. (fj_ref j, [] :: str list)) jobs) \<union> (\<Union>j\<in>set jobs. set (fj_depends_on j))"
    using g unfolding flow_graph_def by (rule flow_graph_keys)
  moreover have cl: "\<And>j d. j \<in> set jobs \<Longrightarrow> d \<in> set (fj_depends_on j) \<Longrightarrow> d \<in> fj_ref ` set jobs"
    using wf unfolding flow_well_formed_def by blast
  hence "(\<Union>j\<in>set jobs. set (fj_depends_on j)) \<subseteq> fj_ref ` set jobs" by blast
  moreover have "fst ` set (map (\<lambda>j. (fj_ref j, [] :: str list)) jobs) = fj_ref ` set jobs"
    by (simp add: image_image)
  ultimately have keys: "fst ` set es = fj_ref ` set jobs" by (simp add: Un_absorb2)
  have "d \<in> fst ` set es \<and> r \<in> fst ` set es" if "(d, r) \<in> depends jobs" for d r
    using that cl unfolding keys depends_def by blast
  hence "depends jobs = edge_rel (fst ` set es) es"
    "\<forall>d\<in>fst ` set es. set (children es d) \<subseteq> fst ` set es"
    using mem by (auto simp only: edge_rel_def)
  hence "closed_walk es (findDependencyCycle es)"
    using findDependencyCycle_correct cyc by simp
  thus ?thesis using mem by (simp add: closed_walk_def dependency_cycle_def g)
qed

lemma flow_cycle_error:
  "(\<exists>c. validateFlowJobs jobs = Inl (DependencyCycle c)) \<longleftrightarrow>
     flow_well_formed jobs \<and> \<not> acyclic (depends jobs)"
  "validateFlowJobs jobs = Inl (DependencyCycle c) \<Longrightarrow> c = findDependencyCycle (fst (flow_graph jobs))"
proof -
  have ref: "check_refs rs js \<noteq> Inl (DependencyCycle c)" for rs js c
    by (induction js arbitrary: rs) auto
  have dep: "check_deps rs r ds \<noteq> Inl (DependencyCycle c)" for rs r ds c
    by (induction ds) auto
  have deps: "check_all_deps rs js \<noteq> Inl (DependencyCycle c)" for rs js c
    using dep by (induction js) (auto simp: and_then_def split: sum.splits)
  have wf: "flow_well_formed jobs \<longleftrightarrow> 2 \<le> length jobs \<and> list_ex (\<lambda>j. fj_depends_on j \<noteq> []) jobs \<and>
      (\<exists>refs. check_refs [] jobs = Inr refs \<and> check_all_deps refs jobs = Inr ())"
    using check_refs_iff [of "[]" jobs] check_all_deps_iff
    by (auto simp: flow_well_formed_def list_ex_iff)
  have err: "validateFlowJobs jobs = Inl (DependencyCycle c) \<longleftrightarrow>
      flow_well_formed jobs \<and> length (topological_order jobs) \<noteq> length jobs \<and>
      c = findDependencyCycle (fst (flow_graph jobs))" for c
    unfolding wf using ref deps
    by (auto simp: validateFlowJobs_def and_then_def split: sum.splits)
  show "(\<exists>c. validateFlowJobs jobs = Inl (DependencyCycle c)) \<longleftrightarrow>
      flow_well_formed jobs \<and> \<not> acyclic (depends jobs)"
    unfolding err using topological_order_complete by blast
  show "validateFlowJobs jobs = Inl (DependencyCycle c) \<Longrightarrow> c = findDependencyCycle (fst (flow_graph jobs))"
    unfolding err by blast
qed

end
