(* ===== verification/Flow.thy ===== *)
theory Flow
  imports Insert FlowCheck "HOL-Library.List_Lexorder" "HOL-Library.Char_ord"
begin

text \<open>
  Flows: jobs that wait for other jobs.  The send (\<^verbatim>\<open>#flow\<close> of \<^verbatim>\<open>src/src/manager.ts\<close> with
  \<^verbatim>\<open>insertFlowJobs\<close> and \<^verbatim>\<open>insertDependencies\<close> of \<^verbatim>\<open>src/src/plans.ts\<close>), the resolver's
  statements (\<^verbatim>\<open>resolveFlowJobs\<close> and its distributed split) and the resolver itself
  (\<^verbatim>\<open>src/src/navigator.ts\<close>).

  A statement on a partition table names the queues it covers, and a queue's rows are all in its
  table, so the table name plays no part in which rows it reaches.  The rows other sessions hold
  are the predicate \<^verbatim>\<open>locked\<close>.  Text is compared as under the \<^verbatim>\<open>C\<close> collation, and one clock
  reading serves a whole pass.  A pass is modelled as run to its end: \<^verbatim>\<open>stop()\<close> does not interrupt it.
\<close>

section \<open>Grouping\<close>

text \<open>The \<^verbatim>\<open>Map\<close> of lists the code builds: the groups stand in the order of their first element,
  the elements in their own order.\<close>

definition add_to_group :: "('a \<Rightarrow> 'k) \<Rightarrow> 'a \<Rightarrow> ('k \<times> 'a list) list \<Rightarrow> ('k \<times> 'a list) list" where
  "add_to_group f x g = AList.update (f x) (coalesce (map_of g (f x)) [] @ [x]) g"

definition group_by :: "('a \<Rightarrow> 'k) \<Rightarrow> 'a list \<Rightarrow> ('k \<times> 'a list) list" where
  "group_by f xs = fold (add_to_group f) xs []"

text \<open>\<^verbatim>\<open>[...new Set(xs)]\<close>: the first occurrence of each element.\<close>

definition uniq :: "'a list \<Rightarrow> 'a list" where
  "uniq xs = rev (remdups (rev xs))"

section \<open>Sending a flow\<close>

text \<open>A job of a flow with the payload its validated options give; the flow columns are set by the
  send.\<close>

record flow_send = flow_job +
  fs_input :: job_input

datatype flow_send_error =
    FlowInvalid flow_error
  | FlowQueueMissing str
  | FlowInsert insert_error

definition dep_child :: "dependency \<Rightarrow> str \<times> uuid" where
  "dep_child d = (child_name d, child_id d)"

definition dep_parent :: "dependency \<Rightarrow> str \<times> uuid" where
  "dep_parent d = (parent_name d, parent_id d)"

definition insertDependencies :: "dependency list \<Rightarrow> dependency list \<Rightarrow> dependency list" where
  "insertDependencies rows deps = fold (\<lambda>r ds. if r \<in> set ds then ds else ds @ [r]) rows deps"

text \<open>\<^verbatim>\<open>refToId\<close>: the id the caller gave, or a new one.\<close>

definition refToId :: "(nat \<Rightarrow> uuid) \<Rightarrow> flow_send list \<Rightarrow> (str \<times> uuid) list" where
  "refToId gen jobs = map (\<lambda>(k, j). (fj_ref j, coalesce (in_id (fs_input j)) (gen k)))
     (zip [0..<length jobs] jobs)"

definition ref_id :: "(str \<times> uuid) list \<Rightarrow> str \<Rightarrow> uuid" where
  "ref_id ids r = coalesce (map_of ids r) 0"

definition refToName :: "flow_send list \<Rightarrow> str \<Rightarrow> str" where
  "refToName jobs r = coalesce (map_of (map (\<lambda>j. (fj_ref j, fj_name j)) jobs) r) ''''"

definition depRows :: "(str \<times> uuid) list \<Rightarrow> flow_send list \<Rightarrow> dependency list" where
  "depRows ids jobs = concat (map (\<lambda>j. map (\<lambda>d.
     \<lparr>child_name = fj_name j, child_id = ref_id ids (fj_ref j),
      parent_name = refToName jobs d, parent_id = ref_id ids d\<rparr>) (uniq (fj_depends_on j))) jobs)"

definition parentRefs :: "flow_send list \<Rightarrow> str list" where
  "parentRefs jobs = concat (map (\<lambda>j. uniq (fj_depends_on j)) jobs)"

definition flow_payload :: "(str \<times> uuid) list \<Rightarrow> str list \<Rightarrow> json option \<Rightarrow> flow_send \<Rightarrow> job_input" where
  "flow_payload ids parents trace j = (let n = int (length (uniq (fj_depends_on j))) in
     (fs_input j)\<lparr>in_id := Some (ref_id ids (fj_ref j)),
       in_singleton_offset := None, in_singleton_slot := None,
       in_blocked := (if n > 0 then Some True else None),
       in_blocking := (if fj_ref j \<in> set parents then Some True else None),
       in_pending_dependencies := (if n \<noteq> 0 then Some n else None),
       in_trace_context := trace\<rparr>)"

text \<open>\<^verbatim>\<open>insertFlowJobs\<close>: the insert of one queue's jobs; a row an index made it skip is a division
  by zero.\<close>

definition insertFlowJobs ::
  "casts \<Rightarrow> queue list \<Rightarrow> str \<Rightarrow> time \<Rightarrow> job_input list \<Rightarrow> job list \<Rightarrow> insert_error + job list" where
  "insertFlowJobs c qs n now inputs t =
     and_then (insertJobs c qs plain_insert n now (\<lambda>_. 0) inputs t) (\<lambda>(t', ins, _).
       if length ins = length inputs then Inr t' else Inl (InsertSql DivisionByZero))"

fun flow_inserts ::
  "casts \<Rightarrow> queue list \<Rightarrow> time \<Rightarrow> (str \<times> job_input list) list \<Rightarrow> job list \<Rightarrow> flow_send_error + job list" where
  "flow_inserts c qs now [] t = Inr t"
| "flow_inserts c qs now ((n, inputs) # gs) t =
     (case insertFlowJobs c qs n now inputs t of
        Inl e \<Rightarrow> Inl (FlowInsert e) | Inr t' \<Rightarrow> flow_inserts c qs now gs t')"

text \<open>\<^verbatim>\<open>flow()\<close>: the check, the payloads by queue, the inserts and the dependency rows in one
  transaction.  The result holds the queues it notified and the id of every ref.\<close>

definition flow ::
  "casts \<Rightarrow> bool \<Rightarrow> queue list \<Rightarrow> json option \<Rightarrow> time \<Rightarrow> (nat \<Rightarrow> uuid) \<Rightarrow> flow_send list \<Rightarrow>
   job list \<Rightarrow> dependency list \<Rightarrow>
   flow_send_error + (job list \<times> dependency list \<times> str list \<times> (str \<times> uuid) list)" where
  "flow c noListenNotify qs trace now gen jobs t deps = (
     case validateFlowJobs (map flow_job.truncate jobs) of Inl e \<Rightarrow> Inl (FlowInvalid e)
     | Inr _ \<Rightarrow>
       let ids = refToId gen jobs;
           parents = parentRefs jobs;
           byQueue = group_by fj_name jobs
       in case List.find (\<lambda>(n, _). find_queue n qs = None) byQueue of
            Some (n, _) \<Rightarrow> Inl (FlowQueueMissing n)
          | None \<Rightarrow>
            and_then (flow_inserts c qs now
                (map (\<lambda>(n, js). (n, map (flow_payload ids parents trace) js)) byQueue) t) (\<lambda>t'.
              Inr (t', insertDependencies (depRows ids jobs) deps,
                filter (\<lambda>n. case find_queue n qs of None \<Rightarrow> False
                  | Some q \<Rightarrow> notifyEnabled noListenNotify q) (map fst byQueue), ids)))"

section \<open>Resolving\<close>

definition FLOW_BATCH_SIZE :: nat where
  "FLOW_BATCH_SIZE = 1000"

text \<open>The batch of completed parents both forms of the audit lock.\<close>

definition blocking_parent :: "str list \<Rightarrow> job \<Rightarrow> bool" where
  "blocking_parent names j = (blocking j \<and> state j = Completed \<and> job_name j \<in> set names)"

definition locked_parents :: "str list \<Rightarrow> (str \<times> uuid \<Rightarrow> bool) \<Rightarrow> job list \<Rightarrow> job list" where
  "locked_parents names locked t = take FLOW_BATCH_SIZE (filter (\<lambda>j. \<not> locked (job_key j))
     (sort_key job_key (filter (blocking_parent names) t)))"

text \<open>\<^verbatim>\<open>decremented\<close>: how many of a job's dependency rows name one of the parents.\<close>

definition decremented :: "dependency list \<Rightarrow> (str \<times> uuid) list \<Rightarrow> str \<times> uuid \<Rightarrow> nat" where
  "decremented deps parents k =
     length (filter (\<lambda>d. dep_child d = k \<and> dep_parent d \<in> set parents) deps)"

definition locked_child :: "dependency list \<Rightarrow> (str \<times> uuid) list \<Rightarrow> job \<Rightarrow> bool" where
  "locked_child deps parents j = (blocked j \<and> decremented deps parents (job_key j) > 0)"

definition unblock_row :: "time \<Rightarrow> dependency list \<Rightarrow> (str \<times> uuid) list \<Rightarrow> job \<Rightarrow> job" where
  "unblock_row now deps parents j = (
     let left = max (pending_dependencies j - int (decremented deps parents (job_key j))) 0
     in j\<lparr>pending_dependencies := left,
          blocked := left > 0,
          start_after := (if left = 0 then max (start_after j) now else start_after j)\<rparr>)"

definition clear_row :: "job \<Rightarrow> job" where
  "clear_row j = j\<lparr>blocking := False\<rparr>"

text \<open>\<^verbatim>\<open>resolveFlowJobs\<close>: the two updates of one statement.  They see the same rows, which makes a
  difference only for a row both would change; a completed job is never blocked (see
  \<^verbatim>\<open>flow_ok\<close>), so there is none.\<close>

definition resolveFlowJobs ::
  "str list \<Rightarrow> (str \<times> uuid \<Rightarrow> bool) \<Rightarrow> dependency list \<Rightarrow> time \<Rightarrow> job list \<Rightarrow> nat statement" where
  "resolveFlowJobs names locked deps now t = (
     let parents = map job_key (locked_parents names locked t) in
     and_then (run_update (locked_child deps parents) (unblock_row now deps parents) t) (\<lambda>(t1, _).
     and_then (run_update (\<lambda>j. job_key j \<in> set parents) clear_row t1) (\<lambda>(t2, cleared).
     Inr (t2, length cleared))))"

text \<open>The distributed form: the parents are read, then, queue by queue, the children are decremented
  and the parents cleared.\<close>

definition selectBlockingParents ::
  "str list \<Rightarrow> bool \<Rightarrow> (str \<times> uuid \<Rightarrow> bool) \<Rightarrow> job list \<Rightarrow> job list" where
  "selectBlockingParents names noSkipLocked locked t =
     locked_parents names (if noSkipLocked then (\<lambda>_. False) else locked) t"

definition decrementDependents ::
  "str \<Rightarrow> uuid list \<Rightarrow> dependency list \<Rightarrow> time \<Rightarrow> job list \<Rightarrow> job list statement" where
  "decrementDependents n ids deps now t = (let parents = map (Pair n) ids in
     run_update (locked_child deps parents) (unblock_row now deps parents) t)"

definition clearBlocking :: "str \<Rightarrow> uuid list \<Rightarrow> job list \<Rightarrow> job list statement" where
  "clearBlocking n ids t = run_update (\<lambda>j. job_name j = n \<and> job_id j \<in> set ids) clear_row t"

fun resolve_groups ::
  "dependency list \<Rightarrow> time \<Rightarrow> (str \<times> job list) list \<Rightarrow> job list \<Rightarrow> sql_error + job list" where
  "resolve_groups deps now [] t = Inr t"
| "resolve_groups deps now ((n, rows) # gs) t =
     and_then (decrementDependents n (map job_id rows) deps now t) (\<lambda>(t1, _).
     and_then (clearBlocking n (map job_id rows) t1) (\<lambda>(t2, _). resolve_groups deps now gs t2))"

definition resolveFlowJobsDistributed ::
  "str list \<Rightarrow> bool \<Rightarrow> (str \<times> uuid \<Rightarrow> bool) \<Rightarrow> dependency list \<Rightarrow> time \<Rightarrow> job list \<Rightarrow> nat statement" where
  "resolveFlowJobsDistributed names noSkipLocked locked deps now t = (
     let rows = selectBlockingParents names noSkipLocked locked t in
     if rows = [] then Inr (t, 0)
     else and_then (resolve_groups deps now (group_by job_name rows) t)
       (\<lambda>t'. Inr (t', length rows)))"

section \<open>The resolver\<close>

definition MAX_BATCHES_PER_PASS :: nat where
  "MAX_BATCHES_PER_PASS = 100"

text \<open>The backend's flags: \<^verbatim>\<open>noMultiMutationCte\<close> and \<^verbatim>\<open>noSkipLocked\<close>.\<close>

definition resolve_batch ::
  "bool \<Rightarrow> bool \<Rightarrow> str list \<Rightarrow> (str \<times> uuid \<Rightarrow> bool) \<Rightarrow> dependency list \<Rightarrow> time \<Rightarrow> job list \<Rightarrow> nat statement" where
  "resolve_batch noMultiMutationCte noSkipLocked names locked deps now t =
     (if noMultiMutationCte then resolveFlowJobsDistributed names noSkipLocked locked deps now t
      else resolveFlowJobs names locked deps now t)"

text \<open>The \<^verbatim>\<open>do ... while\<close> of one chunk: batches until one is not full, a hundred at most.\<close>

fun drain ::
  "(job list \<Rightarrow> nat statement) \<Rightarrow> nat \<Rightarrow> job list \<Rightarrow> sql_error + job list" where
  "drain step 0 t = Inr t"
| "drain step (Suc k) t = and_then (step t) (\<lambda>(t', resolved).
     if resolved \<ge> FLOW_BATCH_SIZE then drain step k t' else Inr t')"

text \<open>\<^verbatim>\<open>names.splice(0, 100)\<close> until no name is left.\<close>

function chunks :: "nat \<Rightarrow> 'a list \<Rightarrow> 'a list list" where
  "chunks k xs = (if xs = [] \<or> k = 0 then [] else take k xs # chunks k (drop k xs))"
  by pat_completeness auto
termination by (relation "measure (\<lambda>(k, xs). length xs)") auto

declare chunks.simps [simp del]

fun resolve_chunks ::
  "(str list \<Rightarrow> job list \<Rightarrow> nat statement) \<Rightarrow> str list list \<Rightarrow> job list \<Rightarrow> sql_error + job list" where
  "resolve_chunks step [] t = Inr t"
| "resolve_chunks step (ch # chs) t =
     and_then (drain (step ch) MAX_BATCHES_PER_PASS t) (\<lambda>t'. resolve_chunks step chs t')"

definition resolve_pass ::
  "bool \<Rightarrow> bool \<Rightarrow> (str \<times> uuid \<Rightarrow> bool) \<Rightarrow> dependency list \<Rightarrow> time \<Rightarrow> queue list \<Rightarrow> job list \<Rightarrow>
   sql_error + job list" where
  "resolve_pass noMultiMutationCte noSkipLocked locked deps now qs t =
     resolve_chunks (\<lambda>names. resolve_batch noMultiMutationCte noSkipLocked names locked deps now)
       (concat (map (\<lambda>(_, g). chunks 100 (map q_name g)) (group_by q_table_name qs))) t"

section \<open>The accounting\<close>

text \<open>A parent is open while its row still stands with \<^verbatim>\<open>blocking\<close> set.  The accounting every part
  of the flow code relies on: a blocked job counts its open parents, and has one; a job that runs or
  has completed waits for nothing.\<close>

definition open_parent :: "job list \<Rightarrow> str \<times> uuid \<Rightarrow> bool" where
  "open_parent t k = list_ex (\<lambda>p. job_key p = k \<and> blocking p) t"

definition open_parents :: "job list \<Rightarrow> dependency list \<Rightarrow> str \<times> uuid \<Rightarrow> nat" where
  "open_parents t deps k =
     length (filter (\<lambda>d. dep_child d = k \<and> open_parent t (dep_parent d)) deps)"

definition flow_ok :: "job list \<Rightarrow> dependency list \<Rightarrow> bool" where
  "flow_ok t deps = (\<forall>j\<in>set t. (blocked j \<longrightarrow>
       pending_dependencies j = int (open_parents t deps (job_key j)) \<and> pending_dependencies j > 0) \<and>
     (state j \<in> {Active, Completed} \<longrightarrow> \<not> blocked j))"

end
