(* ===== verification/Fetch.thy ===== *)
theory Fetch
  imports Statements
begin

text \<open>
  The claim of the next jobs of a queue, \<^verbatim>\<open>fetchNextJob\<close> of \<^verbatim>\<open>src/src/plans.ts\<close>: the candidates
  of its \<^verbatim>\<open>next\<close> CTE, the head of each key of a \<^verbatim>\<open>key_strict_fifo\<close> queue, one job per key of a
  \<^verbatim>\<open>singleton\<close> or \<^verbatim>\<open>stately\<close> queue, the group limits, and the update that makes the rows active.
  The rows another session holds a lock on are a parameter: \<^verbatim>\<open>SKIP LOCKED\<close> passes over them.
  Rows that tie on priority and creation time keep their heap order, which is one of the orders
  PostgreSQL may return them in.
\<close>

record group_concurrency =
  gc_default :: int
  gc_tiers :: "(str \<times> int) list"

record fetch_options =
  fo_name :: str
  fo_policy :: queue_policy
  fo_limit :: nat
  fo_ignore_start_after :: bool
  fo_ignore_groups :: "str list option"
  fo_group_concurrency :: "group_concurrency option"
  fo_min_priority :: "int option"
  fo_max_priority :: "int option"

definition singleton_policy :: "fetch_options \<Rightarrow> bool" where
  "singleton_policy opt = (fo_policy opt = Singleton \<or> fo_policy opt = Stately)"

definition singleton_fetch :: "fetch_options \<Rightarrow> bool" where
  "singleton_fetch opt = (1 < fo_limit opt \<and> singleton_policy opt)"

definition has_tiers :: "fetch_options \<Rightarrow> bool" where
  "has_tiers opt = (case fo_group_concurrency opt of None \<Rightarrow> False
     | Some g \<Rightarrow> gc_tiers g \<noteq> [])"

definition single_group_concurrency :: "fetch_options \<Rightarrow> bool" where
  "single_group_concurrency opt = (case fo_group_concurrency opt of None \<Rightarrow> False
     | Some g \<Rightarrow> gc_tiers g = [] \<and> gc_default g = 1)"

definition active_group_counts :: "fetch_options \<Rightarrow> bool" where
  "active_group_counts opt =
     (fo_group_concurrency opt \<noteq> None \<and> \<not> single_group_concurrency opt)"

text \<open>\<^verbatim>\<open>groupLimit\<close>: the tier's limit when the job names a tier the options list.\<close>

definition group_limit :: "group_concurrency \<Rightarrow> str option \<Rightarrow> int" where
  "group_limit g tier = (case tier of None \<Rightarrow> gc_default g
     | Some t \<Rightarrow> coalesce (map_of (gc_tiers g) t) (gc_default g))"

definition active_in_group :: "str \<Rightarrow> str \<Rightarrow> job list \<Rightarrow> nat" where
  "active_in_group n g t =
     length (filter (\<lambda>b. job_name b = n \<and> state b = Active \<and> group_id b = Some g) t)"

section \<open>The candidates\<close>

definition head_candidate :: "fetch_options \<Rightarrow> time \<Rightarrow> job \<Rightarrow> bool" where
  "head_candidate opt now h = (job_name h = fo_name opt \<and> state h < Active \<and> \<not> blocked h \<and>
     policy h = Some KeyStrictFifo \<and> (fo_ignore_start_after opt \<or> start_after h \<le> now))"

text \<open>The order of \<^verbatim>\<open>strict_fifo_heads\<close> within a key: \<^verbatim>\<open>state DESC, created_on, id\<close>.\<close>

definition head_before :: "job \<Rightarrow> job \<Rightarrow> bool" where
  "head_before a b = (state b < state a \<or>
     (state a = state b \<and> (created_on a < created_on b \<or>
       (created_on a = created_on b \<and> job_id a < job_id b))))"

definition strict_fifo_heads :: "fetch_options \<Rightarrow> time \<Rightarrow> job list \<Rightarrow> uuid list" where
  "strict_fifo_heads opt now t = (let cs = filter (head_candidate opt now) t in
     map job_id (filter (\<lambda>h. \<not> list_ex (\<lambda>c. singleton_key c = singleton_key h \<and>
       head_before c h) cs) cs))"

definition fifo_blocked :: "job list \<Rightarrow> job \<Rightarrow> bool" where
  "fifo_blocked t j = list_ex (\<lambda>b. job_name b = job_name j \<and> singleton_key b \<noteq> None \<and>
     singleton_key b = singleton_key j \<and> state b \<in> {Active, Retry, Failed} \<and>
     policy b = Some KeyStrictFifo \<and> job_id b \<noteq> job_id j) t"

definition singleton_blocked :: "queue_policy \<Rightarrow> job list \<Rightarrow> job \<Rightarrow> bool" where
  "singleton_blocked pol t j = list_ex (\<lambda>b. job_name b = job_name j \<and> state b = Active \<and>
     policy b = Some pol \<and> skey b = skey j) t"

definition group_free :: "fetch_options \<Rightarrow> job list \<Rightarrow> job \<Rightarrow> bool" where
  "group_free opt t j = (case fo_group_concurrency opt of None \<Rightarrow> True
     | Some gc \<Rightarrow> (case group_id j of None \<Rightarrow> True
       | Some g \<Rightarrow>
          if single_group_concurrency opt then active_in_group (fo_name opt) g t = 0
          else int (active_in_group (fo_name opt) g t) < group_limit gc (group_tier j)))"

definition candidate :: "fetch_options \<Rightarrow> time \<Rightarrow> job list \<Rightarrow> job \<Rightarrow> bool" where
  "candidate opt now t j = (
     job_name j = fo_name opt \<and>
     state j < Active \<and>
     \<not> blocked j \<and>
     (fo_ignore_start_after opt \<or> start_after j \<le> now) \<and>
     (fo_policy opt = KeyStrictFifo \<longrightarrow>
        job_id j \<in> set (strict_fifo_heads opt now t) \<and> \<not> fifo_blocked t j) \<and>
     (singleton_policy opt \<longrightarrow> \<not> singleton_blocked (fo_policy opt) t j) \<and>
     (case fo_ignore_groups opt of None \<Rightarrow> True
        | Some gs \<Rightarrow> (case group_id j of None \<Rightarrow> True | Some g \<Rightarrow> g \<notin> set gs)) \<and>
     (case fo_min_priority opt of None \<Rightarrow> True | Some p \<Rightarrow> p \<le> priority j) \<and>
     (case fo_max_priority opt of None \<Rightarrow> True | Some p \<Rightarrow> priority j \<le> p) \<and>
     group_free opt t j)"

definition fetch_order :: "job \<Rightarrow> int \<times> time" where
  "fetch_order j = (- priority j, created_on j)"

definition next_cte :: "fetch_options \<Rightarrow> (uuid \<Rightarrow> bool) \<Rightarrow> time \<Rightarrow> job list \<Rightarrow> job list" where
  "next_cte opt locked now t = take (fo_limit opt)
     (filter (\<lambda>j. \<not> locked (job_id j)) (sort_key fetch_order (filter (candidate opt now t) t)))"

text \<open>\<^verbatim>\<open>singleton_ranking\<close> with \<^verbatim>\<open>singleton_rn = 1\<close>: the first row of each \<^verbatim>\<open>singleton_key\<close>, the
  null key being one partition.\<close>

fun first_per :: "('a \<Rightarrow> 'k) \<Rightarrow> 'a list \<Rightarrow> 'a list" where
  "first_per k [] = []"
| "first_per k (x # xs) = x # first_per k (filter (\<lambda>y. k y \<noteq> k x) xs)"

definition singleton_ranked :: "fetch_options \<Rightarrow> job list \<Rightarrow> job list" where
  "singleton_ranked opt rows =
     (if singleton_fetch opt then first_per singleton_key rows else rows)"

text \<open>\<^verbatim>\<open>group_rn\<close>: the rank by id within the group; \<^verbatim>\<open>group_filtered\<close> keeps the rows whose rank
  fits on top of the group's active jobs.\<close>

definition group_rn :: "job list \<Rightarrow> job \<Rightarrow> nat" where
  "group_rn rows j = length (filter (\<lambda>b. group_id b = group_id j \<and> job_id b \<le> job_id j) rows)"

definition group_filtered :: "fetch_options \<Rightarrow> job list \<Rightarrow> job list \<Rightarrow> job list" where
  "group_filtered opt t rows = (case fo_group_concurrency opt of None \<Rightarrow> rows
     | Some gc \<Rightarrow> filter (\<lambda>j. case group_id j of None \<Rightarrow> True
         | Some g \<Rightarrow>
            (if active_group_counts opt then int (active_in_group (fo_name opt) g t) else 0)
              + int (group_rn rows j) \<le> group_limit gc (group_tier j)) rows)"

definition fetch_selected ::
  "fetch_options \<Rightarrow> (uuid \<Rightarrow> bool) \<Rightarrow> time \<Rightarrow> job list \<Rightarrow> job list" where
  "fetch_selected opt locked now t =
     group_filtered opt t (singleton_ranked opt (next_cte opt locked now t))"

section \<open>The claim\<close>

definition claim_row :: "time \<Rightarrow> job \<Rightarrow> job" where
  "claim_row now j = j\<lparr>
     state := Active,
     started_on := Some now,
     heartbeat_on := Some now,
     retry_count := (if started_on j \<noteq> None then retry_count j + 1 else retry_count j)\<rparr>"

definition fetchNextJob ::
  "fetch_options \<Rightarrow> bool \<Rightarrow> (uuid \<Rightarrow> bool) \<Rightarrow> time \<Rightarrow> job list \<Rightarrow> job list statement" where
  "fetchNextJob opt noSkipLocked locked now t = (
     let skip = (if noSkipLocked then (\<lambda>_. False) else locked);
         ids = map job_id (fetch_selected opt skip now t)
     in run_update (\<lambda>j. job_name j = fo_name opt \<and> job_id j \<in> set ids \<and>
                       (noSkipLocked \<longrightarrow> state j < Active))
          (claim_row now) t)"

section \<open>What is selected\<close>

lemma first_per_subset: "set (first_per k xs) \<subseteq> set xs"
  by (induction k xs rule: first_per.induct) auto

lemma first_per_length: "length (first_per k xs) \<le> length xs"
proof (induction k xs rule: first_per.induct)
  case (2 k x xs)
  thus ?case using le_trans [OF _ length_filter_le [of "\<lambda>y. k y \<noteq> k x" xs]] by simp
qed simp

lemma first_per_distinct: "distinct (map k (first_per k xs))"
proof (induction k xs rule: first_per.induct)
  case (2 k x xs)
  have "k x \<notin> k ` set (first_per k (filter (\<lambda>y. k y \<noteq> k x) xs))"
    using first_per_subset [of k "filter (\<lambda>y. k y \<noteq> k x) xs"] by auto
  thus ?case using 2 by simp
qed simp

lemma next_cte_sub:
  "j \<in> set (next_cte opt l now t) \<Longrightarrow> j \<in> set t \<and> candidate opt now t j \<and> \<not> l (job_id j)"
  unfolding next_cte_def by (drule in_set_takeD) simp

lemma selected_sub_next:
  "set (fetch_selected opt l now t) \<subseteq> set (next_cte opt l now t)"
  using first_per_subset [of singleton_key "next_cte opt l now t"]
  by (auto simp: fetch_selected_def group_filtered_def singleton_ranked_def
      split: option.splits if_splits)

lemma selected_sub:
  assumes "j \<in> set (fetch_selected opt l now t)"
  shows "j \<in> set t" "candidate opt now t j" "\<not> l (job_id j)"
  using assms selected_sub_next next_cte_sub by blast+

lemma candidate_basic:
  assumes "candidate opt now t j"
  shows "job_name j = fo_name opt" "state j = Created \<or> state j = Retry" "\<not> blocked j"
    "fo_ignore_start_after opt \<or> start_after j \<le> now"
  using assms by (auto simp: candidate_def)

lemma next_length: "length (next_cte opt l now t) \<le> fo_limit opt"
  by (simp add: next_cte_def)

lemma selected_length: "length (fetch_selected opt l now t) \<le> fo_limit opt"
proof -
  have "length (singleton_ranked opt (next_cte opt l now t)) \<le> length (next_cte opt l now t)"
    by (simp add: singleton_ranked_def first_per_length)
  moreover have "length (fetch_selected opt l now t)
      \<le> length (singleton_ranked opt (next_cte opt l now t))"
    by (auto simp: fetch_selected_def group_filtered_def split: option.splits)
  ultimately show ?thesis using next_length [of opt l now t] by linarith
qed

text \<open>The id of a candidate names its row, since the queue's ids are distinct.\<close>

lemma id_names_row:
  "table_ok t \<Longrightarrow> x \<in> set t \<Longrightarrow> y \<in> set t \<Longrightarrow> job_name x = job_name y \<Longrightarrow>
    job_id x = job_id y \<Longrightarrow> x = y"
  by (rule table_ok_key_eq) (auto simp: job_key_def)

lemma selected_ids:
  assumes ok: "table_ok t" and j: "j \<in> set t"
  shows "(job_name j = fo_name opt \<and> job_id j \<in> set (map job_id (fetch_selected opt l now t)) \<and>
      (b \<longrightarrow> state j < Active)) = (j \<in> set (fetch_selected opt l now t))"
proof
  assume l: "job_name j = fo_name opt \<and>
    job_id j \<in> set (map job_id (fetch_selected opt l now t)) \<and> (b \<longrightarrow> state j < Active)"
  then obtain s where s: "s \<in> set (fetch_selected opt l now t)" "job_id s = job_id j" by auto
  hence "s \<in> set t" "job_name s = fo_name opt"
    using selected_sub [OF s(1)] candidate_basic(1) by auto
  thus "j \<in> set (fetch_selected opt l now t)" using l s id_names_row [OF ok _ j] by metis
next
  assume "j \<in> set (fetch_selected opt l now t)"
  thus "job_name j = fo_name opt \<and>
    job_id j \<in> set (map job_id (fetch_selected opt l now t)) \<and> (b \<longrightarrow> state j < Active)"
    using selected_sub(2) candidate_basic(1,2) by fastforce
qed

text \<open>So the claim is an update of exactly the selected rows.\<close>

abbreviation effective_locks :: "bool \<Rightarrow> (uuid \<Rightarrow> bool) \<Rightarrow> uuid \<Rightarrow> bool" where
  "effective_locks noSkipLocked locked \<equiv> (if noSkipLocked then (\<lambda>_. False) else locked)"

lemma fetch_update:
  assumes ok: "table_ok t"
  shows "fetchNextJob opt d l now t = run_update
    (\<lambda>j. j \<in> set (fetch_selected opt (effective_locks d l) now t)) (claim_row now) t"
proof -
  let ?sel = "fetch_selected opt (effective_locks d l) now t"
  let ?p = "\<lambda>j. job_name j = fo_name opt \<and> job_id j \<in> set (map job_id ?sel) \<and>
    (d \<longrightarrow> state j < Active)"
  have eq: "?p j = (j \<in> set ?sel)" if "j \<in> set t" for j
    using that by (rule selected_ids [OF ok])
  have "filter ?p t = filter (\<lambda>j. j \<in> set ?sel) t"
    using eq by (rule filter_cong [OF refl])
  moreover have "upd_where ?p (claim_row now) t = upd_where (\<lambda>j. j \<in> set ?sel) (claim_row now) t"
    unfolding upd_where_def using eq by (intro map_cong) auto
  ultimately show ?thesis unfolding fetchNextJob_def run_update_def Let_def by presburger
qed

section \<open>The claim keeps the unique indexes\<close>

lemma claim_entries:
  assumes "state j = Created \<or> state j = Retry"
  shows "job_key (claim_row now j) = job_key j" "job_i1 (claim_row now j) = None"
    "job_i2 (claim_row now j) = (if policy j = Some Singleton then Some (job_name j, skey j) else None)"
    "job_i3 (claim_row now j) =
       (if policy j = Some Stately then Some (job_name j, Active, skey j) else None)"
    "job_i4 (claim_row now j) = job_i4 j" "job_i6 (claim_row now j) = job_i6 j"
    "job_i8 (claim_row now j) = (case singleton_key j of None \<Rightarrow> None
       | Some k \<Rightarrow> if policy j = Some KeyStrictFifo then Some (job_name j, k) else None)"
    "job_i13 (claim_row now j) = None"
  using assms by (auto simp: claim_row_def index_defs job_key_def skey_def split: option.splits)

lemma claim_check [simp]: "key_check (claim_row now j) = key_check j"
  by (simp add: claim_row_def key_check_def)

lemma claim_conflict:
  assumes "state x = Created \<or> state x = Retry" "conflict (claim_row now x) z" "\<not> conflict x z"
  shows "(policy x = Some Singleton \<and> job_i2 z = Some (job_name x, skey x)) \<or>
    (policy x = Some Stately \<and> job_i3 z = Some (job_name x, Active, skey x)) \<or>
    (policy x = Some KeyStrictFifo \<and>
      (\<exists>k. singleton_key x = Some k \<and> job_i8 z = Some (job_name x, k)))"
proof -
  note e = claim_entries [OF assms(1)]
  have "job_key x \<noteq> job_key z" "\<not> same_entry (job_i4 x) (job_i4 z)"
    "\<not> same_entry (job_i6 x) (job_i6 z)"
    using assms(3) by (simp_all add: conflict_def)
  hence "same_entry (job_i2 (claim_row now x)) (job_i2 z) \<or>
      same_entry (job_i3 (claim_row now x)) (job_i3 z) \<or>
      same_entry (job_i8 (claim_row now x)) (job_i8 z)"
    using assms(2) by (simp add: conflict_def e)
  thus ?thesis unfolding e
    by (elim disjE same_entry_E) (auto split: if_splits option.splits)
qed

text \<open>The jobs of a queue carry the queue's policy, or none when they are dead letter copies.\<close>

definition policies_of_queue :: "fetch_options \<Rightarrow> job list \<Rightarrow> bool" where
  "policies_of_queue opt t = list_all (\<lambda>j. job_name j = fo_name opt \<longrightarrow>
     policy j = None \<or> policy j = Some (fo_policy opt)) t"

definition no_empty_key :: "fetch_options \<Rightarrow> job list \<Rightarrow> bool" where
  "no_empty_key opt t = list_all (\<lambda>j. job_name j = fo_name opt \<longrightarrow>
     singleton_key j \<noteq> Some []) t"

lemma head_total:
  "job_id x \<noteq> job_id y \<Longrightarrow> head_before x y \<or> head_before y x"
  by (auto simp: head_before_def neq_iff)

lemma heads_same_key:
  assumes ok: "table_ok t" and "x \<in> set t" "y \<in> set t"
    and n: "job_name x = fo_name opt" "job_name y = fo_name opt"
    and h: "job_id x \<in> set (strict_fifo_heads opt now t)"
      "job_id y \<in> set (strict_fifo_heads opt now t)"
    and k: "singleton_key x = singleton_key y"
  shows "x = y"
proof -
  have head: "head_candidate opt now z \<and> \<not> list_ex (\<lambda>c. singleton_key c = singleton_key z \<and>
      head_before c z) (filter (head_candidate opt now) t)"
    if z: "z \<in> set t" "job_name z = fo_name opt" "job_id z \<in> set (strict_fifo_heads opt now t)" for z
  proof -
    obtain h where h: "h \<in> set t" "head_candidate opt now h" "job_id h = job_id z"
      "\<not> list_ex (\<lambda>c. singleton_key c = singleton_key h \<and> head_before c h)
        (filter (head_candidate opt now) t)"
      using z(3) by (auto simp: strict_fifo_heads_def Let_def)
    moreover have "h = z"
      using h z by (intro id_names_row [OF ok]) (auto simp: head_candidate_def)
    ultimately show ?thesis by simp
  qed
  have "\<not> head_before x y" "\<not> head_before y x"
    using head [of x] head [of y] assms by (auto simp: list_ex_iff)
  hence "job_id x = job_id y" using head_total by blast
  thus ?thesis using assms id_names_row by metis
qed

lemma selected_skey_distinct:
  assumes "singleton_policy opt" "no_empty_key opt t \<or> fo_limit opt \<le> 1"
    and x: "x \<in> set (fetch_selected opt l now t)" and y: "y \<in> set (fetch_selected opt l now t)"
    and k: "skey x = skey y"
  shows "x = y"
proof (cases "1 < fo_limit opt")
  case False
  hence "length (fetch_selected opt l now t) \<le> 1" using selected_length [of opt l now t] by simp
  thus ?thesis using x y by (cases "fetch_selected opt l now t") auto
next
  case True
  have in_ranked: "z \<in> set (first_per singleton_key (next_cte opt l now t))"
    if "z \<in> set (fetch_selected opt l now t)" for z
    using that True assms(1)
    by (auto simp: fetch_selected_def group_filtered_def singleton_ranked_def singleton_fetch_def
        split: option.splits)
  have "singleton_key z \<noteq> Some []" if "z \<in> set (fetch_selected opt l now t)" for z
    using that selected_sub [OF that] candidate_basic(1) [of opt now t z] assms(2) True
    by (auto simp: no_empty_key_def list_all_iff)
  hence "singleton_key x = singleton_key y"
    using k x y by (auto simp: skey_def coalesce_def split: option.splits)
  thus ?thesis
    using distinct_map_inj [OF first_per_distinct in_ranked [OF x] in_ranked [OF y]] by blast
qed

lemma claim_no_conflict_unselected:
  assumes ok: "table_ok t" and pol: "policies_of_queue opt t"
    and x: "x \<in> set (fetch_selected opt l now t)" and y: "y \<in> set t" and ne: "\<not> conflict x y"
  shows "\<not> conflict (claim_row now x) y"
proof
  assume c: "conflict (claim_row now x) y"
  note xt = selected_sub(1) [OF x] and cand = selected_sub(2) [OF x]
  note b = candidate_basic [OF cand]
  have px: "policy x = None \<or> policy x = Some (fo_policy opt)"
    using pol xt b(1) by (auto simp: policies_of_queue_def list_all_iff)
  have idne: "job_name y = job_name x \<Longrightarrow> job_id y \<noteq> job_id x"
    using ne by (auto simp: conflict_def job_key_def)
  have "(singleton_policy opt \<longrightarrow> \<not> singleton_blocked (fo_policy opt) t x) \<and>
      (fo_policy opt = KeyStrictFifo \<longrightarrow> \<not> fifo_blocked t x)"
    using cand by (simp add: candidate_def)
  thus False
    using claim_conflict [OF b(2) c ne] px y idne
    by (auto simp: index_defs singleton_blocked_def fifo_blocked_def list_ex_iff singleton_policy_def
        split: if_splits option.splits)
qed

text \<open>The statement never fails on an index: that is what its conditions are for.\<close>

lemma fetch_keeps_ok:
  assumes ok: "table_ok t" and pol: "policies_of_queue opt t"
    and keys: "no_empty_key opt t \<or> fo_limit opt \<le> 1"
  shows "table_ok (upd_where (\<lambda>j. j \<in> set (fetch_selected opt l now t)) (claim_row now) t)"
    (is "table_ok (upd_where ?p _ _)")
proof -
  have both: "\<not> conflict (claim_row now x) (claim_row now y)"
    if x: "?p x" and y: "?p y" and ne: "\<not> conflict x y" for x y
  proof
    assume c: "conflict (claim_row now x) (claim_row now y)"
    note bx = candidate_basic [OF selected_sub(2) [OF x]]
      and b2 = candidate_basic [OF selected_sub(2) [OF y]]
    have "\<not> conflict (claim_row now y) x"
      using claim_no_conflict_unselected [OF ok pol y selected_sub(1) [OF x]] ne conflict_sym by blast
    hence nxy: "\<not> conflict x (claim_row now y)" using conflict_sym by blast
    have px: "policy x = None \<or> policy x = Some (fo_policy opt)"
      using pol selected_sub(1) [OF x] bx(1) by (auto simp: policies_of_queue_def list_all_iff)
    have pol_cases: "singleton_policy opt \<and> skey x = skey y \<or>
        fo_policy opt = KeyStrictFifo \<and> singleton_key x = singleton_key y"
      using claim_conflict [OF bx(2) c nxy] px unfolding claim_entries [OF b2(2)]
      by (auto simp: singleton_policy_def split: if_splits option.splits)
    from pol_cases have "x = y"
    proof (elim disjE conjE)
      assume "singleton_policy opt" "skey x = skey y"
      thus ?thesis using selected_skey_distinct [OF _ keys x y] by blast
    next
      assume kf: "fo_policy opt = KeyStrictFifo" and k: "singleton_key x = singleton_key y"
      hence "job_id x \<in> set (strict_fifo_heads opt now t)" "job_id y \<in> set (strict_fifo_heads opt now t)"
        using selected_sub(2) [OF x] selected_sub(2) [OF y] by (simp_all add: candidate_def)
      thus ?thesis
        using heads_same_key [OF ok selected_sub(1) [OF x] selected_sub(1) [OF y] bx(1) b2(1) _ _ k]
        by blast
    qed
    thus False using ne conflict_same_key by blast
  qed
  have "sorted_wrt (\<lambda>a b. \<not> conflict a b) (upd_where ?p (claim_row now) t)"
  proof (rule sorted_wrt_upd_where)
    show "sorted_wrt (\<lambda>a b. \<not> conflict a b) t" using ok by (simp add: table_ok_def)
    fix x y assume xy: "x \<in> set t" "y \<in> set t" and ne: "\<not> conflict x y"
    have "\<not> conflict y x" using ne by (simp add: conflict_sym [of y x])
    hence "?p y \<Longrightarrow> \<not> conflict x (claim_row now y)"
      using claim_no_conflict_unselected [OF ok pol _ xy(1)]
      by (simp add: conflict_sym [of x "claim_row now y"])
    thus "\<not> conflict (if ?p x then claim_row now x else x) (if ?p y then claim_row now y else y)"
      using both [OF _ _ ne] claim_no_conflict_unselected [OF ok pol _ xy(2) ne] ne by simp
  qed
  moreover have "list_all key_check (upd_where ?p (claim_row now) t)"
    using ok by (auto simp: list_all_iff set_upd_where table_ok_def)
  ultimately show ?thesis by (simp add: table_ok_def)
qed

section \<open>What a claim does\<close>

lemma fetch_result:
  assumes "table_ok t" "fetchNextJob opt d l now t = Inr (t', rs)"
  shows "t' = upd_where (\<lambda>j. j \<in> set (fetch_selected opt (effective_locks d l) now t))
      (claim_row now) t"
    "rs = map (claim_row now)
      (filter (\<lambda>j. j \<in> set (fetch_selected opt (effective_locks d l) now t)) t)"
    "table_ok t'"
  using assms by (auto simp: fetch_update run_update_Inr)

lemma next_distinct:
  assumes "table_ok t" shows "distinct (map job_key (next_cte opt l now t))"
proof -
  have "distinct (map job_key (sort_key fetch_order (filter (candidate opt now t) t)))"
    using distinct_filter_map [OF table_ok_distinct [OF assms]] by (simp add: distinct_map)
  thus ?thesis unfolding next_cte_def
    by (metis distinct_filter_map distinct_take take_map)
qed

lemma first_per_distinct_map:
  "distinct (map g xs) \<Longrightarrow> distinct (map g (first_per k xs))"
proof (induction k xs rule: first_per.induct)
  case (2 k x xs)
  have "g x \<notin> g ` set (first_per k (filter (\<lambda>y. k y \<noteq> k x) xs))"
    using "2.prems" first_per_subset [of k "filter (\<lambda>y. k y \<noteq> k x) xs"] by auto
  thus ?case using 2 distinct_filter_map [of g xs] by simp
qed simp

lemma ranked_distinct:
  "table_ok t \<Longrightarrow> distinct (map job_key (singleton_ranked opt (next_cte opt l now t)))"
  by (simp add: singleton_ranked_def next_distinct first_per_distinct_map)

lemma selected_distinct:
  "table_ok t \<Longrightarrow> distinct (map job_key (fetch_selected opt l now t))"
  by (auto simp: fetch_selected_def group_filtered_def ranked_distinct distinct_filter_map
      split: option.splits)

lemma distinct_of_map: "distinct (map g xs) \<Longrightarrow> distinct xs"
  by (simp add: distinct_map)

lemma fetch_count:
  assumes "table_ok t" "fetchNextJob opt d l now t = Inr (t', rs)"
  shows "length rs = length (fetch_selected opt (effective_locks d l) now t)"
proof -
  let ?sel = "fetch_selected opt (effective_locks d l) now t"
  have "distinct (filter (\<lambda>j. j \<in> set ?sel) t)"
    using distinct_of_map [OF table_ok_distinct [OF assms(1)]] by simp
  moreover have "set (filter (\<lambda>j. j \<in> set ?sel) t) = set ?sel" using selected_sub(1) by auto
  moreover have "distinct ?sel" using distinct_of_map selected_distinct assms(1) by blast
  ultimately have "length (filter (\<lambda>j. j \<in> set ?sel) t) = length ?sel"
    by (metis distinct_card)
  thus ?thesis using fetch_result(2) [OF assms] by simp
qed

text \<open>The order of the candidates: a candidate that was passed over ranks behind the ones taken.\<close>

lemma sorted_take_le:
  assumes "sorted (map f xs)" "x \<in> set (take n xs)" "y \<in> set xs" "y \<notin> set (take n xs)"
  shows "f x \<le> f y"
proof -
  have "y \<in> set (drop n xs)" using assms(3,4) append_take_drop_id [of n xs] by (metis Un_iff set_append)
  moreover have "sorted (map f (take n xs) @ map f (drop n xs))"
    using assms(1) by (metis append_take_drop_id map_append)
  ultimately show ?thesis using assms(2) by (auto simp: sorted_append)
qed

lemma sorted_map_filter: "sorted (map f xs) \<Longrightarrow> sorted (map f (filter p xs))"
  by (rule sorted_filter)

lemma next_order:
  assumes "x \<in> set (next_cte opt l now t)" "y \<in> set t" "candidate opt now t y"
    "\<not> l (job_id y)" "y \<notin> set (next_cte opt l now t)"
  shows "fetch_order x \<le> fetch_order y"
proof -
  let ?xs = "filter (\<lambda>j. \<not> l (job_id j)) (sort_key fetch_order (filter (candidate opt now t) t))"
  have "sorted (map fetch_order ?xs)" by (intro sorted_map_filter sorted_sort_key)
  thus ?thesis using assms by (intro sorted_take_le [of fetch_order ?xs x "fo_limit opt" y])
      (auto simp: next_cte_def)
qed

lemma next_full:
  assumes "y \<in> set t" "candidate opt now t y" "\<not> l (job_id y)" "y \<notin> set (next_cte opt l now t)"
  shows "length (next_cte opt l now t) = fo_limit opt"
proof -
  let ?xs = "filter (\<lambda>j. \<not> l (job_id j)) (sort_key fetch_order (filter (candidate opt now t) t))"
  have "y \<in> set ?xs" using assms by simp
  hence "\<not> length ?xs \<le> fo_limit opt" using assms(4) by (auto simp: next_cte_def)
  thus ?thesis by (simp add: next_cte_def)
qed

section \<open>Group limits\<close>

lemma active_after_claim:
  assumes "table_ok t" "\<And>j. j \<in> set sel \<Longrightarrow> j \<in> set t \<and> job_name j = n \<and> state j < Active"
    "distinct sel"
  shows "active_in_group n g (upd_where (\<lambda>j. j \<in> set sel) (claim_row now) t) =
    active_in_group n g t + length (filter (\<lambda>j. group_id j = Some g) sel)"
proof -
  let ?u = "upd_where (\<lambda>j. j \<in> set sel) (claim_row now)"
  have "active_in_group n g (?u xs) = active_in_group n g xs +
      length (filter (\<lambda>j. j \<in> set sel \<and> group_id j = Some g) xs)" if "set xs \<subseteq> set t" for xs
    using that
  proof (induction xs)
    case (Cons a xs)
    have "a \<in> set sel \<Longrightarrow> state a \<noteq> Active \<and> job_name a = n" using assms(2) [of a] by auto
    thus ?case using Cons by (cases "a \<in> set sel") (simp_all add: active_in_group_def claim_row_def)
  qed (simp add: active_in_group_def)
  moreover have "length (filter (\<lambda>j. j \<in> set sel \<and> group_id j = Some g) t) =
      length (filter (\<lambda>j. group_id j = Some g) sel)"
  proof -
    have "set (filter (\<lambda>j. j \<in> set sel \<and> group_id j = Some g) t) =
        set (filter (\<lambda>j. group_id j = Some g) sel)" using assms(2) by auto
    moreover have "distinct (filter (\<lambda>j. j \<in> set sel \<and> group_id j = Some g) t)"
      using distinct_of_map [OF table_ok_distinct [OF assms(1)]] by simp
    moreover have "distinct (filter (\<lambda>j. group_id j = Some g) sel)" using assms(3) by simp
    ultimately show ?thesis by (simp only: distinct_card [symmetric])
  qed
  ultimately show ?thesis by simp
qed

lemma group_rank_bound:
  assumes d: "distinct (map job_key rows)" and sub: "set sel \<subseteq> set rows" and ds: "distinct sel"
    and m: "m \<in> set sel" "group_id m = Some g"
    and mx: "\<And>b. b \<in> set sel \<Longrightarrow> group_id b = Some g \<Longrightarrow> job_id b \<le> job_id m"
  shows "length (filter (\<lambda>j. group_id j = Some g) sel) \<le> group_rn rows m"
proof -
  have "set (filter (\<lambda>j. group_id j = Some g) sel)
      \<subseteq> set (filter (\<lambda>b. group_id b = group_id m \<and> job_id b \<le> job_id m) rows)"
    using sub m mx by auto
  hence "card (set (filter (\<lambda>j. group_id j = Some g) sel))
      \<le> card (set (filter (\<lambda>b. group_id b = group_id m \<and> job_id b \<le> job_id m) rows))"
    by (intro card_mono) auto
  moreover have "distinct (filter (\<lambda>j. group_id j = Some g) sel)"
    "distinct (filter (\<lambda>b. group_id b = group_id m \<and> job_id b \<le> job_id m) rows)"
    using ds distinct_of_map [OF d] by simp_all
  ultimately show ?thesis unfolding group_rn_def by (simp only: distinct_card)
qed

lemma selected_is_head:
  assumes ok: "table_ok t" and s: "j \<in> set (fetch_selected opt l now t)"
    and pol: "fo_policy opt = KeyStrictFifo"
    and b: "b \<in> set t" "head_candidate opt now b" "singleton_key b = singleton_key j"
      "job_id b \<noteq> job_id j"
  shows "head_before j b"
proof -
  note sub = selected_sub [OF s]
  have nm: "job_name j = fo_name opt" using candidate_basic(1) [OF sub(2)] .
  obtain h where h: "h \<in> set t" "head_candidate opt now h" "job_id h = job_id j"
    "\<forall>c\<in>set t. head_candidate opt now c \<and> singleton_key c = singleton_key h \<longrightarrow> \<not> head_before c h"
    using sub(2) pol by (auto simp: candidate_def strict_fifo_heads_def Let_def list_ex_iff)
  have "h = j"
    using h sub(1) nm by (intro id_names_row [OF ok]) (auto simp: head_candidate_def)
  thus ?thesis using h b head_total [of j b] by auto
qed

end
