(* ===== verification/Fetch_Props.thy ===== *)
theory Fetch_Props
  imports Fetch
begin

text \<open>
  The properties of the claim: what a fetched job was, that the claim cannot break an index, the
  order jobs are taken in, the group limit and the head of a strict FIFO key.
\<close>

section \<open>Samples\<close>

text \<open>A queued job and the options of a plain fetch, for the instances.\<close>

definition sample_job :: "uuid \<Rightarrow> str \<Rightarrow> time \<Rightarrow> job" where
  "sample_job i n now = job_defaults i n now"

definition sample_fetch :: "str \<Rightarrow> queue_policy \<Rightarrow> nat \<Rightarrow> fetch_options" where
  "sample_fetch n pol k = \<lparr>fo_name = n, fo_policy = pol, fo_limit = k,
     fo_ignore_start_after = False, fo_ignore_groups = None, fo_group_concurrency = None,
     fo_min_priority = None, fo_max_priority = None\<rparr>"

lemmas eval_defs = sample_job_def sample_fetch_def job_defaults_def table_ok_def conflict_def
  index_defs key_check_def job_key_def skey_def policies_of_queue_def no_empty_key_def

lemmas fetch_eval = fetchNextJob_def fetch_selected_def next_cte_def candidate_def
  singleton_policy_def group_free_def singleton_ranked_def singleton_fetch_def group_filtered_def
  claim_row_def fetch_order_def strict_fifo_heads_def head_candidate_def fifo_blocked_def
  singleton_blocked_def

section \<open>Properties\<close>

text \<open>(C1) A fetch never fails: on a table that keeps its constraints, whose jobs of the queue carry
  the queue's policy and no empty singleton key (or a fetch of one job), the claim succeeds, breaks
  no unique index, and returns at most as many jobs as asked for.\<close>

theorem fetch_succeeds:
  assumes "table_ok t" "policies_of_queue opt t" "no_empty_key opt t \<or> fo_limit opt \<le> 1"
  shows "\<exists>t' rs. fetchNextJob opt d l now t = Inr (t', rs) \<and> table_ok t' \<and>
    length rs \<le> fo_limit opt"
proof -
  let ?p = "\<lambda>j. j \<in> set (fetch_selected opt (effective_locks d l) now t)"
  have "table_ok (upd_where ?p (claim_row now) t)" using assms by (rule fetch_keeps_ok)
  hence eq: "fetchNextJob opt d l now t =
      Inr (upd_where ?p (claim_row now) t, map (claim_row now) (filter ?p t))"
    by (simp add: fetch_update assms(1) run_update_Inr)
  show ?thesis
    using eq fetch_count [OF assms(1) eq] selected_length [of opt "effective_locks d l" now t]
      fetch_result(3) [OF assms(1) eq] by auto
qed

lemma fetch_succeeds_witness:
  "\<exists>t' rs. fetchNextJob (sample_fetch ''q'' Singleton 2) False (\<lambda>_. False) 9
      [sample_job 1 ''q'' 5 \<lparr>policy := Some Singleton\<rparr>,
       sample_job 2 ''q'' 5 \<lparr>policy := Some Singleton\<rparr>] = Inr (t', rs) \<and> table_ok t' \<and>
    length rs \<le> 2"
  using fetch_succeeds [of "[sample_job 1 ''q'' 5 \<lparr>policy := Some Singleton\<rparr>,
       sample_job 2 ''q'' 5 \<lparr>policy := Some Singleton\<rparr>]" "sample_fetch ''q'' Singleton 2"
       False "\<lambda>_. False" 9]
  by (simp add: eval_defs)

text \<open>Without that condition on the empty key the fetch does fail: a \<^verbatim>\<open>singleton\<close> queue holding
  one job without a key and one whose key is the empty string ranks them as two keys, while the
  index \<^verbatim>\<open>job_i2\<close> takes them for one, so a fetch of two jobs raises a unique violation and neither
  job can be claimed.\<close>

theorem fetch_empty_key_violation:
  "fetchNextJob (sample_fetch ''q'' Singleton 2) False (\<lambda>_. False) 9
      [sample_job 1 ''q'' 5 \<lparr>policy := Some Singleton\<rparr>,
       sample_job 2 ''q'' 5 \<lparr>policy := Some Singleton, singleton_key := Some []\<rparr>]
    = Inl UniqueViolation"
  by (simp add: eval_defs fetch_eval run_update_def check_table_def and_then_def)

text \<open>What a worker may be handed: a job that waits in the queue, is due, not blocked, not locked by
  another session and within the priority range.\<close>

definition claimable :: "fetch_options \<Rightarrow> (uuid \<Rightarrow> bool) \<Rightarrow> time \<Rightarrow> job \<Rightarrow> bool" where
  "claimable opt locked now j = (job_name j = fo_name opt \<and> (state j = Created \<or> state j = Retry) \<and>
     \<not> blocked j \<and> (fo_ignore_start_after opt \<or> start_after j \<le> now) \<and> \<not> locked (job_id j) \<and>
     (\<forall>p. fo_min_priority opt = Some p \<longrightarrow> p \<le> priority j) \<and>
     (\<forall>p. fo_max_priority opt = Some p \<longrightarrow> priority j \<le> p))"

lemma selected_claimable:
  assumes "j \<in> set (fetch_selected opt l now t)" shows "claimable opt l now j"
  using selected_sub [OF assms] by (auto simp: claimable_def candidate_def)

text \<open>(C2) Every job a fetch returns was claimable; it is now active, started at the claim, with a
  fresh heartbeat, and its retry count is one more exactly when it had been started before.  Every
  other row stays as it was, and no row appears or goes.\<close>

theorem fetch_claims_runnable:
  assumes "table_ok t" "fetchNextJob opt d l now t = Inr (t', rs)"
  shows "(\<forall>r\<in>set rs. r \<in> set t' \<and> (\<exists>j\<in>set t. claimable opt (effective_locks d l) now j \<and>
        r = j\<lparr>state := Active, started_on := Some now, heartbeat_on := Some now,
              retry_count := retry_count j + (if started_on j = None then 0 else 1)\<rparr>)) \<and>
    (\<forall>j\<in>set t. claim_row now j \<notin> set rs \<longrightarrow> j \<in> set t') \<and>
    map job_key t' = map job_key t"
proof (intro conjI)
  note res = fetch_result [OF assms]
  show "\<forall>r\<in>set rs. r \<in> set t' \<and> (\<exists>j\<in>set t. claimable opt (effective_locks d l) now j \<and>
        r = j\<lparr>state := Active, started_on := Some now, heartbeat_on := Some now,
              retry_count := retry_count j + (if started_on j = None then 0 else 1)\<rparr>)"
  proof
    fix r assume "r \<in> set rs"
    then obtain j where j: "j \<in> set t" "r = claim_row now j"
      and sel: "j \<in> set (fetch_selected opt (effective_locks d l) now t)"
      using res(2) by auto
    have "r \<in> set t'" using j sel res(1) by (auto simp: set_upd_where)
    moreover have "r = j\<lparr>state := Active, started_on := Some now, heartbeat_on := Some now,
        retry_count := retry_count j + (if started_on j = None then 0 else 1)\<rparr>"
      using j(2) by (simp add: claim_row_def)
    ultimately show "r \<in> set t' \<and> (\<exists>j\<in>set t. claimable opt (effective_locks d l) now j \<and>
        r = j\<lparr>state := Active, started_on := Some now, heartbeat_on := Some now,
              retry_count := retry_count j + (if started_on j = None then 0 else 1)\<rparr>)"
      using j(1) selected_claimable [OF sel] by blast
  qed
  show "\<forall>j\<in>set t. claim_row now j \<notin> set rs \<longrightarrow> j \<in> set t'"
    using res by (auto simp: set_upd_where)
  show "map job_key t' = map job_key t"
    unfolding res(1) by (rule map_upd_where_same) (simp add: claim_row_def job_key_def)
qed

lemma sample_claim:
  "fetchNextJob (sample_fetch ''q'' Standard 1) False (\<lambda>_. False) 9
      [sample_job 1 ''q'' 5, sample_job 2 ''q'' 5 \<lparr>priority := 3\<rparr>]
    = Inr ([sample_job 1 ''q'' 5, claim_row 9 (sample_job 2 ''q'' 5 \<lparr>priority := 3\<rparr>)],
           [claim_row 9 (sample_job 2 ''q'' 5 \<lparr>priority := 3\<rparr>)])"
  by (simp add: eval_defs fetch_eval run_update_def check_table_def and_then_def)

lemma fetch_claims_runnable_witness:
  "claim_row 9 (sample_job 2 ''q'' 5 \<lparr>priority := 3\<rparr>) \<in>
    set [sample_job 1 ''q'' 5, claim_row 9 (sample_job 2 ''q'' 5 \<lparr>priority := 3\<rparr>)]"
proof -
  have "table_ok [sample_job 1 ''q'' 5, sample_job 2 ''q'' 5 \<lparr>priority := 3\<rparr>]"
    by (simp add: eval_defs)
  from fetch_claims_runnable [OF this sample_claim] show ?thesis by simp
qed

text \<open>(C5) Jobs are taken in order: a fetch without group limits and without the one-per-key ranking
  leaves a candidate behind only when it returned a full batch, every job of which has a higher
  priority, or the same priority and an age at least as great.\<close>

theorem fetch_order_respected:
  assumes "table_ok t" "fetchNextJob opt d l now t = Inr (t', rs)"
    and "fo_group_concurrency opt = None" "\<not> singleton_fetch opt"
    and "j \<in> set t" "candidate opt now t j" "d \<or> \<not> l (job_id j)" "claim_row now j \<notin> set rs"
  shows "length rs = fo_limit opt \<and> (\<forall>r\<in>set rs. priority j < priority r \<or>
    (priority j = priority r \<and> created_on r \<le> created_on j))"
proof -
  let ?l = "effective_locks d l"
  have sel: "fetch_selected opt ?l now t = next_cte opt ?l now t"
    using assms(3,4) by (simp add: fetch_selected_def group_filtered_def singleton_ranked_def)
  note res = fetch_result [OF assms(1,2), unfolded sel]
  have out: "j \<notin> set (next_cte opt ?l now t)" and nl: "\<not> ?l (job_id j)"
    using assms(5,7,8) res(2) by (auto split: if_splits)
  have "length rs = fo_limit opt"
    using fetch_count [OF assms(1,2)] next_full [OF assms(5,6) nl out] by (simp add: sel)
  moreover have "priority j < priority r \<or> (priority j = priority r \<and> created_on r \<le> created_on j)"
    if r: "r \<in> set rs" for r
  proof -
    obtain x where x: "x \<in> set (next_cte opt ?l now t)" "r = claim_row now x"
      using r unfolding res(2) by auto
    moreover have "fetch_order x \<le> fetch_order j"
      using x(1) assms(5,6) nl out by (rule next_order)
    ultimately show ?thesis by (auto simp: fetch_order_def claim_row_def less_eq_prod_def)
  qed
  ultimately show ?thesis by blast
qed

lemma fetch_order_respected_witness:
  "length [claim_row 9 (sample_job 2 ''q'' 5 \<lparr>priority := 3\<rparr>)] = 1 \<and>
    priority (sample_job 1 ''q'' 5) < 3"
proof -
  have "table_ok [sample_job 1 ''q'' 5, sample_job 2 ''q'' 5 \<lparr>priority := 3\<rparr>]"
    by (simp add: eval_defs)
  from fetch_order_respected [OF this sample_claim, of "sample_job 1 ''q'' 5"] show ?thesis
    by (simp add: eval_defs fetch_eval)
qed

text \<open>The group limit holds across a fetch: when a group has jobs among the ones fetched, the
  number of its active jobs after the claim is within the limit that applies to one of them (its
  tier's, or the default), whatever the batch size.\<close>

theorem fetch_group_limit:
  assumes "table_ok t" "fetchNextJob opt d l now t = Inr (t', rs)"
    and "fo_group_concurrency opt = Some gc" "r \<in> set rs" "group_id r = Some g"
  shows "\<exists>m\<in>set rs. group_id m = Some g \<and>
    int (active_in_group (fo_name opt) g t') \<le> group_limit gc (group_tier m)"
proof -
  let ?l = "effective_locks d l" and ?n = "fo_name opt"
  let ?sel = "fetch_selected opt ?l now t"
  let ?rows = "singleton_ranked opt (next_cte opt ?l now t)"
  note res = fetch_result [OF assms(1,2)]
  have ds: "distinct ?sel" using distinct_of_map selected_distinct assms(1) by blast
  have sub: "j \<in> set t \<and> job_name j = ?n \<and> state j < Active" if "j \<in> set ?sel" for j
    using selected_sub [OF that] by (auto simp: candidate_def)
  have rows: "set ?sel \<subseteq> set ?rows"
    by (auto simp: fetch_selected_def group_filtered_def split: option.splits)
  obtain x where "x \<in> set ?sel" "group_id x = Some g"
    using assms(4,5) res(2) by (auto simp: claim_row_def)
  hence "filter (\<lambda>j. group_id j = Some g) ?sel \<noteq> []" by (auto simp: filter_empty_conv)
  then obtain m where m: "m \<in> set ?sel" "group_id m = Some g"
    and mx: "\<And>b. b \<in> set ?sel \<Longrightarrow> group_id b = Some g \<Longrightarrow> job_id b \<le> job_id m"
    using max_elem [of "filter (\<lambda>j. group_id j = Some g) ?sel" job_id] by auto
  have cnt: "active_in_group ?n g t' = active_in_group ?n g t +
      length (filter (\<lambda>j. group_id j = Some g) ?sel)"
    unfolding res(1) by (rule active_after_claim [OF assms(1) sub ds])
  have le: "length (filter (\<lambda>j. group_id j = Some g) ?sel) \<le> group_rn ?rows m"
    by (rule group_rank_bound [OF ranked_distinct [OF assms(1)] rows ds m mx])
  have fits: "(if active_group_counts opt then int (active_in_group ?n g t) else 0)
      + int (group_rn ?rows m) \<le> group_limit gc (group_tier m)"
    using m assms(3) by (simp add: fetch_selected_def group_filtered_def)
  have zero: "active_in_group ?n g t = 0" if "\<not> active_group_counts opt"
    using that selected_sub(2) [OF m(1)] m(2) assms(3)
    by (auto simp: candidate_def group_free_def active_group_counts_def)
  have "int (active_in_group ?n g t') \<le> group_limit gc (group_tier m)"
    using cnt le fits zero by (cases "active_group_counts opt") simp_all
  moreover have "claim_row now m \<in> set rs" using m(1) sub res(2) by auto
  ultimately show ?thesis
    using m(2) by (intro bexI [of _ "claim_row now m"]) (simp_all add: claim_row_def)
qed

lemma fetch_group_limit_witness:
  "\<exists>m\<in>set [claim_row 9 (sample_job 1 ''q'' 5 \<lparr>group_id := Some ''g''\<rparr>)].
    int (active_in_group ''q'' ''g'' [claim_row 9 (sample_job 1 ''q'' 5 \<lparr>group_id := Some ''g''\<rparr>),
      sample_job 2 ''q'' 5 \<lparr>group_id := Some ''g''\<rparr>]) \<le> group_limit \<lparr>gc_default = 1, gc_tiers = []\<rparr> (group_tier m)"
proof -
  let ?t = "[sample_job 1 ''q'' 5 \<lparr>group_id := Some ''g''\<rparr>,
      sample_job 2 ''q'' 5 \<lparr>group_id := Some ''g''\<rparr>]"
  let ?o = "sample_fetch ''q'' Standard 5 \<lparr>fo_group_concurrency := Some \<lparr>gc_default = 1, gc_tiers = []\<rparr>\<rparr>"
  have "fetchNextJob ?o False (\<lambda>_. False) 9 ?t = Inr ([claim_row 9 (hd ?t), ?t ! 1],
      [claim_row 9 (hd ?t)])"
    by (simp add: eval_defs fetch_eval run_update_def check_table_def and_then_def
        single_group_concurrency_def active_group_counts_def active_in_group_def group_rn_def
        group_limit_def)
  moreover have "table_ok ?t" by (simp add: eval_defs)
  ultimately show ?thesis
    using fetch_group_limit [of ?t ?o False "\<lambda>_. False" 9 "[claim_row 9 (hd ?t), ?t ! 1]"
      "[claim_row 9 (hd ?t)]" "\<lparr>gc_default = 1, gc_tiers = []\<rparr>" "claim_row 9 (hd ?t)" "''g''"]
    by (simp add: sample_fetch_def claim_row_def)
qed

text \<open>Strict FIFO: a job fetched from a \<^verbatim>\<open>key_strict_fifo\<close> queue is the head of its key. No
  other job of the key is active, waits for a retry or has failed, and the job it was before the
  claim comes before every other runnable job of the key: a retry first, then the oldest.\<close>

theorem fetch_strict_fifo_head:
  assumes "table_ok t" "fetchNextJob opt d l now t = Inr (t', rs)" "fo_policy opt = KeyStrictFifo"
    and "r \<in> set rs" "b \<in> set t" "job_name b = fo_name opt" "policy b = Some KeyStrictFifo"
    and "singleton_key b = singleton_key r" "job_id b \<noteq> job_id r"
  shows "state b \<notin> {Active, Retry, Failed} \<and>
    (\<exists>j\<in>set t. r = claim_row now j \<and> (head_candidate opt now b \<longrightarrow> head_before j b))"
proof -
  let ?l = "effective_locks d l"
  obtain j where j: "j \<in> set t" "j \<in> set (fetch_selected opt ?l now t)" "r = claim_row now j"
    using assms(4) fetch_result(2) [OF assms(1,2)] by auto
  have cand: "candidate opt now t j" using selected_sub(2) [OF j(2)] .
  hence nm: "job_name j = fo_name opt" and free: "\<not> fifo_blocked t j"
    using assms(3) by (simp_all add: candidate_def)
  have k: "singleton_key b = singleton_key j" "job_id b \<noteq> job_id j"
    using assms(8,9) j(3) by (simp_all add: claim_row_def)
  have "singleton_key b \<noteq> None"
    using table_ok_key_check [OF assms(1,5)] assms(7) by (simp add: key_check_def)
  hence "state b \<notin> {Active, Retry, Failed}"
    using free assms(5-7) k nm by (auto simp: fifo_blocked_def list_ex_iff)
  moreover have "head_candidate opt now b \<longrightarrow> head_before j b"
    using selected_is_head [OF assms(1) j(2) assms(3,5) _ k] by blast
  ultimately show ?thesis using j by blast
qed

lemma fetch_strict_fifo_head_witness:
  "state (sample_job 2 ''q'' 6) \<notin> {Active, Retry, Failed}"
proof -
  let ?a = "sample_job 1 ''q'' 5 \<lparr>policy := Some KeyStrictFifo, singleton_key := Some ''k''\<rparr>"
  let ?b = "sample_job 2 ''q'' 6 \<lparr>policy := Some KeyStrictFifo, singleton_key := Some ''k''\<rparr>"
  let ?o = "sample_fetch ''q'' KeyStrictFifo 3"
  have "fetchNextJob ?o False (\<lambda>_. False) 9 [?b, ?a] = Inr ([?b, claim_row 9 ?a], [claim_row 9 ?a])"
    by (simp add: eval_defs fetch_eval run_update_def check_table_def and_then_def head_before_def
        Let_def)
  moreover have "table_ok [?b, ?a]" by (simp add: eval_defs)
  ultimately have "state ?b \<notin> {Active, Retry, Failed}"
    using fetch_strict_fifo_head [of "[?b, ?a]" ?o False "\<lambda>_. False" 9 "[?b, claim_row 9 ?a]"
      "[claim_row 9 ?a]" "claim_row 9 ?a" ?b]
    by (simp add: sample_fetch_def sample_job_def job_defaults_def claim_row_def)
  thus ?thesis by (simp add: sample_job_def job_defaults_def)
qed

end
