(* ===== verification/Fail.thy ===== *)
theory Fail
  imports Settle "HOL-Library.Multiset"
begin

text \<open>
  Failing jobs: the statement chain \<^verbatim>\<open>failJobsBody\<close> of \<^verbatim>\<open>src/src/plans.ts\<close> that deletes the jobs,
  re-inserts each as a retry or as failed and copies the failed ones to their dead letter queue; the
  supervisor's expiry sweeps; and the distributed form of \<^verbatim>\<open>src/src/manager.ts\<close>, which runs the
  same steps as separate statements.

  The deletes are taken to happen before the re-inserts, which is one of the orders PostgreSQL may
  run the parts of the statement in.  \<^verbatim>\<open>random()\<close> is a number of millionths chosen per job, and
  \<^verbatim>\<open>gen_random_uuid()\<close> a function of the job that is copied; both are parameters.
\<close>

section \<open>The re-inserted rows\<close>

text \<open>The backoff of a retry, in microseconds: \<^verbatim>\<open>GREATEST(retry_delay, 1) * (2^k/2 + 2^k/2 * random())\<close>
  with \<^verbatim>\<open>k = LEAST(16, retry_count + 1)\<close>, capped by \<^verbatim>\<open>retry_delay_max\<close> when that is set.\<close>

definition retry_backoff_micros :: "job \<Rightarrow> int \<Rightarrow> int" where
  "retry_backoff_micros j rnd =
     max (retry_delay j) 1 * (2 ^ nat (min 16 (retry_count j + 1) - 1) * (second + rnd))"

definition retry_start_after :: "time \<Rightarrow> int \<Rightarrow> job \<Rightarrow> time" where
  "retry_start_after now rnd j = (
     if retry_count j = retry_limit j then start_after j
     else if \<not> retry_backoff j then now + retry_delay j * second
     else now + (case retry_delay_max j of None \<Rightarrow> retry_backoff_micros j rnd
                 | Some m \<Rightarrow> min (m * second) (retry_backoff_micros j rnd)))"

definition can_retry :: "bool \<Rightarrow> job \<Rightarrow> bool" where
  "can_retry forceTerminal j = (\<not> forceTerminal \<and> retry_count j < retry_limit j)"

definition retried_row :: "bool \<Rightarrow> json option \<Rightarrow> time \<Rightarrow> int \<Rightarrow> job \<Rightarrow> job" where
  "retried_row forceTerminal out now rnd j = j\<lparr>
     state := (if can_retry forceTerminal j then Retry else Failed),
     start_after := retry_start_after now rnd j,
     completed_on := (if can_retry forceTerminal j then None else Some now),
     job_output := out,
     heartbeat_on := None,
     upsert_by_key := None\<rparr>"

definition failed_row :: "json option \<Rightarrow> time \<Rightarrow> job \<Rightarrow> job" where
  "failed_row out now j = j\<lparr>
     state := Failed,
     completed_on := Some now,
     job_output := out,
     heartbeat_on := None,
     upsert_by_key := None\<rparr>"

text \<open>The copy in the dead letter queue: a new job of that queue's configuration, with the failed
  job's data and identity columns and where it came from.\<close>

definition dlq_row :: "queue \<Rightarrow> uuid \<Rightarrow> time \<Rightarrow> job \<Rightarrow> job" where
  "dlq_row q new_id now r = (job_defaults new_id (q_name q) now)\<lparr>
     priority := priority r,
     job_data := job_data r,
     retry_limit := q_retry_limit q,
     retry_backoff := q_retry_backoff q,
     retry_delay := q_retry_delay q,
     start_after := now,
     created_on := now,
     keep_until := now + q_retention_seconds q * second,
     deletion_seconds := q_deletion_seconds q,
     expire_seconds := q_expire_seconds q,
     singleton_key := singleton_key r,
     group_id := group_id r,
     group_tier := group_tier r,
     heartbeat_seconds := q_heartbeat_seconds q,
     source_name := Some (job_name r),
     source_id := Some (job_id r),
     source_created_on := Some (created_on r),
     source_retry_count := Some (retry_count r),
     source_output := job_output r,
     source_root_id := Some (coalesce (source_root_id r) (job_id r)),
     trace_context := trace_context r\<rparr>"

definition dlq_rows :: "queue list \<Rightarrow> (job \<Rightarrow> uuid) \<Rightarrow> time \<Rightarrow> job list \<Rightarrow> job list" where
  "dlq_rows qs new_id now results = concat (map (\<lambda>r.
     map (\<lambda>q. dlq_row q (new_id r) now r)
       (filter (\<lambda>q. state r = Failed \<and> dead_letter r = Some (q_name q)) qs)) results)"

section \<open>The single statement\<close>

definition failJobsBody ::
  "queue list \<Rightarrow> (job \<Rightarrow> uuid) \<Rightarrow> time \<Rightarrow> (uuid \<Rightarrow> int) \<Rightarrow> (job \<Rightarrow> bool) \<Rightarrow> (job \<Rightarrow> json option) \<Rightarrow> bool \<Rightarrow>
   job list \<Rightarrow> job list statement" where
  "failJobsBody qs new_id now rnd sel out forceTerminal t = (
     let (rest, deleted) = run_delete sel t in
     and_then (run_insert_skip
         (map (\<lambda>j. retried_row forceTerminal (out j) now (rnd (job_id j)) j) deleted) rest)
       (\<lambda>(t1, retried).
     and_then (run_insert (map (\<lambda>j. failed_row (out j) now j)
         (filter (\<lambda>j. job_id j \<notin> set (map job_id retried)) deleted)) t1)
       (\<lambda>(t2, failed).
     and_then (run_insert (dlq_rows qs new_id now (retried @ failed)) t2)
       (\<lambda>(t3, _). Inr (t3, retried @ failed)))))"

definition fail_sel :: "str \<Rightarrow> uuid list \<Rightarrow> (uuid \<times> int) list option \<Rightarrow> job \<Rightarrow> bool" where
  "fail_sel n ids fence j = (job_name j = n \<and> job_id j \<in> set ids \<and> state j < Completed \<and>
     attemptFence fence j)"

definition failJobsById ::
  "queue list \<Rightarrow> (job \<Rightarrow> uuid) \<Rightarrow> str \<Rightarrow> uuid list \<Rightarrow> json option \<Rightarrow> (uuid \<times> int) list option \<Rightarrow> time \<Rightarrow>
   (uuid \<Rightarrow> int) \<Rightarrow> job list \<Rightarrow> (nat \<times> uuid list) statement" where
  "failJobsById qs new_id n ids out fence now rnd t = and_then
     (failJobsBody qs new_id now rnd (fail_sel n ids fence) (\<lambda>_. out) False t)
     (\<lambda>(t', rs). Inr (t', settled_ids rs))"

text \<open>Per-job outputs.  The rows are selected by id and retry count, and the output is looked up by
  id alone, so a recordset that names an id twice fails the statement when that job is selected.\<close>

definition outputs_sel :: "str \<Rightarrow> (uuid \<times> int \<times> json option) list \<Rightarrow> job \<Rightarrow> bool" where
  "outputs_sel n inp j = (job_name j = n \<and> state j = Active \<and>
     list_ex (\<lambda>(i, c, _). i = job_id j \<and> c = retry_count j) inp)"

definition output_by_id :: "(uuid \<times> int \<times> json option) list \<Rightarrow> job \<Rightarrow> json option" where
  "output_by_id inp j = (case filter (\<lambda>(i, _, _). i = job_id j) inp of [] \<Rightarrow> None
     | (_, _, out) # _ \<Rightarrow> out)"

definition failWithOutputs ::
  "queue list \<Rightarrow> (job \<Rightarrow> uuid) \<Rightarrow> str \<Rightarrow> (uuid \<times> int \<times> json option) list \<Rightarrow> bool \<Rightarrow> time \<Rightarrow>
   (uuid \<Rightarrow> int) \<Rightarrow> job list \<Rightarrow> (nat \<times> uuid list) statement" where
  "failWithOutputs qs new_id n inp forceTerminal now rnd t = (
     if list_ex (\<lambda>j. outputs_sel n inp j \<and> length (filter (\<lambda>(i, _, _). i = job_id j) inp) > 1) t
     then Inl CardinalityViolation
     else and_then
       (failJobsBody qs new_id now rnd (outputs_sel n inp) (output_by_id inp) forceTerminal t)
       (\<lambda>(t', rs). Inr (t', settled_ids rs)))"

definition failJobsByIdWithOutputs ::
  "queue list \<Rightarrow> (job \<Rightarrow> uuid) \<Rightarrow> str \<Rightarrow> (uuid \<times> int \<times> json option) list \<Rightarrow> time \<Rightarrow>
   (uuid \<Rightarrow> int) \<Rightarrow> job list \<Rightarrow> (nat \<times> uuid list) statement" where
  "failJobsByIdWithOutputs qs new_id n inp now rnd t =
     failWithOutputs qs new_id n inp False now rnd t"

definition deadLetterJobsByIdWithOutputs ::
  "queue list \<Rightarrow> (job \<Rightarrow> uuid) \<Rightarrow> str \<Rightarrow> (uuid \<times> int \<times> json option) list \<Rightarrow> time \<Rightarrow>
   (uuid \<Rightarrow> int) \<Rightarrow> job list \<Rightarrow> (nat \<times> uuid list) statement" where
  "deadLetterJobsByIdWithOutputs qs new_id n inp now rnd t =
     failWithOutputs qs new_id n inp True now rnd t"

section \<open>The expiry sweeps\<close>

definition EXPIRY_BATCH_SIZE :: nat where
  "EXPIRY_BATCH_SIZE = 1000"

definition timedOut :: "str list \<Rightarrow> time \<Rightarrow> job \<Rightarrow> bool" where
  "timedOut queues now j = (state j = Active \<and>
     (case started_on j of None \<Rightarrow> False | Some s \<Rightarrow> s + expire_seconds j * second < now) \<and>
     job_name j \<in> set queues)"

definition heartbeatLost :: "str list \<Rightarrow> time \<Rightarrow> job \<Rightarrow> bool" where
  "heartbeatLost queues now j = (state j = Active \<and>
     (case (heartbeat_seconds j, heartbeat_on j) of
        (Some h, Some b) \<Rightarrow> b + h * second < now | _ \<Rightarrow> False) \<and>
     job_name j \<in> set queues)"

definition message_output :: "str \<Rightarrow> json option" where
  "message_output m = Some (JObj [(''value'', JObj [(''message'', JStr m)])])"

definition expireJobs ::
  "queue list \<Rightarrow> (job \<Rightarrow> uuid) \<Rightarrow> time \<Rightarrow> (uuid \<Rightarrow> int) \<Rightarrow> (job \<Rightarrow> bool) \<Rightarrow> json option \<Rightarrow> nat \<Rightarrow> job list \<Rightarrow>
   nat statement" where
  "expireJobs qs new_id now rnd predicate out limit t = (
     let picked = take limit (filter predicate t) in
     and_then (failJobsBody qs new_id now rnd
         (\<lambda>j. predicate j \<and> job_id j \<in> set (map job_id picked)) (\<lambda>_. out) False t)
       (\<lambda>(t', _). Inr (t', length picked)))"

definition failJobsByTimeout ::
  "queue list \<Rightarrow> (job \<Rightarrow> uuid) \<Rightarrow> str list \<Rightarrow> time \<Rightarrow> (uuid \<Rightarrow> int) \<Rightarrow> nat \<Rightarrow> job list \<Rightarrow> nat statement" where
  "failJobsByTimeout qs new_id queues now rnd limit t =
     expireJobs qs new_id now rnd (timedOut queues now) (message_output ''job timed out'') limit t"

definition failJobsByHeartbeat ::
  "queue list \<Rightarrow> (job \<Rightarrow> uuid) \<Rightarrow> str list \<Rightarrow> time \<Rightarrow> (uuid \<Rightarrow> int) \<Rightarrow> nat \<Rightarrow> job list \<Rightarrow> nat statement" where
  "failJobsByHeartbeat qs new_id queues now rnd limit t =
     expireJobs qs new_id now rnd (heartbeatLost queues now)
       (message_output ''job heartbeat timeout'') limit t"

section \<open>The distributed form\<close>

definition selectJobsToFailById ::
  "str \<Rightarrow> uuid list \<Rightarrow> (uuid \<times> int) list option \<Rightarrow> job list \<Rightarrow> job list" where
  "selectJobsToFailById n ids fence t = filter (fail_sel n ids fence) t"

definition deleteJobsToFail :: "str \<Rightarrow> uuid list \<Rightarrow> job list \<Rightarrow> job list" where
  "deleteJobsToFail n ids t = fst (run_delete (\<lambda>j. job_name j = n \<and> job_id j \<in> set ids) t)"

definition selectJobsToFailByTimeout :: "str list \<Rightarrow> time \<Rightarrow> nat \<Rightarrow> job list \<Rightarrow> job list" where
  "selectJobsToFailByTimeout queues now limit t = take limit (filter (timedOut queues now) t)"

definition selectJobsToFailByHeartbeat :: "str list \<Rightarrow> time \<Rightarrow> nat \<Rightarrow> job list \<Rightarrow> job list" where
  "selectJobsToFailByHeartbeat queues now limit t =
     take limit (filter (heartbeatLost queues now) t)"

definition deleteJobsByIds :: "(str \<times> uuid) list \<Rightarrow> job list \<Rightarrow> job list" where
  "deleteJobsByIds keys t = fst (run_delete (\<lambda>j. job_key j \<in> set keys) t)"

definition insertRetryJob :: "job \<Rightarrow> job list \<Rightarrow> job list statement" where
  "insertRetryJob r t = run_insert_skip [r] t"

definition insertDeadLetterJob ::
  "queue list \<Rightarrow> (job \<Rightarrow> uuid) \<Rightarrow> time \<Rightarrow> str \<Rightarrow> job \<Rightarrow> job list \<Rightarrow> job list statement" where
  "insertDeadLetterJob qs new_id now dl r t =
     run_insert (map (\<lambda>q. dlq_row q (new_id r) now r) (filter (\<lambda>q. q_name q = dl) qs)) t"

text \<open>One job of \<^verbatim>\<open>reinsertFailedJobs\<close>: the retry when one is left, the failed row when there is none
  or the retry was skipped, and the dead letter copy.  The start of a failed row stays as it was.  The
  times it writes are a \<^verbatim>\<open>Date\<close> of the client, whole milliseconds, where the single statement has the
  microseconds of the database; the dead letter copy has these in both.\<close>

definition whole_ms :: "time \<Rightarrow> time" where
  "whole_ms x = x div 1000 * 1000"

lemma whole_ms_id: "1000 dvd x \<Longrightarrow> whole_ms x = x"
  by (simp add: whole_ms_def)

definition dist_retry_row :: "json option \<Rightarrow> time \<Rightarrow> int \<Rightarrow> job \<Rightarrow> job" where
  "dist_retry_row out now rnd j = j\<lparr>
     state := Retry,
     start_after := whole_ms (if \<not> retry_backoff j then now + retry_delay j * second
       else now + (case retry_delay_max j of None \<Rightarrow> retry_backoff_micros j rnd
                   | Some m \<Rightarrow> min (m * second) (retry_backoff_micros j rnd))),
     completed_on := None,
     job_output := out,
     heartbeat_on := None,
     upsert_by_key := None\<rparr>"

definition reinsert_one ::
  "queue list \<Rightarrow> (job \<Rightarrow> uuid) \<Rightarrow> time \<Rightarrow> (uuid \<Rightarrow> int) \<Rightarrow> (job \<Rightarrow> json option) \<Rightarrow> bool \<Rightarrow> job \<Rightarrow> job list \<Rightarrow>
   sql_error + job list" where
  "reinsert_one qs new_id now rnd out forceTerminal j t =
     and_then (if can_retry forceTerminal j
         then insertRetryJob (dist_retry_row (out j) (whole_ms now) (rnd (job_id j)) j) t
         else Inr (t, []))
       (\<lambda>(t1, retried). if retried \<noteq> [] then Inr t1
          else and_then (insertRetryJob (failed_row (out j) (whole_ms now) j) t1)
            (\<lambda>(t2, _). case dead_letter j of
               None \<Rightarrow> Inr t2
             | Some dl \<Rightarrow> if dl = [] then Inr t2
                else and_then (insertDeadLetterJob qs new_id now dl (failed_row (out j) (whole_ms now) j) t2)
                  (\<lambda>(t3, _). Inr t3)))"

fun reinsertFailedJobs ::
  "queue list \<Rightarrow> (job \<Rightarrow> uuid) \<Rightarrow> time \<Rightarrow> (uuid \<Rightarrow> int) \<Rightarrow> (job \<Rightarrow> json option) \<Rightarrow> bool \<Rightarrow> job list \<Rightarrow>
   job list \<Rightarrow> sql_error + (job list \<times> nat)" where
  "reinsertFailedJobs qs new_id now rnd out forceTerminal [] t = Inr (t, 0)"
| "reinsertFailedJobs qs new_id now rnd out forceTerminal (j # js) t =
     and_then (reinsert_one qs new_id now rnd out forceTerminal j t)
       (\<lambda>t1. and_then (reinsertFailedJobs qs new_id now rnd out forceTerminal js t1)
          (\<lambda>(t2, k). Inr (t2, Suc k)))"

definition failDistributed ::
  "queue list \<Rightarrow> (job \<Rightarrow> uuid) \<Rightarrow> str \<Rightarrow> uuid list \<Rightarrow> json option \<Rightarrow> (uuid \<times> int) list option \<Rightarrow> time \<Rightarrow>
   (uuid \<Rightarrow> int) \<Rightarrow> job list \<Rightarrow> (nat \<times> uuid list) statement" where
  "failDistributed qs new_id n ids out fence now rnd t = (
     let jobs = selectJobsToFailById n ids fence t in
     if jobs = [] then Inr (t, 0, [])
     else and_then (reinsertFailedJobs qs new_id now rnd (\<lambda>_. out) False jobs
           (deleteJobsToFail n (map job_id jobs) t))
         (\<lambda>(t', k). Inr (t', k, map job_id jobs)))"

definition failWithOutputsDistributed ::
  "queue list \<Rightarrow> (job \<Rightarrow> uuid) \<Rightarrow> str \<Rightarrow> (uuid \<times> int \<times> json option) list \<Rightarrow> bool \<Rightarrow> time \<Rightarrow>
   (uuid \<Rightarrow> int) \<Rightarrow> job list \<Rightarrow> (nat \<times> uuid list) statement" where
  "failWithOutputsDistributed qs new_id n inp forceTerminal now rnd t = (
     let ids = map fst inp;
         outputById = map_of (rev (map (\<lambda>(i, _, out). (i, out)) inp));
         jobs = selectJobsToFailById n ids (Some (map (\<lambda>(i, c, _). (i, c)) inp)) t in
     if jobs = [] then Inr (t, 0, [])
     else and_then (reinsertFailedJobs qs new_id now rnd
           (\<lambda>j. coalesce (outputById (job_id j)) None) forceTerminal jobs
           (deleteJobsToFail n (map job_id jobs) t))
         (\<lambda>(t', k). Inr (t', k, map job_id jobs)))"

definition expireJobsDistributed ::
  "queue list \<Rightarrow> (job \<Rightarrow> uuid) \<Rightarrow> time \<Rightarrow> (uuid \<Rightarrow> int) \<Rightarrow> job list \<Rightarrow> json option \<Rightarrow> job list \<Rightarrow> nat statement" where
  "expireJobsDistributed qs new_id now rnd jobs out t = (
     if jobs = [] then Inr (t, 0)
     else reinsertFailedJobs qs new_id now rnd (\<lambda>_. out) False jobs
         (deleteJobsByIds (map job_key jobs) t))"

definition failJobsByTimeoutDistributed ::
  "queue list \<Rightarrow> (job \<Rightarrow> uuid) \<Rightarrow> str list \<Rightarrow> time \<Rightarrow> (uuid \<Rightarrow> int) \<Rightarrow> nat \<Rightarrow> job list \<Rightarrow> nat statement" where
  "failJobsByTimeoutDistributed qs new_id queues now rnd limit t =
     expireJobsDistributed qs new_id now rnd (selectJobsToFailByTimeout queues now limit t)
       (message_output ''job timed out'') t"

definition failJobsByHeartbeatDistributed ::
  "queue list \<Rightarrow> (job \<Rightarrow> uuid) \<Rightarrow> str list \<Rightarrow> time \<Rightarrow> (uuid \<Rightarrow> int) \<Rightarrow> nat \<Rightarrow> job list \<Rightarrow> nat statement" where
  "failJobsByHeartbeatDistributed qs new_id queues now rnd limit t =
     expireJobsDistributed qs new_id now rnd (selectJobsToFailByHeartbeat queues now limit t)
       (message_output ''job heartbeat timeout'') t"

section \<open>The calls of the manager\<close>

definition fail ::
  "bool \<Rightarrow> (uuid list \<Rightarrow> int list option) \<Rightarrow> queue list \<Rightarrow> (job \<Rightarrow> uuid) \<Rightarrow> str \<Rightarrow> id_item list \<Rightarrow>
   json option \<Rightarrow> time \<Rightarrow> (uuid \<Rightarrow> int) \<Rightarrow> job list \<Rightarrow> manager_error + (job list \<times> command_response)" where
  "fail noMultiMutationCte handler qs new_id n items data now rnd t =
     and_then (mapAttemptArg items) (\<lambda>(ids, fetched).
       let fence = fence_of handler ids fetched; out = mapCompletionDataArg data in
       and_then (lift_sql (if noMultiMutationCte
           then failDistributed qs new_id n ids out fence now rnd t
           else failJobsById qs new_id n ids out fence now rnd t))
         (\<lambda>(t', k, settled). Inr (t', mapCommandResponse ids k (Some settled))))"

section \<open>What the statement leaves\<close>

lemma retried_row_simps [simp]:
  "job_id (retried_row f out now r j) = job_id j" "job_name (retried_row f out now r j) = job_name j"
  "job_key (retried_row f out now r j) = job_key j"
  by (simp_all add: retried_row_def job_key_def)

lemma failed_row_simps [simp]:
  "job_id (failed_row out now j) = job_id j" "job_name (failed_row out now j) = job_name j"
  "job_key (failed_row out now j) = job_key j" "state (failed_row out now j) = Failed"
  "dead_letter (failed_row out now j) = dead_letter j"
  by (simp_all add: failed_row_def job_key_def)

lemma insert_skip_distinct:
  "insert_skip t rs = (t', ins) \<Longrightarrow> distinct (map g rs) \<Longrightarrow> distinct (map g ins)"
proof (induction t rs arbitrary: t' ins rule: insert_skip.induct)
  case (2 t r rs)
  show ?case
  proof (cases "list_ex (\<lambda>x. conflict x r) t")
    case False
    then obtain ins' where eq: "insert_skip (t @ [r]) rs = (t', ins')" and ins: "ins = r # ins'"
      using "2.prems" by (auto split: prod.splits)
    have "g r \<notin> g ` set ins'" using insert_skip_subset [OF eq] "2.prems"(2) by auto
    thus ?thesis using "2.IH"(2) [OF False eq] "2.prems"(2) ins by simp
  qed (use 2 in auto)
qed simp

lemma failJobsBody_Inr:
  assumes "failJobsBody qs new_id now rnd sel out f t = Inr (t', rs)"
  obtains ret F where
    "insert_skip (filter (\<lambda>j. \<not> sel j) t)
       (map (\<lambda>j. retried_row f (out j) now (rnd (job_id j)) j) (filter sel t)) =
       (filter (\<lambda>j. \<not> sel j) t @ ret, ret)"
    "F = map (\<lambda>j. failed_row (out j) now j)
       (filter (\<lambda>j. job_id j \<notin> set (map job_id ret)) (filter sel t))"
    "rs = ret @ F" "t' = filter (\<lambda>j. \<not> sel j) t @ ret @ F @ dlq_rows qs new_id now rs"
    "table_ok t'"
proof -
  let ?R = "map (\<lambda>j. retried_row f (out j) now (rnd (job_id j)) j) (filter sel t)"
  obtain t1 ret where i: "insert_skip (filter (\<lambda>j. \<not> sel j) t) ?R = (t1, ret)" by force
  hence t1: "t1 = filter (\<lambda>j. \<not> sel j) t @ ret" by (rule insert_skip_append)
  have "list_all key_check ?R"
    using assms by (auto simp: failJobsBody_def run_delete_def run_insert_skip_def split: if_splits)
  thus thesis using assms i t1 that
    by (auto simp: failJobsBody_def run_delete_def run_insert_skip_def and_then_Inr_iff run_insert_Inr
        Let_def)
qed

text \<open>No job is lost and none is doubled: the rows outside the selection stay, and each selected job
  has exactly one row among the results, its retry or its failed row.\<close>

lemma fail_body_conserves:
  assumes run: "failJobsBody qs new_id now rnd sel out f t = Inr (t', rs)"
    and ids: "distinct (map job_id (filter sel t))"
  shows "t' = filter (\<lambda>j. \<not> sel j) t @ rs @ dlq_rows qs new_id now rs"
    "table_ok t'"
    "\<forall>j\<in>set t. sel j \<longrightarrow> retried_row f (out j) now (rnd (job_id j)) j \<in> set rs \<or>
       failed_row (out j) now j \<in> set rs"
    "\<forall>r\<in>set rs. \<exists>j\<in>set t. sel j \<and> (r = retried_row f (out j) now (rnd (job_id j)) j \<or>
       r = failed_row (out j) now j)"
    "distinct (map job_id rs)" "set (map job_id rs) = set (map job_id (filter sel t))"
    "length rs = length (filter sel t)"
    "\<forall>j\<in>set t. sel j \<longrightarrow> failed_row (out j) now j \<in> set rs \<longrightarrow> can_retry f j \<longrightarrow>
       (\<exists>x\<in>set t'. job_key x \<noteq> job_key j \<and> conflict x (retried_row f (out j) now (rnd (job_id j)) j))"
proof -
  let ?R = "\<lambda>j. retried_row f (out j) now (rnd (job_id j)) j"
  let ?D = "filter sel t"
  from run obtain ret F where
    i: "insert_skip (filter (\<lambda>j. \<not> sel j) t) (map ?R ?D) = (filter (\<lambda>j. \<not> sel j) t @ ret, ret)"
    and F: "F = map (\<lambda>j. failed_row (out j) now j) (filter (\<lambda>j. job_id j \<notin> set (map job_id ret)) ?D)"
    and rs: "rs = ret @ F" and t': "t' = filter (\<lambda>j. \<not> sel j) t @ ret @ F @ dlq_rows qs new_id now rs"
    and ok: "table_ok t'"
    by (rule failJobsBody_Inr)
  have ret_sub: "set ret \<subseteq> ?R ` set ?D" using insert_skip_subset [OF i] by simp
  have dR: "distinct (map job_id (map ?R ?D))" using ids by (simp add: comp_def)
  have dret: "distinct (map job_id ret)" by (rule insert_skip_distinct [OF i dR])
  have idmap: "map job_id F = filter (\<lambda>i. i \<notin> set (map job_id ret)) (map job_id ?D)"
    unfolding F by (simp add: filter_map comp_def)
  show "t' = filter (\<lambda>j. \<not> sel j) t @ rs @ dlq_rows qs new_id now rs" by (simp add: t' rs)
  show "table_ok t'" by (rule ok)
  have each: "?R j \<in> set ret \<or> failed_row (out j) now j \<in> set F" if "j \<in> set ?D" for j
  proof (cases "job_id j \<in> set (map job_id ret)")
    case True
    then obtain k where "k \<in> set ?D" "?R k \<in> set ret" "job_id k = job_id j" using ret_sub by auto
    thus ?thesis using distinct_map_inj [OF ids _ that] by auto
  qed (use that F in auto)
  thus "\<forall>j\<in>set t. sel j \<longrightarrow> ?R j \<in> set rs \<or> failed_row (out j) now j \<in> set rs" by (auto simp: rs)
  show "\<forall>r\<in>set rs. \<exists>j\<in>set t. sel j \<and> (r = ?R j \<or> r = failed_row (out j) now j)"
    using ret_sub by (auto simp: rs F)
  show d: "distinct (map job_id rs)" unfolding rs map_append idmap using dret ids by auto
  show s: "set (map job_id rs) = set (map job_id ?D)"
    unfolding rs map_append idmap using ret_sub by auto
  show "length rs = length ?D" using d s ids distinct_card by (metis length_map)
  show "\<forall>j\<in>set t. sel j \<longrightarrow> failed_row (out j) now j \<in> set rs \<longrightarrow> can_retry f j \<longrightarrow>
       (\<exists>x\<in>set t'. job_key x \<noteq> job_key j \<and> conflict x (?R j))"
  proof (intro ballI impI)
    fix j assume j: "j \<in> set t" "sel j" "failed_row (out j) now j \<in> set rs" "can_retry f j"
    have "?R j \<in> set ret \<or> (\<exists>x\<in>set (filter (\<lambda>j. \<not> sel j) t @ ret). conflict x (?R j))"
      using insert_skip_reason [OF i, of "?R j"] j by auto
    moreover have "?R j \<notin> set ret"
    proof
      assume r: "?R j \<in> set ret"
      hence "job_id j \<in> job_id ` set ret" using retried_row_simps(1) by (metis imageI)
      moreover have "r \<in> set F \<Longrightarrow> job_id r \<notin> job_id ` set ret" for r by (auto simp: F)
      ultimately have "failed_row (out j) now j \<notin> set F" using failed_row_simps(1) by metis
      hence "failed_row (out j) now j \<in> set ret" using j(3) rs by simp
      hence "failed_row (out j) now j = ?R j"
        using distinct_map_inj [OF dret _ r] by simp
      hence "Failed = state (?R j)" by (metis failed_row_simps(4))
      thus False using j(4) by (simp add: retried_row_def)
    qed
    ultimately obtain x where x: "x \<in> set (filter (\<lambda>j. \<not> sel j) t @ ret)" "conflict x (?R j)" by blast
    have notin: "job_id j \<notin> job_id ` set ret"
    proof
      assume "job_id j \<in> job_id ` set ret"
      then obtain y where y: "y \<in> set ret" "job_id j = job_id y" by blast
      then obtain k where k: "k \<in> set ?D" "y = ?R k" using ret_sub by auto
      hence "k = j" using y(2) distinct_map_inj [OF ids _ k(1)] j(1,2) by auto
      thus False using k(2) y(1) \<open>?R j \<notin> set ret\<close> by simp
    qed
    have f: "failed_row (out j) now j \<in> set F"
      using j(3) rs notin by (auto simp: image_iff)
    have "job_key x \<noteq> job_key j"
    proof
      assume "job_key x = job_key j"
      hence "conflict x (failed_row (out j) now j)" by (simp add: conflict_same_key job_key_def failed_row_def)
      moreover have "\<not> conflict x (failed_row (out j) now j)"
        using ok x(1) f by (auto simp: t' table_ok_append)
      ultimately show False by simp
    qed
    thus "\<exists>x\<in>set t'. job_key x \<noteq> job_key j \<and> conflict x (?R j)" using x by (auto simp: t')
  qed
qed

lemma distinct_ids_of_queue:
  "table_ok t \<Longrightarrow> (\<And>j. sel j \<Longrightarrow> job_name j = n) \<Longrightarrow> distinct (map job_id (filter sel t))"
proof -
  assume ok: "table_ok t" and n: "\<And>j. sel j \<Longrightarrow> job_name j = n"
  have "distinct (map job_key (filter sel t))" using distinct_filter_map [OF table_ok_distinct [OF ok]] .
  moreover have "map job_key (filter sel t) = map (\<lambda>i. (n, i)) (map job_id (filter sel t))"
    using n by (auto simp: job_key_def)
  ultimately have "distinct (map (\<lambda>i. (n, i)) (map job_id (filter sel t)))" by simp
  thus ?thesis by (subst (asm) distinct_map) simp
qed

section \<open>The backoff\<close>

lemma backoff_lower:
  assumes "0 \<le> rnd" shows "max (retry_delay j) 1 * second \<le> retry_backoff_micros j rnd"
proof -
  have "second \<le> 2 ^ nat (min 16 (retry_count j + 1) - 1) * (second + rnd)"
    using mult_mono [of 1 "2 ^ nat (min 16 (retry_count j + 1) - 1)" second "second + rnd"] assms
    by simp
  thus ?thesis unfolding retry_backoff_micros_def by (intro mult_left_mono) auto
qed

lemma backoff_upper:
  assumes "rnd < second"
  shows "retry_backoff_micros j rnd < max (retry_delay j) 1 * 2 ^ 16 * second"
proof -
  let ?e = "nat (min 16 (retry_count j + 1) - 1)"
  have "(2::int) ^ ?e \<le> 2 ^ 15" by (rule power_increasing) auto
  hence up: "(2::int) ^ ?e * (2 * second) \<le> 2 ^ 15 * (2 * second)"
    by (intro mult_right_mono) auto
  have "2 ^ ?e * (second + rnd) < 2 ^ ?e * (2 * second)"
    using assms by (intro mult_strict_left_mono) auto
  from order.strict_trans2 [OF this up] have "2 ^ ?e * (second + rnd) < 2 ^ 16 * second" by simp
  hence "max (retry_delay j) 1 * (2 ^ ?e * (second + rnd)) < max (retry_delay j) 1 * (2 ^ 16 * second)"
    by (intro mult_strict_left_mono) auto
  thus ?thesis by (simp add: retry_backoff_micros_def mult.assoc)
qed

section \<open>The expiry batch\<close>

lemma dlq_rows_created: "r \<in> set (dlq_rows qs new_id now rs) \<Longrightarrow> state r = Created"
  by (auto simp: dlq_rows_def dlq_row_def job_defaults_def)

lemma results_not_active:
  "state (retried_row f out now r j) \<noteq> Active" "state (failed_row out now j) \<noteq> Active"
  by (simp_all add: retried_row_def)

text \<open>Failing makes no job active: of the active jobs, the ones it did not take are left.\<close>

lemma failJobsBody_active:
  assumes act: "\<And>j. p j \<Longrightarrow> state j = Active"
    and run: "failJobsBody qs new_id now rnd sel (\<lambda>_. out) False t = Inr (t', rs)"
  shows "filter p t' = filter p (filter (\<lambda>j. \<not> sel j) t)"
proof -
  from run obtain ret F where
    i: "insert_skip (filter (\<lambda>j. \<not> sel j) t)
       (map (\<lambda>j. retried_row False out now (rnd (job_id j)) j) (filter sel t)) =
       (filter (\<lambda>j. \<not> sel j) t @ ret, ret)"
    and F: "F = map (failed_row out now) (filter (\<lambda>j. job_id j \<notin> set (map job_id ret)) (filter sel t))"
    and t': "t' = filter (\<lambda>j. \<not> sel j) t @ ret @ F @ dlq_rows qs new_id now rs"
    by (rule failJobsBody_Inr)
  have "filter p ret = []"
    using insert_skip_subset [OF i] act results_not_active(1) by (fastforce simp: filter_empty_conv)
  moreover have "filter p F = []" using act by (fastforce simp: F filter_empty_conv)
  moreover have "filter p (dlq_rows qs new_id now rs) = []"
    using act dlq_rows_created by (fastforce simp: filter_empty_conv)
  ultimately show ?thesis by (simp add: t')
qed

text \<open>A sweep's next batch cannot pick what an earlier one failed: the matches left are the ones not
  picked.\<close>

lemma expireJobs_progress:
  assumes act: "\<And>j. p j \<Longrightarrow> state j = Active"
    and run: "expireJobs qs new_id now rnd p out limit t = Inr (t', k)"
  shows "length (filter p t') + k \<le> length (filter p t)" "k = min limit (length (filter p t))"
proof -
  let ?ids = "set (map job_id (take limit (filter p t)))"
  let ?sel = "\<lambda>j. p j \<and> job_id j \<in> ?ids"
  obtain rs where run': "failJobsBody qs new_id now rnd ?sel (\<lambda>_. out) False t = Inr (t', rs)"
    and k: "k = length (take limit (filter p t))"
    using run by (auto simp: expireJobs_def Let_def and_then_Inr_iff)
  have "length (filter p t') = length (filter p (filter (\<lambda>j. \<not> ?sel j) t))"
    using failJobsBody_active [OF act run'] by simp
  moreover have "length (filter p (filter (\<lambda>j. \<not> ?sel j) t)) + length (filter ?sel (filter p t)) =
      length (filter p t)"
    using length_filter_split [of ?sel "filter p t"] by (simp add: conj_commute conj_left_commute)
  moreover have "length (take limit (filter p t)) \<le> length (filter ?sel (filter p t))"
  proof -
    have "length (filter ?sel (take limit (filter p t))) \<le> length (filter ?sel (filter p t))"
      by (rule length_filter_take)
    moreover have "filter ?sel (take limit (filter p t)) = take limit (filter p t)"
      by (auto simp: filter_id_conv dest: in_set_takeD)
    ultimately show ?thesis by simp
  qed
  ultimately show "length (filter p t') + k \<le> length (filter p t)" using k by linarith
  show "k = min limit (length (filter p t))" using k by simp
qed

section \<open>The distributed form does the same\<close>

lemma table_ok_perm:
  "mset xs = mset ys \<Longrightarrow> table_ok xs \<Longrightarrow> table_ok ys"
proof (induction xs arbitrary: ys)
  case (Cons x xs)
  hence "x \<in> set ys" by (metis list.set_intros(1) set_mset_mset)
  then obtain as bs where ys: "ys = as @ x # bs" by (metis split_list)
  hence m: "mset xs = mset (as @ bs)" using Cons.prems(1) by simp
  hence ok: "table_ok (as @ bs)" using Cons by (auto simp: table_ok_Cons)
  have "\<forall>y\<in>set (as @ bs). \<not> conflict x y"
    using Cons.prems(2) m by (metis mset_eq_setD table_ok_Cons)
  thus ?case using ok Cons.prems(2) ys conflict_sym
    by (auto simp: table_ok_append table_ok_Cons)
qed simp

definition reinsert_block ::
  "queue list \<Rightarrow> (job \<Rightarrow> uuid) \<Rightarrow> time \<Rightarrow> (uuid \<Rightarrow> int) \<Rightarrow> (job \<Rightarrow> json option) \<Rightarrow> job \<Rightarrow> job list" where
  "reinsert_block qs new_id now rnd out j = (let r = retried_row False (out j) now (rnd (job_id j)) j in
     r # dlq_rows qs new_id now [r])"

text \<open>No attempts beyond the limit, and times on whole milliseconds.\<close>

definition same_times :: "time \<Rightarrow> (uuid \<Rightarrow> int) \<Rightarrow> job \<Rightarrow> bool" where
  "same_times now rnd j = (retry_count j \<le> retry_limit j \<and>
     (retry_count j < retry_limit j \<longrightarrow> 1000 dvd retry_start_after now (rnd (job_id j)) j))"

lemma dist_row_eq:
  assumes "same_times now rnd j" "r = rnd (job_id j)"
  shows "can_retry False j \<Longrightarrow> dist_retry_row out now r j = retried_row False out now r j"
    "\<not> can_retry False j \<Longrightarrow> failed_row out now j = retried_row False out now r j"
  using assms
  by (auto simp: can_retry_def dist_retry_row_def retried_row_def failed_row_def same_times_def
      retry_start_after_def whole_ms_id)

lemma run_insert_skip_one:
  "table_ok (t @ [r]) \<Longrightarrow> run_insert_skip [r] t = Inr (t @ [r], [r])"
  by (auto simp: run_insert_skip_def table_ok_append table_ok_Cons list_ex_iff)

lemma reinsert_one_block:
  assumes "table_ok (t @ reinsert_block qs new_id now rnd out j)" "same_times now rnd j" "1000 dvd now"
    "\<forall>q\<in>set qs. q_name q \<noteq> []"
  shows "reinsert_one qs new_id now rnd out False j t = Inr (t @ reinsert_block qs new_id now rnd out j)"
proof -
  let ?r = "retried_row False (out j) now (rnd (job_id j)) j"
  have ok1: "table_ok (t @ [?r])"
    using assms(1) by (auto simp: reinsert_block_def Let_def table_ok_append table_ok_Cons)
  show ?thesis
  proof (cases "can_retry False j")
    case True
    hence "dlq_rows qs new_id now [?r] = []" by (auto simp: dlq_rows_def retried_row_def)
    thus ?thesis using True run_insert_skip_one [OF ok1] dist_row_eq(1) [OF assms(2) refl True] assms(3)
      by (simp add: reinsert_one_def insertRetryJob_def reinsert_block_def Let_def whole_ms_id)
  next
    case False
    note eq = dist_row_eq(2) [OF assms(2) refl False, of "out j"]
    have dl: "dlq_rows qs new_id now [?r] = (case dead_letter j of None \<Rightarrow> []
        | Some dl \<Rightarrow> map (\<lambda>q. dlq_row q (new_id ?r) now ?r) (filter (\<lambda>q. q_name q = dl) qs))"
      unfolding eq [symmetric]
      by (auto simp: dlq_rows_def split: option.splits intro!: arg_cong [where f = "map _"] filter_cong)
    have none: "filter (\<lambda>q. q_name q = []) qs = []" using assms(4) by (auto simp: filter_empty_conv)
    have "table_ok ((t @ [?r]) @ dlq_rows qs new_id now [?r])"
      using assms(1) by (simp add: reinsert_block_def Let_def)
    thus ?thesis using False run_insert_skip_one [OF ok1] none assms(3)
      by (auto simp: whole_ms_id reinsert_one_def insertRetryJob_def insertDeadLetterJob_def reinsert_block_def
          Let_def eq dl run_insert_def check_table_Inr split: option.splits)
  qed
qed

lemma reinsert_blocks:
  assumes "table_ok (t @ concat (map (reinsert_block qs new_id now rnd out) js))"
    "\<forall>j\<in>set js. same_times now rnd j" "1000 dvd now" "\<forall>q\<in>set qs. q_name q \<noteq> []"
  shows "reinsertFailedJobs qs new_id now rnd out False js t =
    Inr (t @ concat (map (reinsert_block qs new_id now rnd out) js), length js)"
  using assms
proof (induction js arbitrary: t)
  case (Cons j js)
  let ?b = "reinsert_block qs new_id now rnd out j"
  have "table_ok (t @ ?b)" using Cons.prems(1) by (simp add: table_ok_append)
  hence one: "reinsert_one qs new_id now rnd out False j t = Inr (t @ ?b)"
    using Cons.prems by (intro reinsert_one_block) auto
  show ?case using Cons.IH [of "t @ ?b"] Cons.prems one by simp
qed simp

lemma mset_blocks:
  "mset (concat (map (reinsert_block qs new_id now rnd out) js)) =
    mset (map (\<lambda>j. retried_row False (out j) now (rnd (job_id j)) j) js) +
    mset (dlq_rows qs new_id now (map (\<lambda>j. retried_row False (out j) now (rnd (job_id j)) j) js))"
  by (induction js) (simp_all add: reinsert_block_def Let_def dlq_rows_def)

lemma deleteJobsToFail_eq:
  assumes "table_ok t" "\<And>j. sel j \<Longrightarrow> job_name j = n"
  shows "deleteJobsToFail n (map job_id (filter sel t)) t = filter (\<lambda>j. \<not> sel j) t"
  unfolding deleteJobsToFail_def run_delete_simps
proof (rule filter_cong [OF refl])
  fix j assume j: "j \<in> set t"
  have "sel j" if "job_name j = n" "job_id j = job_id k" "k \<in> set t" "sel k" for k
    using that table_ok_key_eq [OF assms(1) j that(3)] assms(2) by (auto simp: job_key_def)
  thus "(\<not> (job_name j = n \<and> job_id j \<in> set (map job_id (filter sel t)))) = (\<not> sel j)"
    using j assms(2) by auto
qed

end
