(* ===== verification/Settle_Props.thy ===== *)
theory Settle_Props
  imports Settle Fetch_Props
begin

text \<open>
  The properties of the in-place settle statements: what a completion does, that the fence keeps a
  stale worker off a newer attempt, that finished jobs stay finished, that a settle is idempotent,
  and that the retained count stays exact.
\<close>

section \<open>Lemmas\<close>

lemma lift_sql_Inr [simp]: "lift_sql r = Inr x \<longleftrightarrow> r = Inr x"
  by (cases r) simp_all

lemma complete_eq:
  assumes "table_ok t" "mapAttemptArg items = Inr (ids, fetched)"
  shows "complete d h n items out q now t =
    (let sel = complete_sel n ids q (fence_of h ids fetched) in
     Inr (upd_where sel (complete_chg (mapCompletionDataArg out) q now) t,
       mapCommandResponse ids (length (filter sel t)) (Some (map job_id (filter sel t)))))"
proof (cases d)
  case True
  thus ?thesis
    using complete.succeeds [OF assms(1)] assms(2)
    by (simp add: complete_def completeDistributed_def completeJobsDistributed_def Let_def
        complete_chg_def comp_def)
next
  case False
  thus ?thesis using completeJobs_eq [OF assms(1)] assms(2)
    by (simp add: complete_def settled_ids_def Let_def)
qed

lemma cancel_eq:
  assumes "table_ok t" "mapAttemptArg items = Inr (ids, fetched)"
  shows "cancel h n items now t = (let sel = cancel_sel n ids (fence_of h ids fetched) in
     Inr (upd_where sel (cancel_chg now) t,
       mapCommandResponse ids (length (filter sel t)) (Some (map job_id (filter sel t)))))"
  using cancelJobs_eq [OF assms(1)] assms(2)
  by (simp add: cancel_def settled_ids_def Let_def)

lemma touch_eq:
  assumes "table_ok t" "mapAttemptArg items = Inr (ids, fetched)"
  shows "touch n items now t =
    (let sel = touch_sel n ids (map_option (attemptPairs ids) fetched) in
     Inr (upd_where sel (touch_chg now) t,
       mapCommandResponse ids (length (filter sel t)) (Some (map job_id (filter sel t)))))"
  using touchJobs_eq [OF assms(1)] assms(2)
  by (simp add: touch_def settled_ids_def Let_def)

lemma deleteJob_eq:
  assumes "mapAttemptArg items = Inr (ids, fetched)"
  shows "\<exists>qs' r. deleteJob c h n items t qs =
     Inr (filter (\<lambda>j. \<not> delete_sel n ids (fence_of h ids fetched) j) t, qs', r)"
  using assms by (simp add: deleteJob_def deleteJobsById_eq)

lemma upd_where_keeps: "j \<in> set t \<Longrightarrow> \<not> p j \<Longrightarrow> j \<in> set (upd_where p f t)"
  by (auto simp: set_upd_where)

text \<open>What the fence lets through: the active attempt that was fetched.\<close>

lemma fenced_out:
  assumes "(job_id j, retry_count j) \<notin> set (zip ids cs)"
  shows "\<not> attemptFence (fence_of h ids (Some cs)) j"
  using assms by (simp add: attemptFence_def fence_of_def attemptPairs_def)

lemma settle_fenced:
  assumes "table_ok t" "j \<in> set t" "mapAttemptArg items = Inr (ids, Some cs)"
    and "(job_id j, retry_count j) \<notin> set (zip ids cs)"
  shows "(\<forall>t' r. complete d h n items out q now t = Inr (t', r) \<longrightarrow> j \<in> set t') \<and>
    (\<forall>t' r. cancel h n items now t = Inr (t', r) \<longrightarrow> j \<in> set t') \<and>
    (\<forall>t' r. touch n items now t = Inr (t', r) \<longrightarrow> j \<in> set t') \<and>
    (\<forall>t' qs' r. deleteJob c h n items t qs = Inr (t', qs', r) \<longrightarrow> j \<in> set t')"
proof (intro conjI allI impI)
  note out = fenced_out [OF assms(4)]
  have tout: "\<not> touch_sel n ids (map_option (attemptPairs ids) (Some cs)) j"
    using assms(4) by (simp add: touch_sel_def attemptFence_def attemptPairs_def)
  fix t' r
  show "complete d h n items out q now t = Inr (t', r) \<Longrightarrow> j \<in> set t'"
    using complete_eq [OF assms(1,3)] out assms(2)
    by (auto simp: Let_def complete_sel_def intro: upd_where_keeps)
  show "cancel h n items now t = Inr (t', r) \<Longrightarrow> j \<in> set t'"
    using cancel_eq [OF assms(1,3)] out assms(2)
    by (auto simp: Let_def cancel_sel_def intro: upd_where_keeps)
  show "touch n items now t = Inr (t', r) \<Longrightarrow> j \<in> set t'"
    using touch_eq [OF assms(1,3)] tout assms(2) by (auto simp: Let_def intro: upd_where_keeps)
  fix qs'
  show "deleteJob c h n items t qs = Inr (t', qs', r) \<Longrightarrow> j \<in> set t'"
    using deleteJob_eq [OF assms(3), of c h n t qs] out [of h] assms(2)
    by (auto simp: delete_sel_def)
qed

section \<open>Properties\<close>

text \<open>A completion is total and exact: it never fails, whatever the policies of the table; the
  jobs of the queue that were named, active (or not finished, when queued jobs are included) and
  within the fence are completed with the given output and a completion time, and are the ones
  reported; every other row is as it was and the constraints hold again.\<close>

theorem complete_exact:
  assumes "table_ok t" "mapAttemptArg items = Inr (ids, fetched)"
  shows "\<exists>t' r. complete d h n items out q now t = Inr (t', r) \<and> table_ok t' \<and>
    t' = map (\<lambda>j. if job_name j = n \<and> job_id j \<in> set ids \<and>
                    (if q then state j \<in> {Created, Retry, Active} else state j = Active) \<and>
                    attemptFence (fence_of h ids fetched) j
                 then complete_chg (mapCompletionDataArg out) q now j else j) t \<and>
    cr_affected r = length (the (cr_settled r)) \<and>
    set (the (cr_settled r)) = {job_id j | j. j \<in> set t \<and>
       complete_sel n ids q (fence_of h ids fetched) j} \<and>
    (\<forall>j\<in>set t. complete_sel n ids q (fence_of h ids fetched) j \<longrightarrow>
       (\<exists>j'\<in>set t'. job_key j' = job_key j \<and> state j' = Completed \<and>
         job_output j' = mapCompletionDataArg out \<and> completed_on j' = Some now))"
proof -
  let ?sel = "complete_sel n ids q (fence_of h ids fetched)"
  let ?chg = "complete_chg (mapCompletionDataArg out) q now"
  have eq: "(\<lambda>j. if job_name j = n \<and> job_id j \<in> set ids \<and>
        (if q then state j \<in> {Created, Retry, Active} else state j = Active) \<and>
        attemptFence (fence_of h ids fetched) j then ?chg j else j) = (\<lambda>j. if ?sel j then ?chg j else j)"
    by (auto simp: complete_sel_def fun_eq_iff)
  have ex: "\<exists>j'\<in>set (upd_where ?sel ?chg t). job_key j' = job_key j \<and> state j' = Completed \<and>
         job_output j' = mapCompletionDataArg out \<and> completed_on j' = Some now"
    if "j \<in> set t" "?sel j" for j
    using that by (intro bexI [of _ "?chg j"])
      (auto simp: set_upd_where complete_chg_def job_key_def)
  show ?thesis
    unfolding complete_eq [OF assms] Let_def eq
    using complete.keeps_ok [OF assms(1)] ex
    by (auto simp: mapCommandResponse_def upd_where_def [symmetric])
qed

lemma complete_exact_witness:
  "\<exists>t' r. complete False (\<lambda>_. None) ''q'' [PlainId 1] None False 9
      [claim_row 5 (sample_job 1 ''q'' 5)] = Inr (t', r) \<and> cr_affected r = length (the (cr_settled r))"
  using complete_exact [of "[claim_row 5 (sample_job 1 ''q'' 5)]" "[PlainId 1]" "[1]" None False
      "\<lambda>_. None" "''q''" None False 9]
  by (auto simp: table_ok_def key_check_def claim_row_def sample_job_def job_defaults_def
      mapAttemptArg_def)

text \<open>The distributed completion is the same operation: with and without
  \<^verbatim>\<open>noMultiMutationCte\<close> the call leaves the same table and reports the same result, errors
  included.\<close>

theorem complete_distributed_equiv:
  "complete True h n items out q now t = complete False h n items out q now t"
proof (cases "mapAttemptArg items")
  case (Inr p)
  obtain ids fetched where "p = (ids, fetched)" by force
  thus ?thesis using Inr
    by (simp add: complete_def completeDistributed_def completeJobsDistributed_def completeJobs_def
        settled_ids_def Let_def run_update_def and_then_def lift_sql_def
        split: sum.splits prod.splits)
qed (simp add: complete_def)

text \<open>The attempt fence: a worker settling with the attempt it fetched cannot touch another
  attempt.  If the named pairs do not include the job's current retry count, \<^verbatim>\<open>complete()\<close>,
  \<^verbatim>\<open>cancel()\<close>, \<^verbatim>\<open>touch()\<close> and \<^verbatim>\<open>deleteJob()\<close> all leave the row as it is.\<close>

theorem fence_protects_newer_attempt:
  assumes "table_ok t" "j \<in> set t" "mapAttemptArg items = Inr (ids, Some cs)"
    and "(job_id j, retry_count j) \<notin> set (zip ids cs)"
  shows "(\<forall>t' r. complete d h n items out q now t = Inr (t', r) \<longrightarrow> j \<in> set t') \<and>
    (\<forall>t' r. cancel h n items now t = Inr (t', r) \<longrightarrow> j \<in> set t') \<and>
    (\<forall>t' r. touch n items now t = Inr (t', r) \<longrightarrow> j \<in> set t') \<and>
    (\<forall>t' qs' r. deleteJob c h n items t qs = Inr (t', qs', r) \<longrightarrow> j \<in> set t')"
  using assms by (rule settle_fenced)

lemma fence_protects_newer_attempt_witness:
  "\<exists>t' r. complete False (\<lambda>_. None) ''q'' [Attempt 1 0] None False 9
     [claim_row 8 (sample_job 1 ''q'' 5 \<lparr>state := Retry, started_on := Some 6\<rparr>)] = Inr (t', r) \<and>
   claim_row 8 (sample_job 1 ''q'' 5 \<lparr>state := Retry, started_on := Some 6\<rparr>) \<in> set t'"
proof -
  let ?j = "claim_row 8 (sample_job 1 ''q'' 5 \<lparr>state := Retry, started_on := Some 6\<rparr>)"
  have ok: "table_ok [?j]" "?j \<in> set [?j]" "mapAttemptArg [Attempt 1 0] = Inr ([1], Some [0])"
    "(job_id ?j, retry_count ?j) \<notin> set (zip [1] [0])"
    by (simp_all add: table_ok_def key_check_def claim_row_def sample_job_def job_defaults_def
        mapAttemptArg_def)
  show ?thesis
    using fence_protects_newer_attempt [OF ok, of False "\<lambda>_. None" "''q''" None False 9]
      complete_eq [OF ok(1,3), of False "\<lambda>_. None" "''q''" None False 9]
    by (auto simp: Let_def)
qed

text \<open>A finished job stays finished: neither \<^verbatim>\<open>complete()\<close> nor \<^verbatim>\<open>cancel()\<close>, fenced or not, with
  queued jobs included or not, changes a job that is completed, cancelled or failed.\<close>

theorem settle_keeps_finished:
  assumes "table_ok t" "j \<in> set t" "state j \<in> {Completed, Cancelled, Failed}"
  shows "(\<forall>t' r. complete d h n items out q now t = Inr (t', r) \<longrightarrow> j \<in> set t') \<and>
    (\<forall>t' r. cancel h n items now t = Inr (t', r) \<longrightarrow> j \<in> set t')"
proof (cases "mapAttemptArg items")
  case (Inr p)
  obtain ids fetched where p: "mapAttemptArg items = Inr (ids, fetched)" using Inr by (cases p) simp
  have "\<not> complete_sel n ids q (fence_of h ids fetched) j" "\<not> cancel_sel n ids (fence_of h ids fetched) j"
    using assms(3) by (auto simp: complete_sel_def cancel_sel_def)
  thus ?thesis
    using complete_eq [OF assms(1) p] cancel_eq [OF assms(1) p] assms(2)
    by (auto simp: Let_def intro: upd_where_keeps)
qed (simp add: complete_def cancel_def)

lemma settle_keeps_finished_witness:
  "\<exists>t' r. cancel (\<lambda>_. None) ''q'' [PlainId 1] 9 [sample_job 1 ''q'' 5 \<lparr>state := Failed\<rparr>] = Inr (t', r)
    \<and> sample_job 1 ''q'' 5 \<lparr>state := Failed\<rparr> \<in> set t'"
proof -
  let ?j = "sample_job 1 ''q'' 5 \<lparr>state := Failed\<rparr>"
  have ok: "table_ok [?j]" "?j \<in> set [?j]" "state ?j \<in> {Completed, Cancelled, Failed}"
      "mapAttemptArg [PlainId 1] = Inr ([1], None)"
    by (simp_all add: eval_defs mapAttemptArg_def)
  show ?thesis
    using settle_keeps_finished [OF ok(1-3), of False "\<lambda>_. None" "''q''" "[PlainId 1]" None False 9]
      cancel_eq [OF ok(1,4), of "\<lambda>_. None" "''q''" 9]
    by (auto simp: Let_def)
qed

text \<open>A settle is idempotent: repeating a completion that was acknowledged changes nothing and
  reports that nothing was affected.\<close>

theorem complete_idempotent:
  assumes "table_ok t" "complete d h n items out q now t = Inr (t', r)"
  shows "\<exists>r'. complete d h n items out q later t' = Inr (t', r') \<and> cr_affected r' = 0"
proof -
  obtain ids fetched where p: "mapAttemptArg items = Inr (ids, fetched)"
    using assms(2) by (auto simp: complete_def and_then_Inr_iff)
  let ?sel = "complete_sel n ids q (fence_of h ids fetched)"
  have t': "t' = upd_where ?sel (complete_chg (mapCompletionDataArg out) q now) t"
    using assms complete_eq [OF assms(1) p, of d h n out q now] by (simp add: Let_def)
  have none: "\<not> ?sel j" if "j \<in> set t'" for j
    using that complete_settles unfolding t' set_upd_where by blast
  hence "filter ?sel t' = []" "upd_where ?sel (complete_chg (mapCompletionDataArg out) q later) t' = t'"
    by (simp_all add: filter_empty_conv upd_where_none)
  moreover have "table_ok t'" unfolding t' by (rule complete.keeps_ok [OF assms(1)])
  ultimately show ?thesis
    by (simp add: complete_eq [OF _ p] Let_def mapCommandResponse_def)
qed

lemma complete_idempotent_witness:
  "\<exists>r'. complete False (\<lambda>_. None) ''q'' [PlainId 1] None False 10
     [complete_chg None False 9 (claim_row 5 (sample_job 1 ''q'' 5))] =
       Inr ([complete_chg None False 9 (claim_row 5 (sample_job 1 ''q'' 5))], r') \<and> cr_affected r' = 0"
proof -
  have ok: "table_ok [claim_row 5 (sample_job 1 ''q'' 5)]"
    by (simp add: table_ok_def key_check_def claim_row_def sample_job_def job_defaults_def)
  have arg: "mapAttemptArg [PlainId 1] = Inr ([1], None)" by (simp add: mapAttemptArg_def)
  have "complete False (\<lambda>_. None) ''q'' [PlainId 1] None False 9 [claim_row 5 (sample_job 1 ''q'' 5)] =
      Inr ([complete_chg None False 9 (claim_row 5 (sample_job 1 ''q'' 5))],
        mapCommandResponse [1] 1 (Some [1]))"
    unfolding complete_eq [OF ok arg]
    by (simp add: Let_def complete_sel_def fence_of_def attemptFence_def claim_row_def
        sample_job_def job_defaults_def mapCompletionDataArg_def)
  from complete_idempotent [OF ok this, of 10] show ?thesis .
qed

section \<open>Resuming\<close>

text \<open>A resumed job without a policy that covers waiting jobs and without a throttle slot holds no
  index entry but its key.\<close>

definition resumes_freely :: "job \<Rightarrow> bool" where
  "resumes_freely j = (policy j \<notin> {Some Short, Some Stately, Some Exclusive} \<and>
     singleton_on j = None)"

interpretation resumes: settling "\<lambda>j. resume_sel n ids j \<and> resumes_freely j" "resume_chg now"
  for n ids now
  by standard (auto simp: resume_sel_def resumes_freely_def resume_chg_def gives_up_def entry_le_def
      job_key_def index_defs skey_def key_check_def split: option.splits)

lemma resume_upd_eq:
  assumes "\<forall>j\<in>set t. resume_sel n ids j \<longrightarrow> resumes_freely j"
  shows "upd_where (resume_sel n ids) f t = upd_where (\<lambda>j. resume_sel n ids j \<and> resumes_freely j) f t"
  unfolding upd_where_def using assms by (intro map_cong) auto

text \<open>Cancelling is undone by resuming: a waiting job that is cancelled and then resumed is the
  job it was, due no earlier than the resume, with its upsert mark gone; and no index can refuse the
  resume of jobs whose policy does not cover waiting jobs and that hold no throttle slot.\<close>

theorem resume_undoes_cancel:
  assumes "table_ok t" "ids \<noteq> []" "\<forall>j\<in>set t. resume_sel n ids j \<longrightarrow> resumes_freely j"
  shows "(\<exists>t' qs' r. resume c n ids now t qs = Inr (t', qs', r) \<and> table_ok t' \<and>
      t' = upd_where (resume_sel n ids) (resume_chg now) t) \<and>
    (\<forall>j. state j = Created \<and> completed_on j = None \<longrightarrow>
      resume_chg now (cancel_chg before j) = j\<lparr>start_after := max (start_after j) now, upsert_by_key := None\<rparr>)"
proof
  have "table_ok (upd_where (resume_sel n ids) (resume_chg now) t)"
    unfolding resume_upd_eq [OF assms(3)] by (rule resumes.keeps_ok [OF assms(1)])
  thus "\<exists>t' qs' r. resume c n ids now t qs = Inr (t', qs', r) \<and> table_ok t' \<and>
      t' = upd_where (resume_sel n ids) (resume_chg now) t"
    using assms(2)
    by (simp add: resume_def mapCompletionIdArg_def resumeJobs_def run_update_def check_table_Inr)
  show "\<forall>j. state j = Created \<and> completed_on j = None \<longrightarrow>
      resume_chg now (cancel_chg before j) = j\<lparr>start_after := max (start_after j) now, upsert_by_key := None\<rparr>"
    by (simp add: resume_chg_def cancel_chg_def)
qed

lemma resume_undoes_cancel_witness:
  "\<exists>t' qs' r. resume False ''q'' [1] 9 [sample_job 1 ''q'' 5 \<lparr>state := Cancelled\<rparr>] [] = Inr (t', qs', r)"
proof -
  have "table_ok [sample_job 1 ''q'' 5 \<lparr>state := Cancelled\<rparr>]" by (simp add: eval_defs)
  moreover have "\<forall>j\<in>set [sample_job 1 ''q'' 5 \<lparr>state := Cancelled\<rparr>].
      resume_sel ''q'' [1] j \<longrightarrow> resumes_freely j"
    by (simp add: eval_defs resumes_freely_def)
  ultimately show ?thesis using resume_undoes_cancel [of _ "[1]" "''q''" False 9 "[]"] by blast
qed

section \<open>The retained count\<close>

definition counted :: "str \<Rightarrow> time \<Rightarrow> job \<Rightarrow> bool" where
  "counted n r j = (job_name j = n \<and> retained_state (state j) \<and> on_or_before (completed_on j) (Some r))"

text \<open>The queue's \<^verbatim>\<open>retained_count\<close> is the number of completed and cancelled jobs that finished by
  its \<^verbatim>\<open>retained_on\<close>, once the retention sweep has counted them.\<close>

definition retained_exact :: "job list \<Rightarrow> queue \<Rightarrow> bool" where
  "retained_exact t q = (case (q_retained_count q, q_retained_on q) of
       (Some c, Some r) \<Rightarrow> c = int (length (filter (counted (q_name q) r) t))
     | _ \<Rightarrow> True)"

lemma retained_on_of_queue:
  assumes "distinct (map q_name qs)" "q \<in> set qs"
  shows "retained_on_of (q_name q) qs = q_retained_on q"
  using filter_key_unique [OF assms] by (simp add: retained_on_of_def)

lemma filter_filter_split:
  "length (filter P (filter (\<lambda>j. \<not> S j) t)) + length (filter P (filter S t)) = length (filter P t)"
  by (induction t) auto

lemma reduced_exact:
  assumes "distinct (map q_name qs)" "\<forall>q\<in>set qs. retained_exact t q" "q' \<in> set (reduceRetainedCount n k m qs)"
    and other: "\<And>q r. q \<in> set qs \<Longrightarrow> q_name q \<noteq> n \<Longrightarrow>
      length (filter (counted (q_name q) r) t') = length (filter (counted (q_name q) r) t)"
    and mine: "\<And>q r. q \<in> set qs \<Longrightarrow> q_name q = n \<Longrightarrow> q_retained_on q = Some r \<Longrightarrow>
      length (filter (counted n r) t') + k = length (filter (counted n r) t)"
  shows "retained_exact t' q'"
proof -
  obtain q where q: "q \<in> set qs" and q': "q' = (if q_name q = n
      then q\<lparr>q_retained_count := map_option (\<lambda>c. max (c - int k) 0) (q_retained_count q),
             q_total_count := max (q_total_count q - int m) 0\<rparr> else q)"
    using assms(3) by (auto simp: reduceRetainedCount_def set_upd_where split: if_splits)
  have ex: "retained_exact t q" using assms(2) q by blast
  show ?thesis
  proof (cases "q_name q = n")
    case False
    thus ?thesis using ex q' other [OF q False]
      by (auto simp: retained_exact_def split: option.splits)
  next
    case True
    show ?thesis
    proof (cases "(q_retained_count q, q_retained_on q)")
      case (Pair c r)
      thus ?thesis using True ex q' mine [OF q True]
        by (cases c; cases r) (auto simp: retained_exact_def)
    qed
  qed
qed

text \<open>An update that would take nothing off is not sent, which is no different.\<close>

lemma reduced_none:
  assumes "\<forall>q\<in>set qs. retained_exact t q" "q \<in> set qs"
    and len: "\<And>r. q_retained_on q = Some r \<Longrightarrow>
      length (filter (counted (q_name q) r) t') = length (filter (counted (q_name q) r) t)"
  shows "retained_exact t' q"
proof -
  have "retained_exact t q" using assms by blast
  thus ?thesis using len by (auto simp: retained_exact_def split: option.splits)
qed

lemma reduceRetained_exact:
  assumes "distinct (map q_name qs)" "\<forall>q\<in>set qs. retained_exact t q" "q' \<in> set (reduceRetained False n k b qs)"
    and other: "\<And>q r. q \<in> set qs \<Longrightarrow> q_name q \<noteq> n \<Longrightarrow>
      length (filter (counted (q_name q) r) t') = length (filter (counted (q_name q) r) t)"
    and mine: "\<And>q r. q \<in> set qs \<Longrightarrow> q_name q = n \<Longrightarrow> q_retained_on q = Some r \<Longrightarrow>
      length (filter (counted n r) t') + k = length (filter (counted n r) t)"
  shows "retained_exact t' q'"
proof (cases "k = 0")
  case True
  hence q': "q' \<in> set qs" using assms(3) by (simp add: reduceRetained_def)
  show ?thesis
    by (rule reduced_none [OF assms(2) q']) (use other [OF q'] mine [OF q'] True in fastforce)
next
  case False
  thus ?thesis using assms(3) reduced_exact [OF assms(1,2) _ other mine] by (simp add: reduceRetained_def)
qed

text \<open>The retained count stays exact: deleting or resuming jobs takes exactly the counted jobs
  they moved off the queue's \<^verbatim>\<open>retained_count\<close>, so every queue whose count was right before the
  call has the right count after it.\<close>

theorem retained_count_exact:
  assumes "distinct (map q_name qs)" "\<forall>q\<in>set qs. retained_exact t q" "n \<in> q_name ` set qs"
  shows "(\<forall>t' qs' r. deleteJob False h n items t qs = Inr (t', qs', r) \<longrightarrow>
      (\<forall>q\<in>set qs'. retained_exact t' q)) \<and>
    (\<forall>t' qs' r. resume False n ids now t qs = Inr (t', qs', r) \<longrightarrow>
      (\<forall>q\<in>set qs'. retained_exact t' q))"
proof (intro conjI allI impI ballI)
  fix t' qs' r q' assume run: "deleteJob False h n items t qs = Inr (t', qs', r)" and q': "q' \<in> set qs'"
  then obtain jds cs where arg: "mapAttemptArg items = Inr (jds, cs)"
    by (auto simp: deleteJob_def and_then_Inr_iff)
  let ?sel = "delete_sel n jds (fence_of h jds cs)"
  let ?k = "length (filter (\<lambda>j. retained_state (state j) \<and>
      on_or_before (completed_on j) (retained_on_of n qs)) (filter ?sel t))"
  have t': "t' = filter (\<lambda>j. \<not> ?sel j) t" and qs': "qs' = reduceRetained False n ?k True qs"
    using run arg by (auto simp: deleteJob_def deleteJobsById_eq)
  show "retained_exact t' q'"
  proof (rule reduceRetained_exact [OF assms(1,2) q' [unfolded qs']])
    fix q r assume "q \<in> set qs" "q_name q \<noteq> n"
    moreover hence "filter (counted (q_name q) r) (filter ?sel t) = []"
      by (auto simp: filter_empty_conv counted_def delete_sel_def)
    ultimately show "length (filter (counted (q_name q) r) t') = length (filter (counted (q_name q) r) t)"
      using filter_filter_split [of "counted (q_name q) r" ?sel t] by (simp add: t')
  next
    fix q r assume q: "q \<in> set qs" "q_name q = n" "q_retained_on q = Some r"
    have "?k = length (filter (counted n r) (filter ?sel t))"
      using retained_on_of_queue [OF assms(1) q(1)] q
      by (auto simp: counted_def delete_sel_def intro!: arg_cong [where f = length] filter_cong)
    thus "length (filter (counted n r) t') + ?k = length (filter (counted n r) t)"
      using filter_filter_split [of "counted n r" ?sel t] by (simp add: t')
  qed
next
  fix t' qs' r q' assume run: "resume False n ids now t qs = Inr (t', qs', r)" and q': "q' \<in> set qs'"
  let ?sel = "resume_sel n ids"
  let ?k = "length (filter (\<lambda>j. on_or_before (completed_on j) (retained_on_of n qs)) (filter ?sel t))"
  from run have t': "t' = upd_where ?sel (resume_chg now) t" and qs': "qs' = reduceRetained False n ?k False qs"
    by (auto simp: resume_def resumeJobs_def mapCompletionIdArg_def and_then_Inr_iff run_update_Inr
        split: if_splits)
  have gone: "filter (counted m r) (upd_where ?sel (resume_chg now) t) =
      filter (counted m r) (filter (\<lambda>j. \<not> ?sel j) t)" for m r
    by (induction t) (auto simp: counted_def resume_chg_def retained_state_def)
  show "retained_exact t' q'"
  proof (rule reduceRetained_exact [OF assms(1,2) q' [unfolded qs']])
    fix q r assume "q \<in> set qs" "q_name q \<noteq> n"
    moreover hence "filter (counted (q_name q) r) (filter ?sel t) = []"
      by (auto simp: filter_empty_conv counted_def resume_sel_def)
    ultimately show "length (filter (counted (q_name q) r) t') = length (filter (counted (q_name q) r) t)"
      using filter_filter_split [of "counted (q_name q) r" ?sel t] by (simp add: t' gone)
  next
    fix q r assume q: "q \<in> set qs" "q_name q = n" "q_retained_on q = Some r"
    have "?k = length (filter (counted n r) (filter ?sel t))"
      using retained_on_of_queue [OF assms(1) q(1)] q
      by (auto simp: counted_def resume_sel_def retained_state_def
          intro!: arg_cong [where f = length] filter_cong)
    thus "length (filter (counted n r) t') + ?k = length (filter (counted n r) t)"
      using filter_filter_split [of "counted n r" ?sel t] by (simp add: t' gone)
  qed
qed

lemma retained_count_exact_witness:
  "\<exists>t' qs' r. deleteJob False (\<lambda>_. None) ''q'' [PlainId 1]
      [complete_chg None False 3 (sample_job 1 ''q'' 2)]
      [queue_defaults ''q'' Standard ''job_common'' 0
         \<lparr>q_retained_count := Some 1, q_retained_on := Some 5\<rparr>] = Inr (t', qs', r) \<and>
    list_all (retained_exact t') qs'"
proof -
  let ?t = "[complete_chg None False 3 (sample_job 1 ''q'' 2)]"
  let ?qs = "[queue_defaults ''q'' Standard ''job_common'' 0
         \<lparr>q_retained_count := Some 1, q_retained_on := Some 5\<rparr>]"
  have *: "distinct (map q_name ?qs)" "\<forall>q\<in>set ?qs. retained_exact ?t q" "''q'' \<in> q_name ` set ?qs"
    by (simp_all add: queue_defaults_def retained_exact_def counted_def complete_chg_def
        sample_job_def job_defaults_def retained_state_def on_or_before_def)
  obtain t' qs' r where run: "deleteJob False (\<lambda>_. None) ''q'' [PlainId 1] ?t ?qs = Inr (t', qs', r)"
    by (cases "deleteJob False (\<lambda>_. None) ''q'' [PlainId 1] ?t ?qs")
      (auto simp: deleteJob_def mapAttemptArg_def deleteJobsById_def run_delete_def Let_def)
  from retained_count_exact [OF *] run have "\<forall>q\<in>set qs'. retained_exact t' q" by blast
  thus ?thesis using run by (auto simp: list_all_iff)
qed

end
