(* ===== verification/Fail_Props.thy ===== *)
theory Fail_Props
  imports Fail Settle_Props
begin

text \<open>
  The properties of failing: no job is lost or doubled, a retry is granted when one is left, what
  the dead letter copy holds, the bounds of the backoff, that a lapsed claim cannot settle the next
  attempt, that an expiry sweep makes progress, and how the distributed form compares with the single
  statement, including the two inputs on which a job is lost.
\<close>

lemma fail_False_E:
  assumes "fail False h qs new_id n items out now rnd t = Inr (t', r)"
  obtains ids fetched rs where "mapAttemptArg items = Inr (ids, fetched)"
    "failJobsBody qs new_id now rnd (fail_sel n ids (fence_of h ids fetched))
       (\<lambda>_. mapCompletionDataArg out) False t = Inr (t', rs)"
    "cr_settled r = Some (map job_id rs)" "cr_affected r = length rs"
  using assms
  by (auto simp: fail_def failJobsById_def and_then_Inr_iff Let_def settled_ids_def
      mapCommandResponse_def)

lemma fail_ids:
  "table_ok t \<Longrightarrow> distinct (map job_id (filter (fail_sel n ids fence) t))"
  by (rule distinct_ids_of_queue) (simp_all add: fail_sel_def)

text \<open>(C3) Failing by the single statement conserves jobs.  When a call of \<^verbatim>\<open>fail()\<close> in that form succeeds,
  every row it does not report stays as it was, and every job it reports has exactly one row in its place,
  under its own id and with its own data, retry count, limits and keys, in the state retry or failed; it is
  only ever failed while it has retries left when another row of the table holds an index entry its retry
  would need.  The only other new rows are waiting copies of the failed ones in their dead letter queue.  The
  separate statements of the distributed form do not conserve jobs: \<^verbatim>\<open>fail_distributed_loses_job\<close> below.\<close>

theorem fail_conserves_jobs:
  assumes "table_ok t" "fail False h qs new_id n items out now rnd t = Inr (t', r)"
  shows "\<exists>failed. cr_settled r = Some (map job_id failed) \<and> distinct (map job_id failed) \<and>
    table_ok t' \<and> set failed \<subseteq> set t' \<and>
    (\<forall>j\<in>set t. job_name j \<noteq> n \<or> job_id j \<notin> set (map job_id failed) \<longrightarrow> j \<in> set t') \<and>
    (\<forall>f\<in>set failed. \<exists>j\<in>set t. state j < Completed \<and> job_name j = n \<and>
       f = j\<lparr>state := state f, start_after := start_after f, completed_on := completed_on f,
             job_output := mapCompletionDataArg out, heartbeat_on := None, upsert_by_key := None\<rparr> \<and>
       (state f = Retry \<and> completed_on f = None \<and> retry_count j < retry_limit j \<or>
        state f = Failed \<and> completed_on f = Some now \<and>
        (retry_count j < retry_limit j \<longrightarrow> (\<exists>x\<in>set t'.
           job_key x \<noteq> job_key j \<and>
           conflict x (retried_row False (mapCompletionDataArg out) now (rnd (job_id j)) j))))) \<and>
    (\<forall>x\<in>set t'. x \<in> set t \<or> x \<in> set failed \<or> state x = Created \<and>
       (\<exists>f\<in>set failed. state f = Failed \<and> dead_letter f = Some (job_name x) \<and> source_id x = Some (job_id f)))"
proof -
  let ?o = "mapCompletionDataArg out"
  obtain ids fetched rs where arg: "mapAttemptArg items = Inr (ids, fetched)"
    and body: "failJobsBody qs new_id now rnd (fail_sel n ids (fence_of h ids fetched)) (\<lambda>_. ?o) False t
       = Inr (t', rs)"
    and r: "cr_settled r = Some (map job_id rs)"
    using assms(2) by (rule fail_False_E)
  let ?sel = "fail_sel n ids (fence_of h ids fetched)"
  let ?R = "\<lambda>j. retried_row False ?o now (rnd (job_id j)) j"
  note cons = fail_body_conserves [OF body fail_ids [OF assms(1)]]
  have keep: "j \<in> set t'" if "j \<in> set t" "job_name j \<noteq> n \<or> job_id j \<notin> set (map job_id rs)" for j
  proof -
    have "\<not> ?sel j" using that cons(6) by (auto simp: fail_sel_def)
    thus ?thesis using that(1) cons(1) by simp
  qed
  have each: "\<exists>j\<in>set t. state j < Completed \<and> job_name j = n \<and>
       f = j\<lparr>state := state f, start_after := start_after f, completed_on := completed_on f,
             job_output := ?o, heartbeat_on := None, upsert_by_key := None\<rparr> \<and>
       (state f = Retry \<and> completed_on f = None \<and> retry_count j < retry_limit j \<or>
        state f = Failed \<and> completed_on f = Some now \<and>
        (retry_count j < retry_limit j \<longrightarrow> (\<exists>x\<in>set t'. job_key x \<noteq> job_key j \<and> conflict x (?R j))))"
    if f: "f \<in> set rs" for f
  proof -
    obtain j where j: "j \<in> set t" "?sel j" "f = ?R j \<or> f = failed_row ?o now j"
      using cons(4) f by blast
    have shape: "f = j\<lparr>state := state f, start_after := start_after f, completed_on := completed_on f,
             job_output := ?o, heartbeat_on := None, upsert_by_key := None\<rparr>"
      using j(3) by (auto simp: retried_row_def failed_row_def)
    have "state f = Retry \<and> completed_on f = None \<and> retry_count j < retry_limit j \<or>
        state f = Failed \<and> completed_on f = Some now \<and>
        (retry_count j < retry_limit j \<longrightarrow> (\<exists>x\<in>set t'. job_key x \<noteq> job_key j \<and> conflict x (?R j)))"
      using j(3)
    proof
      assume "f = ?R j"
      thus ?thesis by (auto simp: retried_row_def can_retry_def)
    next
      assume fr: "f = failed_row ?o now j"
      hence "retry_count j < retry_limit j \<longrightarrow> (\<exists>x\<in>set t'. job_key x \<noteq> job_key j \<and> conflict x (?R j))"
        using cons(8) j f by (auto simp: can_retry_def)
      thus ?thesis using fr by (simp add: failed_row_def)
    qed
    thus ?thesis using j shape by (intro bexI [of _ j]) (auto simp: fail_sel_def)
  qed
  have news: "x \<in> set t \<or> x \<in> set rs \<or> state x = Created \<and>
       (\<exists>f\<in>set rs. state f = Failed \<and> dead_letter f = Some (job_name x) \<and> source_id x = Some (job_id f))"
    if "x \<in> set t'" for x
    using that cons(1) by (auto simp: dlq_rows_def dlq_row_def job_defaults_def)
  show ?thesis using r cons(1,2,5) keep each news by (intro exI [of _ rs]) auto
qed

definition sample_failing :: job where
  "sample_failing = sample_job 1 ''q'' 5 \<lparr>state := Active, started_on := Some 6,
     dead_letter := Some ''dlq''\<rparr>"

lemma sample_fail_eq:
  "fail False (\<lambda>_. None) [] (\<lambda>_. 7) ''q'' [PlainId 1] None now (\<lambda>_. 0) [sample_failing] =
     Inr ([retried_row False None now 0 sample_failing], mapCommandResponse [1] 1 (Some [1]))"
  by (simp add: fail_def mapAttemptArg_def failJobsById_def failJobsBody_def fail_sel_def fence_of_def
      attemptFence_def sample_failing_def sample_job_def job_defaults_def run_delete_def
      run_insert_skip_def key_check_def retried_row_def can_retry_def run_insert_def check_table_def
      dlq_rows_def settled_ids_def mapCompletionDataArg_def)

lemma sample_failing_ok: "table_ok [sample_failing]"
  by (simp add: sample_failing_def eval_defs)

lemma fail_conserves_jobs_witness:
  "\<exists>failed. Some [1] = Some (map job_id failed) \<and> distinct (map job_id failed) \<and>
    set failed \<subseteq> set [retried_row False None 9 0 sample_failing]"
proof -
  obtain failed where "cr_settled (mapCommandResponse [1] 1 (Some [1])) = Some (map job_id failed)"
    "distinct (map job_id failed)" "set failed \<subseteq> set [retried_row False None 9 0 sample_failing]"
    using fail_conserves_jobs [OF sample_failing_ok sample_fail_eq [of 9]] by blast
  thus ?thesis by (intro exI [of _ failed]) (simp add: mapCommandResponse_def)
qed

text \<open>The dead letter copy: each job a failing call leaves failed, and whose dead letter queue
  exists, gets exactly one copy there, a waiting job under a new id with the failed job's data,
  priority and keys, configured by the dead letter queue, whose provenance names the job, its queue,
  its attempts, its output and the first job of its chain.  Nothing else is added.\<close>

theorem dead_letter_copies:
  assumes "table_ok t" "fail False h qs new_id n items out now rnd t = Inr (t', r)"
    and "distinct (map q_name qs)"
  shows "\<exists>rest failed copies. t' = rest @ failed @ copies \<and> set rest \<subseteq> set t \<and>
    cr_settled r = Some (map job_id failed) \<and>
    (\<forall>f\<in>set failed. \<forall>q\<in>set qs. state f = Failed \<and> dead_letter f = Some (q_name q) \<longrightarrow>
       filter (\<lambda>c. source_id c = Some (job_id f)) copies = [dlq_row q (new_id f) now f]) \<and>
    (\<forall>c\<in>set copies. state c = Created \<and> retry_count c = 0 \<and> job_output c = None \<and>
       (\<exists>f\<in>set failed. state f = Failed \<and> dead_letter f = Some (job_name c) \<and> job_id c = new_id f \<and>
          job_data c = job_data f \<and> priority c = priority f \<and> singleton_key c = singleton_key f \<and>
          source_name c = Some (job_name f) \<and> source_id c = Some (job_id f) \<and>
          source_retry_count c = Some (retry_count f) \<and> source_output c = job_output f \<and>
          source_root_id c = Some (coalesce (source_root_id f) (job_id f))))"
proof -
  let ?o = "mapCompletionDataArg out"
  obtain ids fetched rs where arg: "mapAttemptArg items = Inr (ids, fetched)"
    and body: "failJobsBody qs new_id now rnd (fail_sel n ids (fence_of h ids fetched)) (\<lambda>_. ?o) False t
       = Inr (t', rs)"
    and r: "cr_settled r = Some (map job_id rs)"
    using assms(2) by (rule fail_False_E)
  let ?sel = "fail_sel n ids (fence_of h ids fetched)"
  note cons = fail_body_conserves [OF body fail_ids [OF assms(1)]]
  have one: "filter (\<lambda>c. source_id c = Some (job_id f)) (dlq_rows qs new_id now rs) =
      [dlq_row q (new_id f) now f]"
    if "f \<in> set rs" "q \<in> set qs" "state f = Failed" "dead_letter f = Some (q_name q)"
      "distinct (map job_id rs)" for f q rs
    using that(1,5)
  proof (induction rs)
    case (Cons a rs)
    have own: "dlq_rows qs new_id now [f] = [dlq_row q (new_id f) now f]"
      using filter_key_unique [OF assms(3) that(2)] that(3,4)
      by (simp add: dlq_rows_def eq_commute [of "q_name q"])
    have sid: "source_id c = Some (job_id a)" if "c \<in> set (dlq_rows qs new_id now [a])" for a c
      using that by (auto simp: dlq_rows_def dlq_row_def)
    have app: "dlq_rows qs new_id now (a # rs) = dlq_rows qs new_id now [a] @ dlq_rows qs new_id now rs"
      by (simp add: dlq_rows_def)
    show ?case
    proof (cases "a = f")
      case True
      have ne: "\<forall>y\<in>set rs. job_id y \<noteq> job_id f" 
        using Cons.prems(2) True by (simp add: image_iff) (metis (no_types))
      have "\<forall>c\<in>set (dlq_rows qs new_id now rs). source_id c \<noteq> Some (job_id f)"
        using ne by (auto simp: dlq_rows_def dlq_row_def)
      thus ?thesis unfolding app using own True by (simp add: filter_empty_conv dlq_row_def)
    next
      case False
      hence f: "f \<in> set rs" using Cons.prems by simp
      hence "job_id a \<noteq> job_id f" using Cons.prems by auto
      hence "filter (\<lambda>c. source_id c = Some (job_id f)) (dlq_rows qs new_id now [a]) = []"
        using sid by (auto simp: filter_empty_conv)
      thus ?thesis unfolding app using Cons.IH [OF f] Cons.prems by simp
    qed
  qed simp
  have copies: "\<forall>c\<in>set (dlq_rows qs new_id now rs). state c = Created \<and> retry_count c = 0 \<and>
      job_output c = None \<and>
      (\<exists>f\<in>set rs. state f = Failed \<and> dead_letter f = Some (job_name c) \<and> job_id c = new_id f \<and>
          job_data c = job_data f \<and> priority c = priority f \<and> singleton_key c = singleton_key f \<and>
          source_name c = Some (job_name f) \<and> source_id c = Some (job_id f) \<and>
          source_retry_count c = Some (retry_count f) \<and> source_output c = job_output f \<and>
          source_root_id c = Some (coalesce (source_root_id f) (job_id f)))"
    by (auto simp: dlq_rows_def dlq_row_def job_defaults_def)
  show ?thesis
    using cons(1,5) r one copies
    by (intro exI [of _ "filter (\<lambda>j. \<not> ?sel j) t"] exI [of _ rs]
        exI [of _ "dlq_rows qs new_id now rs"]) auto
qed

lemma dead_letter_copies_witness:
  "\<exists>rest failed copies. [retried_row False None 9 0 sample_failing] = rest @ failed @ copies \<and>
    set rest \<subseteq> set [sample_failing]"
proof -
  have "distinct (map q_name [])" by simp
  from dead_letter_copies [OF sample_failing_ok sample_fail_eq [of 9] this] show ?thesis by blast
qed

text \<open>The retry delay: with backoff on, a job with a retry left waits at least the smaller of
  its own delay (one second at least) and its cap, less than \<^verbatim>\<open>2^16\<close> times that delay however often
  it failed, and never longer than \<^verbatim>\<open>retry_delay_max\<close> when that is set; without backoff it waits
  exactly \<^verbatim>\<open>retry_delay\<close>.\<close>

theorem retry_delay_bounds:
  assumes "retry_count j < retry_limit j" "0 \<le> rnd" "rnd < second"
  shows "(\<not> retry_backoff j \<longrightarrow> retry_start_after now rnd j = now + retry_delay j * second) \<and>
    (retry_backoff j \<longrightarrow> retry_start_after now rnd j < now + max (retry_delay j) 1 * 2 ^ 16 * second) \<and>
    (retry_backoff j \<longrightarrow> retry_delay_max j = None \<longrightarrow>
      now + max (retry_delay j) 1 * second \<le> retry_start_after now rnd j) \<and>
    (\<forall>m. retry_backoff j \<longrightarrow> retry_delay_max j = Some m \<longrightarrow>
      now + min m (max (retry_delay j) 1) * second \<le> retry_start_after now rnd j \<and>
      retry_start_after now rnd j \<le> now + m * second)"
  using assms(1) backoff_lower [OF assms(2), of j] backoff_upper [OF assms(3), of j]
  by (auto simp: retry_start_after_def min_def split: option.splits)

lemma retry_delay_bounds_witness:
  "retry_start_after 0 500000 (sample_failing \<lparr>retry_backoff := True, retry_delay_max := Some 3\<rparr>)
    \<le> 0 + 3 * second"
  using retry_delay_bounds [of "sample_failing \<lparr>retry_backoff := True, retry_delay_max := Some 3\<rparr>" 500000 0]
  by (simp add: sample_failing_def sample_job_def job_defaults_def)

lemma claim_row_attempt:
  "job_id (claim_row now j) = job_id j"
  "retry_count (claim_row now j) = (if started_on j \<noteq> None then retry_count j + 1 else retry_count j)"
  by (simp_all add: claim_row_def)

text \<open>(C4) A lapsed claim is harmless: once a job that was claimed has been failed back to a retry
  and claimed again, the attempt the first worker holds is not the job's attempt any more, so nothing
  that worker settles with it, completing, cancelling, touching, deleting or failing, reaches the
  row.\<close>

theorem lapsed_claim_fenced:
  assumes "state j = Active" "started_on j \<noteq> None"
    and "r = claim_row later (retried_row False out now rnd j)"
    and "mapAttemptArg items = Inr (ids, Some cs)"
    and "\<forall>c. (job_id j, c) \<in> set (zip ids cs) \<longrightarrow> c = retry_count j"
    and "table_ok t" "r \<in> set t"
  shows "(\<forall>t' x. complete d h n items res q now' t = Inr (t', x) \<longrightarrow> r \<in> set t') \<and>
    (\<forall>t' x. cancel h n items now' t = Inr (t', x) \<longrightarrow> r \<in> set t') \<and>
    (\<forall>t' x. touch n items now' t = Inr (t', x) \<longrightarrow> r \<in> set t') \<and>
    (\<forall>t' qs' x. deleteJob c h n items t qs = Inr (t', qs', x) \<longrightarrow> r \<in> set t') \<and>
    (\<forall>t' x. fail False h qs new_id n items res now' rs t = Inr (t', x) \<longrightarrow> r \<in> set t')"
proof -
  let ?f = "retried_row False out now rnd j"
  have "job_id ?f = job_id j" "retry_count ?f = retry_count j" "started_on ?f = started_on j"
    by (simp_all add: retried_row_def)
  hence id: "job_id r = job_id j" and cnt: "retry_count r = retry_count j + 1"
    using assms(2) by (simp_all only: assms(3) claim_row_attempt not_False_eq_True if_True)
  have "(job_id j, retry_count j + 1) \<notin> set (zip ids cs)"
    using assms(5) [rule_format, of "retry_count j + 1"] by linarith
  hence out: "(job_id r, retry_count r) \<notin> set (zip ids cs)" by (simp only: id cnt not_False_eq_True)
  note settle = settle_fenced [OF assms(6,7,4) out, where d = d and h = h and n = n and out = res
      and q = q and now = now' and c = c and qs = qs]
  have fails: "r \<in> set t'" if run: "fail False h qs new_id n items res now' rs t = Inr (t', x)" for t' x
  proof -
    obtain xs where body: "failJobsBody qs new_id now' rs (fail_sel n ids (fence_of h ids (Some cs)))
       (\<lambda>_. mapCompletionDataArg res) False t = Inr (t', xs)"
      using run assms(4) by (auto elim!: fail_False_E)
    have "\<not> fail_sel n ids (fence_of h ids (Some cs)) r"
      using fenced_out [OF out] by (simp add: fail_sel_def)
    thus ?thesis using fail_body_conserves(1) [OF body fail_ids [OF assms(6)]] assms(7) by simp
  qed
  from settle show ?thesis
    by (elim conjE) (intro conjI; (assumption | (intro allI impI, erule fails)))
qed

lemma lapsed_claim_fenced_witness:
  "\<exists>t' x. cancel (\<lambda>_. None) ''q'' [Attempt 1 0] 9
     [claim_row 8 (retried_row False None 7 0 sample_failing)] = Inr (t', x) \<and>
   claim_row 8 (retried_row False None 7 0 sample_failing) \<in> set t'"
proof -
  let ?r = "claim_row 8 (retried_row False None 7 0 sample_failing)"
  have j: "state sample_failing = Active" "started_on sample_failing \<noteq> None"
    "\<forall>c. (job_id sample_failing, c) \<in> set (zip [1] [0]) \<longrightarrow> c = retry_count sample_failing"
    by (simp_all add: sample_failing_def sample_job_def job_defaults_def)
  have arg: "mapAttemptArg [Attempt 1 0] = Inr ([1], Some [0])" by (simp add: mapAttemptArg_def)
  have ok: "table_ok [?r]"
    by (simp add: sample_failing_def eval_defs claim_row_def retried_row_def)
  have r: "?r \<in> set [?r]" by simp
  obtain t' x where run: "cancel (\<lambda>_. None) ''q'' [Attempt 1 0] 9 [?r] = Inr (t', x)"
    using cancel_eq [OF ok arg] by (auto simp: Let_def)
  have "?r \<in> set t'"
    using lapsed_claim_fenced [OF j(1,2) refl arg j(3) ok r, THEN conjunct2, THEN conjunct1] run by blast
  thus ?thesis using run by blast
qed

text \<open>An expiry batch makes progress: it picks as many expired jobs as the batch allows, and at
  most the ones it did not pick are expired afterwards, so a sweep that repeats full batches ends.\<close>

theorem expiry_progress:
  assumes "failJobsByTimeout qs new_id queues now rnd limit t = Inr (t', k)"
  shows "k = min limit (length (filter (timedOut queues now) t)) \<and>
    length (filter (timedOut queues now) t') + k \<le> length (filter (timedOut queues now) t) \<and>
    (k < limit \<longrightarrow> filter (timedOut queues now) t' = [])"
proof -
  have act: "timedOut queues now j \<Longrightarrow> state j = Active" for j by (simp add: timedOut_def)
  note p = expireJobs_progress [OF act assms [unfolded failJobsByTimeout_def]]
  have "filter (timedOut queues now) t' = []" if "k < limit"
  proof -
    have "length (filter (timedOut queues now) t') = 0" using p that by linarith
    thus ?thesis by simp
  qed
  thus ?thesis using p by blast
qed

lemma expiry_progress_witness:
  "\<exists>t'. failJobsByTimeout [] (\<lambda>_. 7) [''q''] (2000 * second) (\<lambda>_. 0) 10 [sample_failing] = Inr (t', 1) \<and>
    filter (timedOut [''q''] (2000 * second)) t' = []"
proof -
  have "failJobsByTimeout [] (\<lambda>_. 7) [''q''] (2000 * second) (\<lambda>_. 0) 10 [sample_failing] =
    Inr ([retried_row False (message_output ''job timed out'') (2000 * second) 0 sample_failing], 1)"
    by (simp add: failJobsByTimeout_def expireJobs_def timedOut_def failJobsBody_def run_delete_def
        sample_failing_def sample_job_def job_defaults_def run_insert_skip_def key_check_def
        retried_row_def can_retry_def run_insert_def check_table_def dlq_rows_def)
  from expiry_progress [OF this] this show ?thesis by simp
qed

text \<open>(C6) Where nothing collides the distributed form agrees.  When no retry collides with a row of the
  table or of the batch, no job has more attempts than its limit, every queue has a name and the times
  fall on whole milliseconds, failing by separate statements leaves the same jobs, the same dead letter
  copies and the same result as the single statement, in whatever order the rows are written.  A job can
  have more attempts than its limit once \<^verbatim>\<open>update()\<close> has lowered the limit; then the forms differ in the start
  of the failed row, and with a collision in whether there is one.\<close>

theorem fail_distributed_equiv:
  assumes "table_ok t" "mapAttemptArg items = Inr (ids, fetched)"
    and "sel = fail_sel n ids (fence_of h ids fetched)"
    and "fail False h qs new_id n items out now rnd t = Inr (t1, r1)"
    and "table_ok (filter (\<lambda>j. \<not> sel j) t @
      map (\<lambda>j. retried_row False (mapCompletionDataArg out) now (rnd (job_id j)) j) (filter sel t))"
    and "\<forall>j\<in>set t. sel j \<longrightarrow> same_times now rnd j" "1000 dvd now" "\<forall>q\<in>set qs. q_name q \<noteq> []"
  shows "\<exists>t2 r2. fail True h qs new_id n items out now rnd t = Inr (t2, r2) \<and> mset t2 = mset t1 \<and>
    cr_affected r2 = cr_affected r1 \<and> cr_settled r2 = cr_settled r1"
proof -
  let ?o = "mapCompletionDataArg out"
  let ?R = "\<lambda>j. retried_row False ?o now (rnd (job_id j)) j"
  let ?D = "filter sel t" and ?rest = "filter (\<lambda>j. \<not> sel j) t"
  obtain rs where body: "failJobsBody qs new_id now rnd sel (\<lambda>_. ?o) False t = Inr (t1, rs)"
    and r1: "cr_settled r1 = Some (map job_id rs)" "cr_affected r1 = length rs"
    using assms(2-4) by (auto elim!: fail_False_E)
  have selname: "sel j \<Longrightarrow> job_name j = n" for j by (simp add: assms(3) fail_sel_def)
  have all: "insert_skip ?rest (map ?R ?D) = (?rest @ map ?R ?D, map ?R ?D)"
    by (rule insert_skip_all [OF assms(5)])
  from body obtain ret F where i: "insert_skip ?rest (map ?R ?D) = (?rest @ ret, ret)"
    and F: "F = map (failed_row ?o now) (filter (\<lambda>j. job_id j \<notin> set (map job_id ret)) ?D)"
    and rs: "rs = ret @ F" and t1: "t1 = ?rest @ ret @ F @ dlq_rows qs new_id now rs"
    and ok1: "table_ok t1"
    by (rule failJobsBody_Inr)
  have ret: "ret = map ?R ?D" using i all by simp
  have "F = []" unfolding F ret by (auto simp: filter_empty_conv)
  hence rs: "rs = map ?R ?D" and t1: "t1 = ?rest @ map ?R ?D @ dlq_rows qs new_id now (map ?R ?D)"
    using rs t1 ret by simp_all
  let ?t2 = "?rest @ concat (map (reinsert_block qs new_id now rnd (\<lambda>_. ?o)) ?D)"
  have m: "mset ?t2 = mset t1" by (simp add: t1 mset_blocks)
  have ok2: "table_ok ?t2" by (rule table_ok_perm [OF m [symmetric] ok1])
  have le: "\<forall>j\<in>set ?D. same_times now rnd j" using assms(6) by simp
  have del: "deleteJobsToFail n (map job_id ?D) t = ?rest"
    by (rule deleteJobsToFail_eq [OF assms(1) selname])
  have "failDistributed qs new_id n ids ?o (fence_of h ids fetched) now rnd t =
      Inr (?t2, length ?D, map job_id ?D)"
    unfolding failDistributed_def selectJobsToFailById_def assms(3) [symmetric] Let_def del
    using reinsert_blocks [OF ok2 le assms(7,8)] by (auto simp: filter_empty_conv filter_True)
  hence "fail True h qs new_id n items out now rnd t =
      Inr (?t2, mapCommandResponse ids (length ?D) (Some (map job_id ?D)))"
    using assms(2) by (simp add: fail_def Let_def)
  thus ?thesis using m r1 by (simp add: mapCommandResponse_def rs comp_def)
qed

lemma fail_distributed_equiv_witness:
  "\<exists>t2 r2. fail True (\<lambda>_. None) [] (\<lambda>_. 7) ''q'' [PlainId 1] None 9000 (\<lambda>_. 0) [sample_failing] = Inr (t2, r2) \<and>
    mset t2 = mset [retried_row False None 9000 0 sample_failing]"
proof -
  have arg: "mapAttemptArg [PlainId 1] = Inr ([1], None)" by (simp add: mapAttemptArg_def)
  have sel: "fail_sel ''q'' [1] (fence_of (\<lambda>_. None) [1] None) sample_failing"
    by (simp add: fail_sel_def sample_failing_def sample_job_def job_defaults_def fence_of_def
        attemptFence_def)
  have le: "same_times 9000 (\<lambda>_. 0) sample_failing"
    by (simp add: same_times_def retry_start_after_def sample_failing_def sample_job_def job_defaults_def)
  have out: "mapCompletionDataArg None = None" by (simp add: mapCompletionDataArg_def)
  have "table_ok [retried_row False None 9000 0 sample_failing]"
    by (simp add: sample_failing_def eval_defs retried_row_def)
  thus ?thesis
    using fail_distributed_equiv [OF sample_failing_ok arg refl sample_fail_eq [of 9000]] sel le out by (auto simp: mapCommandResponse_def)
qed

text \<open>But a collision loses a job there: failing a waiting job of a strict FIFO key while another
  job of the key is active, the distributed form deletes it, skips its retry and skips its failed row,
  and reports it settled; the single statement refuses the same call with a unique violation and
  leaves the table alone.\<close>

definition fifo_job :: "uuid \<Rightarrow> job_state \<Rightarrow> job" where
  "fifo_job i s = sample_job i ''q'' 5 \<lparr>state := s, policy := Some KeyStrictFifo,
     singleton_key := Some ''k''\<rparr>"

theorem fail_distributed_loses_job:
  "table_ok [fifo_job 1 Active, fifo_job 2 Created] \<and>
   fail True (\<lambda>_. None) [] (\<lambda>_. 7) ''q'' [PlainId 2] None 9 (\<lambda>_. 0)
     [fifo_job 1 Active, fifo_job 2 Created]
     = Inr ([fifo_job 1 Active], mapCommandResponse [2] 1 (Some [2])) \<and>
   fail False (\<lambda>_. None) [] (\<lambda>_. 7) ''q'' [PlainId 2] None 9 (\<lambda>_. 0)
     [fifo_job 1 Active, fifo_job 2 Created] = Inl (SqlError UniqueViolation)"
proof (intro conjI)
  show "table_ok [fifo_job 1 Active, fifo_job 2 Created]"
    by (simp add: fifo_job_def eval_defs)
  note sel = selectJobsToFailById_def fail_sel_def fence_of_def attemptFence_def mapAttemptArg_def
    mapCompletionDataArg_def run_delete_def run_insert_skip_def key_check_def
  show "fail True (\<lambda>_. None) [] (\<lambda>_. 7) ''q'' [PlainId 2] None 9 (\<lambda>_. 0)
     [fifo_job 1 Active, fifo_job 2 Created]
     = Inr ([fifo_job 1 Active], mapCommandResponse [2] 1 (Some [2]))"
    by (simp add: fail_def failDistributed_def sel deleteJobsToFail_def reinsert_one_def
        can_retry_def insertRetryJob_def fifo_job_def sample_job_def job_defaults_def
        dist_retry_row_def failed_row_def conflict_def index_defs job_key_def skey_def)
  show "fail False (\<lambda>_. None) [] (\<lambda>_. 7) ''q'' [PlainId 2] None 9 (\<lambda>_. 0)
     [fifo_job 1 Active, fifo_job 2 Created] = Inl (SqlError UniqueViolation)"
    by (simp add: fail_def failJobsById_def failJobsBody_def sel can_retry_def fifo_job_def
        sample_job_def job_defaults_def retried_row_def failed_row_def conflict_def index_defs
        job_key_def skey_def run_insert_def check_table_def)
qed

text \<open>A sweep over several queues can lose a job too: the failed rows are the deleted jobs whose
  id is not among the retried ids, by id alone, while a job's key is its queue and its id.  When two
  queues hold a job of one id and both expire, the one whose retry is skipped is dropped because the
  other's was not.\<close>

definition stately_job :: "uuid \<Rightarrow> job_state \<Rightarrow> job" where
  "stately_job i s = sample_job i ''b'' 5 \<lparr>state := s, policy := Some Stately, started_on := Some 6\<rparr>"

definition plain_job :: job where
  "plain_job = sample_job 1 ''a'' 5 \<lparr>state := Active, started_on := Some 6\<rparr>"

theorem expiry_loses_namesake:
  "table_ok [plain_job, stately_job 1 Active, stately_job 2 Retry] \<and>
   (\<exists>t'. failJobsByTimeout [] (\<lambda>_. 7) [''a'', ''b''] (2000 * second) (\<lambda>_. 0) 10
      [plain_job, stately_job 1 Active, stately_job 2 Retry] = Inr (t', 2) \<and>
    (''b'', 1) \<notin> set (map job_key t'))"
proof
  show "table_ok [plain_job, stately_job 1 Active, stately_job 2 Retry]"
    by (simp add: plain_job_def stately_job_def eval_defs)
  show "\<exists>t'. failJobsByTimeout [] (\<lambda>_. 7) [''a'', ''b''] (2000 * second) (\<lambda>_. 0) 10
      [plain_job, stately_job 1 Active, stately_job 2 Retry] = Inr (t', 2) \<and>
    (''b'', 1) \<notin> set (map job_key t')"
    by (simp add: failJobsByTimeout_def expireJobs_def timedOut_def failJobsBody_def run_delete_def
        plain_job_def stately_job_def sample_job_def job_defaults_def run_insert_skip_def
        key_check_def retried_row_def can_retry_def run_insert_def check_table_def dlq_rows_def
        conflict_def index_defs job_key_def skey_def)
qed

end
