(* ===== verification/Insert_Props.thy ===== *)
theory Insert_Props
  imports Insert Settle_Props
begin

text \<open>
  The properties of inserting and editing: what an insert skips, the throttle and debounce slots, what
  an edit may touch, and that upserts of one key converge on one job.
\<close>

section \<open>Lemmas\<close>


lemma edit_targets_sub:
  "i \<in> set (edit_targets n tgt m t) \<Longrightarrow>
    \<exists>j\<in>set t. job_id j = i \<and> job_name j = n \<and> state j < Active \<and> target_matches tgt j"
  unfolding edit_targets_def Let_def
  by (cases tgt; cases m) (auto dest!: in_set_takeD)

lemma updateJob_Inr:
  assumes "updateJob c qs n tgt m notify now e t = Inr (t', rows, b)"
  obtains "edit_targets n tgt m t = []" "t' = t" "rows = []"
  | start where "edit_targets n tgt m t \<noteq> []" "edit_start c now e = Inr start"
      "t' = upd_where (edit_sel qs n (edit_targets n tgt m t)) (edit_row e start) t"
      "rows = map (edit_row e start) (filter (edit_sel qs n (edit_targets n tgt m t)) t)" "rows \<noteq> []"
      "table_ok t'"
proof (cases "edit_targets n tgt m t = []")
  case False
  let ?run = "\<lambda>start. run_update (edit_sel qs n (edit_targets n tgt m t)) (edit_row e start) t"
  from False obtain start where s: "edit_start c now e = Inr start"
    and "(case ?run start of Inl err \<Rightarrow> Inl (InsertSql err)
       | Inr (t', rows) \<Rightarrow> Inr (t', rows, notify \<and> list_ex (\<lambda>j. start_after j \<le> now) rows)) =
       Inr (t', rows, b)"
    using assms unfolding updateJob_def Let_def if_not_P [OF False] and_then_Inr_iff by blast
  hence r: "?run start = Inr (t', rows)" by (cases "?run start") auto
  obtain i where i: "i \<in> set (edit_targets n tgt m t)" using False by (meson last_in_set)
  then obtain j where "j \<in> set t" "edit_sel qs n (edit_targets n tgt m t) j"
    using edit_targets_sub [OF i] by (auto simp: edit_sel_def)
  hence "rows \<noteq> []" using r by (auto simp: run_update_Inr filter_empty_conv)
  thus ?thesis using that(2) False s r by (auto simp: run_update_Inr)
next
  case True
  thus ?thesis using assms by (intro that(1)) (simp_all add: updateJob_def)
qed

lemma singleton_insert:
  assumes "insertJobs c qs io n now gen [i] t = Inr (t', ins, b)"
  obtains row where "insert_row c (find_queue n qs) n (io_slots io) (io_upsert_by_key io) now (gen 0) i = Inr row"
    "(ins = [] \<and> t' = t \<and> list_ex (\<lambda>x. conflict x row) t) \<or>
     (ins = [row] \<and> t' = t @ [row] \<and> \<not> list_ex (\<lambda>x. conflict x row) t)"
proof -
  obtain rows where "map_ok (\<lambda>(k, i). insert_row c (find_queue n qs) n (io_slots io) (io_upsert_by_key io)
      now (gen k) i) (zip [0..<length [i]] [i]) = Inr rows"
    and skip: "insert_skip t rows = (t', ins)"
    using assms by (auto elim!: insertJobs_Inr)
  then obtain row where "insert_row c (find_queue n qs) n (io_slots io) (io_upsert_by_key io) now (gen 0) i = Inr row"
    "rows = [row]"
    by (auto simp: and_then_Inr_iff)
  moreover have "(ins = [] \<and> t' = t \<and> list_ex (\<lambda>x. conflict x row) t) \<or>
     (ins = [row] \<and> t' = t @ [row] \<and> \<not> list_ex (\<lambda>x. conflict x row) t)"
    using skip \<open>rows = [row]\<close> by (auto split: if_splits)
  ultimately show thesis using that by blast
qed

section \<open>Properties\<close>

definition sample_casts :: casts where
  "sample_casts = \<lparr>cast_timestamptz = (\<lambda>_. None), cast_interval = (\<lambda>s. if s = ''0'' then Some 0 else None)\<rparr>"

text \<open>An insert adds and never edits: the table afterwards is the table before with the inserted
  rows behind it, each a waiting job of the queue; an input whose row was skipped was skipped because
  a row of the table holds an index entry it needs; the constraints hold; and the statement notifies
  exactly when asked to and a row it inserted is due.\<close>

theorem insert_skips_only_conflicts:
  assumes "table_ok t" "insertJobs c qs io n now gen inputs t = Inr (t', ins, notified)"
  shows "table_ok t' \<and> t' = t @ ins \<and> length ins \<le> length inputs \<and>
    (\<forall>j\<in>set ins. job_name j = n \<and> state j = Created \<and> created_on j = now \<and> retry_count j = 0) \<and>
    (\<forall>k<length inputs. \<exists>row. insert_row c (find_queue n qs) n (io_slots io) (io_upsert_by_key io) now (gen k)
        (inputs ! k) = Inr row \<and> (row \<in> set ins \<or> (\<exists>x\<in>set t'. conflict x row))) \<and>
    (notified = (io_notify io \<and> (\<exists>j\<in>set ins. start_after j \<le> now)))"
proof -
  let ?row = "\<lambda>(k, i). insert_row c (find_queue n qs) n (io_slots io) (io_upsert_by_key io) now (gen k) i"
  obtain rows where rows: "map_ok ?row (zip [0..<length inputs] inputs) = Inr rows"
    and skip: "insert_skip t rows = (t', ins)" and t': "t' = t @ ins"
    using assms(2) by (rule insertJobs_Inr)
  have len: "length rows = length inputs" using map_ok_length [OF rows] by simp
  have "length ins \<le> length rows" using skip
    by (induction t rows arbitrary: t' ins rule: insert_skip.induct)
      (auto split: if_splits prod.splits intro: le_SucI)
  moreover have "job_name j = n \<and> state j = Created \<and> created_on j = now \<and> retry_count j = 0"
    if "j \<in> set ins" for j
  proof -
    have "j \<in> set rows" using insert_skip_subset [OF skip] that by blast
    then obtain k i where "insert_row c (find_queue n qs) n (io_slots io) (io_upsert_by_key io) now
        (gen k) i = Inr j"
      using map_ok_mem [OF rows] by fastforce
    thus ?thesis using insert_row_fields by metis
  qed
  moreover have "\<exists>row. ?row (k, inputs ! k) = Inr row \<and> (row \<in> set ins \<or> (\<exists>x\<in>set t'. conflict x row))"
    if "k < length inputs" for k
  proof -
    have "?row (k, inputs ! k) = Inr (rows ! k)" using map_ok_nth [OF rows, of k] that by simp
    thus ?thesis using insert_skip_reason [OF skip, of "rows ! k"] that len by auto
  qed
  moreover have "notified = (io_notify io \<and> (\<exists>j\<in>set ins. start_after j \<le> now))"
    using insertJobs_notified [OF assms(2)] by (auto simp: list_ex_iff)
  ultimately show ?thesis using insertJobs_ok [OF assms(2,1)] t' len by auto
qed

lemma sample_insert_eq:
  "insertJobs sample_casts [queue_defaults ''q'' Short ''job_common'' 0] plain_insert ''q'' 9 (\<lambda>k. k)
     [empty_input] [sample_job 4 ''q'' 5 \<lparr>policy := Some Short\<rparr>]
   = Inr ([sample_job 4 ''q'' 5 \<lparr>policy := Some Short\<rparr>], [], False)"
  by (simp add: insertJobs_def sample_casts_def empty_input_def insert_row_def resolve_start_after_def
      singleton_on_of_def plain_insert_def find_queue_def queue_defaults_def job_defaults_def
      run_insert_skip_def key_check_def sample_job_def conflict_def index_defs job_key_def skey_def
      fkeys_ok_def)

lemma insert_skips_only_conflicts_witness:
  "\<exists>row. \<exists>x\<in>set [sample_job 4 ''q'' 5 \<lparr>policy := Some Short\<rparr>]. conflict x row"
proof -
  have "table_ok [sample_job 4 ''q'' 5 \<lparr>policy := Some Short\<rparr>]" by (simp add: eval_defs)
  from insert_skips_only_conflicts [OF this sample_insert_eq] show ?thesis by auto
qed

text \<open>Throttling: a job of a throttle slot refuses every later send for the slot, whatever its
  state unless it was cancelled, and leaves the table alone.\<close>

theorem throttled_send_refused:
  assumes "in_singleton_seconds i = Some secs" "secs \<noteq> 0"
    and "j \<in> set t" "job_name j = q_name q" "state j \<noteq> Cancelled"
    and "singleton_on j = Some (throttle_slot_on secs 0 now)"
    and "skey j = coalesce (in_singleton_key i) []"
    and "createJob c nl qs q now ms gen1 gen2 i False t = Inr (t', r, notified)"
  shows "t' = t \<and> r = None \<and> \<not> notified"
proof -
  let ?io = "plain_insert\<lparr>io_notify := notifyEnabled nl q\<rparr>"
  obtain ins b where run: "insertJobs c qs ?io (q_name q) now gen1 [i\<lparr>in_singleton_offset := Some 0\<rparr>] t = Inr (t', ins, b)"
    and r: "r = (case ins of [x] \<Rightarrow> Some (job_id x) | _ \<Rightarrow> None)" and n: "notified = b"
    using assms(8)
    by (auto simp: createJob_def Let_def and_then_Inr_iff split: if_splits list.splits)
  obtain row where row: "insert_row c (find_queue (q_name q) qs) (q_name q) False False now (gen1 0)
      (i\<lparr>in_singleton_offset := Some 0\<rparr>) = Inr row"
    and cases: "(ins = [] \<and> t' = t \<and> list_ex (\<lambda>x. conflict x row) t) \<or>
     (ins = [row] \<and> t' = t @ [row] \<and> \<not> list_ex (\<lambda>x. conflict x row) t)"
    using singleton_insert [OF run] by (auto simp: plain_insert_def)
  note f = insert_row_fields [OF row]
  have "singleton_on row = Some (throttle_slot_on secs 0 now)"
    using f(10) assms(1,2) by (simp add: singleton_on_of_def)
  hence "conflict j row"
    using assms(4-7) f(1,3,8) by (simp add: conflict_def job_i4_def skey_def)
  hence "list_ex (\<lambda>x. conflict x row) t" using assms(3) by (auto simp: list_ex_iff)
  hence none: "ins = []" "t' = t" using cases by auto
  hence "\<not> b" using insertJobs_notified [OF run] by simp
  thus ?thesis using none r n by simp
qed

lemma throttled_send_refused_witness:
  "createJob sample_casts False [queue_defaults ''q'' Standard ''job_common'' 0]
     (queue_defaults ''q'' Standard ''job_common'' 0) (90 * second) 90000 (\<lambda>k. k) (\<lambda>k. k)
     (empty_input\<lparr>in_singleton_seconds := Some 60\<rparr>) False
     [sample_job 4 ''q'' 5 \<lparr>state := Completed, singleton_on := Some (60 * second)\<rparr>]
   = Inr ([sample_job 4 ''q'' 5 \<lparr>state := Completed, singleton_on := Some (60 * second)\<rparr>], None, False)"
proof -
  let ?q = "queue_defaults ''q'' Standard ''job_common'' 0"
  let ?j = "sample_job 4 ''q'' 5 \<lparr>state := Completed, singleton_on := Some (60 * second)\<rparr>"
  let ?i = "empty_input\<lparr>in_singleton_seconds := Some 60\<rparr>"
  have "\<exists>x. createJob sample_casts False [?q] ?q (90 * second) 90000 (\<lambda>k. k) (\<lambda>k. k) ?i False [?j] = Inr x"
    by (simp add: createJob_def requires_key_def insertJobs_def sample_casts_def empty_input_def
        insert_row_def resolve_start_after_def singleton_on_of_def plain_insert_def find_queue_def
        queue_defaults_def job_defaults_def run_insert_skip_def key_check_def sample_job_def
        conflict_def index_defs job_key_def skey_def fkeys_ok_def notifyEnabled_def
        throttle_slot_on_def) (rule exI [of _ False], simp)
  then obtain t' r n where
    run: "createJob sample_casts False [?q] ?q (90 * second) 90000 (\<lambda>k. k) (\<lambda>k. k) ?i False [?j] = Inr (t', r, n)"
    by (metis prod_cases3)
  have "t' = [?j] \<and> r = None \<and> \<not> n"
    by (rule throttled_send_refused [OF _ _ _ _ _ _ _ run, of 60 ?j])
      (simp_all add: empty_input_def sample_job_def job_defaults_def queue_defaults_def
        throttle_slot_on_def skey_def)
  thus ?thesis using run by simp
qed

text \<open>Debouncing: the second attempt of a debounced send is filed in the next throttle slot, and
  the start it is given falls inside that slot, whatever the slot width and the time within the
  slot.\<close>

theorem debounce_lands_in_next_slot:
  assumes "0 < secs"
  shows "throttle_slot_on secs secs now = throttle_slot_on secs 0 now + secs * second \<and>
    (ms + getDebounceStartAfter secs ms * 1000) div (secs * 1000) = ms div (secs * 1000) + 1 \<and>
    0 < getDebounceStartAfter secs ms"
proof -
  let ?w = "secs * 1000" and ?D = "getDebounceStartAfter secs ms"
  let ?d = "ms mod ?w"
  have w: "0 < ?w" using assms by simp
  have d: "0 \<le> ?d" "?d < ?w" using w by simp_all
  have slot: "ms - ms div ?w * ?w = ?d" by (simp add: minus_div_mult_eq_mod)
  have "1000 * (?d div 1000) + ?d mod 1000 = ?d" "0 \<le> ?d mod 1000" by simp_all
  hence q: "?d div 1000 < secs" using d by linarith
  have D: "?D = secs - ?d div 1000 + (if secs > 1 then 1 else 0)"
    using q by (simp add: getDebounceStartAfter_def Let_def slot)
  have ms: "ms = ms div ?w * ?w + ?d" by (simp only: div_mult_mod_eq)
  have "ms + ?D * 1000 = (ms div ?w + 1) * ?w + (?d mod 1000 + (if secs > 1 then 1000 else 0))"
  proof -
    have "(ms div ?w + 1) * ?w = ms div ?w * ?w + ?w" by (simp only: distrib_right mult_1)
    moreover have "1000 * (?d div 1000) + ?d mod 1000 = ?d" by simp
    moreover have "(if secs > 1 then 1000 else 0) = 1000 * (if secs > 1 then 1 else (0::int))" by simp
    ultimately show ?thesis using ms D by linarith
  qed
  moreover have "0 \<le> ?d mod 1000 + (if secs > 1 then 1000 else 0)" by simp
  moreover have "?d mod 1000 + (if secs > 1 then 1000 else 0) < ?w"
    using pos_mod_bound [of 1000 ?d] assms by (cases "secs = 1") auto
  ultimately have "(ms + ?D * 1000) div ?w = ms div ?w + 1"
    using w by (simp add: div_mult_self3 div_pos_pos_trivial)
  thus ?thesis using throttle_next_slot [OF assms] D q by simp
qed

lemma debounce_lands_in_next_slot_witness:
  "0 < getDebounceStartAfter 60 1500 \<and> getDebounceStartAfter 60 1500 = 60"
  using debounce_lands_in_next_slot [of 60 0 1500] by (simp add: getDebounceStartAfter_def)

text \<open>An edit reaches waiting jobs only and keeps their identity: every row it returns was a job
  that had not started; its id, queue, state, keys, throttle slot and retry count are what they were,
  a column whose key is absent is untouched, and a job that is only moved in time keeps the length of
  its retention window.  No index can refuse it.\<close>

theorem edit_keeps_identity:
  assumes "updateJob c qs n tgt m notify now e t = Inr (t', rows, b)" "table_ok t"
  shows "table_ok t' \<and> map job_key t' = map job_key t \<and>
    (\<forall>r\<in>set rows. r \<in> set t' \<and> (\<exists>j\<in>set t. (state j = Created \<or> state j = Retry) \<and> job_key r = job_key j \<and>
      state r = state j \<and> singleton_key r = singleton_key j \<and> singleton_on r = singleton_on j \<and>
      policy r = policy j \<and> retry_count r = retry_count j \<and> created_on r = created_on j \<and>
      (ed_data e = None \<longrightarrow> job_data r = job_data j) \<and>
      (ed_priority e = None \<longrightarrow> priority r = priority j) \<and>
      (ed_dead_letter e = None \<longrightarrow> dead_letter r = dead_letter j) \<and>
      (ed_start_after e = None \<longrightarrow> start_after r = start_after j) \<and>
      (ed_retention_seconds e = None \<longrightarrow> keep_until r - start_after r = keep_until j - start_after j))) \<and>
    (\<forall>j\<in>set t. \<not> (state j = Created \<or> state j = Retry) \<longrightarrow> j \<in> set t')"
  using assms(1)
proof (cases rule: updateJob_Inr)
  case 1
  thus ?thesis using assms(2) by simp
next
  case (2 start)
  let ?sel = "edit_sel qs n (edit_targets n tgt m t)"
  have "\<exists>j\<in>set t. (state j = Created \<or> state j = Retry) \<and> job_key r = job_key j \<and>
      state r = state j \<and> singleton_key r = singleton_key j \<and> singleton_on r = singleton_on j \<and>
      policy r = policy j \<and> retry_count r = retry_count j \<and> created_on r = created_on j \<and>
      (ed_data e = None \<longrightarrow> job_data r = job_data j) \<and>
      (ed_priority e = None \<longrightarrow> priority r = priority j) \<and>
      (ed_dead_letter e = None \<longrightarrow> dead_letter r = dead_letter j) \<and>
      (ed_start_after e = None \<longrightarrow> start_after r = start_after j) \<and>
      (ed_retention_seconds e = None \<longrightarrow> keep_until r - start_after r = keep_until j - start_after j)"
    if r: "r \<in> set rows" for r
  proof -
    obtain j where j: "j \<in> set t" "?sel j" "r = edit_row e start j" using r 2(4) by auto
    have "ed_start_after e = None \<longrightarrow> start = None" using 2(2) by (auto simp: edit_start_def)
    thus ?thesis using j by (intro bexI [of _ j])
        (auto simp: edit_sel_def job_key_def, auto simp: edit_row_def Let_def)
  qed
  moreover have "\<forall>r\<in>set rows. r \<in> set t'" using 2(3,4) by (auto simp: set_upd_where)
  moreover have "map job_key t' = map job_key t" unfolding 2(3) by (rule edit.keeps_keys)
  moreover have "\<forall>j\<in>set t. \<not> (state j = Created \<or> state j = Retry) \<longrightarrow> j \<in> set t'"
    unfolding 2(3) by (auto intro: upd_where_keeps simp: edit_sel_def)
  ultimately show ?thesis using 2(6) by blast
qed

definition bump_priority :: job_edit where
  "bump_priority = \<lparr>ed_data = None, ed_priority = Some 9, ed_start_after = None,
     ed_retention_seconds = None, ed_expire_seconds = None, ed_delete_after_seconds = None,
     ed_retry_limit = None, ed_retry_delay = None, ed_retry_backoff = None,
     ed_retry_delay_max = None, ed_dead_letter = None, ed_heartbeat_seconds = None,
     ed_group_id = None, ed_group_tier = None\<rparr>"

definition two_queues :: "queue list" where
  "two_queues = [queue_defaults ''a'' Standard ''job_common'' 0,
                 queue_defaults ''b'' Standard ''job_common'' 0]"

lemma sample_edit_eq:
  "updateJob sample_casts two_queues ''a'' (ById 1) Newest False 9 bump_priority
     [sample_job 1 ''a'' 5, sample_job 1 ''b'' 5] =
   Inr ([sample_job 1 ''a'' 5 \<lparr>priority := 9\<rparr>, sample_job 1 ''b'' 5 \<lparr>priority := 9\<rparr>],
        [sample_job 1 ''a'' 5 \<lparr>priority := 9\<rparr>, sample_job 1 ''b'' 5 \<lparr>priority := 9\<rparr>], False)"
  by (simp add: updateJob_def edit_targets_def target_matches_def edit_start_def edit_sel_def
      table_of_def two_queues_def find_queue_def queue_defaults_def edit_row_def bump_priority_def
      sample_job_def job_defaults_def run_update_def check_table_def conflict_def index_defs
      job_key_def skey_def key_check_def)

lemma edit_keeps_identity_witness:
  "map job_key [sample_job 1 ''a'' 5 \<lparr>priority := 9\<rparr>, sample_job 1 ''b'' 5 \<lparr>priority := 9\<rparr>]
   = map job_key [sample_job 1 ''a'' 5, sample_job 1 ''b'' 5]"
proof -
  have "table_ok [sample_job 1 ''a'' 5, sample_job 1 ''b'' 5]" by (simp add: eval_defs)
  from edit_keeps_identity [OF sample_edit_eq this] show ?thesis by blast
qed

text \<open>But an edit of one queue can change a job of another: the statement's update names the ids
  and not the queue, and the queues without a table of their own share one.  Editing job 1 of queue
  \<^verbatim>\<open>a\<close> also edits job 1 of queue \<^verbatim>\<open>b\<close>, and reports the id twice.\<close>

theorem edit_reaches_namesake:
  "\<exists>r. update sample_casts False two_queues (queue_defaults ''a'' Standard ''job_common'' 0) (ById 1)
      Newest 9 bump_priority [sample_job 1 ''a'' 5, sample_job 1 ''b'' 5] =
    Inr ([sample_job 1 ''a'' 5 \<lparr>priority := 9\<rparr>, sample_job 1 ''b'' 5 \<lparr>priority := 9\<rparr>], r) \<and>
    ur_updated r = 2 \<and> ur_jobs r = [1, 1]"
proof -
  have "updateJob sample_casts two_queues (q_name (queue_defaults ''a'' Standard ''job_common'' 0)) (ById 1)
      Newest (notifyEnabled False (queue_defaults ''a'' Standard ''job_common'' 0)) 9 bump_priority
      [sample_job 1 ''a'' 5, sample_job 1 ''b'' 5] =
     Inr ([sample_job 1 ''a'' 5 \<lparr>priority := 9\<rparr>, sample_job 1 ''b'' 5 \<lparr>priority := 9\<rparr>],
        [sample_job 1 ''a'' 5 \<lparr>priority := 9\<rparr>, sample_job 1 ''b'' 5 \<lparr>priority := 9\<rparr>], False)"
    using sample_edit_eq by (simp add: queue_defaults_def notifyEnabled_def)
  thus ?thesis by (simp add: update_def sample_job_def job_defaults_def)
qed







end
