(* ===== verification/Flow_Props.thy ===== *)
theory Flow_Props
  imports Flow Fetch_Props Fail_Props Insert_Props "HOL-Library.Multiset"
begin

text \<open>
  The flow properties: the two forms of the resolver's audit are one operation, a pass keeps the
  accounting of pending parents, releases exactly the children whose parents have completed, and a
  send that is accepted starts out consistent.
\<close>

section \<open>Grouping\<close>

lemma map_of_group_by:
  "map_of (group_by f xs) k = (if filter (\<lambda>x. f x = k) xs = [] then None else Some (filter (\<lambda>x. f x = k) xs))"
proof (induction xs rule: rev_induct)
  case (snoc x xs)
  have "map_of (group_by f (xs @ [x])) k =
      (if k = f x then Some (coalesce (map_of (group_by f xs) (f x)) [] @ [x]) else map_of (group_by f xs) k)"
    by (simp add: group_by_def add_to_group_def update_conv')
  thus ?case using snoc by (cases "k = f x") (auto simp: coalesce_def)
qed (simp add: group_by_def)

lemma distinct_group_by: "distinct (map fst (group_by f xs))"
  by (induction xs rule: rev_induct) (simp_all add: group_by_def add_to_group_def distinct_update)

lemma group_by_member:
  assumes "(k, g) \<in> set (group_by f xs)"
  shows "g = filter (\<lambda>x. f x = k) xs" "g \<noteq> []"
proof -
  have "map_of (group_by f xs) k = Some g" using assms distinct_group_by map_of_is_SomeI by metis
  thus "g = filter (\<lambda>x. f x = k) xs" "g \<noteq> []"
    unfolding map_of_group_by by (simp_all split: if_splits)
qed

lemma set_group_by: "(\<Union>(k, g)\<in>set (group_by f xs). set g) = set xs"
proof (intro subset_antisym subsetI)
  fix x assume "x \<in> (\<Union>(k, g)\<in>set (group_by f xs). set g)"
  then obtain k g where "(k, g) \<in> set (group_by f xs)" "x \<in> set g" by auto
  thus "x \<in> set xs" using group_by_member(1) by fastforce
next
  fix x assume x: "x \<in> set xs"
  hence "map_of (group_by f xs) (f x) = Some (filter (\<lambda>y. f y = f x) xs)"
    unfolding map_of_group_by by (auto simp: filter_empty_conv)
  thus "x \<in> (\<Union>(k, g)\<in>set (group_by f xs). set g)"
    using x by (intro UN_I [of "(f x, filter (\<lambda>y. f y = f x) xs)"]) (auto dest: map_of_SomeD)
qed

section \<open>One audit, two forms\<close>

lemma gives_up_flow_columns:
  "gives_up j (j\<lparr>pending_dependencies := p, blocked := b, start_after := s\<rparr>)"
  "gives_up j (j\<lparr>blocking := b'\<rparr>)"
  by (auto simp: gives_up_def job_key_def index_defs skey_def split: option.splits)

interpretation unblock: settling "locked_child deps parents" "unblock_row now deps parents"
  by unfold_locales
    (simp_all add: unblock_row_def Let_def gives_up_flow_columns key_check_def)

interpretation clear: settling p clear_row
  by unfold_locales (simp_all add: clear_row_def gives_up_flow_columns key_check_def)

text \<open>What an audit of these parents makes of one row.\<close>

definition audited :: "time \<Rightarrow> dependency list \<Rightarrow> (str \<times> uuid) list \<Rightarrow> job \<Rightarrow> job" where
  "audited now deps parents j = (
     let c = (if locked_child deps parents j then unblock_row now deps parents j else j)
     in if job_key c \<in> set parents then clear_row c else c)"

lemma flow_row_key [simp]:
  "job_key (unblock_row now deps parents j) = job_key j"
  "job_key (clear_row j) = job_key j"
  "job_key (audited now deps parents j) = job_key j"
  by (simp_all add: unblock_row_def clear_row_def audited_def Let_def job_key_def)

lemma upd_where_after:
  "upd_where q g (upd_where p f t) = map (\<lambda>j. let c = (if p j then f j else j) in if q c then g c else c) t"
  by (simp add: upd_where_def Let_def)

lemma audited_table:
  "upd_where (\<lambda>j. job_key j \<in> set parents) clear_row
     (upd_where (locked_child deps parents) (unblock_row now deps parents) t) =
   map (audited now deps parents) t"
  by (simp add: upd_where_after audited_def)

lemma table_ok_audited: "table_ok t \<Longrightarrow> table_ok (map (audited now deps parents) t)"
  using clear.keeps_ok [OF unblock.keeps_ok] by (simp add: audited_table [symmetric])

lemma decremented_append:
  assumes "set ks \<inter> set ls = {}"
  shows "decremented deps (ks @ ls) k = decremented deps ks k + decremented deps ls k"
  using assms by (induction deps) (auto simp: decremented_def)

lemma decremented_set: "set ks = set ls \<Longrightarrow> decremented deps ks = decremented deps ls"
  by (simp add: decremented_def fun_eq_iff)

lemma audited_set:
  assumes "set ks = set ls" shows "audited now deps ks = audited now deps ls"
  by (intro ext)
    (simp only: audited_def locked_child_def unblock_row_def decremented_set [OF assms] assms)

definition freed :: "time \<Rightarrow> nat \<Rightarrow> job \<Rightarrow> job" where
  "freed now n j = (if blocked j \<and> n > 0 then
     (let left = max (pending_dependencies j - int n) 0
      in j\<lparr>pending_dependencies := left, blocked := left > 0,
           start_after := (if left = 0 then max (start_after j) now else start_after j)\<rparr>)
     else j)"

lemma audited_freed:
  "audited now deps ks j = (if job_key j \<in> set ks then clear_row else id)
     (freed now (decremented deps ks (job_key j)) j)"
  by (simp add: audited_def locked_child_def freed_def unblock_row_def Let_def job_key_def)

lemma freed_freed: "freed now m (freed now n j) = freed now (n + m) j"
proof (cases "blocked j \<and> n > 0 \<and> m > 0")
  case True
  let ?p = "pending_dependencies j"
  show ?thesis
  proof (cases "?p - int n > 0")
    case pos: True
    hence "freed now n j = j\<lparr>pending_dependencies := ?p - int n, blocked := True,
        start_after := start_after j\<rparr>"
      using True by (simp add: freed_def Let_def)
    moreover have "max (?p - int n - int m) 0 = max (?p - int (n + m)) 0" by simp
    ultimately show ?thesis using True by (simp add: freed_def Let_def)
  next
    case False
    hence "max (?p - int n) 0 = 0" "max (?p - int (n + m)) 0 = 0" by simp_all
    thus ?thesis using True by (simp add: freed_def)
  qed
next
  case False
  hence "\<not> blocked j \<or> n = 0 \<or> m = 0" by simp
  thus ?thesis by (elim disjE) (simp_all add: freed_def)
qed

lemma freed_clear: "freed now n (clear_row j) = clear_row (freed now n j)"
  by (simp add: freed_def clear_row_def Let_def)

lemma freed_key [simp]: "job_key (freed now n j) = job_key j"
  by (simp add: freed_def job_key_def Let_def)

lemma audited_append:
  assumes "set ks \<inter> set ls = {}"
  shows "audited now deps ls (audited now deps ks j) = audited now deps (ks @ ls) j"
proof -
  have "job_key j \<in> set ks \<Longrightarrow> job_key j \<notin> set ls" using assms by auto
  thus ?thesis
    by (simp add: audited_freed decremented_append [OF assms] freed_freed [symmetric] freed_clear)
qed

lemma audited_Nil: "audited now deps [] j = j"
  by (simp add: audited_def locked_child_def decremented_def)

lemma locked_parents_props:
  assumes "table_ok t" "p \<in> set (locked_parents names locked t)"
  shows "p \<in> set t" "blocking_parent names p" "\<not> locked (job_key p)"
  using assms(2) by (auto simp: locked_parents_def dest!: in_set_takeD)

lemma locked_parents_distinct:
  assumes "table_ok t" shows "distinct (map job_key (locked_parents names locked t))"
proof -
  have "mset (map job_key (sort_key job_key (filter p t))) = mset (map job_key (filter p t))" for p
    by simp
  hence "distinct (map job_key (sort_key job_key (filter p t)))" for p
    using distinct_filter_map [OF table_ok_distinct [OF assms], of p] mset_eq_imp_distinct_iff by blast
  thus ?thesis unfolding locked_parents_def take_map [symmetric]
    by (intro distinct_take distinct_filter_map)
qed

lemma cleared_count:
  assumes "table_ok t" "distinct ks" "set ks \<subseteq> job_key ` set t"
    and "map job_key t' = map job_key t"
  shows "length (filter (\<lambda>j. job_key j \<in> set ks) t') = length ks"
proof -
  let ?P = "\<lambda>k. k \<in> set ks"
  have "map job_key (filter (\<lambda>j. ?P (job_key j)) t') = filter ?P (map job_key t)"
    unfolding assms(4) [symmetric] filter_map by (simp add: comp_def)
  hence "length (filter (\<lambda>j. job_key j \<in> set ks) t') = length (filter ?P (map job_key t))"
    by (metis length_map)
  also have "\<dots> = card (set (filter ?P (map job_key t)))"
    using table_ok_distinct [OF assms(1)] by (simp only: distinct_card distinct_filter)
  also have "set (filter ?P (map job_key t)) = set ks" using assms(3) by auto
  finally show ?thesis using distinct_card [OF assms(2)] by simp
qed

lemma resolveFlowJobs_eq:
  assumes ok: "table_ok t"
  shows "resolveFlowJobs names locked deps now t =
    (let ps = locked_parents names locked t
     in Inr (map (audited now deps (map job_key ps)) t, length ps))"
proof -
  let ?ks = "map job_key (locked_parents names locked t)"
  let ?t1 = "upd_where (locked_child deps ?ks) (unblock_row now deps ?ks) t"
  have "set ?ks \<subseteq> job_key ` set t" using locked_parents_props(1) [OF ok] by auto
  hence "length (filter (\<lambda>j. job_key j \<in> set ?ks) ?t1) = length ?ks"
    by (rule cleared_count [OF ok locked_parents_distinct [OF ok] _ unblock.keeps_keys])
  thus ?thesis
    unfolding resolveFlowJobs_def Let_def unblock.succeeds [OF ok]
      and_then_simps prod.case clear.succeeds [OF unblock.keeps_ok [OF ok]] audited_table
    by simp
qed

lemma resolve_groups_eq:
  assumes "table_ok t" "distinct (map fst gs)"
    and "\<And>n rows r. (n, rows) \<in> set gs \<Longrightarrow> r \<in> set rows \<Longrightarrow> job_name r = n"
  shows "resolve_groups deps now gs t =
    Inr (map (audited now deps (map job_key (concat (map snd gs)))) t)"
  using assms
proof (induction gs arbitrary: t)
  case Nil
  thus ?case by (simp add: audited_Nil)
next
  case (Cons g gs)
  obtain n rows where g: "g = (n, rows)" by force
  let ?ks = "map job_key rows" and ?ls = "map job_key (concat (map snd gs))"
  have names: "\<And>r. r \<in> set rows \<Longrightarrow> job_name r = n" using Cons.prems(3) g by auto
  have ks: "map (Pair n) (map job_id rows) = ?ks"
    using names by (induction rows) (auto simp: job_key_def)
  have sel: "(\<lambda>j. job_name j = n \<and> job_id j \<in> set (map job_id rows)) = (\<lambda>j. job_key j \<in> set ?ks)"
    unfolding ks [symmetric] by (auto simp: job_key_def fun_eq_iff)
  have "set ?ks \<inter> set ?ls = {}"
  proof -
    have "job_name r \<noteq> n" if "(m, rs) \<in> set gs" "r \<in> set rs" for m rs r
      using Cons.prems(2,3) that g by force
    thus ?thesis using names by (fastforce simp: job_key_def)
  qed
  hence step: "map (audited now deps ?ls) (map (audited now deps ?ks) t) =
      map (audited now deps (?ks @ ?ls)) t"
    by (simp add: audited_append)
  have "resolve_groups deps now (g # gs) t = resolve_groups deps now gs (map (audited now deps ?ks) t)"
    unfolding g resolve_groups.simps decrementDependents_def clearBlocking_def Let_def ks sel
      unblock.succeeds [OF Cons.prems(1)] and_then_simps prod.case
      clear.succeeds [OF unblock.keeps_ok [OF Cons.prems(1)]] audited_table ..
  also have "\<dots> = Inr (map (audited now deps ?ls) (map (audited now deps ?ks) t))"
    using Cons.prems(2,3) by (intro Cons.IH table_ok_audited Cons.prems(1)) auto
  finally show ?case unfolding step g by simp
qed

lemma resolve_distributed_eq:
  assumes ok: "table_ok t"
  shows "resolveFlowJobsDistributed names False locked deps now t = resolveFlowJobs names locked deps now t"
proof (cases "locked_parents names locked t = []")
  case True
  thus ?thesis unfolding resolveFlowJobs_eq [OF ok]
    by (simp add: resolveFlowJobsDistributed_def selectBlockingParents_def Let_def audited_Nil map_idI)
next
  case False
  let ?ps = "locked_parents names locked t"
  let ?g = "group_by job_name ?ps"
  have "resolve_groups deps now ?g t = Inr (map (audited now deps (map job_key (concat (map snd ?g)))) t)"
    using group_by_member(1) by (intro resolve_groups_eq [OF ok distinct_group_by]) fastforce
  moreover have "set (concat (map snd ?g)) = set ?ps"
    unfolding set_group_by [of job_name ?ps, symmetric] by auto
  hence "audited now deps (map job_key (concat (map snd ?g))) = audited now deps (map job_key ?ps)"
    by (intro audited_set) (metis list.set_map)
  ultimately show ?thesis using False unfolding resolveFlowJobs_eq [OF ok]
    by (simp add: resolveFlowJobsDistributed_def selectBlockingParents_def Let_def)
qed

section \<open>Every operation keeps the accounting\<close>

lemma flow_ok_transfer:
  assumes "flow_ok t deps"
    and "\<And>j'. j' \<in> set t' \<Longrightarrow> blocked j' \<Longrightarrow> \<exists>j\<in>set t. blocked j \<and> job_key j = job_key j' \<and>
        pending_dependencies j = pending_dependencies j'"
    and "\<And>j'. j' \<in> set t' \<Longrightarrow> state j' \<in> {Active, Completed} \<Longrightarrow> \<not> blocked j'"
    and "\<And>k. open_parent t' k = open_parent t k"
  shows "flow_ok t' deps"
proof -
  have "open_parents t' deps = open_parents t deps"
    by (simp add: open_parents_def fun_eq_iff assms(4))
  thus ?thesis using assms(1-3) unfolding flow_ok_def by metis
qed

text \<open>What an update must leave alone for the accounting to stand.\<close>

locale flow_neutral =
  fixes sel :: "job \<Rightarrow> bool"
    and chg :: "job \<Rightarrow> job"
  assumes key: "job_key (chg j) = job_key j"
    and blocking: "blocking (chg j) = blocking j"
    and no_new_block: "blocked (chg j) \<Longrightarrow>
        blocked j \<and> pending_dependencies (chg j) = pending_dependencies j"
    and free: "sel j \<Longrightarrow> (state j \<in> {Active, Completed} \<Longrightarrow> \<not> blocked j) \<Longrightarrow>
        state (chg j) \<in> {Active, Completed} \<Longrightarrow> \<not> blocked (chg j)"
begin

lemma open_parent_same: "open_parent (upd_where sel chg t) k = open_parent t k"
  by (induction t) (auto simp: open_parent_def key blocking)

lemma keeps_flow:
  assumes "flow_ok t deps" shows "flow_ok (upd_where sel chg t) deps"
proof (rule flow_ok_transfer [OF assms _ _ open_parent_same])
  fix j' assume j': "j' \<in> set (upd_where sel chg t)"
  then obtain j where j: "j \<in> set t" "j' = j \<or> (sel j \<and> j' = chg j)"
    by (auto simp: set_upd_where)
  show "blocked j' \<Longrightarrow> \<exists>j\<in>set t. blocked j \<and> job_key j = job_key j' \<and>
      pending_dependencies j = pending_dependencies j'"
    using j no_new_block key by metis
  show "state j' \<in> {Active, Completed} \<Longrightarrow> \<not> blocked j'"
    using j free assms unfolding flow_ok_def by metis
qed

lemma run_keeps_flow:
  "flow_ok t deps \<Longrightarrow> run_update sel chg t = Inr (t', rs) \<Longrightarrow> flow_ok t' deps"
  using keeps_flow by (auto simp: run_update_Inr)

end

interpretation flow_complete: flow_neutral "complete_sel n ids q fence" "complete_chg out q now"
  by unfold_locales (auto simp: complete_chg_def complete_sel_def job_key_def split: if_splits)

interpretation flow_cancel: flow_neutral "cancel_sel n ids fence" "cancel_chg now"
  by unfold_locales (auto simp: cancel_chg_def job_key_def)

interpretation flow_touch: flow_neutral "touch_sel n ids fence" "touch_chg now"
  by unfold_locales (auto simp: touch_chg_def job_key_def)

interpretation flow_resume: flow_neutral "resume_sel n ids" "resume_chg now"
  by unfold_locales (auto simp: resume_chg_def job_key_def)

interpretation flow_restore: flow_neutral "restore_sel n ids" restore_chg
  by unfold_locales (auto simp: restore_chg_def job_key_def)

interpretation flow_retry: flow_neutral "retry_sel n ids" "retry_chg now"
  by unfold_locales (auto simp: retry_chg_def job_key_def)

interpretation flow_claim: flow_neutral "\<lambda>j. \<not> blocked j \<and> p j" "claim_row now"
  by unfold_locales (auto simp: claim_row_def job_key_def)

lemma fetch_keeps_flow:
  assumes "table_ok t" "flow_ok t deps" "fetchNextJob opt d l now t = Inr (t', rs)"
  shows "flow_ok t' deps"
proof -
  let ?S = "fetch_selected opt (effective_locks d l) now t"
  have "\<And>j. j \<in> set ?S \<Longrightarrow> \<not> blocked j" using selected_sub(2) candidate_basic(3) by blast
  hence "(\<lambda>j. j \<in> set ?S) = (\<lambda>j. \<not> blocked j \<and> j \<in> set ?S)" by auto
  with assms(3) have "run_update (\<lambda>j. \<not> blocked j \<and> j \<in> set ?S) (claim_row now) t = Inr (t', rs)"
    unfolding fetch_update [OF assms(1)] by simp
  thus ?thesis by (rule flow_claim.run_keeps_flow [OF assms(2)])
qed

lemma dlq_rows_free: "r \<in> set (dlq_rows qs new_id now rs) \<Longrightarrow> \<not> blocked r \<and> \<not> blocking r"
  by (auto simp: dlq_rows_def dlq_row_def job_defaults_def)

lemma fail_row_flow:
  "job_key (retried_row f out now rnd j) = job_key j" "blocked (retried_row f out now rnd j) = blocked j"
  "blocking (retried_row f out now rnd j) = blocking j"
  "pending_dependencies (retried_row f out now rnd j) = pending_dependencies j"
  "job_key (failed_row out now j) = job_key j" "blocked (failed_row out now j) = blocked j"
  "blocking (failed_row out now j) = blocking j"
  "pending_dependencies (failed_row out now j) = pending_dependencies j"
  "state (retried_row f out now rnd j) \<in> {Retry, Failed}" "state (failed_row out now j) = Failed"
  by (simp_all add: retried_row_def failed_row_def job_key_def)

lemma fail_body_keeps_flow:
  assumes run: "failJobsBody qs new_id now rnd sel out f t = Inr (t', rs)"
    and ids: "distinct (map job_id (filter sel t))" and ok: "flow_ok t deps"
  shows "flow_ok t' deps"
proof -
  note c = fail_body_conserves [OF run ids]
  have mem: "j' \<in> set t' \<longleftrightarrow> j' \<in> set t \<and> \<not> sel j' \<or> j' \<in> set rs \<or> j' \<in> set (dlq_rows qs new_id now rs)"
    for j' using c(1) by auto
  have src: "\<exists>j\<in>set t. sel j \<and> job_key j = job_key r \<and> blocked j = blocked r \<and> blocking j = blocking r \<and>
      pending_dependencies j = pending_dependencies r \<and> state r \<in> {Retry, Failed}" if r: "r \<in> set rs" for r
    using c(4) r fail_row_flow by (metis insertCI)
  have dst: "\<exists>r\<in>set rs. job_key r = job_key j \<and> blocking r = blocking j" if j: "j \<in> set t" "sel j" for j
    using c(3) j fail_row_flow by metis
  show ?thesis
  proof (rule flow_ok_transfer [OF ok])
    fix j' assume j': "j' \<in> set t'"
    show "blocked j' \<Longrightarrow> \<exists>j\<in>set t. blocked j \<and> job_key j = job_key j' \<and>
        pending_dependencies j = pending_dependencies j'"
      using j' mem src dlq_rows_free by metis
    show "state j' \<in> {Active, Completed} \<Longrightarrow> \<not> blocked j'"
      using j' mem [of j'] src [of j'] dlq_rows_free [of j'] ok by (auto simp: flow_ok_def)
  next
    fix k
    show "open_parent t' k = open_parent t k"
      unfolding open_parent_def list_ex_iff using mem src dst dlq_rows_free by metis
  qed
qed

section \<open>The audit keeps the accounting\<close>

lemma audited_simps [simp]:
  "state (audited now deps ks j) = state j"
  "job_name (audited now deps ks j) = job_name j"
  "blocking (audited now deps ks j) = (blocking j \<and> job_key j \<notin> set ks)"
  by (simp_all add: audited_def unblock_row_def clear_row_def Let_def job_key_def)

lemma audited_block:
  "blocked (audited now deps ks j) = (blocked j \<and>
     (decremented deps ks (job_key j) = 0 \<or>
      int (decremented deps ks (job_key j)) < pending_dependencies j))"
  "blocked (audited now deps ks j) \<Longrightarrow>
     pending_dependencies (audited now deps ks j) =
       pending_dependencies j - int (decremented deps ks (job_key j))"
  by (auto simp: audited_def locked_child_def unblock_row_def clear_row_def Let_def job_key_def
      split: if_splits)

lemma audited_released:
  "blocked j \<Longrightarrow> \<not> blocked (audited now deps ks j) \<Longrightarrow> now \<le> start_after (audited now deps ks j)"
  by (auto simp: audited_def locked_child_def unblock_row_def clear_row_def Let_def job_key_def
      split: if_splits)

lemma open_parent_audited:
  "open_parent (map (audited now deps ks) t) k = (open_parent t k \<and> k \<notin> set ks)"
  by (induction t) (auto simp: open_parent_def)

lemma open_parents_split:
  assumes "\<And>k. k \<in> set ks \<Longrightarrow> open_parent t k"
  shows "open_parents t deps c =
    open_parents (map (audited now deps ks) t) deps c + decremented deps ks c"
  unfolding open_parents_def decremented_def open_parent_audited
  using assms by (induction deps) auto

lemma open_parents_pos:
  "open_parents t deps c > 0 \<longleftrightarrow> (\<exists>d\<in>set deps. dep_child d = c \<and> open_parent t (dep_parent d))"
  by (induction deps) (auto simp: open_parents_def)

lemma audited_keeps_flow:
  assumes ok: "flow_ok t deps" and ks: "\<And>k. k \<in> set ks \<Longrightarrow> open_parent t k"
  shows "flow_ok (map (audited now deps ks) t) deps"
    "\<And>j. j \<in> set t \<Longrightarrow> blocked (audited now deps ks j) \<longleftrightarrow>
       blocked j \<and> open_parents (map (audited now deps ks) t) deps (job_key j) > 0"
proof -
  let ?t' = "map (audited now deps ks) t"
  have split: "open_parents t deps c = open_parents ?t' deps c + decremented deps ks c" for c
    by (rule open_parents_split [OF ks])
  have row: "blocked (audited now deps ks j) \<longleftrightarrow> blocked j \<and> open_parents ?t' deps (job_key j) > 0"
    if "j \<in> set t" for j
  proof (cases "blocked j")
    case True
    hence "pending_dependencies j = int (open_parents ?t' deps (job_key j) + decremented deps ks (job_key j))"
      "pending_dependencies j > 0"
      using ok that split by (auto simp: flow_ok_def)
    thus ?thesis using True by (auto simp: audited_block(1))
  qed (simp add: audited_block(1))
  thus "\<And>j. j \<in> set t \<Longrightarrow> blocked (audited now deps ks j) \<longleftrightarrow>
       blocked j \<and> open_parents ?t' deps (job_key j) > 0" .
  show "flow_ok ?t' deps" unfolding flow_ok_def
  proof (intro ballI conjI impI)
    fix j' assume "j' \<in> set ?t'"
    then obtain j where j: "j \<in> set t" "j' = audited now deps ks j" by auto
    { assume b: "blocked j'"
      hence "blocked j" "open_parents ?t' deps (job_key j) > 0" using row j by auto
      moreover have "pending_dependencies j' = pending_dependencies j - int (decremented deps ks (job_key j))"
        using b j by (simp add: audited_block(2))
      moreover have "pending_dependencies j = int (open_parents ?t' deps (job_key j)) +
          int (decremented deps ks (job_key j))"
        using ok j(1) \<open>blocked j\<close> split by (auto simp: flow_ok_def)
      ultimately have "pending_dependencies j' = int (open_parents ?t' deps (job_key j')) \<and>
          pending_dependencies j' > 0" using j by simp
      thus "pending_dependencies j' = int (open_parents ?t' deps (job_key j'))"
        "pending_dependencies j' > 0" by auto }
    assume "state j' \<in> {Active, Completed}"
    hence "\<not> blocked j" using ok j by (auto simp: flow_ok_def)
    thus "\<not> blocked j'" using j by (simp add: audited_block(1))
  qed
qed

section \<open>The pass\<close>

text \<open>The parents a batch may take.\<close>

definition due :: "str list \<Rightarrow> (str \<times> uuid \<Rightarrow> bool) \<Rightarrow> job list \<Rightarrow> (str \<times> uuid) set" where
  "due names locked t = job_key ` {p \<in> set t. blocking_parent names p \<and> \<not> locked (job_key p)}"

definition due_count :: "str list \<Rightarrow> (str \<times> uuid \<Rightarrow> bool) \<Rightarrow> job list \<Rightarrow> nat" where
  "due_count names locked t =
     length (filter (\<lambda>p. blocking_parent names p \<and> \<not> locked (job_key p)) t)"

lemma blocking_parent_audited [simp]:
  "blocking_parent names (audited now deps ks j) = (blocking_parent names j \<and> job_key j \<notin> set ks)"
  by (auto simp: blocking_parent_def)

lemma due_audited: "due names locked (map (audited now deps ks) t) = due names locked t - set ks"
proof -
  let ?Q = "\<lambda>p. blocking_parent names p \<and> \<not> locked (job_key p)"
  have "{p \<in> set (map (audited now deps ks) t). ?Q p} =
      audited now deps ks ` {p \<in> set t. ?Q p \<and> job_key p \<notin> set ks}" by auto
  hence "due names locked (map (audited now deps ks) t) = job_key ` {p \<in> set t. ?Q p \<and> job_key p \<notin> set ks}"
    by (simp add: due_def image_image)
  thus ?thesis by (auto simp: due_def)
qed

lemma due_append: "due (ns @ ms) locked t = due ns locked t \<union> due ms locked t"
  by (auto simp: due_def blocking_parent_def)

definition locks_of :: "bool \<Rightarrow> bool \<Rightarrow> (str \<times> uuid \<Rightarrow> bool) \<Rightarrow> str \<times> uuid \<Rightarrow> bool" where
  "locks_of d s locked = (if d \<and> s then (\<lambda>_. False) else locked)"

text \<open>A batch of either form audits some of the parents that are due, all of them when it is not full,
  and reports how many.\<close>

lemma locked_parents_due:
  assumes "table_ok t"
  shows "set (map job_key (locked_parents names l t)) \<subseteq> due names l t"
    "length (locked_parents names l t) = min FLOW_BATCH_SIZE (due_count names l t)"
    "length (locked_parents names l t) < FLOW_BATCH_SIZE \<Longrightarrow>
       set (map job_key (locked_parents names l t)) = due names l t"
proof -
  let ?s = "filter (\<lambda>j. \<not> l (job_key j)) (sort_key job_key (filter (blocking_parent names) t))"
  have len: "length ?s = due_count names l t"
  proof -
    have "mset ?s = mset (filter (\<lambda>p. blocking_parent names p \<and> \<not> l (job_key p)) t)"
      by (simp add: filter_filter_mset conj_commute)
    thus ?thesis unfolding due_count_def by (metis size_mset)
  qed
  show "set (map job_key (locked_parents names l t)) \<subseteq> due names l t"
    unfolding due_def set_map
    by (intro image_mono subsetI CollectI conjI) (use locked_parents_props [OF assms] in blast)+
  show l: "length (locked_parents names l t) = min FLOW_BATCH_SIZE (due_count names l t)"
    by (simp add: locked_parents_def len [symmetric])
  assume "length (locked_parents names l t) < FLOW_BATCH_SIZE"
  hence "locked_parents names l t = ?s"
    using l len by (simp add: locked_parents_def)
  thus "set (map job_key (locked_parents names l t)) = due names l t"
    by (auto simp: due_def)
qed

lemma resolve_batch_eq:
  assumes ok: "table_ok t"
  shows "resolve_batch d s names locked deps now t =
    (let ps = locked_parents names (locks_of d s locked) t
     in Inr (map (audited now deps (map job_key ps)) t, length ps))"
proof -
  have "resolveFlowJobsDistributed names True locked deps now t =
      resolveFlowJobsDistributed names False (\<lambda>_. False) deps now t"
    by (simp add: resolveFlowJobsDistributed_def selectBlockingParents_def)
  thus ?thesis
    using resolve_distributed_eq [OF ok, of names locked deps now]
      resolve_distributed_eq [OF ok, of names "\<lambda>_. False" deps now]
    by (cases s) (simp_all add: resolve_batch_def locks_of_def resolveFlowJobs_eq [OF ok])
qed

lemma due_count_0: "due_count names l t = 0 \<longleftrightarrow> due names l t = {}"
  by (auto simp: due_count_def due_def filter_empty_conv)

lemma due_count_card: "table_ok t \<Longrightarrow> due_count names l t = card (due names l t)"
proof -
  assume "table_ok t"
  hence "distinct (map job_key (filter (\<lambda>p. blocking_parent names p \<and> \<not> l (job_key p)) t))"
    by (intro distinct_filter_map table_ok_distinct)
  from distinct_card [OF this] show ?thesis unfolding due_count_def due_def by simp
qed

lemma drain_audits:
  assumes "table_ok t" "due_count names (locks_of d s l) t \<le> FLOW_BATCH_SIZE * k"
  shows "\<exists>ks. drain (resolve_batch d s names l deps now) k t = Inr (map (audited now deps ks) t) \<and>
    set ks = due names (locks_of d s l) t"
  using assms
proof (induction k arbitrary: t)
  case 0
  hence "due names (locks_of d s l) t = {}" by (simp add: due_count_0 [symmetric])
  thus ?case by (intro exI [of _ "[]"]) (simp add: audited_Nil map_idI)
next
  case (Suc k)
  let ?L = "locks_of d s l"
  let ?ks = "map job_key (locked_parents names ?L t)"
  let ?t1 = "map (audited now deps ?ks) t"
  note batch = locked_parents_due [OF Suc.prems(1), of names ?L]
  have step: "drain (resolve_batch d s names l deps now) (Suc k) t =
      (if length ?ks \<ge> FLOW_BATCH_SIZE then drain (resolve_batch d s names l deps now) k ?t1 else Inr ?t1)"
    by (simp add: resolve_batch_eq [OF Suc.prems(1)] Let_def)
  show ?case
  proof (cases "length ?ks \<ge> FLOW_BATCH_SIZE")
    case False
    hence "set ?ks = due names ?L t" using batch(3) by simp
    thus ?thesis using False step by (intro exI [of _ ?ks]) simp
  next
    case True
    have ok1: "table_ok ?t1" by (rule table_ok_audited [OF Suc.prems(1)])
    have due1: "due names ?L ?t1 = due names ?L t - set ?ks" by (rule due_audited)
    have "card (due names ?L t - set ?ks) = card (due names ?L t) - card (set ?ks)"
      using batch(1) by (intro card_Diff_subset) auto
    moreover have "card (set ?ks) = FLOW_BATCH_SIZE"
      using True batch(2) distinct_card [OF locked_parents_distinct [OF Suc.prems(1), of names ?L]] by simp
    ultimately have "due_count names ?L ?t1 \<le> FLOW_BATCH_SIZE * k"
      using Suc.prems(2) by (simp add: due_count_card [OF ok1] due_count_card [OF Suc.prems(1)] due1)
    then obtain ls where ls: "drain (resolve_batch d s names l deps now) k ?t1 =
        Inr (map (audited now deps ls) ?t1)" "set ls = due names ?L ?t1"
      using Suc.IH [OF ok1] by blast
    have "map (audited now deps ls) ?t1 = map (audited now deps (?ks @ ls)) t"
      using ls(2) due1 audited_append [of ?ks ls] by simp
    moreover have "set (?ks @ ls) = due names ?L t" using ls(2) due1 batch(1) by auto
    ultimately show ?thesis using True step ls(1) by (metis (no_types, lifting))
  qed
qed

lemma chunks_audit:
  assumes "table_ok t" "\<And>ch. ch \<in> set chs \<Longrightarrow> due_count ch (locks_of d s l) t \<le> FLOW_BATCH_SIZE * MAX_BATCHES_PER_PASS"
  shows "\<exists>ks. resolve_chunks (\<lambda>names. resolve_batch d s names l deps now) chs t =
      Inr (map (audited now deps ks) t) \<and> set ks = due (concat chs) (locks_of d s l) t"
  using assms
proof (induction chs arbitrary: t)
  case Nil
  thus ?case by (intro exI [of _ "[]"]) (simp add: audited_Nil map_idI due_def blocking_parent_def)
next
  case (Cons ch chs)
  let ?L = "locks_of d s l"
  obtain ks where ks: "drain (resolve_batch d s ch l deps now) MAX_BATCHES_PER_PASS t =
      Inr (map (audited now deps ks) t)" "set ks = due ch ?L t"
    using drain_audits [OF Cons.prems(1)] Cons.prems(2) by (metis list.set_intros(1))
  let ?t1 = "map (audited now deps ks) t"
  have ok1: "table_ok ?t1" by (rule table_ok_audited [OF Cons.prems(1)])
  have "due_count c ?L ?t1 \<le> due_count c ?L t" for c
    by (simp add: due_count_card [OF ok1] due_count_card [OF Cons.prems(1)] due_audited)
      (simp add: card_mono due_def)
  hence "\<And>c. c \<in> set chs \<Longrightarrow> due_count c ?L ?t1 \<le> FLOW_BATCH_SIZE * MAX_BATCHES_PER_PASS"
    using Cons.prems(2) by (meson le_trans list.set_intros(2))
  then obtain ls where ls: "resolve_chunks (\<lambda>names. resolve_batch d s names l deps now) chs ?t1 =
      Inr (map (audited now deps ls) ?t1)" "set ls = due (concat chs) ?L ?t1"
    using Cons.IH [OF ok1] by blast
  have "map (audited now deps ls) ?t1 = map (audited now deps (ks @ ls)) t"
    using ls(2) audited_append [of ks ls] by (simp add: due_audited)
  moreover have "set (ks @ ls) = due (concat (ch # chs)) ?L t"
    using ks(2) ls(2) due_append by (auto simp: due_audited)
  ultimately show ?case using ks(1) ls(1) by (intro exI [of _ "ks @ ls"]) simp
qed

lemma chunks_Nil [simp]: "chunks k [] = []"
  by (simp add: chunks.simps)

lemma concat_chunks: "0 < k \<Longrightarrow> concat (chunks k xs) = xs"
proof (induction k xs rule: chunks.induct)
  case (1 k xs)
  thus ?case by (cases "xs = []") (simp, simp add: chunks.simps [of k xs])
qed

lemma concat_group_chunks:
  "concat (concat (map (\<lambda>(_, g). chunks 100 (map f g)) gs)) = map f (concat (map snd gs))"
  by (induction gs) (auto simp: concat_chunks)

lemma pass_names:
  "set (concat (concat (map (\<lambda>(_, g). chunks 100 (map q_name g)) (group_by q_table_name qs)))) =
    q_name ` set qs"
proof -
  have "set (concat (map snd (group_by q_table_name qs))) = set qs"
    unfolding set_group_by [of q_table_name qs, symmetric] by auto
  thus ?thesis unfolding concat_group_chunks by (metis list.set_map)
qed

lemma pass_audits:
  assumes ok: "table_ok t" and names: "\<forall>j\<in>set t. job_name j \<in> q_name ` set qs"
    and few: "length (filter (\<lambda>j. blocking j \<and> state j = Completed) t) \<le> 100000"
  shows "\<exists>ks. resolve_pass d s l deps now qs t = Inr (map (audited now deps ks) t) \<and>
    set ks = job_key ` {p \<in> set t. blocking p \<and> state p = Completed \<and> \<not> locks_of d s l (job_key p)}"
proof -
  let ?chs = "concat (map (\<lambda>(_, g). chunks 100 (map q_name g)) (group_by q_table_name qs))"
  have "due_count ch (locks_of d s l) t \<le> FLOW_BATCH_SIZE * MAX_BATCHES_PER_PASS" for ch
  proof -
    have "due_count ch (locks_of d s l) t \<le> length (filter (\<lambda>j. blocking j \<and> state j = Completed) t)"
      unfolding due_count_def by (rule length_filter_mono) (simp add: blocking_parent_def)
    thus ?thesis using few by (simp add: FLOW_BATCH_SIZE_def MAX_BATCHES_PER_PASS_def)
  qed
  from chunks_audit [OF ok this] obtain ks where
    "resolve_chunks (\<lambda>names. resolve_batch d s names l deps now) ?chs t = Inr (map (audited now deps ks) t)"
    "set ks = due (concat ?chs) (locks_of d s l) t" by blast
  moreover have "due (concat ?chs) (locks_of d s l) t =
      job_key ` {p \<in> set t. blocking p \<and> state p = Completed \<and> \<not> locks_of d s l (job_key p)}"
    unfolding due_def blocking_parent_def pass_names using names by (intro arg_cong [where f = "image job_key"]) auto
  ultimately show ?thesis unfolding resolve_pass_def by metis
qed

text \<open>The distributed audit, which splits the statement queue by queue, leaves the same table and
  reports the same number of parents as the single statement, whatever rows others have locked.\<close>

theorem resolve_distributed_equiv:
  assumes "table_ok t"
  shows "resolveFlowJobsDistributed names False locked deps now t =
    resolveFlowJobs names locked deps now t"
  using resolve_distributed_eq [OF assms] .

text \<open>(C8) A resolver pass closes exactly the parents that have completed and that no other session
  holds, whatever the batches and chunks it took, and releases a child exactly when none of its
  parents is open any more; a released child is not due before the release.  No job is released
  early, none is left behind, and the accounting stands after the pass as it did before.\<close>

theorem resolve_pass_releases:
  assumes "table_ok t" "flow_ok t deps" "\<forall>j\<in>set t. job_name j \<in> q_name ` set qs"
    and "length (filter (\<lambda>j. blocking j \<and> state j = Completed) t) \<le> 100000"
  shows "\<exists>t'. resolve_pass d s locked deps now qs t = Inr t' \<and> table_ok t' \<and> flow_ok t' deps \<and>
    length t' = length t \<and>
    (\<forall>k. open_parent t' k \<longleftrightarrow> (\<exists>p\<in>set t. job_key p = k \<and> blocking p \<and>
       (state p = Completed \<longrightarrow> locks_of d s locked k))) \<and>
    (\<forall>(j, j')\<in>set (zip t t'). job_key j' = job_key j \<and> state j' = state j \<and>
       (blocked j' \<longleftrightarrow> blocked j \<and>
          (\<exists>x\<in>set deps. dep_child x = job_key j \<and> open_parent t' (dep_parent x))) \<and>
       (blocked j \<and> \<not> blocked j' \<longrightarrow> now \<le> start_after j'))"
proof -
  obtain ks where run: "resolve_pass d s locked deps now qs t = Inr (map (audited now deps ks) t)"
    and ks: "set ks = job_key ` {p \<in> set t. blocking p \<and> state p = Completed \<and>
       \<not> locks_of d s locked (job_key p)}"
    using pass_audits [OF assms(1,3,4)] by blast
  have opened: "open_parent t k" if "k \<in> set ks" for k using that ks by (auto simp: open_parent_def list_ex_iff)
  have par: "open_parent (map (audited now deps ks) t) k \<longleftrightarrow> (\<exists>p\<in>set t. job_key p = k \<and> blocking p \<and>
       (state p = Completed \<longrightarrow> locks_of d s locked k))" for k
  proof -
    have "k \<notin> set ks \<longleftrightarrow> (state p = Completed \<longrightarrow> locks_of d s locked k)"
      if "p \<in> set t" "job_key p = k" "blocking p" for p
      using ks that distinct_map_inj [OF table_ok_distinct [OF assms(1)]] by auto
    thus ?thesis unfolding open_parent_audited by (auto simp: open_parent_def list_ex_iff)
  qed
  let ?t' = "map (audited now deps ks) t"
  have row: "blocked (audited now deps ks j) \<longleftrightarrow> blocked j \<and>
      (\<exists>x\<in>set deps. dep_child x = job_key j \<and> open_parent ?t' (dep_parent x))" if "j \<in> set t" for j
    using audited_keeps_flow(2) [OF assms(2) opened that] unfolding open_parents_pos by blast
  have zip: "set (zip t ?t') = (\<lambda>j. (j, audited now deps ks j)) ` set t"
    by (simp add: zip_map2 zip_same_conv_map comp_def)
  have "\<forall>(j, j')\<in>set (zip t ?t'). job_key j' = job_key j \<and> state j' = state j \<and>
       (blocked j' \<longleftrightarrow> blocked j \<and>
          (\<exists>x\<in>set deps. dep_child x = job_key j \<and> open_parent ?t' (dep_parent x))) \<and>
       (blocked j \<and> \<not> blocked j' \<longrightarrow> now \<le> start_after j')"
  proof
    fix x assume "x \<in> set (zip t ?t')"
    then obtain j where j: "j \<in> set t" and x: "x = (j, audited now deps ks j)" unfolding zip by blast
    show "case x of (j, j') \<Rightarrow> job_key j' = job_key j \<and> state j' = state j \<and>
       (blocked j' \<longleftrightarrow> blocked j \<and>
          (\<exists>x\<in>set deps. dep_child x = job_key j \<and> open_parent ?t' (dep_parent x))) \<and>
       (blocked j \<and> \<not> blocked j' \<longrightarrow> now \<le> start_after j')"
      unfolding x prod.case
      by (intro conjI flow_row_key audited_simps row [OF j] impI) (blast intro: audited_released)
  qed
  moreover have "flow_ok ?t' deps" by (rule audited_keeps_flow(1) [OF assms(2) opened])
  ultimately show ?thesis
    by (intro exI [of _ ?t'] conjI allI run table_ok_audited [OF assms(1)] length_map par)
qed

section \<open>The send\<close>

lemma insert_row_flow:
  assumes "insert_row c q n slots u now gen i = Inr r"
  shows "blocked r = coalesce (in_blocked i) False" "blocking r = coalesce (in_blocking i) False"
    "pending_dependencies r = coalesce (in_pending_dependencies i) 0"
  using assms by (auto simp: insert_row_def and_then_Inr_iff)

text \<open>What an inserted row says of the job of the flow it was made for.\<close>

definition flow_row :: "(str \<times> uuid) list \<Rightarrow> str list \<Rightarrow> flow_send \<Rightarrow> job \<Rightarrow> bool" where
  "flow_row ids parents j r = (
     job_key r = (fj_name j, ref_id ids (fj_ref j)) \<and> state r = Created \<and>
     pending_dependencies r = int (length (uniq (fj_depends_on j))) \<and>
     (blocked r \<longleftrightarrow> fj_depends_on j \<noteq> []) \<and> (blocking r \<longleftrightarrow> fj_ref j \<in> set parents))"

lemma set_uniq [simp]: "set (uniq xs) = set xs"
  by (simp add: uniq_def)

lemma distinct_uniq [simp]: "distinct (uniq xs)"
  by (simp add: uniq_def)

lemma uniq_empty [simp]: "uniq xs = [] \<longleftrightarrow> xs = []"
  by (metis set_uniq set_empty)

lemma insert_skip_length: "insert_skip t rs = (t', ins) \<Longrightarrow> length ins \<le> length rs"
  by (induction t rs arbitrary: t' ins rule: insert_skip.induct)
    (auto split: if_splits prod.splits intro: le_SucI)

lemma insert_skip_full:
  "insert_skip t rs = (t', ins) \<Longrightarrow> length ins = length rs \<Longrightarrow> ins = rs"
proof (induction t rs arbitrary: t' ins rule: insert_skip.induct)
  case (2 t r rs)
  show ?case
  proof (cases "list_ex (\<lambda>x. conflict x r) t")
    case True
    hence "length ins \<le> length rs" using "2.prems"(1) insert_skip_length [of t rs t' ins] by simp
    thus ?thesis using "2.prems"(2) by simp
  qed (use 2 in \<open>auto split: prod.splits\<close>)
qed simp

lemma insertFlowJobs_rows:
  assumes "insertFlowJobs c qs n now (map (flow_payload ids parents trace) js) t = Inr t'"
    and names: "\<And>j. j \<in> set js \<Longrightarrow> fj_name j = n"
  shows "\<exists>rows. t' = t @ rows \<and> list_all2 (flow_row ids parents) js rows \<and> (table_ok t \<longrightarrow> table_ok t')"
proof -
  let ?in = "map (flow_payload ids parents trace) js"
  obtain ins b where run: "insertJobs c qs plain_insert n now (\<lambda>_. 0) ?in t = Inr (t', ins, b)"
    and len: "length ins = length ?in"
    using assms(1) by (auto simp: insertFlowJobs_def and_then_Inr_iff split: if_splits)
  from run obtain rows where rows: "map_ok (\<lambda>(k, i). insert_row c (find_queue n qs) n (io_slots plain_insert)
        (io_upsert_by_key plain_insert) now 0 i) (zip [0..<length ?in] ?in) = Inr rows"
    and skip: "insert_skip t rows = (t', ins)"
    by (elim insertJobs_Inr) auto
  have lr: "length rows = length js" using map_ok_length [OF rows] by simp
  have ins: "ins = rows" using insert_skip_full [OF skip] len lr by simp
  have "list_all2 (flow_row ids parents) js rows"
  proof (rule list_all2_all_nthI)
    fix k assume k: "k < length js"
    hence r: "insert_row c (find_queue n qs) n (io_slots plain_insert) (io_upsert_by_key plain_insert) now 0
        (flow_payload ids parents trace (js ! k)) = Inr (rows ! k)"
      using map_ok_nth [OF rows, of k] by simp
    show "flow_row ids parents (js ! k) (rows ! k)"
      using insert_row_fields [OF r] insert_row_flow [OF r] names [of "js ! k"] k
      by (auto simp: flow_row_def flow_payload_def Let_def job_key_def)
  qed (simp add: lr)
  thus ?thesis using insert_skip_append [OF skip] ins insertJobs_ok [OF run] by blast
qed

lemma flow_inserts_rows:
  assumes "flow_inserts c qs now (map (\<lambda>(n, js). (n, map (flow_payload ids parents trace) js)) gs) t = Inr t'"
    and "\<And>n js j. (n, js) \<in> set gs \<Longrightarrow> j \<in> set js \<Longrightarrow> fj_name j = n"
  shows "\<exists>rows. t' = t @ rows \<and> list_all2 (flow_row ids parents) (concat (map snd gs)) rows \<and>
    (table_ok t \<longrightarrow> table_ok t')"
  using assms
proof (induction gs arbitrary: t)
  case (Cons g gs)
  obtain n js where g: "g = (n, js)" by force
  obtain t1 where t1: "insertFlowJobs c qs n now (map (flow_payload ids parents trace) js) t = Inr t1"
    and rest: "flow_inserts c qs now (map (\<lambda>(n, js). (n, map (flow_payload ids parents trace) js)) gs) t1 = Inr t'"
    using Cons.prems(1) by (auto simp: g split: sum.splits)
  have "\<And>j. j \<in> set js \<Longrightarrow> fj_name j = n" using Cons.prems(2) g by auto
  from insertFlowJobs_rows [OF t1 this] obtain r1 where
    r1: "t1 = t @ r1" "list_all2 (flow_row ids parents) js r1" "table_ok t \<longrightarrow> table_ok t1" by blast
  from Cons.IH [OF rest] Cons.prems(2) obtain r2 where
    r2: "t' = t1 @ r2" "list_all2 (flow_row ids parents) (concat (map snd gs)) r2" "table_ok t1 \<longrightarrow> table_ok t'"
    by (meson list.set_intros(2))
  show ?case
    by (intro exI [of _ "r1 @ r2"]) (use r1 r2 g in \<open>auto intro: list_all2_appendI\<close>)
qed simp

lemma insertDependencies_fresh:
  "distinct rows \<Longrightarrow> set rows \<inter> set deps = {} \<Longrightarrow> insertDependencies rows deps = deps @ rows"
proof (induction rows arbitrary: deps)
  case (Cons r rows)
  hence "insertDependencies rows (deps @ [r]) = (deps @ [r]) @ rows" by (intro Cons.IH) auto
  thus ?case using Cons.prems by (simp add: insertDependencies_def)
qed (simp add: insertDependencies_def)

text \<open>The shape of an accepted send.\<close>

lemma flow_Inr:
  assumes "flow c nl qs trace now gen jobs t deps = Inr (t', deps', ns, ids)"
  obtains gs rows where "flow_well_formed (map flow_job.truncate jobs)"
    "acyclic (depends (map flow_job.truncate jobs))"
    "ids = refToId gen jobs" "gs = group_by fj_name jobs"
    "t' = t @ rows" "list_all2 (flow_row ids (parentRefs jobs)) (concat (map snd gs)) rows"
    "table_ok t \<longrightarrow> table_ok t'" "deps' = insertDependencies (depRows ids jobs) deps"
proof -
  let ?gs = "group_by fj_name jobs"
  have v: "validateFlowJobs (map flow_job.truncate jobs) = Inr ()"
    using assms by (auto simp: flow_def split: sum.splits)
  have go: "and_then (flow_inserts c qs now
        (map (\<lambda>(n, js). (n, map (flow_payload (refToId gen jobs) (parentRefs jobs) trace) js)) ?gs) t)
      (\<lambda>t'. Inr (t', insertDependencies (depRows (refToId gen jobs) jobs) deps,
         filter (\<lambda>n. case find_queue n qs of None \<Rightarrow> False | Some q \<Rightarrow> notifyEnabled nl q) (map fst ?gs),
         refToId gen jobs)) = (Inr (t', deps', ns, ids) :: flow_send_error + _)"
    using assms unfolding flow_def v sum.case Let_def
    by (cases "List.find (\<lambda>(n, _). find_queue n qs = None) ?gs") (simp_all split: prod.splits)
  then obtain t1 where t1: "flow_inserts c qs now
      (map (\<lambda>(n, js). (n, map (flow_payload (refToId gen jobs) (parentRefs jobs) trace) js)) ?gs) t = Inr t1"
    by (rule and_then_Inr_E)
  hence ids: "ids = refToId gen jobs" and d: "deps' = insertDependencies (depRows ids jobs) deps"
    and run: "flow_inserts c qs now
      (map (\<lambda>(n, js). (n, map (flow_payload ids (parentRefs jobs) trace) js)) ?gs) t = Inr t'"
    using go by auto
  have "\<exists>rows. t' = t @ rows \<and> list_all2 (flow_row ids (parentRefs jobs)) (concat (map snd ?gs)) rows \<and>
      (table_ok t \<longrightarrow> table_ok t')"
    by (rule flow_inserts_rows [OF run]) (use group_by_member(1) in fastforce)
  then obtain rows where
    "t' = t @ rows" "list_all2 (flow_row ids (parentRefs jobs)) (concat (map snd ?gs)) rows"
    "table_ok t \<longrightarrow> table_ok t'" by blast
  moreover have "flow_well_formed (map flow_job.truncate jobs)" "acyclic (depends (map flow_job.truncate jobs))"
    using v unfolding validateFlowJobs_iff by blast+
  ultimately show thesis using that ids d by metis
qed

lemma group_by_concat: "set (concat (map snd (group_by f xs))) = set xs"
  unfolding set_group_by [of f xs, symmetric] by auto

lemma wf_truncate:
  assumes "flow_well_formed (map flow_job.truncate (jobs :: flow_send list))"
  shows "distinct (map fj_ref jobs)"
    "\<And>j d. j \<in> set jobs \<Longrightarrow> d \<in> set (fj_depends_on j) \<Longrightarrow> d \<in> fj_ref ` set jobs"
proof -
  show "distinct (map fj_ref jobs)"
    using assms by (simp add: flow_well_formed_def comp_def flow_job.defs)
  fix j d assume "j \<in> set jobs" "d \<in> set (fj_depends_on j)"
  thus "d \<in> fj_ref ` set jobs" using assms
    by (auto simp: flow_well_formed_def flow_job.defs image_iff)
qed

lemma refToName_job:
  assumes "distinct (map fj_ref jobs)" "p \<in> set jobs"
  shows "refToName jobs (fj_ref p) = fj_name p"
proof -
  have "map_of (map (\<lambda>j. (fj_ref j, fj_name j)) jobs) (fj_ref p) = Some (fj_name p)"
    using assms by (intro map_of_is_SomeI) (auto simp: comp_def)
  thus ?thesis by (simp add: refToName_def)
qed

lemma dependency_eq: "dep_child x = dep_child y \<Longrightarrow> dep_parent x = dep_parent y \<Longrightarrow> x = (y :: dependency)"
  by (cases x; cases y) (simp add: dep_child_def dep_parent_def)

lemma distinct_concat_map:
  assumes "distinct xs" "\<And>x. x \<in> set xs \<Longrightarrow> distinct (f x)"
    and "\<And>x y. x \<in> set xs \<Longrightarrow> y \<in> set xs \<Longrightarrow> x \<noteq> y \<Longrightarrow> set (f x) \<inter> set (f y) = {}"
  shows "distinct (concat (map f xs))"
  using assms by (induction xs) fastforce+

lemma length_filter_concat_one:
  assumes "distinct xs" "x \<in> set xs" "\<And>y z. y \<in> set xs \<Longrightarrow> z \<in> set (f y) \<Longrightarrow> P z \<longleftrightarrow> y = x"
  shows "length (filter P (concat (map f xs))) = length (f x)"
  using assms
proof (induction xs)
  case (Cons a xs)
  have rest: "x \<notin> set xs \<Longrightarrow> filter P (concat (map f xs)) = []"
    using Cons.prems(3) by (auto simp: filter_empty_conv)
  show ?case
  proof (cases "a = x")
    case True
    hence "filter P (f a) = f a" using Cons.prems(3) by (auto simp: filter_id_conv)
    thus ?thesis using True rest Cons.prems(1) by simp
  next
    case False
    hence "filter P (f a) = []" using Cons.prems(3) by (auto simp: filter_empty_conv)
    thus ?thesis using False Cons by simp
  qed
qed simp

text \<open>The dependency rows of a flow, when its refs are distinct, its dependencies among them and its
  keys pairwise different.\<close>

abbreviation send_key :: "(str \<times> uuid) list \<Rightarrow> flow_send \<Rightarrow> str \<times> uuid" where
  "send_key ids j \<equiv> (fj_name j, ref_id ids (fj_ref j))"

definition flow_refs :: "(str \<times> uuid) list \<Rightarrow> flow_send list \<Rightarrow> bool" where
  "flow_refs ids jobs = (distinct (map fj_ref jobs) \<and> inj_on (send_key ids) (set jobs) \<and>
     (\<forall>j\<in>set jobs. set (fj_depends_on j) \<subseteq> fj_ref ` set jobs))"

definition dep_rows_of :: "(str \<times> uuid) list \<Rightarrow> flow_send list \<Rightarrow> flow_send \<Rightarrow> dependency list" where
  "dep_rows_of ids jobs j = map (\<lambda>d. \<lparr>child_name = fj_name j, child_id = ref_id ids (fj_ref j),
      parent_name = refToName jobs d, parent_id = ref_id ids d\<rparr>) (uniq (fj_depends_on j))"

lemma depRows_concat: "depRows ids jobs = concat (map (dep_rows_of ids jobs) jobs)"
  by (simp add: depRows_def dep_rows_of_def [abs_def])

lemma dep_rows_child:
  "d \<in> set (dep_rows_of ids jobs j) \<Longrightarrow> dep_child d = send_key ids j"
  by (auto simp: dep_rows_of_def dep_child_def)

lemma dep_rows_parent:
  assumes "flow_refs ids jobs" "j \<in> set jobs" "d \<in> set (dep_rows_of ids jobs j)"
  shows "\<exists>p\<in>set jobs. fj_ref p \<in> set (fj_depends_on j) \<and> dep_parent d = send_key ids p"
proof -
  obtain x where x: "x \<in> set (fj_depends_on j)" and d: "dep_parent d = (refToName jobs x, ref_id ids x)"
    using assms(3) by (auto simp: dep_rows_of_def dep_parent_def)
  then obtain p where p: "p \<in> set jobs" "x = fj_ref p" using assms(1,2) by (auto simp: flow_refs_def)
  hence "refToName jobs x = fj_name p" using assms(1) refToName_job by (simp add: flow_refs_def)
  thus ?thesis using p x d by (intro bexI [of _ p]) auto
qed

lemma depRows_shape:
  assumes "flow_refs ids jobs" "d \<in> set (depRows ids jobs)"
  obtains j p where "j \<in> set jobs" "p \<in> set jobs" "fj_ref p \<in> set (fj_depends_on j)"
    "dep_child d = send_key ids j" "dep_parent d = send_key ids p"
proof -
  obtain j where j: "j \<in> set jobs" "d \<in> set (dep_rows_of ids jobs j)"
    using assms(2) by (auto simp: depRows_concat)
  show thesis using that dep_rows_parent [OF assms(1) j] dep_rows_child [OF j(2)] j(1) by blast
qed

lemma depRows_count:
  assumes "flow_refs ids jobs" "j \<in> set jobs"
  shows "length (filter (\<lambda>d. dep_child d = send_key ids j) (depRows ids jobs)) =
    length (uniq (fj_depends_on j))"
proof -
  have "dep_child d = send_key ids j \<longleftrightarrow> i = j"
    if "i \<in> set jobs" "d \<in> set (dep_rows_of ids jobs i)" for i d
    using dep_rows_child [OF that(2)] assms that(1) unfolding flow_refs_def inj_on_def by metis
  moreover have "distinct jobs" using assms(1) by (simp add: flow_refs_def distinct_map)
  ultimately show ?thesis unfolding depRows_concat
    using length_filter_concat_one [of jobs j "dep_rows_of ids jobs" "\<lambda>d. dep_child d = send_key ids j"]
      assms(2) by (simp add: dep_rows_of_def)
qed

lemma depRows_distinct:
  assumes "flow_refs ids jobs"
  shows "distinct (depRows ids jobs)"
  unfolding depRows_concat
proof (rule distinct_concat_map)
  show "distinct jobs" using assms by (simp add: flow_refs_def distinct_map)
  fix i assume i: "i \<in> set jobs"
  have "inj_on (\<lambda>d. (refToName jobs d, ref_id ids d)) (fj_ref ` set jobs)"
  proof (rule inj_onI)
    fix x y assume "x \<in> fj_ref ` set jobs" "y \<in> fj_ref ` set jobs"
      and eq: "(refToName jobs x, ref_id ids x) = (refToName jobs y, ref_id ids y)"
    then obtain p q where pq: "p \<in> set jobs" "x = fj_ref p" "q \<in> set jobs" "y = fj_ref q" by blast
    hence "send_key ids p = send_key ids q"
      using eq assms refToName_job [of jobs] by (auto simp: flow_refs_def)
    thus "x = y" using assms pq by (auto simp: flow_refs_def dest: inj_onD)
  qed
  hence "inj_on (\<lambda>d. (refToName jobs d, ref_id ids d)) (set (fj_depends_on i))"
    by (rule inj_on_subset) (use assms i in \<open>auto simp: flow_refs_def\<close>)
  thus "distinct (dep_rows_of ids jobs i)"
    by (auto simp: dep_rows_of_def distinct_map inj_on_def)
next
  fix i j assume ij: "i \<in> set jobs" "j \<in> set jobs" "i \<noteq> j"
  hence "send_key ids i \<noteq> send_key ids j" using assms unfolding flow_refs_def inj_on_def by blast
  thus "set (dep_rows_of ids jobs i) \<inter> set (dep_rows_of ids jobs j) = {}"
    using dep_rows_child by (metis disjoint_iff)
qed

text \<open>The accounting after the rows and their dependencies are in.\<close>

lemma sent_flow_ok:
  assumes ok: "flow_ok t deps" and refs: "flow_refs ids jobs" and ok': "table_ok (t @ rows)"
    and jr: "\<And>j. j \<in> set jobs \<Longrightarrow> \<exists>r\<in>set rows. flow_row ids (parentRefs jobs) j r"
    and rj: "\<And>r. r \<in> set rows \<Longrightarrow> \<exists>j\<in>set jobs. flow_row ids (parentRefs jobs) j r"
    and fresh: "\<forall>j\<in>set jobs. \<forall>d\<in>set deps. send_key ids j \<notin> {dep_child d, dep_parent d}"
  shows "flow_ok (t @ rows) (deps @ depRows ids jobs)"
proof -
  let ?t = "t @ rows" and ?d = "deps @ depRows ids jobs"
  have new_open: "open_parent ?t (send_key ids p)"
    if "p \<in> set jobs" "fj_ref p \<in> set (fj_depends_on j)" "j \<in> set jobs" for p j
    using jr [OF that(1)] that(2,3) by (auto simp: open_parent_def list_ex_iff flow_row_def parentRefs_def)
  have old_open: "open_parent ?t (dep_parent d) = open_parent t (dep_parent d)" if "d \<in> set deps" for d
  proof -
    have "job_key r \<noteq> dep_parent d" if "r \<in> set rows" for r
      using rj [OF that] fresh \<open>d \<in> set deps\<close> by (fastforce simp: flow_row_def)
    thus ?thesis by (auto simp: open_parent_def list_ex_iff)
  qed
  have "open_parent ?t (dep_parent d)" if "d \<in> set (depRows ids jobs)" for d
    using depRows_shape [OF refs that] new_open by metis
  hence cnt: "open_parents ?t ?d c = open_parents t deps c +
      length (filter (\<lambda>d. dep_child d = c) (depRows ids jobs))" for c
    using old_open by (simp add: open_parents_def cong: filter_cong)
  have "pending_dependencies r = int (open_parents ?t ?d (job_key r))"
    if "j \<in> set jobs" "flow_row ids (parentRefs jobs) j r" for j r
  proof -
    have k: "job_key r = send_key ids j" using that by (simp add: flow_row_def)
    have "open_parents t deps (send_key ids j) = 0"
      using fresh that(1) by (fastforce simp: open_parents_def filter_empty_conv)
    thus ?thesis using that(2) depRows_count [OF refs that(1)] unfolding k cnt by (simp add: flow_row_def)
  qed
  moreover have "open_parents ?t ?d (job_key x) = open_parents t deps (job_key x)" if x: "x \<in> set t" for x
  proof -
    have "dep_child d \<noteq> job_key x" if d: "d \<in> set (depRows ids jobs)" for d
    proof -
      obtain j where "j \<in> set jobs" "dep_child d = send_key ids j"
        using depRows_shape [OF refs d] by metis
      then obtain r where "r \<in> set rows" "job_key r = dep_child d" using jr by (metis flow_row_def)
      moreover have "job_key ` set t \<inter> job_key ` set rows = {}"
        using table_ok_distinct [OF ok'] by simp
      ultimately show ?thesis using x by (metis disjoint_iff imageI)
    qed
    thus ?thesis unfolding cnt by (simp add: filter_empty_conv)
  qed
  ultimately show ?thesis using ok rj unfolding flow_ok_def
    by (fastforce simp: flow_row_def)
qed

text \<open>(C9) An accepted flow starts out consistent.  It appends one row per job and one dependency row
  per edge; a job is blocked exactly when it depends on another, it counts its distinct parents, it
  blocks exactly when another depends on it; and the accounting the resolver relies on holds after
  the send.  The flow is acyclic, so some job of it can run.\<close>

theorem flow_sends_consistent:
  assumes "table_ok t" "flow_ok t deps"
    and "flow c nl qs trace now gen jobs t deps = Inr (t', deps', ns, ids)"
    and "\<forall>j\<in>set jobs. \<forall>d\<in>set deps.
      (fj_name j, ref_id ids (fj_ref j)) \<notin> {dep_child d, dep_parent d}"
  shows "table_ok t' \<and> flow_ok t' deps' \<and> deps' = deps @ depRows ids jobs \<and>
    acyclic (depends (map flow_job.truncate jobs)) \<and>
    (\<exists>rows. t' = t @ rows \<and> length rows = length jobs \<and>
       (\<forall>j\<in>set jobs. \<exists>r\<in>set rows. job_key r = (fj_name j, ref_id ids (fj_ref j)) \<and>
          state r = Created \<and> (blocked r \<longleftrightarrow> fj_depends_on j \<noteq> []) \<and>
          pending_dependencies r = int (card (set (fj_depends_on j))) \<and>
          (blocking r \<longleftrightarrow> (\<exists>i\<in>set jobs. fj_ref j \<in> set (fj_depends_on i)))))"
proof -
  obtain gs rows where wf: "flow_well_formed (map flow_job.truncate jobs)"
    and acyc: "acyclic (depends (map flow_job.truncate jobs))"
    and gs: "gs = group_by fj_name jobs" and t': "t' = t @ rows"
    and rows: "list_all2 (flow_row ids (parentRefs jobs)) (concat (map snd gs)) rows"
    and ok': "table_ok t'" and deps': "deps' = insertDependencies (depRows ids jobs) deps"
    using assms(3,1) by (elim flow_Inr) blast
  let ?J = "concat (map snd gs)"
  have J: "set ?J = set jobs" unfolding gs by (rule group_by_concat)
  have jr: "\<exists>r\<in>set rows. flow_row ids (parentRefs jobs) j r" if "j \<in> set jobs" for j
    using rows that J by (metis in_set_conv_nth list_all2_conv_all_nth)
  have rj: "\<exists>j\<in>set jobs. flow_row ids (parentRefs jobs) j r" if "r \<in> set rows" for r
    using rows that J by (metis in_set_conv_nth list_all2_conv_all_nth)
  have keys: "map job_key rows = map (send_key ids) ?J"
    using rows by (intro nth_equalityI) (auto simp: list_all2_conv_all_nth flow_row_def)
  hence dk: "distinct (map (send_key ids) ?J)" using table_ok_distinct [OF ok'] by (simp add: t' flip: keys)
  hence "inj_on (send_key ids) (set jobs)" unfolding J [symmetric] by (simp only: distinct_map)
  hence refs: "flow_refs ids jobs" using wf_truncate [OF wf] by (auto simp: flow_refs_def)
  have "set (depRows ids jobs) \<inter> set deps = {}"
    using depRows_shape [OF refs] assms(4) by (metis disjoint_iff insert_iff)
  hence deps_eq: "deps' = deps @ depRows ids jobs"
    unfolding deps' by (intro insertDependencies_fresh depRows_distinct [OF refs])
  have "flow_ok t' deps'"
    unfolding deps_eq t' by (rule sent_flow_ok [OF assms(2) refs ok' [unfolded t'] jr rj assms(4)])
  moreover have "distinct ?J" "distinct jobs"
    using dk refs by (simp_all only: distinct_map flow_refs_def)
  hence "length ?J = length jobs" using J by (metis distinct_card)
  hence "length rows = length jobs" using rows by (metis list_all2_lengthD)
  moreover have "int (length (uniq xs)) = int (card (set xs))" for xs :: "str list"
    using distinct_card [OF distinct_uniq, of xs] by simp
  hence "\<forall>j\<in>set jobs. \<exists>r\<in>set rows. job_key r = send_key ids j \<and>
          state r = Created \<and> (blocked r \<longleftrightarrow> fj_depends_on j \<noteq> []) \<and>
          pending_dependencies r = int (card (set (fj_depends_on j))) \<and>
          (blocking r \<longleftrightarrow> (\<exists>i\<in>set jobs. fj_ref j \<in> set (fj_depends_on i)))"
    using jr by (fastforce simp: flow_row_def parentRefs_def)
  ultimately show ?thesis using ok' deps_eq acyc t' by blast
qed

text \<open>(C11) A flow is accepted exactly when it has at least two jobs with distinct refs and valid
  queue names, depends only on its own refs, and is acyclic; a well-formed flow with a cycle, and no
  other, is refused with a cycle, and the refs it reports really are one: each depends on the one
  before, and the last is the first.\<close>

theorem flow_accepted_iff:
  "(validateFlowJobs jobs = Inr () \<longleftrightarrow> flow_well_formed jobs \<and> acyclic (depends jobs)) \<and>
   ((\<exists>c. validateFlowJobs jobs = Inl (DependencyCycle c)) \<longleftrightarrow>
     flow_well_formed jobs \<and> \<not> acyclic (depends jobs)) \<and>
   (\<nexists>c. validateFlowJobs jobs = Inl (DependencyCycle c) \<and> \<not> dependency_cycle jobs c)"
proof (intro conjI validateFlowJobs_iff flow_cycle_error(1))
  show "\<nexists>c. validateFlowJobs jobs = Inl (DependencyCycle c) \<and> \<not> dependency_cycle jobs c"
    using flow_cycle_error [of jobs] flow_cycle_reported [of jobs] by metis
qed

text \<open>(C10) The life of a job keeps the accounting of flows: a fetch, a completion (queued jobs
  included or not), a cancel, a touch, a resume, a retry, a restore and a failure by the single statement
  leave every blocked job counting exactly its open parents.  Deletes are not among them: deleting a
  completed parent that no pass has resolved strands its child, as \<^verbatim>\<open>deleted_parent_strands_child\<close> shows.\<close>

theorem flow_accounting_kept:
  assumes "table_ok t" "flow_ok t deps"
  shows "(\<forall>t' rs. fetchNextJob opt b l now t = Inr (t', rs) \<longrightarrow> flow_ok t' deps) \<and>
    (\<forall>t' r. complete d h n items out q now t = Inr (t', r) \<longrightarrow> flow_ok t' deps) \<and>
    (\<forall>t' r. cancel h n items now t = Inr (t', r) \<longrightarrow> flow_ok t' deps) \<and>
    (\<forall>t' r. touch n items now t = Inr (t', r) \<longrightarrow> flow_ok t' deps) \<and>
    (\<forall>t' qs' r. resume e n ids now t qs = Inr (t', qs', r) \<longrightarrow> flow_ok t' deps) \<and>
    (\<forall>t' r. retry n ids now t = Inr (t', r) \<longrightarrow> flow_ok t' deps) \<and>
    (\<forall>t'. restore n ids t = Inr t' \<longrightarrow> flow_ok t' deps) \<and>
    (\<forall>t' r. fail False h qs new_id n items out now rnd t = Inr (t', r) \<longrightarrow> flow_ok t' deps)"
proof (intro conjI allI impI)
  fix t' rs assume "fetchNextJob opt b l now t = Inr (t', rs)"
  thus "flow_ok t' deps" by (rule fetch_keeps_flow [OF assms])
next
  fix t' r assume run: "complete d h n items out q now t = Inr (t', r)"
  then obtain ids fetched where arg: "mapAttemptArg items = Inr (ids, fetched)"
    by (auto simp: complete_def and_then_Inr_iff)
  show "flow_ok t' deps"
    using run flow_complete.keeps_flow [OF assms(2)] unfolding complete_eq [OF assms(1) arg] Let_def by auto
next
  fix t' r assume run: "cancel h n items now t = Inr (t', r)"
  then obtain ids fetched where arg: "mapAttemptArg items = Inr (ids, fetched)"
    by (auto simp: cancel_def and_then_Inr_iff)
  show "flow_ok t' deps"
    using run flow_cancel.keeps_flow [OF assms(2)] unfolding cancel_eq [OF assms(1) arg] Let_def by auto
next
  fix t' r assume run: "touch n items now t = Inr (t', r)"
  then obtain ids fetched where arg: "mapAttemptArg items = Inr (ids, fetched)"
    by (auto simp: touch_def and_then_Inr_iff)
  show "flow_ok t' deps"
    using run flow_touch.keeps_flow [OF assms(2)] unfolding touch_eq [OF assms(1) arg] Let_def by auto
next
  fix t' qs' r assume "resume e n ids now t qs = Inr (t', qs', r)"
  thus "flow_ok t' deps" using flow_resume.run_keeps_flow [OF assms(2)]
    by (auto simp: resume_def resumeJobs_def and_then_Inr_iff)
next
  fix t' r assume "retry n ids now t = Inr (t', r)"
  thus "flow_ok t' deps" using flow_retry.run_keeps_flow [OF assms(2)]
    by (auto simp: retry_def retryJobs_def and_then_Inr_iff)
next
  fix t' assume "restore n ids t = Inr t'"
  thus "flow_ok t' deps" using flow_restore.run_keeps_flow [OF assms(2)]
    by (auto simp: restore_def restoreJobs_def and_then_Inr_iff)
next
  fix t' r assume "fail False h qs new_id n items out now rnd t = Inr (t', r)"
  then obtain jds fetched rs where
    "failJobsBody qs new_id now rnd (fail_sel n jds (fence_of h jds fetched))
       (\<lambda>_. mapCompletionDataArg out) False t = Inr (t', rs)"
    by (rule fail_False_E)
  thus "flow_ok t' deps" by (rule fail_body_keeps_flow [OF _ fail_ids [OF assms(1)] assms(2)])
qed

text \<open>A completed parent that is deleted before a resolver pass has closed it strands its child:
  the deletion is accepted, no pass ever releases the child, and the child stays blocked with its
  count.  (The deletion does no dependency work, and the resolver only reads parents that stand.)\<close>

theorem deleted_parent_strands_child:
  assumes "table_ok t" "flow_ok t deps" "p \<in> set t" "j \<in> set t" "job_key p \<noteq> job_key j" "blocked j"
    and "\<forall>d\<in>set deps. dep_child d = job_key j \<longrightarrow> dep_parent d = job_key p"
    and "\<forall>i\<in>set t. job_name i \<in> q_name ` set qs"
    and "length (filter (\<lambda>j. blocking j \<and> state j = Completed) t) \<le> 100000"
  shows "\<exists>t1 qs1 r. deleteJob False (\<lambda>_. None) (job_name p) [PlainId (job_id p)] t qs = Inr (t1, qs1, r) \<and>
    (\<exists>t2. resolve_pass d s locked deps now qs t1 = Inr t2 \<and> j \<in> set t2)"
proof -
  let ?sel = "delete_sel (job_name p) [job_id p] None"
  define t1 where "t1 = filter (\<lambda>i. \<not> ?sel i) t"
  have arg: "mapAttemptArg [PlainId (job_id p)] = Inr ([job_id p], None)" by (simp add: mapAttemptArg_def)
  obtain qs1 r where del: "deleteJob False (\<lambda>_. None) (job_name p) [PlainId (job_id p)] t qs = Inr (t1, qs1, r)"
    using deleteJob_eq [OF arg, of False "\<lambda>_. None" "job_name p" t qs] by (auto simp: fence_of_def t1_def)
  have t1: "set t1 = {i \<in> set t. job_key i \<noteq> job_key p}"
    by (auto simp: t1_def delete_sel_def job_key_def attemptFence_def)
  have "length (filter (\<lambda>j. blocking j \<and> state j = Completed) t1) \<le>
      length (filter (\<lambda>j. blocking j \<and> state j = Completed) t)"
    unfolding t1_def filter_filter by (rule length_filter_mono) simp
  hence few: "length (filter (\<lambda>j. blocking j \<and> state j = Completed) t1) \<le> 100000"
    using assms(9) by (rule le_trans)
  have names: "\<forall>i\<in>set t1. job_name i \<in> q_name ` set qs" using assms(8) t1 by simp
  have ok1: "table_ok t1" unfolding t1_def by (rule table_ok_filter [OF assms(1)])
  obtain ks where run: "resolve_pass d s locked deps now qs t1 = Inr (map (audited now deps ks) t1)"
    and ks: "set ks = job_key ` {i \<in> set t1. blocking i \<and> state i = Completed \<and> \<not> locks_of d s locked (job_key i)}"
    using pass_audits [OF ok1 names few] by blast
  have "job_key p \<notin> set ks" unfolding ks t1 by auto
  hence "decremented deps ks (job_key j) = 0"
    using assms(7) by (auto simp: decremented_def filter_empty_conv)
  moreover have "job_key j \<notin> set ks"
  proof
    assume "job_key j \<in> set ks"
    then obtain i where "i \<in> set t" "job_key i = job_key j" "state i = Completed" unfolding ks t1 by auto
    moreover hence "i = j" using distinct_map_inj [OF table_ok_distinct [OF assms(1)]] assms(4) by blast
    ultimately show False using assms(2,4,6) by (auto simp: flow_ok_def)
  qed
  ultimately have "audited now deps ks j = j" by (simp add: audited_freed freed_def)
  moreover have "j \<in> set t1" using assms(4,5) t1 by auto
  ultimately have "j \<in> set (map (audited now deps ks) t1)" by (metis image_eqI list.set_map)
  thus ?thesis using del run by blast
qed

section \<open>Concrete flows\<close>

definition flow_parent :: job where
  "flow_parent = sample_job 1 ''q'' 5 \<lparr>state := Completed, blocking := True\<rparr>"

definition flow_child :: job where
  "flow_child = sample_job 2 ''q'' 6 \<lparr>blocked := True, pending_dependencies := 1\<rparr>"

definition flow_edge :: dependency where
  "flow_edge = \<lparr>child_name = ''q'', child_id = 2, parent_name = ''q'', parent_id = 1\<rparr>"

definition flow_queue :: queue where
  "flow_queue = queue_defaults ''q'' Standard ''job_common'' 0"

lemma flow_sample:
  "table_ok [flow_parent, flow_child]" "flow_ok [flow_parent, flow_child] [flow_edge]"
  "\<forall>j\<in>set [flow_parent, flow_child]. job_name j \<in> q_name ` set [flow_queue]"
  "length (filter (\<lambda>j. blocking j \<and> state j = Completed) [flow_parent, flow_child]) \<le> 100000"
  "\<forall>d\<in>set [flow_edge]. dep_child d = job_key flow_child \<longrightarrow> dep_parent d = job_key flow_parent"
  "job_key flow_parent \<noteq> job_key flow_child" "blocked flow_child" "job_key flow_parent = (''q'', 1)"
  by (simp_all add: flow_parent_def flow_child_def flow_edge_def flow_queue_def eval_defs
      queue_defaults_def flow_ok_def open_parents_def open_parent_def dep_child_def dep_parent_def job_key_def)

lemma resolve_distributed_equiv_witness:
  "resolveFlowJobsDistributed [''q''] False (\<lambda>_. False) [flow_edge] 9 [flow_parent, flow_child] =
   resolveFlowJobs [''q''] (\<lambda>_. False) [flow_edge] 9 [flow_parent, flow_child]"
  by (rule resolve_distributed_equiv [OF flow_sample(1)])

lemma resolve_pass_releases_witness:
  "\<exists>t'. resolve_pass False False (\<lambda>_. False) [flow_edge] 9 [flow_queue] [flow_parent, flow_child] = Inr t' \<and>
    flow_ok t' [flow_edge] \<and> \<not> open_parent t' (''q'', 1)"
proof -
  have "\<not> (\<exists>p\<in>set [flow_parent, flow_child]. job_key p = (''q'', 1) \<and> blocking p \<and>
       (state p = Completed \<longrightarrow> locks_of False False (\<lambda>_. False) (''q'', 1)))"
    by (simp add: flow_parent_def flow_child_def locks_of_def eval_defs)
  thus ?thesis
    using resolve_pass_releases [OF flow_sample(1-4), of False False "\<lambda>_. False" 9] by blast
qed

lemma flow_accounting_kept_witness:
  "\<exists>t' r. cancel (\<lambda>_. None) ''q'' [PlainId 2] 9 [flow_parent, flow_child] = Inr (t', r) \<and>
    flow_ok t' [flow_edge]"
proof -
  have arg: "mapAttemptArg [PlainId 2] = Inr ([2], None)" by (simp add: mapAttemptArg_def)
  obtain t' r where run: "cancel (\<lambda>_. None) ''q'' [PlainId 2] 9 [flow_parent, flow_child] = Inr (t', r)"
    using cancel_eq [OF flow_sample(1) arg] by (auto simp: Let_def)
  thus ?thesis using flow_accounting_kept [OF flow_sample(1,2), THEN conjunct2, THEN conjunct2, THEN conjunct1]
    by blast
qed

lemma deleted_parent_strands_child_witness:
  "\<exists>t1 qs1 r. deleteJob False (\<lambda>_. None) ''q'' [PlainId 1] [flow_parent, flow_child] [flow_queue] = Inr (t1, qs1, r) \<and>
    (\<exists>t2. resolve_pass False False (\<lambda>_. False) [flow_edge] 9 [flow_queue] t1 = Inr t2 \<and> flow_child \<in> set t2)"
proof -
  have "flow_parent \<in> set [flow_parent, flow_child]" "flow_child \<in> set [flow_parent, flow_child]" by simp_all
  from deleted_parent_strands_child [OF flow_sample(1,2) this flow_sample(6,7,5,3,4)]
  show ?thesis using flow_sample(8) by (simp add: job_key_def)
qed

definition sample_flow :: "flow_send list" where
  "sample_flow = [\<lparr>fj_ref = ''a'', fj_name = ''q'', fj_depends_on = [], fs_input = empty_input\<rparr>,
     \<lparr>fj_ref = ''b'', fj_name = ''q'', fj_depends_on = [''a''], fs_input = empty_input\<rparr>]"

lemma sample_flow_valid: "validateFlowJobs (map flow_job.truncate sample_flow) = Inr ()"
  by (simp add: sample_flow_def flow_job.defs validateFlowJobs_def object_name_def word_char_def topological_order_def flow_graph_def
      add_edge_def children_def degree_def kahn.simps)

lemma sample_flow_ids: "refToId Suc sample_flow = [(''a'', 1), (''b'', 2)]"
  by (simp add: sample_flow_def refToId_def empty_input_def)

lemma sample_flow_runs:
  "\<exists>t' ns. flow sample_casts False [flow_queue] None 9 Suc sample_flow [] [] =
     Inr (t', [flow_edge], ns, [(''a'', 1), (''b'', 2)])"
  apply (simp add: flow_def sample_flow_valid sample_flow_ids Let_def)
  apply (simp add: sample_flow_def group_by_def add_to_group_def find_queue_def flow_queue_def
      queue_defaults_def parentRefs_def uniq_def flow_payload_def ref_id_def insertFlowJobs_def
      insertJobs_def plain_insert_def insert_row_def resolve_start_after_def sample_casts_def
      singleton_on_of_def empty_input_def)
  apply (simp add: run_insert_skip_def conflict_def index_defs key_check_def fkeys_ok_def skey_def
      job_key_def job_defaults_def depRows_def refToName_def uniq_def insertDependencies_def
      flow_edge_def ref_id_def)
  done

lemma flow_sends_consistent_witness:
  "\<exists>t' ns. flow sample_casts False [flow_queue] None 9 Suc sample_flow [] [] =
     Inr (t', [flow_edge], ns, [(''a'', 1), (''b'', 2)]) \<and> flow_ok t' [flow_edge] \<and> length t' = 2"
proof -
  obtain t' ns where run: "flow sample_casts False [flow_queue] None 9 Suc sample_flow [] [] =
     Inr (t', [flow_edge], ns, [(''a'', 1), (''b'', 2)])" using sample_flow_runs by blast
  have "table_ok []" "flow_ok [] []" by (simp_all add: flow_ok_def)
  from flow_sends_consistent [OF this run] have "flow_ok t' [flow_edge]" "length t' = length sample_flow"
    by auto
  thus ?thesis using run by (auto simp: sample_flow_def)
qed

end
