(* ===== verification/Claims.thy ===== *)
theory Claims
  imports Insert
begin

text \<open>
  Interval claims: the conditional updates of \<^verbatim>\<open>src/src/plans.ts\<close> that decide which instance of a
  deployment runs a pass (\<^verbatim>\<open>trySetTimestamp\<close> and its users on the \<^verbatim>\<open>version\<close> row, the queue claims
  of the monitor and of maintenance, the release, and the monitor backoff), and the timer that
  drives them (\<^verbatim>\<open>src/src/claimTimer.ts\<close>).

  The locale \<^verbatim>\<open>interval_claim\<close> is what every such claim promises: a win stamps the row, a loss
  leaves it, and a win is never early.  \<^verbatim>\<open>live_interval_claim\<close> adds that an attempt that is due
  wins.  Each claim of the code is an interpretation.  The clock is the server's, one reading per
  statement; \<^verbatim>\<open>seconds\<close> is an integer, as the configuration checks.
\<close>

section \<open>The claims\<close>

record version_row =
  vr_version :: int
  vr_cron_on :: "time option"
  vr_bam_on :: "time option"
  vr_flow_on :: "time option"
  vr_reindex_on :: "time option"
  vr_monitor_backoff_on :: "time option"

abbreviation week :: time where
  "week \<equiv> 7 * 24 * 60 * 60 * second"

text \<open>\<^verbatim>\<open>EXTRACT(EPOCH FROM (now - COALESCE(stamp, now - interval '1 week'))) >= seconds\<close>.\<close>

definition interval_due :: "int \<Rightarrow> time \<Rightarrow> time option \<Rightarrow> bool" where
  "interval_due seconds now stamp = (now - coalesce stamp (now - week) \<ge> seconds * second)"

text \<open>The update of one column of the row, and whether it returned a row.\<close>

definition trySetTimestamp :: "int \<Rightarrow> time \<Rightarrow> time option \<Rightarrow> time option \<times> bool" where
  "trySetTimestamp seconds now stamp =
     (if interval_due seconds now stamp then (Some now, True) else (stamp, False))"

definition trySetBamTime :: "int \<Rightarrow> time \<Rightarrow> version_row \<Rightarrow> version_row \<times> bool" where
  "trySetBamTime seconds now v = (let (s, won) = trySetTimestamp seconds now (vr_bam_on v)
     in (v\<lparr>vr_bam_on := s\<rparr>, won))"

definition trySetFlowTime :: "int \<Rightarrow> time \<Rightarrow> version_row \<Rightarrow> version_row \<times> bool" where
  "trySetFlowTime seconds now v = (let (s, won) = trySetTimestamp seconds now (vr_flow_on v)
     in (v\<lparr>vr_flow_on := s\<rparr>, won))"

definition trySetReindexTime :: "int \<Rightarrow> time \<Rightarrow> version_row \<Rightarrow> version_row \<times> bool" where
  "trySetReindexTime seconds now v = (let (s, won) = trySetTimestamp seconds now (vr_reindex_on v)
     in (v\<lparr>vr_reindex_on := s\<rparr>, won))"

text \<open>The cron claim answers with the stamp it found, its age in microseconds, and whether it won.\<close>

definition trySetCronTime ::
  "int \<Rightarrow> time \<Rightarrow> version_row \<Rightarrow> version_row \<times> time option \<times> int option \<times> bool" where
  "trySetCronTime seconds now v = (let prior = vr_cron_on v;
       (s, won) = trySetTimestamp seconds now prior
     in (v\<lparr>vr_cron_on := s\<rparr>, prior, map_option (\<lambda>p. now - p) prior, won))"

definition cron_claim :: "int \<Rightarrow> time \<Rightarrow> version_row \<Rightarrow> version_row \<times> bool" where
  "cron_claim seconds now v = (case trySetCronTime seconds now v of (v', _, _, won) \<Rightarrow> (v', won))"

text \<open>The queue claims: the rows of the named queues that are due, the ones another session holds
  skipped under \<^verbatim>\<open>SKIP LOCKED\<close> and waited for without it.\<close>

definition queueClaimSkipLocked :: "str option \<Rightarrow> bool \<Rightarrow> bool" where
  "queueClaimSkipLocked backend noSkipLocked = (backend = Some ''postgres'' \<and> \<not> noSkipLocked)"

definition row_free :: "bool \<Rightarrow> (str \<Rightarrow> bool) \<Rightarrow> queue \<Rightarrow> bool" where
  "row_free skipLocked held q = (skipLocked \<longrightarrow> \<not> held (q_name q))"

definition maintain_sel :: "str list \<Rightarrow> int \<Rightarrow> bool \<Rightarrow> (str \<Rightarrow> bool) \<Rightarrow> time \<Rightarrow> queue \<Rightarrow> bool" where
  "maintain_sel names seconds skipLocked held now q = (q_name q \<in> set names \<and>
     interval_due seconds now (q_maintain_on q) \<and> row_free skipLocked held q)"

definition trySetQueueDeletionTime ::
  "str list \<Rightarrow> int \<Rightarrow> bool \<Rightarrow> (str \<Rightarrow> bool) \<Rightarrow> time \<Rightarrow> queue list \<Rightarrow> queue list \<times> (str \<times> time) list" where
  "trySetQueueDeletionTime names seconds skipLocked held now qs = (
     let sel = maintain_sel names seconds skipLocked held now in
     (upd_where sel (\<lambda>q. q\<lparr>q_maintain_on := Some now\<rparr>) qs,
      map (\<lambda>q. (q_name q, now)) (filter sel qs)))"

definition releaseQueueDeletionTime ::
  "str list \<Rightarrow> time \<Rightarrow> bool \<Rightarrow> (str \<Rightarrow> bool) \<Rightarrow> queue list \<Rightarrow> queue list" where
  "releaseQueueDeletionTime names claimedOn skipLocked held qs = upd_where
     (\<lambda>q. q_name q \<in> set names \<and> q_maintain_on q = Some claimedOn \<and> row_free skipLocked held q)
     (\<lambda>q. q\<lparr>q_maintain_on := None\<rparr>) qs"

definition monitor_stamp :: "queue \<Rightarrow> time option" where
  "monitor_stamp q = coalesce_opt (q_monitor_claim_on q) (q_monitor_on q)"

definition monitor_sel :: "str list \<Rightarrow> int \<Rightarrow> bool \<Rightarrow> (str \<Rightarrow> bool) \<Rightarrow> time \<Rightarrow> queue \<Rightarrow> bool" where
  "monitor_sel names seconds skipLocked held now q = (q_name q \<in> set names \<and>
     interval_due seconds now (monitor_stamp q) \<and> row_free skipLocked held q)"

text \<open>The result's flag says whether the stats aggregate may run; it does not gate the claim.\<close>

definition trySetQueueMonitorTime ::
  "str list \<Rightarrow> int \<Rightarrow> bool \<Rightarrow> (str \<Rightarrow> bool) \<Rightarrow> time \<Rightarrow> version_row \<Rightarrow> queue list \<Rightarrow>
   queue list \<times> (str \<times> bool) list" where
  "trySetQueueMonitorTime names seconds skipLocked held now v qs = (
     let sel = monitor_sel names seconds skipLocked held now;
         refresh = (case vr_monitor_backoff_on v of None \<Rightarrow> True | Some b \<Rightarrow> \<not> b > now)
     in (upd_where sel (\<lambda>q. q\<lparr>q_monitor_claim_on := Some now\<rparr>) qs,
         map (\<lambda>q. (q_name q, refresh)) (filter sel qs)))"

text \<open>The backoff after a stats aggregate of \<^verbatim>\<open>elapsed\<close> microseconds, on a server whose
  \<^verbatim>\<open>autovacuum_naptime\<close> is \<^verbatim>\<open>naptime\<close> microseconds: the pin budget is a tenth of it.  The second
  result is the time left, when the backoff engaged.\<close>

definition MONITOR_BACKOFF_MAX_SECONDS :: int where
  "MONITOR_BACKOFF_MAX_SECONDS = 600"

definition MONITOR_BACKOFF_CAP_SECONDS :: int where
  "MONITOR_BACKOFF_CAP_SECONDS = 3600"

definition setMonitorBackoff :: "int \<Rightarrow> int \<Rightarrow> time \<Rightarrow> version_row \<Rightarrow> version_row \<times> int option" where
  "setMonitorBackoff elapsed naptime now v = (
     let backoff = min (max (2 * naptime) (min elapsed (MONITOR_BACKOFF_MAX_SECONDS * second)))
                       (MONITOR_BACKOFF_CAP_SECONDS * second)
     in if 10 * elapsed > naptime
        then let until = max (coalesce (vr_monitor_backoff_on v) now) (now + backoff)
             in (v\<lparr>vr_monitor_backoff_on := Some until\<rparr>, Some (until - now))
        else (v, None))"

section \<open>What a claim promises\<close>

text \<open>Attempts at given times, by whatever instances, and the times of those that won.\<close>

fun claim_run :: "(time \<Rightarrow> 's \<Rightarrow> 's \<times> bool) \<Rightarrow> time list \<Rightarrow> 's \<Rightarrow> time list \<times> 's" where
  "claim_run claim [] s = ([], s)"
| "claim_run claim (now # ts) s = (let (s', won) = claim now s; (ws, s'') = claim_run claim ts s'
     in (if won then now # ws else ws, s''))"

locale interval_claim =
  fixes claim :: "time \<Rightarrow> 's \<Rightarrow> 's \<times> bool"
    and stamp :: "'s \<Rightarrow> time option"
    and period :: int
  assumes win_stamps: "claim now s = (s', True) \<Longrightarrow> stamp s' = Some now"
    and loss_keeps: "claim now s = (s', False) \<Longrightarrow> stamp s' = stamp s"
    and not_early: "claim now s = (s', True) \<Longrightarrow> stamp s = Some x \<Longrightarrow> period \<le> now - x"
begin

lemma wins_spaced:
  assumes "claim_run claim ts s = (ws, s')"
  shows "successively (\<lambda>a b. period \<le> b - a) ws \<and>
    (\<forall>x w. stamp s = Some x \<and> ws \<noteq> [] \<and> w = hd ws \<longrightarrow> period \<le> w - x) \<and>
    stamp s' = (if ws = [] then stamp s else Some (last ws))"
  using assms
proof (induction ts arbitrary: s ws)
  case (Cons now ts)
  obtain s1 won where one: "claim now s = (s1, won)" by force
  obtain ws1 where rest: "claim_run claim ts s1 = (ws1, s')" and ws: "ws = (if won then now # ws1 else ws1)"
    using Cons.prems one by (auto split: prod.splits)
  note IH = Cons.IH [OF rest]
  show ?case
  proof (cases won)
    case True
    hence win: "claim now s = (s1, True)" using one by simp
    have "stamp s1 = Some now" "\<And>x. stamp s = Some x \<Longrightarrow> period \<le> now - x"
      using win_stamps [OF win] not_early [OF win] by simp_all
    thus ?thesis using True ws IH by (cases ws1) auto
  next
    case False
    hence "stamp s1 = stamp s" using one by (intro loss_keeps) simp
    thus ?thesis using False ws IH by simp
  qed
qed simp

end

locale live_interval_claim = interval_claim +
  assumes due_wins: "(\<forall>x. stamp s = Some x \<longrightarrow> period \<le> now - x) \<Longrightarrow> snd (claim now s)"
begin

text \<open>After an attempt the stamp is fresh: a pass has been claimed within the last period.\<close>

lemma attempt_covered:
  assumes "claim_run claim ts s = (ws, s')" "0 < period" "sorted ts" "now \<in> set ts"
    and "\<forall>x. stamp s = Some x \<longrightarrow> (\<forall>y\<in>set ts. x \<le> y)"
  shows "\<exists>w. (stamp s = Some w \<or> w \<in> set ws) \<and> w \<le> now \<and> now - w < period"
  using assms
proof (induction ts arbitrary: s ws)
  case (Cons a ts)
  obtain s1 won where one: "claim a s = (s1, won)" by force
  obtain ws1 where rest: "claim_run claim ts s1 = (ws1, s')" and ws: "ws = (if won then a # ws1 else ws1)"
    using Cons.prems(1) one by (auto split: prod.splits)
  have st: "stamp s1 = (if won then Some a else stamp s)"
    using one win_stamps loss_keeps by (cases won) auto
  show ?case
  proof (cases "now = a")
    case True
    show ?thesis
    proof (cases won)
      case False
      then obtain x where "stamp s = Some x" "\<not> period \<le> a - x" using due_wins [of s a] one by auto
      thus ?thesis using True Cons.prems(5) by (intro exI [of _ x]) auto
    qed (use True ws Cons.prems(2) in auto)
  next
    case False
    have "\<forall>x. stamp s1 = Some x \<longrightarrow> (\<forall>y\<in>set ts. x \<le> y)"
      using st Cons.prems(3,5) by (auto split: if_splits)
    then obtain w where w: "stamp s1 = Some w \<or> w \<in> set ws1" "w \<le> now" "now - w < period"
      using Cons.IH [OF rest Cons.prems(2)] Cons.prems(3,4) False by auto
    thus ?thesis using st ws by (auto split: if_splits)
  qed
qed simp

end

lemma trySetTimestamp_win:
  "trySetTimestamp k now s = (s', True) \<longleftrightarrow> interval_due k now s \<and> s' = Some now"
  "trySetTimestamp k now s = (s', False) \<longleftrightarrow> \<not> interval_due k now s \<and> s' = s"
  by (auto simp: trySetTimestamp_def)

interpretation flow_gate: interval_claim "trySetFlowTime k" vr_flow_on "k * second"
  by unfold_locales (auto simp: trySetFlowTime_def trySetTimestamp_def interval_due_def split: if_splits)

interpretation bam_gate: interval_claim "trySetBamTime k" vr_bam_on "k * second"
  by unfold_locales (auto simp: trySetBamTime_def trySetTimestamp_def interval_due_def split: if_splits)

interpretation reindex_gate: interval_claim "trySetReindexTime k" vr_reindex_on "k * second"
  by unfold_locales (auto simp: trySetReindexTime_def trySetTimestamp_def interval_due_def split: if_splits)

interpretation cron_gate: interval_claim "cron_claim k" vr_cron_on "k * second"
  by unfold_locales
    (auto simp: cron_claim_def trySetCronTime_def trySetTimestamp_def interval_due_def Let_def split: if_splits)

text \<open>On the row of one queue, the queue claims keep the same promise.\<close>

interpretation maintain_gate: interval_claim
  "\<lambda>now q. if maintain_sel names k sl held now q then (q\<lparr>q_maintain_on := Some now\<rparr>, True) else (q, False)"
  q_maintain_on "k * second"
  by unfold_locales (auto simp: maintain_sel_def interval_due_def split: if_splits)

interpretation monitor_gate: interval_claim
  "\<lambda>now q. if monitor_sel names k sl held now q then (q\<lparr>q_monitor_claim_on := Some now\<rparr>, True) else (q, False)"
  monitor_stamp "k * second"
  by unfold_locales (auto simp: monitor_sel_def monitor_stamp_def interval_due_def split: if_splits)

text \<open>An interval is at most a day (the configuration checks it), which is within the week a null stamp
  counts as, so a due attempt wins.\<close>

interpretation flow_live: live_interval_claim "trySetFlowTime (min k 604800)" vr_flow_on "min k 604800 * second"
  by unfold_locales
    (auto simp: trySetFlowTime_def trySetTimestamp_def interval_due_def coalesce_def split: option.splits)

interpretation cron_live: live_interval_claim "cron_claim (min k 604800)" vr_cron_on "min k 604800 * second"
  by unfold_locales
    (auto simp: cron_claim_def trySetCronTime_def trySetTimestamp_def interval_due_def Let_def coalesce_def
      split: option.splits)

text \<open>One pass per interval, across all instances.  Whatever instances attempt the flow or the
  cron claim and whenever, two passes are at least the interval apart; and when the attempts come in
  the server's time order, each finds a pass claimed within the interval before it, so none is
  skipped.\<close>

theorem claims_cadence:
  assumes "0 < k" "k \<le> 604800" "sorted ts" "now \<in> set ts"
    and "\<forall>x. vr_flow_on v = Some x \<longrightarrow> (\<forall>y\<in>set ts. x \<le> y)"
    and "\<forall>x. vr_cron_on v = Some x \<longrightarrow> (\<forall>y\<in>set ts. x \<le> y)"
    and "claim_run (trySetFlowTime k) ts v = (flows, v1)" "claim_run (cron_claim k) ts v = (crons, v2)"
  shows "successively (\<lambda>a b. k * second \<le> b - a) flows \<and>
    (\<exists>w. (vr_flow_on v = Some w \<or> w \<in> set flows) \<and> w \<le> now \<and> now - w < k * second) \<and>
    successively (\<lambda>a b. k * second \<le> b - a) crons \<and>
    (\<exists>w. (vr_cron_on v = Some w \<or> w \<in> set crons) \<and> w \<le> now \<and> now - w < k * second)"
proof (intro conjI)
  have m: "min k 604800 = k" using assms(2) by simp
  have k: "0 < min k 604800 * second" using assms(1) by simp
  show "successively (\<lambda>a b. k * second \<le> b - a) flows"
    using flow_gate.wins_spaced [OF assms(7)] by blast
  show "successively (\<lambda>a b. k * second \<le> b - a) crons"
    using cron_gate.wins_spaced [OF assms(8)] by blast
  show "\<exists>w. (vr_flow_on v = Some w \<or> w \<in> set flows) \<and> w \<le> now \<and> now - w < k * second"
    using flow_live.attempt_covered [of k ts v flows v1 now] assms k unfolding m by blast
  show "\<exists>w. (vr_cron_on v = Some w \<or> w \<in> set crons) \<and> w \<le> now \<and> now - w < k * second"
    using cron_live.attempt_covered [of k ts v crons v2 now] assms k unfolding m by blast
qed

definition fresh_version :: version_row where
  "fresh_version = \<lparr>vr_version = 40, vr_cron_on = None, vr_bam_on = None, vr_flow_on = None,
     vr_reindex_on = None, vr_monitor_backoff_on = None\<rparr>"

lemma claims_cadence_witness:
  "successively (\<lambda>a b. 5 * second \<le> b - a) [1 * second, 7 * second] \<and>
   (\<exists>w. w \<in> {1 * second, 7 * second} \<and> w \<le> 7 * second \<and> 7 * second - w < 5 * second)"
proof -
  let ?ts = "[1 * second, 2 * second, 7 * second]"
  obtain v1 where f: "claim_run (trySetFlowTime 5) ?ts fresh_version = ([1 * second, 7 * second], v1)"
    by (simp add: trySetFlowTime_def trySetTimestamp_def interval_due_def fresh_version_def Let_def)
  obtain v2 where c: "claim_run (cron_claim 5) ?ts fresh_version = ([1 * second, 7 * second], v2)"
    by (simp add: cron_claim_def trySetCronTime_def trySetTimestamp_def interval_due_def
        fresh_version_def Let_def)
  have pre: "0 < (5::int)" "(5::int) \<le> 604800" "sorted ?ts" "7 * second \<in> set ?ts"
    "\<forall>x. vr_flow_on fresh_version = Some x \<longrightarrow> (\<forall>y\<in>set ?ts. x \<le> y)"
    "\<forall>x. vr_cron_on fresh_version = Some x \<longrightarrow> (\<forall>y\<in>set ?ts. x \<le> y)"
    by (simp_all add: fresh_version_def)
  show ?thesis using claims_cadence [OF pre f c] by (auto simp: fresh_version_def)
qed

section \<open>The timer of a claim\<close>

text \<open>\<^verbatim>\<open>ClaimTimer\<close>: the handle is the instant the host's timer was set for, \<^verbatim>\<open>ct_running\<close> counts
  the callbacks in flight.  The host may fire a timer early; time is in milliseconds.\<close>

record claim_timer =
  ct_ms :: int
  ct_handle :: "int option"
  ct_due :: int
  ct_stopped :: bool
  ct_anchored :: bool
  ct_running :: nat

definition new_timer :: "int \<Rightarrow> claim_timer" where
  "new_timer seconds = \<lparr>ct_ms = seconds * 1000, ct_handle = None, ct_due = 0, ct_stopped = True,
     ct_anchored = False, ct_running = 0\<rparr>"

definition ct_disarm :: "claim_timer \<Rightarrow> claim_timer" where
  "ct_disarm t = t\<lparr>ct_handle := None\<rparr>"

definition ct_wait :: "int \<Rightarrow> int \<Rightarrow> claim_timer \<Rightarrow> claim_timer" where
  "ct_wait ms now t = t\<lparr>ct_handle := Some (now + ms)\<rparr>"

definition ct_arm :: "int \<Rightarrow> int \<Rightarrow> claim_timer \<Rightarrow> claim_timer" where
  "ct_arm ms now t = (if ct_stopped t then ct_disarm t
     else ct_wait ms now ((ct_disarm t)\<lparr>ct_due := now + ms\<rparr>))"

definition ct_start :: "int \<Rightarrow> claim_timer \<Rightarrow> claim_timer" where
  "ct_start now t = (if \<not> ct_stopped t then t else ct_arm (ct_ms t) now (t\<lparr>ct_stopped := False\<rparr>))"

definition ct_stop :: "claim_timer \<Rightarrow> claim_timer" where
  "ct_stop t = ct_disarm (t\<lparr>ct_stopped := True\<rparr>)"

definition ct_anchor :: "int option \<Rightarrow> int \<Rightarrow> claim_timer \<Rightarrow> claim_timer" where
  "ct_anchor ms now t = (if ct_stopped t then t
     else ct_arm (coalesce ms (ct_ms t)) now (t\<lparr>ct_anchored := True\<rparr>))"

definition ct_run :: "claim_timer \<Rightarrow> claim_timer" where
  "ct_run t = t\<lparr>ct_handle := None, ct_anchored := False, ct_running := ct_running t + 1\<rparr>"

text \<open>The callback of the host's timer.\<close>

definition ct_fire :: "int \<Rightarrow> claim_timer \<Rightarrow> claim_timer" where
  "ct_fire now t = (let remaining = ct_due t - now
     in if remaining > 0 then ct_wait remaining now t else ct_run t)"

text \<open>The end of a callback, whether it returned or threw.\<close>

definition ct_finish :: "int \<Rightarrow> claim_timer \<Rightarrow> claim_timer" where
  "ct_finish now t = (let t' = t\<lparr>ct_running := ct_running t - 1\<rparr>
     in if ct_anchored t then t' else ct_arm (ct_ms t) now t')"

inductive ct_next :: "claim_timer \<Rightarrow> claim_timer \<Rightarrow> bool" where
  starts: "ct_next t (ct_start now t)"
| stops: "ct_next t (ct_stop t)"
| anchors: "ct_running t > 0 \<Longrightarrow> ct_next t (ct_anchor ms now t)"
| fires: "ct_handle t = Some h \<Longrightarrow> ct_next t (ct_fire now t)"
| finishes: "ct_running t > 0 \<Longrightarrow> ct_next t (ct_finish now t)"

inductive_cases ct_next_E: "ct_next t t'"

lemmas timer_defs = ct_disarm_def ct_wait_def ct_arm_def ct_start_def ct_stop_def ct_anchor_def
  ct_run_def ct_fire_def ct_finish_def Let_def

definition timer_ok :: "claim_timer \<Rightarrow> bool" where
  "timer_ok t = ((ct_stopped t \<longrightarrow> ct_handle t = None) \<and>
     (\<not> ct_stopped t \<longrightarrow> ct_handle t \<noteq> None \<or> (ct_running t > 0 \<and> \<not> ct_anchored t)) \<and>
     (\<forall>h. ct_handle t = Some h \<longrightarrow> h = ct_due t))"

lemma timer_ok_step: "ct_next t t' \<Longrightarrow> timer_ok t \<Longrightarrow> timer_ok t'"
  by (erule ct_next_E) (auto simp: timer_ok_def timer_defs split: if_splits)

lemma timer_ok_reachable: "ct_next\<^sup>*\<^sup>* (new_timer k) t \<Longrightarrow> timer_ok t"
proof (induction rule: rtranclp_induct)
  case base
  show ?case by (simp add: timer_ok_def new_timer_def)
next
  case (step t t')
  thus ?case using timer_ok_step by blast
qed

text \<open>The chain of attempts never dies and never runs early.  In every state a started timer can
  reach, either the host's timer is set, for the instant the attempt is due, or a callback is in
  flight that will set it when it ends; a stopped timer has none set; and a timer that fires starts
  the callback only when the attempt is due.\<close>

theorem claim_timer_alive:
  assumes "ct_next\<^sup>*\<^sup>* (new_timer k) t"
  shows "(ct_stopped t \<longrightarrow> ct_handle t = None) \<and>
    (ct_stopped t \<or> ct_handle t = Some (ct_due t) \<or>
       (ct_running t > 0 \<and> (\<forall>now. ct_handle (ct_finish now t) = Some (now + ct_ms t)))) \<and>
    (\<forall>now. ct_running (ct_fire now t) > ct_running t \<longrightarrow> ct_due t \<le> now)"
proof -
  have "timer_ok t" using assms by (rule timer_ok_reachable)
  thus ?thesis by (auto simp: timer_ok_def timer_defs)
qed

lemma claim_timer_alive_witness:
  "ct_handle (ct_fire 990 (ct_start 0 (new_timer 1))) = Some 1000 \<and>
   ct_running (ct_fire 1000 (ct_start 0 (new_timer 1))) = 1 \<and>
   ct_handle (ct_finish 1700 (ct_fire 1000 (ct_start 0 (new_timer 1)))) = Some 2700"
proof -
  let ?t1 = "ct_start 0 (new_timer 1)" and ?t2 = "ct_fire 1000 (ct_start 0 (new_timer 1))"
  have h: "ct_handle ?t1 = Some 1000" by (simp add: timer_defs new_timer_def)
  have r: "ct_next\<^sup>*\<^sup>* (new_timer 1) ?t2"
    using starts [of "new_timer 1" 0] fires [OF h, of 1000] by (meson converse_rtranclp_into_rtranclp rtranclp.rtrancl_refl)
  have "ct_handle ?t2 = None" "\<not> ct_stopped ?t2" "ct_ms ?t2 = 1000" by (simp_all add: timer_defs new_timer_def)
  hence "ct_handle (ct_finish 1700 ?t2) = Some 2700" using claim_timer_alive [OF r] by auto
  moreover have "ct_handle (ct_fire 990 ?t1) = Some 1000" "ct_running ?t2 = 1"
    by (simp_all add: timer_defs new_timer_def)
  ultimately show ?thesis by blast
qed

end
