(* ===== verification/Walk.thy ===== *)
theory Walk
  imports Prelude "HOL-Library.Multiset"
begin

text \<open>
  Walking a queue's keys in batches, the shape of every bulk delete and cleanup of
  \<^verbatim>\<open>src/src/plans.ts\<close> (\<^verbatim>\<open>deleteJobsBatch\<close>, \<^verbatim>\<open>cleanupDependencies\<close>, \<^verbatim>\<open>walkBatchBound\<close>): the range
  of keys a batch covers, the cursor it hands to the next, and the two loops that drive it, the one of
  \<^verbatim>\<open>#deleteInBatches\<close> (\<^verbatim>\<open>src/src/manager.ts\<close>), which runs to its end, and \<^verbatim>\<open>#walk\<close>
  (\<^verbatim>\<open>src/src/boss.ts\<close>), which a stop may cut short.

  The locale \<^verbatim>\<open>batched_walk\<close> is the contract between a loop and its batch: a batch that returns
  a cursor leaves fewer keys past it.  Under it the loops end, and the walk of the rows a batch dooms
  is one delete of them all, each row visited once.
\<close>

section \<open>A batch\<close>

definition past :: "uuid option \<Rightarrow> uuid \<Rightarrow> bool" where
  "past after i = (case after of None \<Rightarrow> True | Some a \<Rightarrow> a < i)"

text \<open>The keys after the cursor, in order, and the batch's last, \<^verbatim>\<open>OFFSET size - 1 LIMIT 1\<close>.\<close>

definition walk_keys :: "uuid option \<Rightarrow> uuid list \<Rightarrow> uuid list" where
  "walk_keys after ids = sort (filter (past after) ids)"

definition walk_edge :: "nat \<Rightarrow> uuid list \<Rightarrow> uuid option" where
  "walk_edge bsize keys = (if bsize - 1 < length keys then Some (keys ! (bsize - 1)) else None)"

text \<open>\<^verbatim>\<open>walkBatchBound\<close>: a range up to the edge, or, on CockroachDB, the batch's own keys.\<close>

definition walkBatchBound :: "bool \<Rightarrow> nat \<Rightarrow> uuid list \<Rightarrow> uuid \<Rightarrow> bool" where
  "walkBatchBound cockroach bsize keys i = (if cockroach then i \<in> set (take bsize keys)
     else case walk_edge bsize keys of None \<Rightarrow> True | Some e \<Rightarrow> i \<le> e)"

text \<open>One batch over the rows \<^verbatim>\<open>mine\<close> selects, deleting the doomed ones of its range.  It returns the
  rows left, the cursor and the rows of the range.\<close>

definition walk_batch ::
  "('r \<Rightarrow> uuid) \<Rightarrow> ('r \<Rightarrow> bool) \<Rightarrow> ('r \<Rightarrow> bool) \<Rightarrow> nat \<Rightarrow> bool \<Rightarrow> uuid option \<Rightarrow> 'r list \<Rightarrow>
   'r list \<times> uuid option \<times> 'r list" where
  "walk_batch key mine doomed bsize cockroach after rows = (
     let keys = walk_keys after (map key (filter mine rows));
         range = (\<lambda>r. mine r \<and> past after (key r) \<and> walkBatchBound cockroach bsize keys (key r))
     in (filter (\<lambda>r. \<not> (range r \<and> doomed r)) rows, walk_edge bsize keys, filter range rows))"

section \<open>The loops\<close>

partial_function (option) walk_all ::
  "(uuid option \<Rightarrow> 's \<Rightarrow> 's \<times> uuid option \<times> 'c) \<Rightarrow> uuid option \<Rightarrow> 's \<Rightarrow> ('s \<times> 'c list) option" where
  "walk_all batch after s = (case batch after s of (s', cursor, c) \<Rightarrow>
     (case cursor of None \<Rightarrow> Some (s', [c])
      | Some k \<Rightarrow> Option.bind (walk_all batch (Some k) s') (\<lambda>(s'', cs). Some (s'', c # cs))))"

text \<open>\<^verbatim>\<open>#walk\<close>: a stop comes after at most \<^verbatim>\<open>n\<close> more batches.  The result says whether the walk reached
  its end, and what is left of the budget.\<close>

fun walk_until ::
  "(uuid option \<Rightarrow> 's \<Rightarrow> 's \<times> uuid option \<times> 'c) \<Rightarrow> nat \<Rightarrow> uuid option \<Rightarrow> 's \<Rightarrow> 's \<times> 'c list \<times> bool \<times> nat" where
  "walk_until batch 0 after s = (s, [], False, 0)"
| "walk_until batch (Suc n) after s = (case batch after s of (s', cursor, c) \<Rightarrow>
     (case cursor of None \<Rightarrow> (s', [c], True, n)
      | Some k \<Rightarrow> (case walk_until batch n (Some k) s' of (s'', cs, done, m) \<Rightarrow> (s'', c # cs, done, m))))"

section \<open>What a walk promises\<close>

locale batched_walk =
  fixes batch :: "uuid option \<Rightarrow> 's \<Rightarrow> 's \<times> uuid option \<times> 'c"
    and left :: "uuid option \<Rightarrow> 's \<Rightarrow> nat"
  assumes progress: "batch after s = (s', Some k, c) \<Longrightarrow> left (Some k) s' < left after s"
begin

text \<open>The loop ends, and the walk with a stop far enough away does the same.\<close>

lemma walk_ends: "\<exists>r. walk_all batch after s = Some r"
proof (induction "left after s" arbitrary: after s rule: less_induct)
  case less
  obtain s' cursor c where b: "batch after s = (s', cursor, c)" by (metis prod_cases3)
  show ?case
  proof (cases cursor)
    case None
    thus ?thesis using b by (simp add: walk_all.simps)
  next
    case (Some k)
    then obtain r where "walk_all batch (Some k) s' = Some r" using less progress b by blast
    thus ?thesis using b Some by (cases r) (simp add: walk_all.simps [of batch after s])
  qed
qed

lemma walk_until_all:
  assumes "walk_all batch after s = Some (s', cs)" "left after s < n"
  shows "\<exists>m. walk_until batch n after s = (s', cs, True, m) \<and> n \<le> m + left after s + 1"
  using assms
proof (induction n arbitrary: after s cs)
  case (Suc n)
  obtain s1 cursor c where b: "batch after s = (s1, cursor, c)" by (metis prod_cases3)
  show ?case
  proof (cases cursor)
    case None
    thus ?thesis using b Suc.prems by (simp add: walk_all.simps [of batch after s])
  next
    case (Some k)
    obtain s2 cs2 where rest: "walk_all batch (Some k) s1 = Some (s2, cs2)" using walk_ends by (metis surj_pair)
    have eq: "s2 = s'" "c # cs2 = cs"
      using Suc.prems(1) b Some rest by (simp_all add: walk_all.simps [of batch after s])
    have less: "left (Some k) s1 < left after s" using progress b Some by blast
    hence "left (Some k) s1 < n" using Suc.prems(2) by simp
    from Suc.IH [OF rest [unfolded eq(1)] this] obtain m where
      "walk_until batch n (Some k) s1 = (s', cs2, True, m)" "n \<le> m + left (Some k) s1 + 1" by blast
    thus ?thesis using b Some eq(2) less by auto
  qed
qed simp

text \<open>A batch that reports its result through \<^verbatim>\<open>f\<close> walks the same way.\<close>

lemma walk_all_map:
  assumes f: "\<And>a r. batch' a r = (case batch a r of (r', k, v) \<Rightarrow> (r', k, f v))"
  shows "walk_all batch' after s = map_option (\<lambda>(s', vs). (s', map f vs)) (walk_all batch after s)"
proof (induction "left after s" arbitrary: after s rule: less_induct)
  case less
  obtain s' cursor v where b: "batch after s = (s', cursor, v)" by (metis prod_cases3)
  show ?case
  proof (cases cursor)
    case None
    thus ?thesis using b f by (simp add: walk_all.simps)
  next
    case (Some k)
    have "walk_all batch' (Some k) s' = map_option (\<lambda>(s', vs). (s', map f vs)) (walk_all batch (Some k) s')"
      using less progress b Some by blast
    thus ?thesis using b f Some
      by (cases "walk_all batch (Some k) s'")
        (auto simp: walk_all.simps [of batch after s] walk_all.simps [of batch' after s])
  qed
qed

end

lemma walk_until_map:
  assumes f: "\<And>a r. batch' a r = (case batch a r of (r', k, v) \<Rightarrow> (r', k, f v))"
  shows "walk_until batch' n after s =
    (case walk_until batch n after s of (s', vs, done, m) \<Rightarrow> (s', map f vs, done, m))"
proof (induction n arbitrary: after s)
  case (Suc n)
  show ?case using f [of after s] Suc by (auto split: prod.splits option.splits)
qed simp

lemma walk_edge_mem: "walk_edge bsize keys = Some e \<Longrightarrow> e \<in> set keys"
  by (auto simp: walk_edge_def split: if_splits)

text \<open>Both forms of the bound cover the same keys.\<close>

lemma sorted_take_edge:
  assumes "sorted keys" "walk_edge bsize keys = Some e" "i \<in> set keys" "0 < bsize"
  shows "i \<in> set (take bsize keys) \<longleftrightarrow> i \<le> e"
proof -
  have n: "bsize - 1 < length keys" and e: "e = keys ! (bsize - 1)"
    using assms(2) by (auto simp: walk_edge_def split: if_splits)
  have tk: "take bsize keys = take (bsize - 1) keys @ [e]"
    using n e assms(4) take_Suc_conv_app_nth [OF n] by simp
  show ?thesis
  proof
    assume "i \<in> set (take bsize keys)"
    then obtain k where "k < length keys" "k \<le> bsize - 1" "i = keys ! k"
      by (auto simp: in_set_conv_nth)
    thus "i \<le> e" using sorted_nth_mono [OF assms(1)] n e by blast
  next
    assume le: "i \<le> e"
    obtain k where k: "k < length keys" "i = keys ! k" using assms(3) by (auto simp: in_set_conv_nth)
    show "i \<in> set (take bsize keys)"
    proof (cases "k < bsize")
      case True
      thus ?thesis using k by (auto simp: in_set_conv_nth)
    next
      case False
      hence "e \<le> i" using sorted_nth_mono [OF assms(1), of "bsize - 1" k] k e by auto
      hence "i = e" using le by simp
      thus ?thesis using tk by simp
    qed
  qed
qed

lemma walkBatchBound_backends:
  assumes "i \<in> set ids" "past after i" "0 < bsize"
  shows "walkBatchBound True bsize (walk_keys after ids) i = walkBatchBound False bsize (walk_keys after ids) i"
proof -
  have i: "i \<in> set (walk_keys after ids)" using assms by (simp add: walk_keys_def)
  have s: "sorted (walk_keys after ids)" by (simp add: walk_keys_def)
  show ?thesis
  proof (cases "walk_edge bsize (walk_keys after ids)")
    case None
    hence "length (walk_keys after ids) \<le> bsize" using assms(3) by (auto simp: walk_edge_def split: if_splits)
    thus ?thesis using None i by (simp add: walkBatchBound_def)
  next
    case (Some e)
    thus ?thesis using sorted_take_edge [OF s Some i assms(3)] by (simp add: walkBatchBound_def)
  qed
qed

lemma walk_batch_backends:
  assumes "0 < bsize"
  shows "walk_batch key mine doomed bsize True = walk_batch key mine doomed bsize False"
proof (intro ext)
  fix after rows
  let ?k = "walk_keys after (map key (filter mine rows))"
  have "mine r \<and> past after (key r) \<and> walkBatchBound True bsize ?k (key r) \<longleftrightarrow>
      mine r \<and> past after (key r) \<and> walkBatchBound False bsize ?k (key r)" if "r \<in> set rows" for r
    using walkBatchBound_backends [of "key r" "map key (filter mine rows)" after bsize] that assms by auto
  thus "walk_batch key mine doomed bsize True after rows = walk_batch key mine doomed bsize False after rows"
    by (simp add: walk_batch_def Let_def cong: filter_cong)
qed

definition walk_left :: "('r \<Rightarrow> uuid) \<Rightarrow> ('r \<Rightarrow> bool) \<Rightarrow> uuid option \<Rightarrow> 'r list \<Rightarrow> nat" where
  "walk_left key mine after rows = length (filter (\<lambda>r. mine r \<and> past after (key r)) rows)"

lemma walk_batch_edge:
  assumes "walk_batch key mine doomed bsize ck after rows = (rows', Some k, vs)"
  shows "\<exists>r\<in>set rows. mine r \<and> past after (key r) \<and> key r = k"
    "\<And>i. past (Some k) i \<Longrightarrow> past after i"
proof -
  have "walk_edge bsize (walk_keys after (map key (filter mine rows))) = Some k"
    using assms by (simp add: walk_batch_def Let_def)
  hence "k \<in> set (walk_keys after (map key (filter mine rows)))" by (rule walk_edge_mem)
  thus ex: "\<exists>r\<in>set rows. mine r \<and> past after (key r) \<and> key r = k" by (auto simp: walk_keys_def)
  thus "\<And>i. past (Some k) i \<Longrightarrow> past after i" by (auto simp: past_def split: option.splits)
qed

lemma length_filter_less:
  assumes "\<And>x. x \<in> set xs \<Longrightarrow> p x \<Longrightarrow> q x" "y \<in> set xs" "q y" "\<not> p y"
  shows "length (filter p xs) < length (filter q xs)"
  using assms
proof (induction xs)
  case (Cons a xs)
  have mono: "length (filter p xs) \<le> length (filter q xs)"
    using Cons.prems(1) by (intro length_filter_mono) auto
  show ?case
  proof (cases "y = a")
    case True
    thus ?thesis using Cons.prems mono by simp
  next
    case False
    hence "length (filter p xs) < length (filter q xs)" using Cons by auto
    thus ?thesis using Cons.prems(1) by auto
  qed
qed simp

interpretation row_walk: batched_walk "walk_batch key mine doomed bsize ck" "walk_left key mine"
proof
  fix after rows rows' k vs
  assume b: "walk_batch key mine doomed bsize ck after rows = (rows', Some k, vs)"
  have sub: "filter (\<lambda>r. mine r \<and> past (Some k) (key r)) rows' =
      filter (\<lambda>r. (mine r \<and> past (Some k) (key r)) \<and> r \<in> set rows') rows"
  proof -
    obtain P where "rows' = filter P rows" using b by (auto simp: walk_batch_def Let_def)
    thus ?thesis by (auto simp: conj_ac intro!: filter_cong)
  qed
  obtain r where r: "r \<in> set rows" "mine r" "past after (key r)" "key r = k"
    using walk_batch_edge(1) [OF b] by blast
  have "length (filter (\<lambda>r. (mine r \<and> past (Some k) (key r)) \<and> r \<in> set rows') rows) <
      length (filter (\<lambda>r. mine r \<and> past after (key r)) rows)"
    by (rule length_filter_less [OF _ r(1)]) (use r walk_batch_edge(2) [OF b] in \<open>auto simp: past_def\<close>)
  thus "walk_left key mine (Some k) rows' < walk_left key mine after rows"
    unfolding walk_left_def sub .
qed

text \<open>The walk is one delete of the doomed rows past the cursor, and visits each of the rows once.\<close>

lemma walk_all_rows:
  assumes "0 < bsize" "walk_all (walk_batch key mine doomed bsize ck) after rows = Some (rows', vs)"
  shows "rows' = filter (\<lambda>r. \<not> (mine r \<and> past after (key r) \<and> doomed r)) rows"
    "mset (concat vs) = mset (filter (\<lambda>r. mine r \<and> past after (key r)) rows)"
  using assms(2)
proof (induction "walk_left key mine after rows" arbitrary: after rows vs rule: less_induct)
  case less
  let ?B = "walk_batch key mine doomed bsize ck"
  let ?keys = "walk_keys after (map key (filter mine rows))"
  have ck: "?B = walk_batch key mine doomed bsize False"
    using walk_batch_backends [OF assms(1)] by (cases ck) simp_all
  obtain r1 cursor v where b: "?B after rows = (r1, cursor, v)" by (metis prod_cases3)
  have cur: "cursor = walk_edge bsize ?keys" using b by (simp add: walk_batch_def Let_def)
  let ?range = "\<lambda>r. mine r \<and> past after (key r) \<and> walkBatchBound False bsize ?keys (key r)"
  have r1: "r1 = filter (\<lambda>r. \<not> (?range r \<and> doomed r)) rows" and v: "v = filter ?range rows"
    using b unfolding ck walk_batch_def Let_def by (simp_all only: prod.inject)
  { case 1
    show ?case
    proof (cases cursor)
      case None
      hence "?range r \<longleftrightarrow> mine r \<and> past after (key r)" for r using cur by (simp add: walkBatchBound_def)
      thus ?thesis using 1 b None r1 by (simp add: walk_all.simps [of ?B after rows] conj_assoc)
    next
      case (Some k)
      hence e: "walk_edge bsize ?keys = Some k" using cur by simp
      note b = b [unfolded Some]
      obtain vs2 where rest: "walk_all ?B (Some k) r1 = Some (rows', vs2)"
        using 1 b by (auto simp: walk_all.simps [of ?B after rows] bind_eq_Some_conv)
      have "walk_left key mine (Some k) r1 < walk_left key mine after rows"
        using row_walk.progress b by blast
      from less(1) [OF this rest] have "rows' = filter (\<lambda>r. \<not> (mine r \<and> past (Some k) (key r) \<and> doomed r)) r1" .
      moreover have "(\<not> (?range r \<and> doomed r) \<and> \<not> (mine r \<and> past (Some k) (key r) \<and> doomed r)) =
          (\<not> (mine r \<and> past after (key r) \<and> doomed r))" for r
      proof -
        have "walkBatchBound False bsize ?keys (key r) \<longleftrightarrow> \<not> past (Some k) (key r)"
          by (auto simp: walkBatchBound_def e past_def)
        thus ?thesis using walk_batch_edge(2) [OF b] by blast
      qed
      ultimately show ?thesis unfolding r1 filter_filter by simp
    qed
  next
    case 2
    show ?case
    proof (cases cursor)
      case None
      hence "?range r \<longleftrightarrow> mine r \<and> past after (key r)" for r using cur by (simp add: walkBatchBound_def)
      thus ?thesis using 2 b None v by (auto simp: walk_all.simps [of ?B after rows])
    next
      case (Some k)
      hence e: "walk_edge bsize ?keys = Some k" using cur by simp
      note b = b [unfolded Some]
      obtain vs2 where rest: "walk_all ?B (Some k) r1 = Some (rows', vs2)" "vs = v # vs2"
        using 2 b by (auto simp: walk_all.simps [of ?B after rows] bind_eq_Some_conv)
      have "walk_left key mine (Some k) r1 < walk_left key mine after rows"
        using row_walk.progress b by blast
      from less(2) [OF this rest(1)]
      have "mset (concat vs2) = mset (filter (\<lambda>r. mine r \<and> past (Some k) (key r)) r1)" .
      also have "filter (\<lambda>r. mine r \<and> past (Some k) (key r)) r1 =
          filter (\<lambda>r. mine r \<and> past (Some k) (key r)) rows"
        unfolding r1 filter_filter
        by (intro filter_cong) (auto simp: walkBatchBound_def e past_def)
      finally have "mset (concat vs) = mset (filter ?range rows) +
          mset (filter (\<lambda>r. mine r \<and> past (Some k) (key r)) rows)" using rest(2) v by simp
      also have "\<dots> = mset (filter (\<lambda>r. mine r \<and> past after (key r)) rows)"
      proof -
        have "?range r \<longleftrightarrow> (mine r \<and> past after (key r)) \<and> key r \<le> k" for r
          by (simp add: walkBatchBound_def e)
        moreover have "mine r \<and> past (Some k) (key r) \<longleftrightarrow> (mine r \<and> past after (key r)) \<and> \<not> key r \<le> k" for r
          using walk_batch_edge(2) [OF b] by (auto simp: past_def)
        ultimately show ?thesis
          by (simp only: filter_filter [symmetric] mset_filter multiset_partition [symmetric])
      qed
      finally show ?thesis .
    qed }
qed

text \<open>A walk that reached its end did what the loop without a stop does.\<close>

lemma walk_until_done:
  "walk_until batch n after s = (s', cs, True, m) \<Longrightarrow> walk_all batch after s = Some (s', cs)"
proof (induction n arbitrary: after s cs)
  case (Suc n)
  thus ?case
    by (auto simp: walk_all.simps [of batch after s] split: prod.splits option.splits)
qed simp

lemma mset_filter_disj:
  "mset (filter P xs) + mset (filter (\<lambda>x. \<not> P x \<and> Q x) xs) = mset (filter (\<lambda>x. P x \<or> Q x) xs)"
  by (induction xs) auto

text \<open>A walk cut short removed some of the doomed rows, the ones of the batches it ran.\<close>

lemma walk_until_rows:
  assumes "walk_until (walk_batch key mine doomed bsize ck) n after rows = (rows', vs, done, m)"
  shows "\<exists>D. rows' = filter (\<lambda>r. \<not> D r) rows \<and> (\<forall>r. D r \<longrightarrow> mine r \<and> doomed r) \<and>
    mset (filter doomed (concat vs)) = mset (filter D rows)"
  using assms
proof (induction n arbitrary: after rows vs)
  case 0
  thus ?case by (intro exI [of _ "\<lambda>_. False"]) simp
next
  case (Suc n)
  let ?B = "walk_batch key mine doomed bsize ck"
  obtain r1 cursor v where b: "?B after rows = (r1, cursor, v)" by (metis prod_cases3)
  define range where "range = (\<lambda>r. mine r \<and> past after (key r) \<and>
    walkBatchBound ck bsize (walk_keys after (map key (filter mine rows))) (key r))"
  have r1: "r1 = filter (\<lambda>r. \<not> (range r \<and> doomed r)) rows" and v: "v = filter range rows"
    using b unfolding walk_batch_def Let_def range_def by (simp_all only: prod.inject)
  have rm: "\<And>r. range r \<Longrightarrow> mine r" by (simp add: range_def)
  show ?case
  proof (cases cursor)
    case None
    hence "rows' = r1" "vs = [v]" using Suc.prems b by simp_all
    thus ?thesis using r1 v rm
      by (intro exI [of _ "\<lambda>r. range r \<and> doomed r"]) (auto simp: conj_commute)
  next
    case (Some k)
    obtain vs2 where rest: "walk_until ?B n (Some k) r1 = (rows', vs2, done, m)" and vs: "vs = v # vs2"
      using Suc.prems b Some by (auto split: prod.splits)
    obtain D where D: "rows' = filter (\<lambda>r. \<not> D r) r1" "\<forall>r. D r \<longrightarrow> mine r \<and> doomed r"
      "mset (filter doomed (concat vs2)) = mset (filter D r1)"
      using Suc.IH [OF rest] by blast
    have "mset (filter doomed (concat vs)) =
        mset (filter (\<lambda>r. range r \<and> doomed r) rows) + mset (filter (\<lambda>r. \<not> (range r \<and> doomed r) \<and> D r) rows)"
      using D(3) by (simp add: vs v r1 conj_commute)
    also have "\<dots> = mset (filter (\<lambda>r. (range r \<and> doomed r) \<or> D r) rows)" by (rule mset_filter_disj)
    finally show ?thesis using D rm
      by (intro exI [of _ "\<lambda>r. (range r \<and> doomed r) \<or> D r"]) (auto simp: r1 conj_commute)
  qed
qed

end
