(* ===== verification/Queues.thy ===== *)
theory Queues
  imports Flow Walk Settle_Props
begin

text \<open>
  Queues: \<^verbatim>\<open>create_queue\<close> and \<^verbatim>\<open>delete_queue\<close>, the two SQL functions of \<^verbatim>\<open>src/src/plans.ts\<close>, the
  queue update, and the calls of \<^verbatim>\<open>src/src/manager.ts\<close> on them: \<^verbatim>\<open>createQueue()\<close>,
  \<^verbatim>\<open>updateQueue()\<close>, \<^verbatim>\<open>deleteQueue()\<close> and the bulk deletes, which walk a queue's keys in batches
  (theory \<^verbatim>\<open>Walk\<close>).

  The options are the JSON the statement reads, a missing key being \<^verbatim>\<open>None\<close>; their validation is
  \<^verbatim>\<open>Attorney\<close>'s.  The tables of partitioned queues are the rows of the one job table, and the hash
  that names one is a parameter.  \<^verbatim>\<open>deleteQueue()\<close>'s retries on busy locks are not modelled.
\<close>

section \<open>Creating and updating\<close>

record queue_options =
  qo_policy :: queue_policy
  qo_retry_limit :: "int option"
  qo_retry_delay :: "int option"
  qo_retry_backoff :: "bool option"
  qo_retry_delay_max :: "int option"
  qo_expire_in_seconds :: "int option"
  qo_retention_seconds :: "int option"
  qo_delete_after_seconds :: "int option"
  qo_warning_queue_size :: "int option"
  qo_dead_letter :: "str option"
  qo_partition :: "bool option"
  qo_heartbeat_seconds :: "int option"
  qo_notify :: "bool option"

datatype queue_error =
    QueueSql sql_error
  | QueueNotFound str
  | InvalidQueueName str
  | DeadLetterItself str
  | DeadLetterInUse str str
  | NothingToUpdate

text \<open>The constraints of the queue row: the dead letter queue exists and is another one.\<close>

definition queue_row_ok :: "queue list \<Rightarrow> queue \<Rightarrow> bool" where
  "queue_row_ok qs q = (case q_dead_letter q of None \<Rightarrow> True
     | Some d \<Rightarrow> d \<in> q_name ` set qs \<and> d \<noteq> q_name q)"

text \<open>The row \<^verbatim>\<open>create_queue\<close> inserts.  Without partitioning it has no \<^verbatim>\<open>notify\<close> column to fill, the
  partition is false and the table the base table.\<close>

definition create_queue_row :: "bool \<Rightarrow> (str \<Rightarrow> str) \<Rightarrow> time \<Rightarrow> str \<Rightarrow> queue_options \<Rightarrow> queue" where
  "create_queue_row noPartitioning table_hash now n opt = (
     let own = (qo_partition opt = Some True);
         table = (if noPartitioning then ''job''
                  else if own then CHR ''j'' # table_hash n else ''job_common'')
     in (queue_defaults n (qo_policy opt) table now)\<lparr>
       q_retry_limit := coalesce (qo_retry_limit opt) 2,
       q_retry_delay := coalesce (qo_retry_delay opt) 0,
       q_retry_backoff := coalesce (qo_retry_backoff opt) False,
       q_retry_delay_max := qo_retry_delay_max opt,
       q_expire_seconds := coalesce (qo_expire_in_seconds opt) (60 * 15),
       q_retention_seconds := coalesce (qo_retention_seconds opt) (60 * 60 * 24 * 14),
       q_deletion_seconds := coalesce (qo_delete_after_seconds opt) (60 * 60 * 24 * 7),
       q_warning_queued := coalesce (qo_warning_queue_size opt) 0,
       q_dead_letter := qo_dead_letter opt,
       q_partition := (if noPartitioning then False else coalesce (qo_partition opt) False),
       q_heartbeat_seconds := qo_heartbeat_seconds opt,
       q_notify := (if noPartitioning then False else coalesce (qo_notify opt) False)\<rparr>)"

definition create_queue ::
  "bool \<Rightarrow> (str \<Rightarrow> str) \<Rightarrow> time \<Rightarrow> str \<Rightarrow> queue_options \<Rightarrow> queue list \<Rightarrow> sql_error + queue list" where
  "create_queue noPartitioning table_hash now n opt qs = (
     let q = create_queue_row noPartitioning table_hash now n opt in
     if q_dead_letter q = Some n then Inl CheckViolation
     else if n \<in> q_name ` set qs then Inr qs
     else if queue_row_ok qs q then Inr (qs @ [q]) else Inl ForeignKeyViolation)"

definition assertQueueName :: "str \<Rightarrow> queue_error + unit" where
  "assertQueueName n = (if n \<noteq> [] \<and> object_name n then Inr () else Inl (InvalidQueueName n))"

definition lift_queue :: "sql_error + 'a \<Rightarrow> queue_error + 'a" where
  "lift_queue r = (case r of Inl e \<Rightarrow> Inl (QueueSql e) | Inr x \<Rightarrow> Inr x)"

definition getQueueCache :: "queue list \<Rightarrow> str \<Rightarrow> queue_error + queue" where
  "getQueueCache qs n = (case find_queue n qs of None \<Rightarrow> Inl (QueueNotFound n) | Some q \<Rightarrow> Inr q)"

definition createQueue ::
  "bool \<Rightarrow> (str \<Rightarrow> str) \<Rightarrow> time \<Rightarrow> str \<Rightarrow> queue_options \<Rightarrow> queue list \<Rightarrow> queue_error + queue list" where
  "createQueue noPartitioning table_hash now n opt qs =
     and_then (assertQueueName n) (\<lambda>_.
     and_then (case qo_dead_letter opt of None \<Rightarrow> Inr ()
         | Some d \<Rightarrow> if d = [] then Inr () else and_then (assertQueueName d) (\<lambda>_.
             if n = d then Inl (DeadLetterItself n) else and_then (getQueueCache qs d) (\<lambda>_. Inr ())))
       (\<lambda>_. lift_queue (create_queue noPartitioning table_hash now n opt qs)))"

text \<open>The keys present in an update's options; the ones that may be null are options of options.\<close>

record queue_update =
  qu_retry_limit :: "int option"
  qu_retry_delay :: "int option"
  qu_retry_backoff :: "bool option"
  qu_retry_delay_max :: "int option option"
  qu_expire_in_seconds :: "int option"
  qu_retention_seconds :: "int option"
  qu_delete_after_seconds :: "int option"
  qu_warning_queue_size :: "int option"
  qu_heartbeat_seconds :: "int option option"
  qu_notify :: "bool option"
  qu_dead_letter :: "str option option"

definition update_queue_row :: "queue_update \<Rightarrow> time \<Rightarrow> queue \<Rightarrow> queue" where
  "update_queue_row u now q = q\<lparr>
     q_retry_limit := coalesce (qu_retry_limit u) (q_retry_limit q),
     q_retry_delay := coalesce (qu_retry_delay u) (q_retry_delay q),
     q_retry_backoff := coalesce (qu_retry_backoff u) (q_retry_backoff q),
     q_retry_delay_max := coalesce (qu_retry_delay_max u) (q_retry_delay_max q),
     q_expire_seconds := coalesce (qu_expire_in_seconds u) (q_expire_seconds q),
     q_retention_seconds := coalesce (qu_retention_seconds u) (q_retention_seconds q),
     q_deletion_seconds := coalesce (qu_delete_after_seconds u) (q_deletion_seconds q),
     q_warning_queued := coalesce (qu_warning_queue_size u) (q_warning_queued q),
     q_heartbeat_seconds := coalesce (qu_heartbeat_seconds u) (q_heartbeat_seconds q),
     q_notify := coalesce (qu_notify u) (q_notify q),
     q_dead_letter := coalesce (qu_dead_letter u) (q_dead_letter q),
     q_updated_on := now\<rparr>"

definition update_queue :: "str \<Rightarrow> queue_update \<Rightarrow> time \<Rightarrow> queue list \<Rightarrow> sql_error + queue list" where
  "update_queue n u now qs = (let qs' = upd_where (\<lambda>q. q_name q = n) (update_queue_row u now) qs in
     if list_ex (\<lambda>q. q_dead_letter q = Some (q_name q)) qs' then Inl CheckViolation
     else if list_all (queue_row_ok qs') qs' then Inr qs' else Inl ForeignKeyViolation)"

definition no_update :: queue_update where
  "no_update = \<lparr>qu_retry_limit = None, qu_retry_delay = None, qu_retry_backoff = None,
     qu_retry_delay_max = None, qu_expire_in_seconds = None, qu_retention_seconds = None,
     qu_delete_after_seconds = None, qu_warning_queue_size = None, qu_heartbeat_seconds = None,
     qu_notify = None, qu_dead_letter = None\<rparr>"

definition updateQueue :: "str \<Rightarrow> queue_update \<Rightarrow> time \<Rightarrow> queue list \<Rightarrow> queue_error + queue list" where
  "updateQueue n u now qs = and_then (assertQueueName n) (\<lambda>_.
     if u = no_update then Inl NothingToUpdate
     else and_then (case qu_dead_letter u of Some (Some d) \<Rightarrow> and_then (assertQueueName d) (\<lambda>_.
             if n = d then Inl (DeadLetterItself n) else Inr ())
         | _ \<Rightarrow> Inr ()) (\<lambda>_. lift_queue (update_queue n u now qs)))"

section \<open>Bulk deletes\<close>

text \<open>\<^verbatim>\<open>deleteJobsBatch\<close>: the cursor, and how many jobs it deleted, how many of those
  \<^verbatim>\<open>retained_count\<close> held, and, with \<^verbatim>\<open>retainedBefore\<close>, how many completed and cancelled jobs that
  finished by then it left in its range.\<close>

record batch_counts =
  bc_deleted :: nat
  bc_deleted_retained :: nat
  bc_retained :: nat

definition finished_by :: "time option \<Rightarrow> job \<Rightarrow> bool" where
  "finished_by b j = (retained_state (state j) \<and> on_or_before (completed_on j) b)"

definition deleteJobsBatch ::
  "str \<Rightarrow> (job \<Rightarrow> bool) \<Rightarrow> nat \<Rightarrow> bool \<Rightarrow> time option \<Rightarrow> time option \<Rightarrow> uuid option \<Rightarrow> job list \<Rightarrow>
   job list \<times> uuid option \<times> batch_counts" where
  "deleteJobsBatch n predicate bsize cockroach retained_on retainedBefore after t = (
     let (t', cursor, range) = walk_batch job_id (\<lambda>j. job_name j = n) predicate bsize cockroach after t;
         removed = filter predicate range
     in (t', cursor, \<lparr>bc_deleted = length removed,
       bc_deleted_retained = length (filter (finished_by retained_on) removed),
       bc_retained = (case retainedBefore of None \<Rightarrow> 0
         | Some b \<Rightarrow> length (filter (finished_by (Some b)) range) -
                    length (filter (finished_by (Some b)) removed))\<rparr>))"

definition deleteInBatches ::
  "str \<Rightarrow> (job \<Rightarrow> bool) \<Rightarrow> nat \<Rightarrow> bool \<Rightarrow> job list \<Rightarrow> queue list \<Rightarrow> (job list \<times> queue list \<times> nat) option" where
  "deleteInBatches n predicate bsize cockroach t qs = Option.bind
     (walk_all (deleteJobsBatch n predicate bsize cockroach (retained_on_of n qs) None) None t) (\<lambda>(t', cs).
       let deleted = sum_list (map bc_deleted cs); retained = sum_list (map bc_deleted_retained cs)
       in Some (t', if deleted > 0 then reduceRetainedCount n retained deleted qs else qs, deleted))"

text \<open>The three bulk deletes.  A named queue that is not found is an error.\<close>

definition queue_delete ::
  "(job \<Rightarrow> bool) \<Rightarrow> str \<Rightarrow> nat \<Rightarrow> bool \<Rightarrow> job list \<Rightarrow> queue list \<Rightarrow>
   queue_error + (job list \<times> queue list \<times> nat) option" where
  "queue_delete predicate n bsize cockroach t qs = and_then (assertQueueName n) (\<lambda>_.
     and_then (getQueueCache qs n) (\<lambda>_. Inr (deleteInBatches n predicate bsize cockroach t qs)))"

definition deleteQueuedJobs ::
  "str \<Rightarrow> nat \<Rightarrow> bool \<Rightarrow> job list \<Rightarrow> queue list \<Rightarrow> queue_error + (job list \<times> queue list \<times> nat) option" where
  "deleteQueuedJobs = queue_delete (\<lambda>j. state j < Active)"

definition deleteStoredJobs ::
  "str \<Rightarrow> nat \<Rightarrow> bool \<Rightarrow> job list \<Rightarrow> queue list \<Rightarrow> queue_error + (job list \<times> queue list \<times> nat) option" where
  "deleteStoredJobs = queue_delete (\<lambda>j. state j > Active)"

definition DELTA_LAG_SECONDS :: int where
  "DELTA_LAG_SECONDS = 10"

definition zeroed_queue :: "time \<Rightarrow> queue \<Rightarrow> queue" where
  "zeroed_queue now q = q\<lparr>q_deferred_count := 0, q_blocked_count := 0, q_queued_count := 0,
     q_ready_count := 0, q_active_count := 0, q_failed_count := 0, q_total_count := 0,
     q_retained_count := Some 0, q_retained_on := Some (now - DELTA_LAG_SECONDS * second),
     q_singletons_active := None, q_monitor_on := Some now\<rparr>"

definition zeroQueueStats :: "str option \<Rightarrow> time \<Rightarrow> queue list \<Rightarrow> queue list" where
  "zeroQueueStats one now qs = upd_where
     (\<lambda>q. case one of None \<Rightarrow> True | Some n \<Rightarrow> q_name q = n) (zeroed_queue now) qs"

text \<open>A truncate of the base table, or of the table of one queue.\<close>

definition truncateTable :: "str option \<Rightarrow> queue list \<Rightarrow> job list \<Rightarrow> job list" where
  "truncateTable one qs t = (case one of None \<Rightarrow> []
     | Some n \<Rightarrow> filter (\<lambda>j. table_of qs (job_name j) \<noteq> table_of qs n) t)"

definition deleteAllJobs ::
  "str option \<Rightarrow> nat \<Rightarrow> bool \<Rightarrow> time \<Rightarrow> job list \<Rightarrow> queue list \<Rightarrow>
   queue_error + (job list \<times> queue list \<times> nat option) option" where
  "deleteAllJobs one bsize cockroach now t qs = (case one of
     None \<Rightarrow> Inr (Some (truncateTable None qs t, zeroQueueStats None now qs, None))
   | Some n \<Rightarrow> and_then (assertQueueName n) (\<lambda>_. and_then (getQueueCache qs n) (\<lambda>q.
       if q_partition q then Inr (Some (truncateTable (Some n) qs t, zeroQueueStats (Some n) now qs, None))
       else Inr (map_option (\<lambda>(t', qs', k). (t', qs', Some k))
                  (deleteInBatches n (\<lambda>_. True) bsize cockroach t qs)))))"

section \<open>Deleting a queue\<close>

text \<open>\<^verbatim>\<open>getDeadLetterReferrer\<close>: another queue that names it, or else a job of another queue.\<close>

definition getDeadLetterReferrer :: "str \<Rightarrow> job list \<Rightarrow> queue list \<Rightarrow> (str \<times> bool) option" where
  "getDeadLetterReferrer n t qs = (
     case List.find (\<lambda>q. q_dead_letter q = Some n \<and> q_name q \<noteq> n) qs of
       Some q \<Rightarrow> Some (q_name q, True)
     | None \<Rightarrow> map_option (\<lambda>j. (job_name j, False))
         (List.find (\<lambda>j. dead_letter j = Some n \<and> job_name j \<noteq> n) t))"

text \<open>The SQL function: the jobs, then the row, with the foreign keys that name it checked.\<close>

definition delete_queue :: "str \<Rightarrow> job list \<Rightarrow> queue list \<Rightarrow> sql_error + (job list \<times> queue list)" where
  "delete_queue n t qs = (
     let own = (case find_queue n qs of None \<Rightarrow> False | Some q \<Rightarrow> q_partition q);
         t' = (if own then truncateTable (Some n) qs t else filter (\<lambda>j. job_name j \<noteq> n) t);
         qs' = filter (\<lambda>q. q_name q \<noteq> n) qs
     in if list_ex (\<lambda>q. q_dead_letter q = Some n) qs' \<or>
           list_ex (\<lambda>j. job_name j = n \<or> dead_letter j = Some n) t'
        then Inl ForeignKeyViolation else Inr (t', qs'))"

definition deleteQueue ::
  "str \<Rightarrow> nat \<Rightarrow> bool \<Rightarrow> job list \<Rightarrow> queue list \<Rightarrow> queue_error + (job list \<times> queue list) option" where
  "deleteQueue n bsize cockroach t qs = and_then (assertQueueName n) (\<lambda>_.
     case find_queue n qs of None \<Rightarrow> Inr (Some (t, qs))
     | Some q \<Rightarrow> if q_partition q then and_then (lift_queue (delete_queue n t qs)) (\<lambda>r. Inr (Some r))
         else (case getDeadLetterReferrer n t qs of Some (r, _) \<Rightarrow> Inl (DeadLetterInUse n r)
           | None \<Rightarrow> (case deleteInBatches n (\<lambda>_. True) bsize cockroach t qs of None \<Rightarrow> Inr None
              | Some (t', qs', _) \<Rightarrow> and_then (lift_queue (delete_queue n t' qs')) (\<lambda>r. Inr (Some r)))))"

section \<open>What the bulk deletes promise\<close>

text \<open>The abstract delete: the queue's jobs the predicate matches go at once, the counts drop by what
  went.\<close>

definition bulk_delete ::
  "str \<Rightarrow> (job \<Rightarrow> bool) \<Rightarrow> job list \<Rightarrow> queue list \<Rightarrow> job list \<times> queue list \<times> nat" where
  "bulk_delete n P t qs = (let (t', rs) = run_delete (\<lambda>j. job_name j = n \<and> P j) t in
     (t', if rs = [] then qs
        else reduceRetainedCount n (length (filter (finished_by (retained_on_of n qs)) rs)) (length rs) qs,
      length rs))"

definition counts_of :: "(job \<Rightarrow> bool) \<Rightarrow> time option \<Rightarrow> time option \<Rightarrow> job list \<Rightarrow> batch_counts" where
  "counts_of P retained_on retainedBefore rows = (let removed = filter P rows in
     \<lparr>bc_deleted = length removed,
       bc_deleted_retained = length (filter (finished_by retained_on) removed),
       bc_retained = (case retainedBefore of None \<Rightarrow> 0
         | Some b \<Rightarrow> length (filter (finished_by (Some b)) rows) -
                    length (filter (finished_by (Some b)) removed))\<rparr>)"

lemma deleteJobsBatch_walk:
  "deleteJobsBatch n P bsize ck ro rb after t =
    (case walk_batch job_id (\<lambda>j. job_name j = n) P bsize ck after t of
       (t', k, rows) \<Rightarrow> (t', k, counts_of P ro rb rows))"
  by (simp add: deleteJobsBatch_def counts_of_def Let_def split: prod.splits)

lemma sum_length_filter: "sum_list (map (\<lambda>v. length (filter P v)) vs) = length (filter P (concat vs))"
  by (induction vs) auto

lemma length_filter_mset: "mset xs = mset ys \<Longrightarrow> length (filter P xs) = length (filter P ys)"
  by (metis mset_filter size_mset)

text \<open>The totals of a list of batches are the counts of all their rows together.\<close>

lemma counts_total:
  assumes "mset (concat vs) = mset rows"
  shows "sum_list (map bc_deleted (map (counts_of P ro rb) vs)) = length (filter P rows)"
    and "sum_list (map bc_deleted_retained (map (counts_of P ro rb) vs)) =
      length (filter (finished_by ro) (filter P rows))"
    and "sum_list (map bc_retained (map (counts_of P ro (Some b)) vs)) =
      length (filter (\<lambda>j. finished_by (Some b) j \<and> \<not> P j) rows)"
proof -
  have split: "length (filter Q v) - length (filter Q (filter P v)) = length (filter (\<lambda>j. Q j \<and> \<not> P j) v)"
    for Q and v :: "job list"
  proof -
    have "length (filter Q v) = length (filter Q (filter P v)) + length (filter (\<lambda>j. Q j \<and> \<not> P j) v)"
      by (induction v) auto
    thus ?thesis by simp
  qed
  show "sum_list (map bc_deleted (map (counts_of P ro rb) vs)) = length (filter P rows)"
    using sum_length_filter [of P vs] length_filter_mset [OF assms, of P]
    by (simp add: counts_of_def o_def Let_def)
  show "sum_list (map bc_deleted_retained (map (counts_of P ro rb) vs)) =
      length (filter (finished_by ro) (filter P rows))"
    using sum_length_filter [of "\<lambda>j. finished_by ro j \<and> P j" vs]
      length_filter_mset [OF assms, of "\<lambda>j. finished_by ro j \<and> P j"]
    by (simp add: counts_of_def o_def Let_def conj_commute)
  show "sum_list (map bc_retained (map (counts_of P ro (Some b)) vs)) =
      length (filter (\<lambda>j. finished_by (Some b) j \<and> \<not> P j) rows)"
    using sum_length_filter [of "\<lambda>j. finished_by (Some b) j \<and> \<not> P j" vs]
      length_filter_mset [OF assms, of "\<lambda>j. finished_by (Some b) j \<and> \<not> P j"]
    by (simp add: counts_of_def o_def Let_def split [simplified])
qed

lemma past_None [simp]: "past None i"
  by (simp add: past_def)

lemma deleteJobsBatch_all:
  assumes "0 < bsize"
  obtains vs where "walk_all (deleteJobsBatch n P bsize ck ro rb) None t =
      Some (filter (\<lambda>j. \<not> (job_name j = n \<and> P j)) t, map (counts_of P ro rb) vs)"
    "mset (concat vs) = mset (filter (\<lambda>j. job_name j = n) t)"
proof -
  let ?B = "walk_batch job_id (\<lambda>j. job_name j = n) P bsize ck"
  obtain t' vs where w: "walk_all ?B None t = Some (t', vs)" using row_walk.walk_ends by (metis surj_pair)
  show ?thesis
    using that [of vs] walk_all_rows [OF assms w]
      row_walk.walk_all_map [OF deleteJobsBatch_walk [of n P bsize ck ro rb]] w by simp
qed

lemma deleteInBatches_eq:
  assumes "0 < bsize"
  shows "deleteInBatches n P bsize ck t qs = Some (bulk_delete n P t qs)"
proof -
  obtain vs where w: "walk_all (deleteJobsBatch n P bsize ck (retained_on_of n qs) None) None t =
      Some (filter (\<lambda>j. \<not> (job_name j = n \<and> P j)) t, map (counts_of P (retained_on_of n qs) None) vs)"
    and m: "mset (concat vs) = mset (filter (\<lambda>j. job_name j = n) t)"
    using deleteJobsBatch_all [OF assms] by blast
  show ?thesis
    using counts_total(1,2) [OF m, of P "retained_on_of n qs" None]
    by (simp add: deleteInBatches_def w bulk_delete_def run_delete_def Let_def conj_commute)
qed

text \<open>It keeps the retained count of every queue exact.\<close>

lemma filter_other_same:
  assumes "\<And>j. j \<in> set t \<Longrightarrow> S j \<Longrightarrow> \<not> P j"
  shows "filter P (filter (\<lambda>j. \<not> S j) t) = filter P t"
  using assms by (auto intro!: filter_cong)

text \<open>Jobs of one queue that were deleted, however many batches that took, leave every count right.\<close>

lemma partial_exact:
  assumes d: "distinct (map q_name qs)" and ex: "\<forall>q\<in>set qs. retained_exact t q"
    and t': "t' = filter (\<lambda>j. \<not> D j) t" and D: "\<forall>j. D j \<longrightarrow> job_name j = n"
    and q': "q' \<in> set (if length (filter D t) > 0 then reduceRetainedCount n
        (length (filter (finished_by (retained_on_of n qs)) (filter D t))) (length (filter D t)) qs else qs)"
  shows "retained_exact t' q'"
proof (cases "filter D t = []")
  case True
  hence "t' = t" by (auto simp: t' filter_id_conv filter_empty_conv)
  thus ?thesis using q' True ex by simp
next
  case False
  let ?k = "length (filter (finished_by (retained_on_of n qs)) (filter D t))"
  show ?thesis
  proof (rule reduced_exact [OF d ex])
    show "q' \<in> set (reduceRetainedCount n ?k (length (filter D t)) qs)" using q' False by simp
  next
    fix q r assume "q \<in> set qs" "q_name q \<noteq> n"
    thus "length (filter (counted (q_name q) r) t') = length (filter (counted (q_name q) r) t)"
      using filter_other_same [of t D "counted (q_name q) r"] D by (auto simp: t' counted_def)
  next
    fix q r assume q: "q \<in> set qs" "q_name q = n" "q_retained_on q = Some r"
    have "?k = length (filter (counted n r) (filter D t))"
      using retained_on_of_queue [OF d q(1)] q D
      by (auto simp: counted_def finished_by_def intro!: arg_cong [where f = length] filter_cong)
    thus "length (filter (counted n r) t') + ?k = length (filter (counted n r) t)"
      using filter_filter_split [of "counted n r" D t] by (simp add: t')
  qed
qed

lemma bulk_delete_exact:
  assumes "distinct (map q_name qs)" "\<forall>q\<in>set qs. retained_exact t q"
    and run: "bulk_delete n P t qs = (t', qs', k)" and "q' \<in> set qs'"
  shows "retained_exact t' q'"
  by (rule partial_exact [OF assms(1,2), of _ "\<lambda>j. job_name j = n \<and> P j" n])
    (use run assms(4) in \<open>auto simp: bulk_delete_def run_delete_def Let_def\<close>)

lemma assertQueueName_ok: "object_name n \<Longrightarrow> assertQueueName n = Inr ()"
  by (simp add: assertQueueName_def object_name_def)

lemma find_queue_Some: "n \<in> q_name ` set qs \<Longrightarrow> \<exists>q. find_queue n qs = Some q \<and> q \<in> set qs \<and> q_name q = n"
  by (induction qs) (auto simp: find_queue_def)

text \<open>(C12) The bulk deletes are the abstract delete: walking the queue in batches of any size, on
  either kind of backend, ends, removes exactly the queue's matching jobs at whatever cursor they
  stand, returns how many, and takes them off the queue's counts, so the retained count of every
  queue stays exact.\<close>

theorem bulk_deletes_refine:
  assumes "0 < bsize" "object_name n" "distinct (map q_name qs)" "n \<in> q_name ` set qs"
    and "\<forall>q\<in>set qs. retained_exact t q"
  shows "deleteQueuedJobs n bsize ck t qs = Inr (Some (bulk_delete n (\<lambda>j. state j < Active) t qs)) \<and>
    deleteStoredJobs n bsize ck t qs = Inr (Some (bulk_delete n (\<lambda>j. state j > Active) t qs)) \<and>
    (case bulk_delete n P t qs of (t', qs', k) \<Rightarrow>
      t' = filter (\<lambda>j. \<not> (job_name j = n \<and> P j)) t \<and> k + length t' = length t \<and>
      list_all (retained_exact t') qs')"
proof -
  obtain q where q: "find_queue n qs = Some q" using find_queue_Some [OF assms(4)] by blast
  have any: "queue_delete Q n bsize ck t qs = Inr (Some (bulk_delete n Q t qs))" for Q
    by (simp add: queue_delete_def assertQueueName_ok [OF assms(2)] getQueueCache_def q
        deleteInBatches_eq [OF assms(1)])
  obtain t' qs' k where b: "bulk_delete n P t qs = (t', qs', k)" by (metis prod_cases3)
  have "t' = filter (\<lambda>j. \<not> (job_name j = n \<and> P j)) t" "k + length t' = length t"
    using b length_filter_split [of "\<lambda>j. job_name j = n \<and> P j" t]
    by (auto simp: bulk_delete_def run_delete_def Let_def)
  thus ?thesis
    using any bulk_delete_exact [OF assms(3,5) b] by (auto simp: deleteQueuedJobs_def deleteStoredJobs_def b list_all_iff)
qed

lemma bulk_deletes_refine_witness:
  "\<exists>t' qs' k. deleteStoredJobs ''q'' 1 True
      [complete_chg None False 3 (sample_job 1 ''q'' 2), complete_chg None False 3 (sample_job 2 ''q'' 2)]
      [queue_defaults ''q'' Standard ''job_common'' 0
         \<lparr>q_retained_count := Some 2, q_retained_on := Some 5\<rparr>] = Inr (Some (t', qs', k)) \<and>
    t' = [] \<and> k = 2 \<and> list_all (retained_exact t') qs'"
proof -
  let ?t = "[complete_chg None False 3 (sample_job 1 ''q'' 2), complete_chg None False 3 (sample_job 2 ''q'' 2)]"
  let ?qs = "[queue_defaults ''q'' Standard ''job_common'' 0
         \<lparr>q_retained_count := Some 2, q_retained_on := Some 5\<rparr>]"
  have *: "(0::nat) < 1" "object_name ''q''" "distinct (map q_name ?qs)" "''q'' \<in> q_name ` set ?qs"
    "\<forall>q\<in>set ?qs. retained_exact ?t q"
    by (simp_all add: queue_defaults_def retained_exact_def counted_def complete_chg_def object_name_def
        word_char_def sample_job_def job_defaults_def retained_state_def on_or_before_def)
  obtain t' qs' k where b: "bulk_delete ''q'' (\<lambda>j. state j > Active) ?t ?qs = (t', qs', k)" by (metis prod_cases3)
  have "\<And>j. j \<in> set ?t \<Longrightarrow> job_name j = ''q'' \<and> state j > Active"
    by (auto simp: complete_chg_def sample_job_def job_defaults_def)
  hence "t' = []" "k = 2" using b by (auto simp: bulk_delete_def run_delete_def Let_def)
  thus ?thesis
    using bulk_deletes_refine [OF *, of True "\<lambda>j. state j > Active"] unfolding b by simp
qed

section \<open>What deleting a queue promises\<close>

lemma find_queue_mem: "find_queue n qs = Some q \<Longrightarrow> q \<in> set qs \<and> q_name q = n"
  by (auto simp: find_queue_def find_Some_iff)

lemma reduce_other_queues:
  "filter (\<lambda>q. q_name q \<noteq> n) (reduceRetainedCount n k m qs) = filter (\<lambda>q. q_name q \<noteq> n) qs"
  by (simp add: reduceRetainedCount_def filter_upd_where_other)

lemma find_queue_bulk:
  assumes "find_queue n qs = Some q" "bulk_delete n P t qs = (t', qs', k)"
  shows "\<exists>q'. find_queue n qs' = Some q' \<and> q_partition q' = q_partition q"
proof -
  have "find_queue n (upd_where (\<lambda>q. q_name q = n) f qs) = Some (f q)"
    if "\<And>q. q_name (f q) = q_name q" for f
    using assms(1) that by (induction qs) (auto simp: find_queue_def)
  thus ?thesis using assms
    by (auto simp: bulk_delete_def run_delete_def Let_def reduceRetainedCount_def split: if_splits)
qed

lemma deleteQueue_shared:
  assumes "0 < bsize" "object_name n" "find_queue n qs = Some q" "\<not> q_partition q"
    and None: "getDeadLetterReferrer n t qs = None"
  shows "deleteQueue n bsize ck t qs =
    Inr (Some (filter (\<lambda>j. job_name j \<noteq> n) t, filter (\<lambda>q. q_name q \<noteq> n) qs))"
proof -
  obtain t' qs' k where b: "bulk_delete n (\<lambda>_. True) t qs = (t', qs', k)" by (metis prod_cases3)
  obtain q' where q': "find_queue n qs' = Some q'" "\<not> q_partition q'"
    using find_queue_bulk [OF assms(3) b] assms(4) by auto
  have t': "filter (\<lambda>j. job_name j \<noteq> n) t' = filter (\<lambda>j. job_name j \<noteq> n) t"
    and qs': "filter (\<lambda>q. q_name q \<noteq> n) qs' = filter (\<lambda>q. q_name q \<noteq> n) qs"
    using b by (auto simp: bulk_delete_def run_delete_def Let_def reduce_other_queues)
  have "\<not> list_ex (\<lambda>q. q_dead_letter q = Some n) (filter (\<lambda>q. q_name q \<noteq> n) qs)"
    "\<not> list_ex (\<lambda>j. job_name j = n \<or> dead_letter j = Some n) (filter (\<lambda>j. job_name j \<noteq> n) t)"
    using None by (auto simp: getDeadLetterReferrer_def find_None_iff list_ex_iff split: option.splits)
  hence "delete_queue n t' qs' = Inr (filter (\<lambda>j. job_name j \<noteq> n) t, filter (\<lambda>q. q_name q \<noteq> n) qs)"
    using q' by (simp add: delete_queue_def t' qs')
  thus ?thesis
    using assms None deleteInBatches_eq [OF assms(1), of n "\<lambda>_. True" ck t qs]
    by (simp add: deleteQueue_def assertQueueName_ok b lift_queue_def)
qed

text \<open>(C16) Deleting a queue of the shared table loses nothing or leaves nothing: while another queue
  or another queue's job names it as dead letter queue, the call is refused before any job is deleted,
  and it names such a queue; otherwise it ends, with no job and no row of the queue left and every
  other row as it was.\<close>

theorem deleteQueue_all_or_nothing:
  assumes "0 < bsize" "object_name n" "find_queue n qs = Some q" "\<not> q_partition q"
  shows "deleteQueue n bsize ck t qs = (case getDeadLetterReferrer n t qs of
      Some (r, _) \<Rightarrow> Inl (DeadLetterInUse n r)
    | None \<Rightarrow> Inr (Some (filter (\<lambda>j. job_name j \<noteq> n) t, filter (\<lambda>q. q_name q \<noteq> n) qs)))"
proof (cases "getDeadLetterReferrer n t qs")
  case (Some rk)
  thus ?thesis using assms by (cases rk) (simp add: deleteQueue_def assertQueueName_ok)
qed (simp add: deleteQueue_shared [OF assms])

lemma deleteQueue_all_or_nothing_witness:
  "deleteQueue ''q'' 1 False [sample_job 1 ''q'' 2]
     [queue_defaults ''q'' Standard ''job_common'' 0, queue_defaults ''r'' Standard ''job_common'' 0] =
   Inr (Some ([], [queue_defaults ''r'' Standard ''job_common'' 0])) \<and>
   deleteQueue ''q'' 1 False [sample_job 1 ''q'' 2]
     [queue_defaults ''q'' Standard ''job_common'' 0,
      queue_defaults ''r'' Standard ''job_common'' 0\<lparr>q_dead_letter := Some ''q''\<rparr>] =
   Inl (DeadLetterInUse ''q'' ''r'')"
proof -
  have n: "object_name ''q''" by (simp add: object_name_def word_char_def)
  have f: "find_queue ''q'' (queue_defaults ''q'' Standard ''job_common'' 0 # qs) =
      Some (queue_defaults ''q'' Standard ''job_common'' 0)" for qs
    by (simp add: find_queue_def queue_defaults_def)
  have p: "\<not> q_partition (queue_defaults ''q'' Standard ''job_common'' 0)" by (simp add: queue_defaults_def)
  show ?thesis
    using deleteQueue_all_or_nothing [OF _ n f p]
    by (simp add: getDeadLetterReferrer_def queue_defaults_def sample_job_def job_defaults_def)
qed

section \<open>What every call on a queue keeps\<close>

text \<open>The queue table's constraints, and the foreign keys the jobs have into it.\<close>

definition queues_ok :: "job list \<Rightarrow> queue list \<Rightarrow> bool" where
  "queues_ok t qs = (distinct (map q_name qs) \<and> list_all (queue_row_ok qs) qs \<and> fkeys_ok qs t)"


lemma queue_row_ok_mono:
  "queue_row_ok qs q \<Longrightarrow> q_name ` set qs \<subseteq> q_name ` set qs' \<Longrightarrow> queue_row_ok qs' q"
  by (auto simp: queue_row_ok_def split: option.splits)

lemma fkeys_ok_mono:
  "fkeys_ok qs t \<Longrightarrow> q_name ` set qs \<subseteq> q_name ` set qs' \<Longrightarrow> set t' \<subseteq> set t \<Longrightarrow> fkeys_ok qs' t'"
proof -
  assume *: "fkeys_ok qs t" "q_name ` set qs \<subseteq> q_name ` set qs'" "set t' \<subseteq> set t"
  { fix j assume "j \<in> set t'"
    hence "job_name j \<in> q_name ` set qs \<and> (case dead_letter j of None \<Rightarrow> True | Some d \<Rightarrow> d \<in> q_name ` set qs)"
      using * by (metis (no_types, lifting) fkeys_ok_def list_all_iff subsetD)
    hence "job_name j \<in> q_name ` set qs' \<and> (case dead_letter j of None \<Rightarrow> True | Some d \<Rightarrow> d \<in> q_name ` set qs')"
      using *(2) by (auto split: option.splits) }
  thus ?thesis by (simp add: fkeys_ok_def list_all_iff)
qed

lemma create_queue_ok:
  assumes "queues_ok t qs" "create_queue np h now n opt qs = Inr qs'"
  shows "queues_ok t qs'"
proof (cases "n \<in> q_name ` set qs")
  case True
  thus ?thesis using assms by (auto simp: create_queue_def Let_def split: if_splits)
next
  case False
  let ?q = "create_queue_row np h now n opt"
  have nm: "q_name ?q = n" by (simp add: create_queue_row_def queue_defaults_def Let_def)
  have qs': "qs' = qs @ [?q]" "queue_row_ok qs ?q"
    using assms(2) False unfolding create_queue_def Let_def by (simp_all split: if_splits)
  have sub: "q_name ` set qs \<subseteq> q_name ` set qs'" using qs' by auto
  have "list_all (queue_row_ok qs') qs'"
    using assms(1) qs' queue_row_ok_mono [OF _ sub] by (auto simp: queues_ok_def list_all_iff)
  thus ?thesis
    using assms(1) False nm fkeys_ok_mono [OF _ sub subset_refl] by (auto simp: queues_ok_def qs'(1))
qed

lemma update_queue_ok:
  assumes "queues_ok t qs" "update_queue n u now qs = Inr qs'"
  shows "queues_ok t qs'"
proof -
  have names: "map q_name (upd_where (\<lambda>q. q_name q = n) (update_queue_row u now) qs) = map q_name qs"
    by (rule map_upd_where_same) (simp add: update_queue_row_def)
  have qs': "qs' = upd_where (\<lambda>q. q_name q = n) (update_queue_row u now) qs" "list_all (queue_row_ok qs') qs'"
    using assms(2) by (auto simp: update_queue_def Let_def split: if_splits)
  have sub: "q_name ` set qs \<subseteq> q_name ` set qs'" using names qs'(1) by (metis image_set order_refl)
  show ?thesis
    using assms(1) qs' names fkeys_ok_mono [OF _ sub subset_refl] by (simp add: queues_ok_def)
qed

lemma reduce_queues_ok:
  assumes "queues_ok t qs" shows "queues_ok t (reduceRetainedCount n k m qs)"
proof -
  have names: "map q_name (reduceRetainedCount n k m qs) = map q_name qs"
    unfolding reduceRetainedCount_def by (rule map_upd_where_same) simp
  hence eq: "q_name ` set (reduceRetainedCount n k m qs) = q_name ` set qs" by (metis image_set)
  have "queue_row_ok (reduceRetainedCount n k m qs) q" if q: "q \<in> set (reduceRetainedCount n k m qs)" for q
  proof -
    obtain q0 where q0: "q0 \<in> set qs" "q = (if q_name q0 = n then
        q0\<lparr>q_retained_count := map_option (\<lambda>c. max (c - int k) 0) (q_retained_count q0),
           q_total_count := max (q_total_count q0 - int m) 0\<rparr> else q0)"
      using q by (auto simp: reduceRetainedCount_def upd_where_def)
    hence "q_dead_letter q = q_dead_letter q0" "q_name q = q_name q0" by auto
    moreover have "queue_row_ok qs q0" using assms q0(1) by (simp add: queues_ok_def list_all_iff)
    ultimately show ?thesis using eq by (auto simp: queue_row_ok_def split: option.splits)
  qed
  thus ?thesis using assms names fkeys_ok_mono [of qs t "reduceRetainedCount n k m qs" t] eq
    by (simp add: queues_ok_def list_all_iff)
qed

lemma bulk_delete_queues_ok:
  assumes "queues_ok t qs" "bulk_delete n P t qs = (t', qs', k)"
  shows "queues_ok t' qs'"
proof -
  have t': "set t' \<subseteq> set t" and qs': "qs' = qs \<or> (\<exists>a b. qs' = reduceRetainedCount n a b qs)"
    using assms(2) by (auto simp: bulk_delete_def run_delete_def Let_def split: if_splits)
  from qs' have "queues_ok t qs'" using assms(1) reduce_queues_ok by auto
  thus ?thesis using t' fkeys_ok_mono [OF _ subset_refl t'] by (simp add: queues_ok_def)
qed

lemma delete_queue_ok:
  assumes "queues_ok t qs" "delete_queue n t qs = Inr (t', qs')"
  shows "queues_ok t' qs'"
proof -
  have qs': "qs' = filter (\<lambda>q. q_name q \<noteq> n) qs" and t': "set t' \<subseteq> set t"
    and none: "\<forall>q\<in>set qs'. q_dead_letter q \<noteq> Some n" "\<forall>j\<in>set t'. job_name j \<noteq> n \<and> dead_letter j \<noteq> Some n"
    using assms(2) by (auto simp: delete_queue_def truncateTable_def Let_def list_ex_iff split: if_splits)
  have ok: "distinct (map q_name qs)" "\<And>q. q \<in> set qs \<Longrightarrow> queue_row_ok qs q" "fkeys_ok qs t"
    using assms(1) by (auto simp: queues_ok_def list_all_iff)
  have "list_all (queue_row_ok qs') qs'"
    unfolding list_all_iff
  proof
    fix q assume q: "q \<in> set qs'"
    hence "queue_row_ok qs q" using ok qs' by simp
    thus "queue_row_ok qs' q" using none(1) q by (force simp: queue_row_ok_def qs' split: option.splits)
  qed
  moreover have "fkeys_ok qs' t'"
    unfolding fkeys_ok_def list_all_iff
  proof
    fix j assume j: "j \<in> set t'"
    hence "job_name j \<in> q_name ` set qs \<and> (case dead_letter j of None \<Rightarrow> True | Some d \<Rightarrow> d \<in> q_name ` set qs)"
      using ok(3) t' by (metis (no_types, lifting) fkeys_ok_def list_all_iff subsetD)
    thus "job_name j \<in> q_name ` set qs' \<and> (case dead_letter j of None \<Rightarrow> True | Some d \<Rightarrow> d \<in> q_name ` set qs')"
      using none(2) j by (auto simp: qs' split: option.splits)
  qed
  ultimately show ?thesis using ok(1) by (simp add: queues_ok_def qs' distinct_filter_map)
qed

lemma lift_queue_Inr [simp]: "lift_queue r = Inr x \<longleftrightarrow> r = Inr x"
  by (cases r) (simp_all add: lift_queue_def)

text \<open>The queue table is well formed after every call on a queue: creating, updating, deleting
  and emptying queues keep the names unique, every dead letter queue an existing queue other than the
  one that names it, and every job's queue and dead letter queue existing.\<close>

theorem queue_calls_keep_references:
  assumes "0 < bsize" "queues_ok t qs"
  shows "(\<forall>qs'. createQueue np h now n opt qs = Inr qs' \<longrightarrow> queues_ok t qs') \<and>
    (\<forall>qs'. updateQueue n u now qs = Inr qs' \<longrightarrow> queues_ok t qs') \<and>
    (\<forall>t' qs'. deleteQueue n bsize ck t qs = Inr (Some (t', qs')) \<longrightarrow> queues_ok t' qs') \<and>
    (\<forall>t' qs' k. queue_delete P n bsize ck t qs = Inr (Some (t', qs', k)) \<longrightarrow> queues_ok t' qs')"
proof (intro conjI allI impI)
  fix qs' assume "createQueue np h now n opt qs = Inr qs'"
  thus "queues_ok t qs'" using create_queue_ok [OF assms(2)] by (auto simp: createQueue_def and_then_Inr_iff)
next
  fix qs' assume "updateQueue n u now qs = Inr qs'"
  thus "queues_ok t qs'" using update_queue_ok [OF assms(2)]
    by (auto simp: updateQueue_def and_then_Inr_iff split: if_splits)
next
  fix t' qs' assume run: "deleteQueue n bsize ck t qs = Inr (Some (t', qs'))"
  obtain t1 qs1 k where b: "bulk_delete n (\<lambda>_. True) t qs = (t1, qs1, k)" by (metis prod_cases3)
  show "queues_ok t' qs'"
    using run assms(2) delete_queue_ok [OF assms(2)] delete_queue_ok [OF bulk_delete_queues_ok [OF assms(2) b]]
    by (auto simp: deleteQueue_def and_then_Inr_iff deleteInBatches_eq [OF assms(1)] b
        split: option.splits if_splits)
next
  fix t' qs' k assume "queue_delete P n bsize ck t qs = Inr (Some (t', qs', k))"
  thus "queues_ok t' qs'" using bulk_delete_queues_ok [OF assms(2)]
    by (auto simp: queue_delete_def and_then_Inr_iff deleteInBatches_eq [OF assms(1)])
qed

lemma queue_calls_keep_references_witness:
  "\<exists>t' qs'. deleteQueue ''q'' 1 True [sample_job 1 ''q'' 2]
     [queue_defaults ''q'' Standard ''job_common'' 0, queue_defaults ''r'' Standard ''job_common'' 0] =
     Inr (Some (t', qs')) \<and> queues_ok t' qs' \<and> length qs' = 1"
proof -
  let ?t = "[sample_job 1 ''q'' 2]"
  let ?qs = "[queue_defaults ''q'' Standard ''job_common'' 0, queue_defaults ''r'' Standard ''job_common'' 0]"
  have ok: "queues_ok ?t ?qs"
    by (simp add: queues_ok_def queue_row_ok_def fkeys_ok_def queue_defaults_def sample_job_def job_defaults_def)
  have ref: "getDeadLetterReferrer ''q'' ?t ?qs = None"
    by (simp add: getDeadLetterReferrer_def queue_defaults_def sample_job_def job_defaults_def)
  have q: "find_queue ''q'' ?qs = Some (hd ?qs)" "\<not> q_partition (hd ?qs)" "object_name ''q''"
    by (simp_all add: find_queue_def queue_defaults_def object_name_def word_char_def)
  have run: "deleteQueue ''q'' 1 True ?t ?qs = Inr (Some (filter (\<lambda>j. job_name j \<noteq> ''q'') ?t,
      filter (\<lambda>q. q_name q \<noteq> ''q'') ?qs))" "length (filter (\<lambda>q. q_name q \<noteq> ''q'') ?qs) = 1"
    using deleteQueue_shared [OF _ q(3,1,2) ref, of 1 True] by (simp_all add: queue_defaults_def)
  thus ?thesis using queue_calls_keep_references [of 1, OF _ ok] by (metis less_numeral_extra(1))
qed

end
