(* ===== verification/Maintenance.thy ===== *)
theory Maintenance
  imports Flow_Props Claims Queues Fail_Props
begin

text \<open>
  The maintenance pass of \<^verbatim>\<open>src/src/boss.ts\<close>: \<^verbatim>\<open>#maintain\<close>, which claims the queues that are
  due, sweeps each of them (\<^verbatim>\<open>#maintainQueue\<close>) and hands the unfinished ones back, the statements of
  \<^verbatim>\<open>src/src/plans.ts\<close> it runs (\<^verbatim>\<open>deletion\<close>, \<^verbatim>\<open>setRetainedCount\<close>,
  \<^verbatim>\<open>cleanupDependencies\<close>), and the expiry sweeps of \<^verbatim>\<open>#monitor\<close>.

  A stop is a budget: how many more batches run before \<^verbatim>\<open>#stopping\<close> is set, nought when it is set
  already.  The statements of one pass read one time \<^verbatim>\<open>now\<close>; the locks that keep two
  instances out of one sweep have no effect on a single pass.  A batch that throws ends the walk as a
  stop does, and the error goes to the caller; that path is not modelled.
\<close>

section \<open>The statements\<close>

text \<open>\<^verbatim>\<open>getTime\<close>: milliseconds, rounded.\<close>

definition getTime :: "time \<Rightarrow> int" where
  "getTime now = (now + 500) div 1000"

definition retention_expired :: "time \<Rightarrow> job \<Rightarrow> bool" where
  "retention_expired now j = (
     deletion_seconds j > 0 \<and> (case completed_on j of None \<Rightarrow> False
       | Some c \<Rightarrow> c + deletion_seconds j * second < now) \<or>
     state j < Active \<and> keep_until j < now)"

definition deletion ::
  "time \<Rightarrow> str \<Rightarrow> nat \<Rightarrow> bool \<Rightarrow> time option \<Rightarrow> time option \<Rightarrow> uuid option \<Rightarrow> job list \<Rightarrow>
   job list \<times> uuid option \<times> batch_counts" where
  "deletion now n bsize cockroach retained_on retainedBefore after t =
     deleteJobsBatch n (retention_expired now) bsize cockroach retained_on retainedBefore after t"

text \<open>\<^verbatim>\<open>CACHED_LIVE_COUNT\<close>.\<close>

definition cached_live_count :: "queue \<Rightarrow> int" where
  "cached_live_count q = q_queued_count q + q_active_count q + q_failed_count q"

definition finished_after :: "str \<Rightarrow> time \<Rightarrow> time \<Rightarrow> job \<Rightarrow> bool" where
  "finished_after n before now j = (job_name j = n \<and> retained_state (state j) \<and>
     (case completed_on j of None \<Rightarrow> False | Some c \<Rightarrow> before < c \<and> c \<le> now))"

definition setRetainedCount :: "str \<Rightarrow> nat \<Rightarrow> time \<Rightarrow> time \<Rightarrow> job list \<Rightarrow> queue list \<Rightarrow> queue list" where
  "setRetainedCount n k before now t qs = upd_where (\<lambda>q. q_name q = n)
     (\<lambda>q. q\<lparr>q_retained_count := Some (int k), q_retained_on := Some before,
            q_total_count := cached_live_count q + int k +
              int (length (filter (finished_after n before now) t))\<rparr>) qs"

datatype side = ChildSide | ParentSide

fun side_name :: "side \<Rightarrow> dependency \<Rightarrow> str" where
  "side_name ChildSide d = child_name d"
| "side_name ParentSide d = parent_name d"

fun side_id :: "side \<Rightarrow> dependency \<Rightarrow> uuid" where
  "side_id ChildSide d = child_id d"
| "side_id ParentSide d = parent_id d"

text \<open>One batch of the dependency cleanup: the rows of the range whose job on that side is gone.  The
  job is looked for in the range of the batch.\<close>

definition cleanupDependencies ::
  "job list \<Rightarrow> str \<Rightarrow> side \<Rightarrow> nat \<Rightarrow> bool \<Rightarrow> uuid option \<Rightarrow> dependency list \<Rightarrow>
   dependency list \<times> uuid option \<times> nat" where
  "cleanupDependencies t n s bsize cockroach after deps = (
     let edge = walk_edge bsize (walk_keys after (map (side_id s) (filter (\<lambda>d. side_name s d = n) deps)));
         gone = (\<lambda>d. \<not> list_ex (\<lambda>j. job_name j = n \<and> past after (job_id j) \<and>
            (case edge of None \<Rightarrow> True | Some e \<Rightarrow> job_id j \<le> e) \<and> job_id j = side_id s d) t)
     in (case walk_batch (side_id s) (\<lambda>d. side_name s d = n) gone bsize cockroach after deps of
       (deps', cursor, rows) \<Rightarrow> (deps', cursor, length (filter gone rows))))"

section \<open>One queue, and the pass\<close>

record world =
  w_jobs :: "job list"
  w_deps :: "dependency list"
  w_queues :: "queue list"

text \<open>What the retention walk counts up to, in whole milliseconds.\<close>

definition retained_before :: "time \<Rightarrow> time" where
  "retained_before now = (getTime now - DELTA_LAG_SECONDS * 1000) * 1000"

definition maintainQueue ::
  "nat \<Rightarrow> bool \<Rightarrow> time \<Rightarrow> nat \<Rightarrow> str \<Rightarrow> world \<Rightarrow> world \<times> bool \<times> nat" where
  "maintainQueue bsize cockroach now budget n w = (if budget = 0 then (w, False, 0) else
     let before = retained_before now;
         (t, counts, done, b1) = walk_until
           (deletion now n bsize cockroach (retained_on_of n (w_queues w)) (Some before))
           budget None (w_jobs w);
         deleted = sum_list (map bc_deleted counts);
         held = sum_list (map bc_deleted_retained counts);
         qs = (if done then setRetainedCount n (sum_list (map bc_retained counts)) before now t (w_queues w)
               else if deleted > 0 then reduceRetainedCount n held deleted (w_queues w)
               else w_queues w);
         (deps1, _, children, b2) = walk_until
           (cleanupDependencies t n ChildSide bsize cockroach) b1 None (w_deps w);
         (deps2, _, parents, b3) = walk_until
           (cleanupDependencies t n ParentSide bsize cockroach) b2 None deps1
     in (\<lparr>w_jobs = t, w_deps = deps2, w_queues = qs\<rparr>, done \<and> children \<and> parents, b3))"

text \<open>The loop over the claimed queues, and the names it did not finish.\<close>

fun maintain_queues ::
  "nat \<Rightarrow> bool \<Rightarrow> time \<Rightarrow> nat \<Rightarrow> str list \<Rightarrow> world \<Rightarrow> world \<times> str list \<times> nat" where
  "maintain_queues bsize cockroach now budget [] w = (w, [], budget)"
| "maintain_queues bsize cockroach now budget (n # ns) w =
     (case maintainQueue bsize cockroach now budget n w of (w', finished, b) \<Rightarrow>
        if finished then maintain_queues bsize cockroach now b ns w' else (w', n # ns, b))"

text \<open>The rows another session has locked are those of \<^verbatim>\<open>held\<close> at the claim and those of \<^verbatim>\<open>busy\<close> when
  the pass hands back what it did not finish; the statement that hands back may also fail, which is only
  reported.\<close>

definition maintain ::
  "nat \<Rightarrow> bool \<Rightarrow> str list \<Rightarrow> int \<Rightarrow> bool \<Rightarrow> (str \<Rightarrow> bool) \<Rightarrow> (str \<Rightarrow> bool) \<Rightarrow> bool \<Rightarrow> time \<Rightarrow> nat \<Rightarrow>
   world \<Rightarrow> world \<times> nat" where
  "maintain bsize cockroach names seconds skipLocked held busy release_fails now budget w = (
     if budget = 0 then (w, 0) else
     let (qs, claimed) = trySetQueueDeletionTime names seconds skipLocked held now (w_queues w);
         (w', rest, b) = maintain_queues bsize cockroach now budget (map fst claimed) (w\<lparr>w_queues := qs\<rparr>)
     in (if rest = [] \<or> release_fails then w'
         else w'\<lparr>w_queues := releaseQueueDeletionTime rest now skipLocked busy (w_queues w')\<rparr>, b))"

section \<open>The expiry sweeps\<close>

fun repeatWhileFull :: "nat \<Rightarrow> ('s \<Rightarrow> 'e + ('s \<times> nat)) \<Rightarrow> nat \<Rightarrow> 's \<Rightarrow> 'e + ('s \<times> nat)" where
  "repeatWhileFull limit batch 0 s = Inr (s, 0)"
| "repeatWhileFull limit batch (Suc n) s = and_then (batch s) (\<lambda>(s', k).
     if k < limit then Inr (s', n) else repeatWhileFull limit batch n s')"

definition monitor_expiry ::
  "bool \<Rightarrow> queue list \<Rightarrow> (job \<Rightarrow> uuid) \<Rightarrow> str list \<Rightarrow> time \<Rightarrow> (uuid \<Rightarrow> int) \<Rightarrow> nat \<Rightarrow> nat \<Rightarrow> job list \<Rightarrow>
   nat statement" where
  "monitor_expiry noMultiMutationCte qs new_id queues now rnd limit budget t = and_then
     (repeatWhileFull limit (if noMultiMutationCte
        then failJobsByTimeoutDistributed qs new_id queues now rnd limit
        else failJobsByTimeout qs new_id queues now rnd limit) budget t) (\<lambda>(t1, b).
      repeatWhileFull limit (if noMultiMutationCte
        then failJobsByHeartbeatDistributed qs new_id queues now rnd limit
        else failJobsByHeartbeat qs new_id queues now rnd limit) b t1)"

section \<open>The dependency cleanup\<close>

text \<open>Bounding the search for the job by the batch's range finds the same jobs.\<close>

definition has_job :: "job list \<Rightarrow> side \<Rightarrow> dependency \<Rightarrow> bool" where
  "has_job t s d = list_ex (\<lambda>j. job_name j = side_name s d \<and> job_id j = side_id s d) t"

lemma walk_batch_doomed_cong:
  assumes "\<And>r. r \<in> set rows \<Longrightarrow> mine r \<Longrightarrow> past after (key r) \<Longrightarrow>
      walkBatchBound False bsize (walk_keys after (map key (filter mine rows))) (key r) \<Longrightarrow>
      doomed r = doomed' r" and "0 < bsize"
  shows "walk_batch key mine doomed bsize ck after rows = walk_batch key mine doomed' bsize ck after rows"
proof -
  have "walk_batch key mine doomed bsize False after rows = walk_batch key mine doomed' bsize False after rows"
    using assms(1) by (auto simp: walk_batch_def Let_def intro!: filter_cong)
  thus ?thesis by (cases ck) (simp_all add: walk_batch_backends [OF assms(2)])
qed

lemma walk_batch_rows:
  assumes "walk_batch key mine doomed bsize ck after rows = (rows', k, vs)" "0 < bsize" "r \<in> set vs"
  shows "r \<in> set rows \<and> mine r \<and> past after (key r) \<and>
    walkBatchBound False bsize (walk_keys after (map key (filter mine rows))) (key r)"
proof -
  have "walk_batch key mine doomed bsize False after rows = (rows', k, vs)"
    using assms(1) by (cases ck) (simp_all add: walk_batch_backends [OF assms(2)])
  thus ?thesis using assms(3) by (auto simp: walk_batch_def Let_def)
qed

lemma cleanupDependencies_walk:
  assumes "0 < bsize"
  shows "cleanupDependencies t n s bsize ck after deps =
    (case walk_batch (side_id s) (\<lambda>d. side_name s d = n) (\<lambda>d. \<not> has_job t s d) bsize ck after deps of
       (deps', k, rows) \<Rightarrow> (deps', k, length (filter (\<lambda>d. \<not> has_job t s d) rows)))"
proof -
  let ?mine = "\<lambda>d. side_name s d = n"
  let ?keys = "walk_keys after (map (side_id s) (filter ?mine deps))"
  let ?gone = "\<lambda>d. \<not> list_ex (\<lambda>j. job_name j = n \<and> past after (job_id j) \<and>
      (case walk_edge bsize ?keys of None \<Rightarrow> True | Some e \<Rightarrow> job_id j \<le> e) \<and> job_id j = side_id s d) t"
  have eq: "?gone d = (\<not> has_job t s d)"
    if "?mine d" "past after (side_id s d)" "walkBatchBound False bsize ?keys (side_id s d)" for d
  proof -
    have "(job_name j = n \<and> past after (job_id j) \<and>
        (case walk_edge bsize ?keys of None \<Rightarrow> True | Some e \<Rightarrow> job_id j \<le> e) \<and> job_id j = side_id s d) =
      (job_name j = side_name s d \<and> job_id j = side_id s d)" for j
      using that by (auto simp: walkBatchBound_def split: option.splits)
    thus ?thesis unfolding has_job_def by (intro arg_cong [where f = Not] list_ex_cong refl)
  qed
  have w: "walk_batch (side_id s) ?mine ?gone bsize ck after deps =
      walk_batch (side_id s) ?mine (\<lambda>d. \<not> has_job t s d) bsize ck after deps"
    by (rule walk_batch_doomed_cong [OF _ assms]) (rule eq)
  obtain deps' k rows where b: "walk_batch (side_id s) ?mine (\<lambda>d. \<not> has_job t s d) bsize ck after deps = (deps', k, rows)"
    by (metis prod_cases3)
  have "filter ?gone rows = filter (\<lambda>d. \<not> has_job t s d) rows"
    using walk_batch_rows [OF b assms] eq by (intro filter_cong) auto
  thus ?thesis by (simp add: cleanupDependencies_def Let_def w b)
qed

lemma cleanup_map:
  assumes "0 < bsize"
  shows "walk_until (cleanupDependencies t n s bsize ck) b after deps =
    (case walk_until (walk_batch (side_id s) (\<lambda>d. side_name s d = n) (\<lambda>d. \<not> has_job t s d) bsize ck) b after deps of
       (deps', vs, done, m) \<Rightarrow> (deps', map (\<lambda>rows. length (filter (\<lambda>d. \<not> has_job t s d) rows)) vs, done, m))"
  by (rule walk_until_map) (rule cleanupDependencies_walk [OF assms])

lemma cleanup_done:
  assumes "0 < bsize" "walk_until (cleanupDependencies t n s bsize ck) b None deps = (deps', cs, True, m)"
  shows "deps' = filter (\<lambda>d. \<not> (side_name s d = n \<and> \<not> has_job t s d)) deps"
proof -
  let ?B = "walk_batch (side_id s) (\<lambda>d. side_name s d = n) (\<lambda>d. \<not> has_job t s d) bsize ck"
  obtain vs where "walk_until ?B b None deps = (deps', vs, True, m)"
    using assms(2) cleanup_map [OF assms(1), of t n s ck b None deps]
    by (auto split: prod.splits)
  from walk_all_rows(1) [OF assms(1) walk_until_done [OF this]] show ?thesis by simp
qed

lemma cleanup_some:
  assumes "0 < bsize" "walk_until (cleanupDependencies t n s bsize ck) b None deps = (deps', cs, done, m)"
  shows "\<exists>D. deps' = filter (\<lambda>d. \<not> D d) deps \<and> (\<forall>d. D d \<longrightarrow> side_name s d = n \<and> \<not> has_job t s d)"
proof -
  let ?B = "walk_batch (side_id s) (\<lambda>d. side_name s d = n) (\<lambda>d. \<not> has_job t s d) bsize ck"
  obtain vs where "walk_until ?B b None deps = (deps', vs, done, m)"
    using assms(2) cleanup_map [OF assms(1), of t n s ck b None deps]
    by (auto split: prod.splits)
  from walk_until_rows [OF this] show ?thesis by blast
qed

text \<open>With budget for every batch a walk ends by itself: it runs at most one batch more than it has
  rows.\<close>

lemma cleanup_budget:
  assumes "0 < bsize" "length deps < b"
  shows "\<exists>deps' cs m. walk_until (cleanupDependencies t n s bsize ck) b None deps = (deps', cs, True, m) \<and>
    b \<le> m + length deps + 1"
proof -
  let ?mine = "\<lambda>d. side_name s d = n"
  let ?B = "walk_batch (side_id s) ?mine (\<lambda>d. \<not> has_job t s d) bsize ck"
  have left: "walk_left (side_id s) ?mine None deps \<le> length deps" by (simp add: walk_left_def)
  obtain deps' vs where "walk_all ?B None deps = Some (deps', vs)" using row_walk.walk_ends by (metis surj_pair)
  from row_walk.walk_until_all [OF this, of b] left assms(2) obtain m where
    "walk_until ?B b None deps = (deps', vs, True, m)" "b \<le> m + length deps + 1" by fastforce
  thus ?thesis using cleanup_map [OF assms(1), of t n s ck b None deps] by simp
qed

section \<open>The retention sweep\<close>

lemma deletion_walk:
  "deletion now n bsize ck ro rb after t =
    (case walk_batch job_id (\<lambda>j. job_name j = n) (retention_expired now) bsize ck after t of
       (t', k, rows) \<Rightarrow> (t', k, counts_of (retention_expired now) ro rb rows))"
  by (simp add: deletion_def deleteJobsBatch_walk)

lemma deletion_map:
  "walk_until (deletion now n bsize ck ro rb) b after t =
    (case walk_until (walk_batch job_id (\<lambda>j. job_name j = n) (retention_expired now) bsize ck) b after t of
       (t', vs, done, m) \<Rightarrow> (t', map (counts_of (retention_expired now) ro rb) vs, done, m))"
  by (rule walk_until_map) (rule deletion_walk)

lemma deletion_done:
  assumes "0 < bsize" "walk_until (deletion now n bsize ck ro (Some before)) b None t = (t', cs, True, m)"
  shows "t' = filter (\<lambda>j. \<not> (job_name j = n \<and> retention_expired now j)) t"
    and "sum_list (map bc_retained cs) =
      length (filter (\<lambda>j. finished_by (Some before) j \<and> \<not> retention_expired now j) (filter (\<lambda>j. job_name j = n) t))"
proof -
  let ?B = "walk_batch job_id (\<lambda>j. job_name j = n) (retention_expired now) bsize ck"
  obtain vs where w: "walk_until ?B b None t = (t', vs, True, m)"
    and cs: "cs = map (counts_of (retention_expired now) ro (Some before)) vs"
    using assms(2) deletion_map [of now n bsize ck ro "Some before" b None t]
    by (auto split: prod.splits)
  note all = walk_all_rows [OF assms(1) walk_until_done [OF w]]
  show "t' = filter (\<lambda>j. \<not> (job_name j = n \<and> retention_expired now j)) t" using all(1) by simp
  show "sum_list (map bc_retained cs) =
      length (filter (\<lambda>j. finished_by (Some before) j \<and> \<not> retention_expired now j) (filter (\<lambda>j. job_name j = n) t))"
    using all(2) counts_total(3) [of vs "filter (\<lambda>j. job_name j = n) t"] by (simp add: cs)
qed

lemma deletion_some:
  assumes "walk_until (deletion now n bsize ck ro rb) b None t = (t', cs, done, m)"
  shows "\<exists>D. t' = filter (\<lambda>j. \<not> D j) t \<and> (\<forall>j. D j \<longrightarrow> job_name j = n \<and> retention_expired now j) \<and>
    sum_list (map bc_deleted cs) = length (filter D t) \<and>
    sum_list (map bc_deleted_retained cs) = length (filter (finished_by ro) (filter D t))"
proof -
  let ?P = "retention_expired now"
  obtain vs where w: "walk_until (walk_batch job_id (\<lambda>j. job_name j = n) ?P bsize ck) b None t = (t', vs, done, m)"
    and cs: "cs = map (counts_of ?P ro rb) vs"
    using assms deletion_map [of now n bsize ck ro rb b None t]
    by (auto split: prod.splits)
  obtain D where D: "t' = filter (\<lambda>j. \<not> D j) t" "\<forall>j. D j \<longrightarrow> job_name j = n \<and> ?P j"
    "mset (filter ?P (concat vs)) = mset (filter D t)" using walk_until_rows [OF w] by blast
  note tot = counts_total(1,2) [OF refl, of ?P ro rb vs]
  show ?thesis
    using D tot length_filter_mset [OF D(3), of "\<lambda>_. True"] length_filter_mset [OF D(3), of "finished_by ro"]
    by (intro exI [of _ D]) (simp add: cs)
qed

lemma deletion_budget:
  assumes "0 < bsize" "length t < b"
  shows "\<exists>t' cs m. walk_until (deletion now n bsize ck ro rb) b None t = (t', cs, True, m) \<and> b \<le> m + length t + 1"
proof -
  let ?B = "walk_batch job_id (\<lambda>j. job_name j = n) (retention_expired now) bsize ck"
  have left: "walk_left job_id (\<lambda>j. job_name j = n) None t \<le> length t" by (simp add: walk_left_def)
  obtain t' vs where "walk_all ?B None t = Some (t', vs)" using row_walk.walk_ends by (metis surj_pair)
  from row_walk.walk_until_all [OF this, of b] left assms(2) obtain m where
    "walk_until ?B b None t = (t', vs, True, m)" "b \<le> m + length t + 1" by fastforce
  thus ?thesis using deletion_map [of now n bsize ck ro rb b None t] by simp
qed

section \<open>One queue\<close>

text \<open>What a swept queue looks like: nothing expired, no dependency row without its job, and the
  retained count set to what was kept.\<close>

definition queue_swept :: "time \<Rightarrow> str \<Rightarrow> world \<Rightarrow> bool" where
  "queue_swept now n w = (
     (\<forall>j\<in>set (w_jobs w). job_name j = n \<longrightarrow> \<not> retention_expired now j) \<and>
     (\<forall>d\<in>set (w_deps w). \<forall>s. side_name s d = n \<longrightarrow> has_job (w_jobs w) s d) \<and>
     (\<forall>q\<in>set (w_queues w). q_name q = n \<longrightarrow> retained_exact (w_jobs w) q \<and> q_retained_count q \<noteq> None \<and>
        q_retained_on q = Some (retained_before now)))"

text \<open>What maintaining queues never does, however it ends: it removes only expired jobs of theirs and
  only dependency rows that have lost a job, it leaves the rows of other queues and every claim stamp
  alone, and it keeps the retained counts right.\<close>

definition sweep_sound :: "time \<Rightarrow> str set \<Rightarrow> world \<Rightarrow> world \<Rightarrow> bool" where
  "sweep_sound now names w w' = (
     set (w_jobs w') \<subseteq> set (w_jobs w) \<and>
     (\<forall>j\<in>set (w_jobs w) - set (w_jobs w'). retention_expired now j) \<and>
     filter (\<lambda>j. job_name j \<notin> names) (w_jobs w') = filter (\<lambda>j. job_name j \<notin> names) (w_jobs w) \<and>
     set (w_deps w') \<subseteq> set (w_deps w) \<and>
     (\<forall>d\<in>set (w_deps w) - set (w_deps w'). \<exists>s. side_name s d \<in> names \<and> \<not> has_job (w_jobs w') s d) \<and>
     map q_name (w_queues w') = map q_name (w_queues w) \<and>
     map q_maintain_on (w_queues w') = map q_maintain_on (w_queues w) \<and>
     filter (\<lambda>q. q_name q \<notin> names) (w_queues w') = filter (\<lambda>q. q_name q \<notin> names) (w_queues w) \<and>
     ((\<forall>q\<in>set (w_queues w). retained_exact (w_jobs w) q) \<longrightarrow>
      (\<forall>q\<in>set (w_queues w'). retained_exact (w_jobs w') q)))"

lemma sweep_sound_refl: "sweep_sound now names w w"
  by (simp add: sweep_sound_def)

lemma has_job_mono: "has_job t s d \<Longrightarrow> set t \<subseteq> set t' \<Longrightarrow> has_job t' s d"
  by (auto simp: has_job_def list_ex_iff)

lemma filter_names_trans:
  assumes "filter (\<lambda>x. g x \<notin> A) ys = filter (\<lambda>x. g x \<notin> A) xs" "filter (\<lambda>x. g x \<notin> B) zs = filter (\<lambda>x. g x \<notin> B) ys"
  shows "filter (\<lambda>x. g x \<notin> A \<union> B) zs = filter (\<lambda>x. g x \<notin> A \<union> B) xs"
proof -
  have a: "filter (\<lambda>x. g x \<notin> A \<union> B) l = filter (\<lambda>x. g x \<notin> A) (filter (\<lambda>x. g x \<notin> B) l)"
    and b: "filter (\<lambda>x. g x \<notin> A \<union> B) l = filter (\<lambda>x. g x \<notin> B) (filter (\<lambda>x. g x \<notin> A) l)" for l
    by (auto intro!: filter_cong)
  have "filter (\<lambda>x. g x \<notin> A \<union> B) zs = filter (\<lambda>x. g x \<notin> A \<union> B) ys" by (simp only: a assms(2))
  also have "\<dots> = filter (\<lambda>x. g x \<notin> A \<union> B) xs" by (simp only: b assms(1))
  finally show ?thesis .
qed

lemma sweep_sound_trans:
  assumes "sweep_sound now A w w1" "sweep_sound now B w1 w2"
  shows "sweep_sound now (A \<union> B) w w2"
proof -
  have jobs: "set (w_jobs w2) \<subseteq> set (w_jobs w1)" using assms by (simp add: sweep_sound_def)
  have deps: "\<exists>s. side_name s d \<in> A \<union> B \<and> \<not> has_job (w_jobs w2) s d"
    if d: "d \<in> set (w_deps w) - set (w_deps w2)" for d
  proof (cases "d \<in> set (w_deps w1)")
    case True
    thus ?thesis using d assms(2) unfolding sweep_sound_def by blast
  next
    case False
    then obtain s where "side_name s d \<in> A" "\<not> has_job (w_jobs w1) s d"
      using d assms(1) unfolding sweep_sound_def by blast
    thus ?thesis using has_job_mono [OF _ jobs] by blast
  qed
  have fq: "filter (\<lambda>q. q_name q \<notin> A \<union> B) (w_queues w2) = filter (\<lambda>q. q_name q \<notin> A \<union> B) (w_queues w)"
    by (rule filter_names_trans) (use assms in \<open>simp_all add: sweep_sound_def\<close>)
  have fj: "filter (\<lambda>j. job_name j \<notin> A \<union> B) (w_jobs w2) = filter (\<lambda>j. job_name j \<notin> A \<union> B) (w_jobs w)"
    by (rule filter_names_trans) (use assms in \<open>simp_all add: sweep_sound_def\<close>)
  have jr: "\<forall>j\<in>set (w_jobs w) - set (w_jobs w2). retention_expired now j"
    using assms unfolding sweep_sound_def by blast
  have sub: "set (w_jobs w2) \<subseteq> set (w_jobs w)" "set (w_deps w2) \<subseteq> set (w_deps w)"
    using assms unfolding sweep_sound_def by blast+
  have deps': "\<forall>d\<in>set (w_deps w) - set (w_deps w2). \<exists>s. side_name s d \<in> A \<union> B \<and> \<not> has_job (w_jobs w2) s d"
    using deps by blast
  have rest: "map q_name (w_queues w2) = map q_name (w_queues w)"
    "map q_maintain_on (w_queues w2) = map q_maintain_on (w_queues w)"
    "(\<forall>q\<in>set (w_queues w). retained_exact (w_jobs w) q) \<longrightarrow> (\<forall>q\<in>set (w_queues w2). retained_exact (w_jobs w2) q)"
    using assms by (simp_all add: sweep_sound_def)
  show ?thesis unfolding sweep_sound_def
    by (intro conjI sub jr fj deps' fq rest)
qed

text \<open>A queue stays swept while others are maintained.\<close>

lemma queue_swept_kept:
  assumes "sweep_sound now names w w'" "n \<notin> names" "queue_swept now n w"
  shows "queue_swept now n w'"
proof -
  have sub: "set (w_jobs w') \<subseteq> set (w_jobs w)" "set (w_deps w') \<subseteq> set (w_deps w)"
    and fj: "filter (\<lambda>j. job_name j \<notin> names) (w_jobs w') = filter (\<lambda>j. job_name j \<notin> names) (w_jobs w)"
    and fq: "filter (\<lambda>q. q_name q \<notin> names) (w_queues w') = filter (\<lambda>q. q_name q \<notin> names) (w_queues w)"
    using assms(1) by (simp_all add: sweep_sound_def)
  have mine: "filter (\<lambda>j. job_name j = n \<and> P j) (w_jobs w') = filter (\<lambda>j. job_name j = n \<and> P j) (w_jobs w)" for P
  proof -
    have *: "filter (\<lambda>j. job_name j = n \<and> P j) l =
        filter (\<lambda>j. job_name j = n \<and> P j) (filter (\<lambda>j. job_name j \<notin> names) l)" for l
      using assms(2) by (auto intro!: filter_cong)
    show ?thesis by (subst (1 2) *) (simp only: fj)
  qed
  have hj: "has_job (w_jobs w') s d" if h: "has_job (w_jobs w) s d" "side_name s d = n" for s d
  proof -
    obtain j where "j \<in> set (filter (\<lambda>j. job_name j = n \<and> job_id j = side_id s d) (w_jobs w))"
      using h by (auto simp: has_job_def list_ex_iff)
    thus ?thesis using h(2) unfolding mine [symmetric] by (auto simp: has_job_def list_ex_iff)
  qed
  have rows: "q \<in> set (w_queues w)" if "q \<in> set (w_queues w')" "q_name q = n" for q
  proof -
    have "q \<in> set (filter (\<lambda>q. q_name q \<notin> names) (w_queues w'))" using that assms(2) by simp
    thus ?thesis by (simp add: fq)
  qed
  have exact: "retained_exact (w_jobs w') q" if "retained_exact (w_jobs w) q" "q_name q = n" for q
  proof -
    have "filter (counted n r) (w_jobs w') = filter (counted n r) (w_jobs w)" for r
      unfolding counted_def [abs_def] by (rule mine)
    thus ?thesis using that by (simp add: retained_exact_def split: option.splits)
  qed
  show ?thesis using assms(3) sub hj rows exact unfolding queue_swept_def by blast
qed

lemma setRetainedCount_exact:
  assumes t': "t' = filter (\<lambda>j. \<not> (job_name j = n \<and> retention_expired now j)) t"
    and k: "k = length (filter (\<lambda>j. finished_by (Some before) j \<and> \<not> retention_expired now j)
      (filter (\<lambda>j. job_name j = n) t))"
    and q: "q \<in> set (setRetainedCount n k before now2 t2 qs)" "q_name q = n"
  shows "retained_exact t' q" "q_retained_count q \<noteq> None" "q_retained_on q = Some before"
proof -
  have "filter (\<lambda>j. finished_by (Some before) j \<and> \<not> retention_expired now j) (filter (\<lambda>j. job_name j = n) t) =
      filter (counted n before) t'"
    by (auto simp: t' counted_def finished_by_def intro!: filter_cong)
  moreover have "q_retained_count q = Some (int k)" "q_retained_on q = Some before"
  proof -
    obtain x where "q = x\<lparr>q_retained_count := Some (int k), q_retained_on := Some before,
        q_total_count := cached_live_count x + int k + int (length (filter (finished_after n before now2) t2))\<rparr>"
      using q by (auto simp: setRetainedCount_def set_upd_where)
    thus "q_retained_count q = Some (int k)" "q_retained_on q = Some before" by simp_all
  qed
  ultimately show "retained_exact t' q" "q_retained_count q \<noteq> None" "q_retained_on q = Some before"
    using q(2) by (simp_all add: retained_exact_def k)
qed

lemma setRetainedCount_rows:
  "map q_name (setRetainedCount n k before now t qs) = map q_name qs"
  "map q_maintain_on (setRetainedCount n k before now t qs) = map q_maintain_on qs"
  "filter (\<lambda>q. q_name q \<notin> {n}) (setRetainedCount n k before now t qs) = filter (\<lambda>q. q_name q \<notin> {n}) qs"
  unfolding setRetainedCount_def
  by (rule map_upd_where_same filter_upd_where_other; simp)+

lemma reduceRetainedCount_rows:
  "map q_name (reduceRetainedCount n k m qs) = map q_name qs"
  "map q_maintain_on (reduceRetainedCount n k m qs) = map q_maintain_on qs"
  "filter (\<lambda>q. q_name q \<notin> {n}) (reduceRetainedCount n k m qs) = filter (\<lambda>q. q_name q \<notin> {n}) qs"
  unfolding reduceRetainedCount_def
  by (rule map_upd_where_same filter_upd_where_other; simp)+


lemma maintainQueue_sound:
  assumes bs: "0 < bsize" and d: "distinct (map q_name (w_queues w))"
    and run: "maintainQueue bsize ck now b n w = (w', fin, m)"
  shows "sweep_sound now {n} w w'" and "fin \<Longrightarrow> queue_swept now n w'"
proof -
  let ?before = "retained_before now"
  let ?ro = "retained_on_of n (w_queues w)"
  have "sweep_sound now {n} w w' \<and> (fin \<longrightarrow> queue_swept now n w')"
  proof (cases "b = 0")
    case True
    thus ?thesis using run by (simp add: maintainQueue_def sweep_sound_refl)
  next
    case False
    obtain t cs fd b1 where r: "walk_until (deletion now n bsize ck ?ro (Some ?before)) b None (w_jobs w) = (t, cs, fd, b1)"
      by (metis prod_cases4)
    obtain deps1 c1 children b2 where c: "walk_until (cleanupDependencies t n ChildSide bsize ck) b1 None (w_deps w) = (deps1, c1, children, b2)"
      by (metis prod_cases4)
    obtain deps2 c2 parents b3 where p: "walk_until (cleanupDependencies t n ParentSide bsize ck) b2 None deps1 = (deps2, c2, parents, b3)"
      by (metis prod_cases4)
    define qs where "qs = (if fd then setRetainedCount n (sum_list (map bc_retained cs)) ?before now t (w_queues w)
      else if sum_list (map bc_deleted cs) > 0 then
        reduceRetainedCount n (sum_list (map bc_deleted_retained cs)) (sum_list (map bc_deleted cs)) (w_queues w)
      else w_queues w)"
    have w': "w' = \<lparr>w_jobs = t, w_deps = deps2, w_queues = qs\<rparr>" and fin: "fin = (fd \<and> children \<and> parents)"
      using run False unfolding maintainQueue_def Let_def qs_def by (simp_all add: r c p del: sum_list_eq_0_iff)
    obtain D where D: "t = filter (\<lambda>j. \<not> D j) (w_jobs w)" "\<forall>j. D j \<longrightarrow> job_name j = n \<and> retention_expired now j"
      "sum_list (map bc_deleted cs) = length (filter D (w_jobs w))"
      "sum_list (map bc_deleted_retained cs) = length (filter (finished_by ?ro) (filter D (w_jobs w)))"
      using deletion_some [OF r] by blast
    obtain D1 D2 where D12: "deps1 = filter (\<lambda>d. \<not> D1 d) (w_deps w)" "deps2 = filter (\<lambda>d. \<not> D2 d) deps1"
      and o1: "\<forall>d. D1 d \<longrightarrow> side_name ChildSide d = n \<and> \<not> has_job t ChildSide d"
      and o2: "\<forall>d. D2 d \<longrightarrow> side_name ParentSide d = n \<and> \<not> has_job t ParentSide d"
      using cleanup_some [OF bs c] cleanup_some [OF bs p] by blast
    have jobs: "set t \<subseteq> set (w_jobs w)" "\<forall>j\<in>set (w_jobs w) - set t. retention_expired now j"
      "filter (\<lambda>j. job_name j \<notin> {n}) t = filter (\<lambda>j. job_name j \<notin> {n}) (w_jobs w)"
      using D(1,2) by (auto intro!: filter_cong)
    have deps: "set deps2 \<subseteq> set (w_deps w)"
      "\<forall>d\<in>set (w_deps w) - set deps2. \<exists>s. side_name s d \<in> {n} \<and> \<not> has_job t s d"
      using o1 o2 by (auto simp: D12)
    have rows: "map q_name qs = map q_name (w_queues w)" "map q_maintain_on qs = map q_maintain_on (w_queues w)"
      "filter (\<lambda>q. q_name q \<notin> {n}) qs = filter (\<lambda>q. q_name q \<notin> {n}) (w_queues w)"
      unfolding qs_def using setRetainedCount_rows reduceRetainedCount_rows by (simp_all split: if_split)
    have set_exact: "retained_exact t q" "q_retained_count q \<noteq> None" "q_retained_on q = Some ?before"
      if "fd" "q \<in> set qs" "q_name q = n" for q
    proof -
      have r': "walk_until (deletion now n bsize ck ?ro (Some ?before)) b None (w_jobs w) = (t, cs, True, b1)"
        using r that(1) by simp
      have "q \<in> set (setRetainedCount n (sum_list (map bc_retained cs)) ?before now t (w_queues w))"
        using that(1,2) by (simp add: qs_def)
      from setRetainedCount_exact [OF deletion_done [OF bs r'] this that(3)]
      show "retained_exact t q" "q_retained_count q \<noteq> None" "q_retained_on q = Some ?before" .
    qed
    have exact: "(\<forall>q\<in>set (w_queues w). retained_exact (w_jobs w) q) \<longrightarrow> (\<forall>q\<in>set qs. retained_exact t q)"
    proof (intro impI ballI)
      fix q assume ex: "\<forall>q\<in>set (w_queues w). retained_exact (w_jobs w) q" and q: "q \<in> set qs"
      show "retained_exact t q"
      proof (cases "fd")
        case True
        show ?thesis
        proof (cases "q_name q = n")
          case other: False
          have "q \<in> set (filter (\<lambda>q. q_name q \<notin> {n}) qs)" using q other by simp
          hence "q \<in> set (w_queues w)" by (simp only: rows(3)) simp
          moreover have "filter (counted (q_name q) r) t = filter (counted (q_name q) r) (w_jobs w)" for r
            unfolding D(1) by (rule filter_other_same) (use D(2) other in \<open>auto simp: counted_def\<close>)
          ultimately show ?thesis using ex by (auto simp: retained_exact_def split: option.splits)
        qed (use set_exact(1) True q in blast)
      next
        case False
        hence "q \<in> set (if length (filter D (w_jobs w)) > 0 then reduceRetainedCount n
            (length (filter (finished_by ?ro) (filter D (w_jobs w)))) (length (filter D (w_jobs w))) (w_queues w)
            else w_queues w)"
          using q unfolding qs_def D(3) D(4) by simp
        thus ?thesis using partial_exact [OF d ex D(1)] D(2) by blast
      qed
    qed
    have "sweep_sound now {n} w w'"
      unfolding sweep_sound_def w' world.simps by (intro conjI jobs deps rows exact)
    moreover have "queue_swept now n w'" if fin
    proof -
      have yes: "fd" "children" "parents" using that fin by simp_all
      have t: "t = filter (\<lambda>j. \<not> (job_name j = n \<and> retention_expired now j)) (w_jobs w)"
        by (rule deletion_done(1) [OF bs]) (use r yes in simp)
      have d1: "deps1 = filter (\<lambda>d. \<not> (side_name ChildSide d = n \<and> \<not> has_job t ChildSide d)) (w_deps w)"
        by (rule cleanup_done [OF bs]) (use c yes in simp)
      have d2: "deps2 = filter (\<lambda>d. \<not> (side_name ParentSide d = n \<and> \<not> has_job t ParentSide d)) deps1"
        by (rule cleanup_done [OF bs]) (use p yes in simp)
      have "has_job t s d" if "d \<in> set deps2" "side_name s d = n" for s d
        using that by (cases s) (auto simp: d1 d2)
      thus ?thesis using set_exact [OF yes(1)] unfolding queue_swept_def w' world.simps t [symmetric]
        by (auto simp: t)
    qed
    ultimately show ?thesis by blast
  qed
  thus "sweep_sound now {n} w w'" and "fin \<Longrightarrow> queue_swept now n w'" by blast+
qed

text \<open>The budget one queue needs: a batch for each row walked and one to see the end, three times.\<close>

definition sweep_cost :: "world \<Rightarrow> nat" where
  "sweep_cost w = length (w_jobs w) + 2 * length (w_deps w) + 3"

lemma maintainQueue_cost:
  assumes "0 < bsize" "maintainQueue bsize ck now b n w = (w', fin, m)"
  shows "sweep_cost w' \<le> sweep_cost w"
    and "sweep_cost w \<le> b \<Longrightarrow> fin \<and> b \<le> m + sweep_cost w"
proof -
  let ?ro = "retained_on_of n (w_queues w)"
  obtain t cs fd b1 where r: "walk_until (deletion now n bsize ck ?ro (Some (retained_before now))) b None (w_jobs w) = (t, cs, fd, b1)"
    by (metis prod_cases4)
  obtain deps1 c1 children b2 where c: "walk_until (cleanupDependencies t n ChildSide bsize ck) b1 None (w_deps w) = (deps1, c1, children, b2)"
    by (metis prod_cases4)
  obtain deps2 c2 parents b3 where p: "walk_until (cleanupDependencies t n ParentSide bsize ck) b2 None deps1 = (deps2, c2, parents, b3)"
    by (metis prod_cases4)
  have len: "length t \<le> length (w_jobs w)" "length deps1 \<le> length (w_deps w)" "length deps2 \<le> length deps1"
    using deletion_some [OF r] cleanup_some [OF assms(1) c] cleanup_some [OF assms(1) p]
    by (metis length_filter_le)+
  have w': "b \<noteq> 0 \<Longrightarrow> w_jobs w' = t \<and> w_deps w' = deps2 \<and> fin = (fd \<and> children \<and> parents) \<and> m = b3"
    using assms(2) unfolding maintainQueue_def Let_def by (auto simp: r c p simp del: sum_list_eq_0_iff)
  show "sweep_cost w' \<le> sweep_cost w"
  proof (cases "b = 0")
    case True
    thus ?thesis using assms(2) by (simp add: maintainQueue_def)
  qed (use w' len in \<open>simp add: sweep_cost_def\<close>)
  assume cost: "sweep_cost w \<le> b"
  have d: "fd" "b \<le> b1 + length (w_jobs w) + 1"
    using deletion_budget [OF assms(1), of "w_jobs w" b now n ck ?ro "Some (retained_before now)"] cost r
    by (auto simp: sweep_cost_def)
  have e: "children" "b1 \<le> b2 + length (w_deps w) + 1"
    using cleanup_budget [OF assms(1), of "w_deps w" b1 t n ChildSide ck] cost c d(2)
    by (auto simp: sweep_cost_def)
  have "parents" "b2 \<le> b3 + length deps1 + 1"
    using cleanup_budget [OF assms(1), of deps1 b2 t n ParentSide ck] cost p d(2) e(2) len(2)
    by (auto simp: sweep_cost_def)
  thus "fin \<and> b \<le> m + sweep_cost w" using d e w' len(2) cost by (simp add: sweep_cost_def)
qed

section \<open>The pass\<close>

lemma maintain_queues_sound:
  assumes "0 < bsize" "distinct ns" "distinct (map q_name (w_queues w))"
    and "maintain_queues bsize ck now b ns w = (w', rest, m)"
  shows "sweep_sound now (set ns) w w' \<and> (\<exists>pre. ns = pre @ rest \<and> (\<forall>n\<in>set pre. queue_swept now n w'))"
  using assms(2-)
proof (induction ns arbitrary: b w)
  case Nil
  thus ?case by (simp add: sweep_sound_refl)
next
  case (Cons n ns)
  obtain w1 fin b1 where q: "maintainQueue bsize ck now b n w = (w1, fin, b1)" by (metis prod_cases3)
  note one = maintainQueue_sound [OF assms(1) Cons.prems(2) q]
  show ?case
  proof (cases fin)
    case True
    hence rest: "maintain_queues bsize ck now b1 ns w1 = (w', rest, m)" using Cons.prems(3) q by simp
    have "distinct (map q_name (w_queues w1))" using one(1) Cons.prems(2) by (simp add: sweep_sound_def)
    with Cons.IH [OF _ this rest] Cons.prems(1) obtain pre where
      ih: "sweep_sound now (set ns) w1 w'" "ns = pre @ rest" "\<forall>n\<in>set pre. queue_swept now n w'" by auto
    have "queue_swept now n w'"
      using queue_swept_kept [OF ih(1) _ one(2) [OF True]] Cons.prems(1) by simp
    moreover have "sweep_sound now (set (n # ns)) w w'"
      using sweep_sound_trans [OF one(1) ih(1)] by simp
    ultimately show ?thesis using ih by (intro conjI exI [of _ "n # pre"]) auto
  next
    case False
    hence "w' = w1" "rest = n # ns" using Cons.prems(3) q by simp_all
    thus ?thesis using sweep_sound_trans [OF one(1) sweep_sound_refl, of "set ns"] by simp
  qed
qed

lemma maintain_queues_budget:
  assumes "0 < bsize" "length ns * sweep_cost w \<le> b" "maintain_queues bsize ck now b ns w = (w', rest, m)"
  shows "rest = []"
  using assms(2-)
proof (induction ns arbitrary: b w)
  case (Cons n ns)
  obtain w1 fin b1 where q: "maintainQueue bsize ck now b n w = (w1, fin, b1)" by (metis prod_cases3)
  note cost = maintainQueue_cost [OF assms(1) q]
  have "fin" "length ns * sweep_cost w \<le> b1" using cost(2) Cons.prems(1) by auto
  moreover hence "length ns * sweep_cost w1 \<le> b1" using cost(1) by (meson le_trans mult_le_mono2)
  ultimately show ?case using Cons.IH Cons.prems(2) q by simp
qed simp

text \<open>The queues a pass claims.\<close>

definition due_queues :: "str list \<Rightarrow> int \<Rightarrow> bool \<Rightarrow> (str \<Rightarrow> bool) \<Rightarrow> time \<Rightarrow> queue list \<Rightarrow> str set" where
  "due_queues names seconds sl held now qs = set (map q_name (filter (maintain_sel names seconds sl held now) qs))"

lemma maintain_claims:
  "trySetQueueDeletionTime names seconds sl held now qs =
    (upd_where (maintain_sel names seconds sl held now) (\<lambda>q. q\<lparr>q_maintain_on := Some now\<rparr>) qs,
     map (\<lambda>q. (q_name q, now)) (filter (maintain_sel names seconds sl held now) qs))"
  by (simp add: trySetQueueDeletionTime_def Let_def)

lemma maintain_run:
  assumes "0 < budget" "maintain bsize ck names seconds sl held busy rf now budget w = (w', m)"
  obtains w1 w2 rest where
    "w1 = w\<lparr>w_queues := upd_where (maintain_sel names seconds sl held now) (\<lambda>q. q\<lparr>q_maintain_on := Some now\<rparr>) (w_queues w)\<rparr>"
    "maintain_queues bsize ck now budget
      (map q_name (filter (maintain_sel names seconds sl held now) (w_queues w))) w1 = (w2, rest, m)"
    "w' = (if rest = [] \<or> rf then w2
      else w2\<lparr>w_queues := releaseQueueDeletionTime rest now sl busy (w_queues w2)\<rparr>)"
proof -
  let ?w1 = "w\<lparr>w_queues := upd_where (maintain_sel names seconds sl held now) (\<lambda>q. q\<lparr>q_maintain_on := Some now\<rparr>) (w_queues w)\<rparr>"
  obtain w2 rest b where r: "maintain_queues bsize ck now budget
      (map q_name (filter (maintain_sel names seconds sl held now) (w_queues w))) ?w1 = (w2, rest, b)"
    by (metis prod_cases3)
  show ?thesis
    using that [OF refl] r assms by (auto simp: maintain_def maintain_claims o_def)
qed

text \<open>Releasing changes claim stamps only.\<close>

lemma release_rows:
  "map q_name (releaseQueueDeletionTime rest c sl held qs) = map q_name qs"
  "q \<in> set (releaseQueueDeletionTime rest c sl held qs) \<Longrightarrow>
    \<exists>q0\<in>set qs. q_name q = q_name q0 \<and> q_retained_count q = q_retained_count q0 \<and>
      q_retained_on q = q_retained_on q0 \<and>
      q_maintain_on q = (if q_name q0 \<in> set rest \<and> q_maintain_on q0 = Some c \<and> row_free sl held q0
        then None else q_maintain_on q0)"
  unfolding releaseQueueDeletionTime_def
  by (rule map_upd_where_same, simp) (auto simp: upd_where_def)

lemma retained_exact_cong:
  "q_name q = q_name q0 \<Longrightarrow> q_retained_count q = q_retained_count q0 \<Longrightarrow> q_retained_on q = q_retained_on q0 \<Longrightarrow>
    retained_exact t q = retained_exact t q0"
  by (simp add: retained_exact_def cong: option.case_cong)

text \<open>The claim stamp of a queue is the row's, wherever the row stands.\<close>

lemma stamp_of:
  assumes "map q_name qs' = map q_name qs" "map q_maintain_on qs' = map q_maintain_on qs" "q' \<in> set qs'"
  shows "\<exists>q\<in>set qs. q_name q = q_name q' \<and> q_maintain_on q = q_maintain_on q'"
proof -
  obtain i where i: "i < length qs'" "qs' ! i = q'" using assms(3) by (auto simp: in_set_conv_nth)
  moreover have "length qs = length qs'" using assms(1) map_eq_imp_length_eq by metis
  ultimately show ?thesis using assms(1,2) by (metis nth_map nth_mem)
qed

lemma maintain_facts:
  assumes "0 < bsize" "0 < budget" "distinct (map q_name (w_queues w))"
    and "maintain bsize ck names seconds sl held busy rf now budget w = (w', m)"
  defines "C \<equiv> due_queues names seconds sl held now (w_queues w)"
  obtains w1 w2 rest pre where
    "w1 = w\<lparr>w_queues := upd_where (maintain_sel names seconds sl held now) (\<lambda>q. q\<lparr>q_maintain_on := Some now\<rparr>) (w_queues w)\<rparr>"
    "sweep_sound now C w1 w2" "C = set pre \<union> set rest" "set pre \<inter> set rest = {}" "\<forall>n\<in>set pre. queue_swept now n w2"
    "w' = (if rest = [] \<or> rf then w2
      else w2\<lparr>w_queues := releaseQueueDeletionTime rest now sl busy (w_queues w2)\<rparr>)"
    "length (w_queues w) * sweep_cost w \<le> budget \<Longrightarrow> rest = []"
proof -
  let ?ns = "map q_name (filter (maintain_sel names seconds sl held now) (w_queues w))"
  obtain w1 w2 rest where
    w1: "w1 = w\<lparr>w_queues := upd_where (maintain_sel names seconds sl held now) (\<lambda>q. q\<lparr>q_maintain_on := Some now\<rparr>) (w_queues w)\<rparr>"
    and r: "maintain_queues bsize ck now budget ?ns w1 = (w2, rest, m)"
    and w': "w' = (if rest = [] \<or> rf then w2
      else w2\<lparr>w_queues := releaseQueueDeletionTime rest now sl busy (w_queues w2)\<rparr>)"
    using maintain_run [OF assms(2,4)] by blast
  have dn: "distinct ?ns" using assms(3) by (rule distinct_filter_map)
  have d1: "distinct (map q_name (w_queues w1))" using assms(3) by (simp add: w1 distinct_map_upd_where)
  have C: "C = set ?ns" by (auto simp: C_def due_queues_def)
  obtain pre where pre: "sweep_sound now (set ?ns) w1 w2" "?ns = pre @ rest" "\<forall>n\<in>set pre. queue_swept now n w2"
    using maintain_queues_sound [OF assms(1) dn d1 r] by blast
  have "length ?ns * sweep_cost w1 \<le> length (w_queues w) * sweep_cost w"
    by (rule mult_le_mono) (simp_all add: w1 sweep_cost_def)
  hence "length (w_queues w) * sweep_cost w \<le> budget \<Longrightarrow> rest = []"
    using maintain_queues_budget [OF assms(1) _ r] by linarith
  thus ?thesis using that [OF w1] pre C w' dn by (metis distinct_append set_append)
qed

text \<open>(C13) A pass may be stopped at any batch without harm: it deletes only expired jobs of the queues
  it claimed and only dependency rows one of whose jobs is gone, it keeps the retained count of every
  queue exact, and every queue it claimed was swept to its end, or is free to be claimed by the next pass at
  once, or its release was lost, to another session's lock or to an error, and it keeps the stamp of this
  pass, which lapses with the interval.  Other sessions change nothing else while the pass runs.\<close>

theorem maintenance_stop_safe:
  assumes "0 < bsize" "0 < budget" "distinct (map q_name (w_queues w))"
    and "\<forall>q\<in>set (w_queues w). retained_exact (w_jobs w) q"
    and "maintain bsize ck names seconds sl held busy rf now budget w = (w', m)"
  shows "set (w_jobs w') \<subseteq> set (w_jobs w) \<and>
    (\<forall>j\<in>set (w_jobs w) - set (w_jobs w'). retention_expired now j \<and>
       job_name j \<in> due_queues names seconds sl held now (w_queues w)) \<and>
    (\<forall>d\<in>set (w_deps w) - set (w_deps w'). \<exists>s. \<not> has_job (w_jobs w') s d) \<and>
    (\<forall>q\<in>set (w_queues w'). retained_exact (w_jobs w') q \<and>
       (q_name q \<in> due_queues names seconds sl held now (w_queues w) \<longrightarrow>
          queue_swept now (q_name q) w' \<or> q_maintain_on q = None \<or>
          q_maintain_on q = Some now \<and> (rf \<or> sl \<and> busy (q_name q))))"
proof -
  let ?C = "due_queues names seconds sl held now (w_queues w)"
  let ?sel = "maintain_sel names seconds sl held now"
  obtain w1 w2 rest pre where
    w1: "w1 = w\<lparr>w_queues := upd_where ?sel (\<lambda>q. q\<lparr>q_maintain_on := Some now\<rparr>) (w_queues w)\<rparr>"
    and snd: "sweep_sound now ?C w1 w2" and C: "?C = set pre \<union> set rest"
    and sw: "\<forall>n\<in>set pre. queue_swept now n w2"
    and w': "w' = (if rest = [] \<or> rf then w2
      else w2\<lparr>w_queues := releaseQueueDeletionTime rest now sl busy (w_queues w2)\<rparr>)"
    using maintain_facts [OF assms(1,2,3,5)] by metis
  have same: "w_jobs w' = w_jobs w2" "w_deps w' = w_deps w2" by (simp_all add: w')
  have ex1: "\<forall>q\<in>set (w_queues w1). retained_exact (w_jobs w1) q"
    using assms(4) by (auto simp: w1 set_upd_where retained_exact_def split: option.splits)
  have row: "\<exists>q0\<in>set (w_queues w2). q_name q = q_name q0 \<and> q_retained_count q = q_retained_count q0 \<and>
      q_retained_on q = q_retained_on q0 \<and>
      q_maintain_on q = (if \<not> rf \<and> q_name q0 \<in> set rest \<and> q_maintain_on q0 = Some now \<and> row_free sl busy q0
        then None else q_maintain_on q0)" if "q \<in> set (w_queues w')" for q
    using that release_rows(2) [of q rest now sl busy "w_queues w2"] by (auto simp: w' split: if_splits)
  have exact: "retained_exact (w_jobs w') q" if q: "q \<in> set (w_queues w')" for q
  proof -
    obtain q0 where "q0 \<in> set (w_queues w2)" "q_name q = q_name q0" "q_retained_count q = q_retained_count q0"
      "q_retained_on q = q_retained_on q0" using row [OF q] by blast
    thus ?thesis using snd ex1 retained_exact_cong same unfolding sweep_sound_def by metis
  qed
  have swept': "queue_swept now n w'" if "n \<in> set pre" for n
  proof -
    have "queue_swept now n w2" using sw that by blast
    thus ?thesis using row exact same unfolding queue_swept_def by metis
  qed
  let ?handed = "\<lambda>q. q_maintain_on q = None \<or> q_maintain_on q = Some now \<and> (rf \<or> sl \<and> busy (q_name q))"
  have free: "?handed q" if q: "q \<in> set (w_queues w')" "q_name q \<in> set rest" for q
  proof -
    obtain q0 where q0: "q0 \<in> set (w_queues w2)" "q_name q = q_name q0"
      "q_maintain_on q = (if \<not> rf \<and> q_name q0 \<in> set rest \<and> q_maintain_on q0 = Some now \<and> row_free sl busy q0
        then None else q_maintain_on q0)" using row [OF q(1)] by blast
    obtain q1 where q1: "q1 \<in> set (w_queues w1)" "q_name q1 = q_name q0" "q_maintain_on q1 = q_maintain_on q0"
      using stamp_of [OF _ _ q0(1)] snd unfolding sweep_sound_def by metis
    have "q_name q0 \<in> ?C" using C q(2) q0(2) by auto
    then obtain q2 where q2: "q2 \<in> set (w_queues w)" "?sel q2" "q_name q2 = q_name q0"
      by (auto simp: due_queues_def)
    hence "q2\<lparr>q_maintain_on := Some now\<rparr> \<in> set (w_queues w1)" by (auto simp: w1 set_upd_where)
    moreover have "distinct (map q_name (w_queues w1))" using assms(3) by (simp add: w1 distinct_map_upd_where)
    ultimately have "q1 = q2\<lparr>q_maintain_on := Some now\<rparr>"
      using distinct_map_inj [of q_name "w_queues w1" q1 "q2\<lparr>q_maintain_on := Some now\<rparr>"] q1 q2(3) by simp
    hence "q_maintain_on q0 = Some now" using q1(3) by simp
    thus ?thesis using q0 q(2) by (auto simp: row_free_def)
  qed
  have jobs: "set (w_jobs w') \<subseteq> set (w_jobs w)" "\<forall>j\<in>set (w_jobs w) - set (w_jobs w'). retention_expired now j"
    and fj: "filter (\<lambda>j. job_name j \<notin> ?C) (w_jobs w') = filter (\<lambda>j. job_name j \<notin> ?C) (w_jobs w)"
    and deps: "\<forall>d\<in>set (w_deps w) - set (w_deps w'). \<exists>s. \<not> has_job (w_jobs w') s d"
    using snd unfolding sweep_sound_def same by (simp_all add: w1) blast
  have inC: "job_name j \<in> ?C" if "j \<in> set (w_jobs w) - set (w_jobs w')" for j
  proof (rule ccontr)
    assume "job_name j \<notin> ?C"
    hence "j \<in> set (filter (\<lambda>j. job_name j \<notin> ?C) (w_jobs w))" using that by simp
    thus False using that by (simp add: fj [symmetric])
  qed
  have fr: "q_name q \<in> ?C \<longrightarrow> queue_swept now (q_name q) w' \<or> ?handed q"
    if "q \<in> set (w_queues w')" for q
    using swept' [of "q_name q"] free [OF that] by (auto simp: C)
  show ?thesis
  proof (intro conjI)
    show "\<forall>j\<in>set (w_jobs w) - set (w_jobs w'). retention_expired now j \<and> job_name j \<in> ?C"
      using jobs(2) inC by simp
    show "\<forall>q\<in>set (w_queues w'). retained_exact (w_jobs w') q \<and>
        (q_name q \<in> ?C \<longrightarrow> queue_swept now (q_name q) w' \<or> ?handed q)"
      using exact fr by simp
  qed (rule jobs(1) deps)+
qed

text \<open>(C14) Maintenance keeps its promise when it is left to run: with budget for every row of every
  queue, a pass sweeps each queue it claims to the end, so that none holds an expired job or a
  dependency row without its job, each has its retained count taken anew, and each stays claimed for the
  interval.\<close>

theorem maintenance_completes:
  assumes "0 < bsize" "0 < budget" "distinct (map q_name (w_queues w))"
    and "length (w_queues w) * sweep_cost w \<le> budget"
  shows "\<exists>w' m. maintain bsize ck names seconds sl held busy rf now budget w = (w', m) \<and>
    (\<forall>n\<in>due_queues names seconds sl held now (w_queues w). queue_swept now n w') \<and>
    (\<forall>q\<in>set (w_queues w'). q_name q \<in> due_queues names seconds sl held now (w_queues w) \<longrightarrow>
       q_maintain_on q = Some now)"
proof -
  let ?C = "due_queues names seconds sl held now (w_queues w)"
  let ?sel = "maintain_sel names seconds sl held now"
  obtain w' m where run: "maintain bsize ck names seconds sl held busy rf now budget w = (w', m)" by (metis surj_pair)
  obtain w1 w2 rest pre where
    w1: "w1 = w\<lparr>w_queues := upd_where ?sel (\<lambda>q. q\<lparr>q_maintain_on := Some now\<rparr>) (w_queues w)\<rparr>"
    and snd: "sweep_sound now ?C w1 w2" and C: "?C = set pre \<union> set rest"
    and sw: "\<forall>n\<in>set pre. queue_swept now n w2"
    and w': "w' = (if rest = [] \<or> rf then w2
      else w2\<lparr>w_queues := releaseQueueDeletionTime rest now sl busy (w_queues w2)\<rparr>)"
    and "rest = []"
    using maintain_facts [OF assms(1,2,3) run] assms(4) by metis
  hence w2: "w' = w2" "?C = set pre" by simp_all
  have "q_maintain_on q = Some now" if q: "q \<in> set (w_queues w2)" "q_name q \<in> ?C" for q
  proof -
    obtain q1 where q1: "q1 \<in> set (w_queues w1)" "q_name q1 = q_name q" "q_maintain_on q1 = q_maintain_on q"
      using stamp_of [OF _ _ q(1)] snd unfolding sweep_sound_def by metis
    obtain q2 where q2: "q2 \<in> set (w_queues w)" "?sel q2" "q_name q2 = q_name q"
      using q(2) by (auto simp: due_queues_def)
    obtain q3 where q3: "q3 \<in> set (w_queues w)" "q1 = (if ?sel q3 then q3\<lparr>q_maintain_on := Some now\<rparr> else q3)"
      using q1(1) by (auto simp: w1 upd_where_def)
    have "q3 = q2" using distinct_map_inj [OF assms(3) q3(1) q2(1)] q1(2) q2(3) q3(2) by (auto split: if_splits)
    thus ?thesis using q3(2) q2(2) q1(3) by simp
  qed
  thus ?thesis using run sw w2 by blast
qed

section \<open>Why the expiry sweeps end\<close>

text \<open>The contract of a sweep's batch: it takes what it counts, and a batch that is not full leaves
  nothing.\<close>

locale full_batches =
  fixes batch :: "'s \<Rightarrow> 'e + ('s \<times> nat)"
    and limit :: nat
    and left :: "'s \<Rightarrow> nat"
  assumes takes: "batch s = Inr (s', k) \<Longrightarrow> left s' + k \<le> left s"
    and short: "batch s = Inr (s', k) \<Longrightarrow> k < limit \<Longrightarrow> left s' = 0"
    and limit_pos: "0 < limit"
begin

lemma sweep_ends:
  "repeatWhileFull limit batch n s = Inr (s', m) \<Longrightarrow> left s < n \<Longrightarrow> left s' = 0 \<and> n \<le> m + left s + 1"
proof (induction n arbitrary: s)
  case (Suc n)
  then obtain s1 k where b: "batch s = Inr (s1, k)" by (auto simp: and_then_Inr_iff)
  show ?case
  proof (cases "k < limit")
    case True
    thus ?thesis using Suc.prems b short by auto
  next
    case False
    hence "left s1 < left s" using takes [OF b] limit_pos by linarith
    thus ?thesis using Suc b False by fastforce
  qed
qed simp

end

lemma repeatWhileFull_mono:
  fixes f :: "'s \<Rightarrow> nat"
  assumes "\<And>s s' k. batch s = Inr (s', k) \<Longrightarrow> f s' \<le> f s"
  shows "repeatWhileFull limit batch n s = Inr (s', m) \<Longrightarrow> f s' \<le> f s"
proof (induction n arbitrary: s)
  case (Suc n)
  then obtain s1 k where b: "batch s = Inr (s1, k)" by (auto simp: and_then_Inr_iff)
  show ?case
  proof (cases "k < limit")
    case True
    thus ?thesis using Suc.prems b assms [OF b] by simp
  next
    case False
    hence "repeatWhileFull limit batch n s1 = Inr (s', m)" using Suc.prems b by simp
    thus ?thesis using Suc.IH assms [OF b] by fastforce
  qed
qed simp

lemma expired_active: "timedOut ns now j \<Longrightarrow> state j = Active" "heartbeatLost ns now j \<Longrightarrow> state j = Active"
  by (simp_all add: timedOut_def heartbeatLost_def)

lemma expireJobs_mono:
  assumes act: "\<And>j. p j \<Longrightarrow> state j = Active"
    and "expireJobs qs new_id now rnd q out limit t = Inr (t', k)"
  shows "length (filter p t') \<le> length (filter p t)"
proof -
  obtain sel rs where "failJobsBody qs new_id now rnd sel (\<lambda>_. out) False t = Inr (t', rs)"
    using assms(2) by (auto simp: expireJobs_def Let_def and_then_Inr_iff)
  hence "filter p t' = filter p (filter (\<lambda>j. \<not> sel j) t)" using failJobsBody_active [of p] act by blast
  thus ?thesis by (auto intro: length_filter_mono)
qed

lemma sweep_contract:
  assumes act: "\<And>j. p j \<Longrightarrow> state j = Active" and "0 < limit"
  shows "full_batches (expireJobs qs new_id now rnd p out limit) limit (\<lambda>t. length (filter p t))"
proof
  fix t t' k assume run: "expireJobs qs new_id now rnd p out limit t = Inr (t', k)"
  note p = expireJobs_progress [OF act run]
  show "length (filter p t') + k \<le> length (filter p t)" by (rule p(1))
  assume "k < limit"
  thus "length (filter p t') = 0" using p by linarith
qed (rule assms(2))

interpretation timeout_sweep: full_batches "failJobsByTimeout qs new_id queues now rnd (Suc l)" "Suc l"
  "\<lambda>t. length (filter (timedOut queues now) t)"
  using sweep_contract [OF expired_active(1)] by (simp add: failJobsByTimeout_def [abs_def])

interpretation heartbeat_sweep: full_batches "failJobsByHeartbeat qs new_id queues now rnd (Suc l)" "Suc l"
  "\<lambda>t. length (filter (heartbeatLost queues now) t)"
  using sweep_contract [OF expired_active(2)] by (simp add: failJobsByHeartbeat_def [abs_def])

text \<open>(C15) The expiry sweeps of a monitor pass end and leave nothing expired: repeating full batches,
  with budget for one batch per expired job and two more, the pass ends with no job of its queues past
  its expiration and none whose heartbeat is lost, and with budget to spare.\<close>

theorem expiry_sweeps_end:
  assumes "0 < limit"
    and "length (filter (timedOut queues now) t) + length (filter (heartbeatLost queues now) t) + 2 < budget"
    and "monitor_expiry False qs new_id queues now rnd limit budget t = Inr (t', m)"
  shows "filter (timedOut queues now) t' = [] \<and> filter (heartbeatLost queues now) t' = [] \<and> 0 < m"
proof -
  obtain l where l: "limit = Suc l" using assms(1) by (cases limit) simp_all
  obtain t1 b where s1: "repeatWhileFull limit (failJobsByTimeout qs new_id queues now rnd limit) budget t = Inr (t1, b)"
    and s2: "repeatWhileFull limit (failJobsByHeartbeat qs new_id queues now rnd limit) b t1 = Inr (t', m)"
    using assms(3) by (auto simp: monitor_expiry_def and_then_Inr_iff)
  have one: "length (filter (timedOut queues now) t1) = 0"
    "budget \<le> b + length (filter (timedOut queues now) t) + 1"
    using timeout_sweep.sweep_ends [OF s1 [unfolded l]] assms(2) by simp_all
  have hb: "length (filter (heartbeatLost queues now) t1) \<le> length (filter (heartbeatLost queues now) t)"
    by (rule repeatWhileFull_mono [OF _ s1], unfold failJobsByTimeout_def) (rule expireJobs_mono [OF expired_active(2)])
  have two: "length (filter (heartbeatLost queues now) t') = 0"
    "b \<le> m + length (filter (heartbeatLost queues now) t1) + 1"
    using heartbeat_sweep.sweep_ends [OF s2 [unfolded l]] assms(2) one(2) hb by simp_all
  have "length (filter (timedOut queues now) t') \<le> length (filter (timedOut queues now) t1)"
    by (rule repeatWhileFull_mono [OF _ s2], unfold failJobsByHeartbeat_def) (rule expireJobs_mono [OF expired_active(1)])
  thus ?thesis using one two hb assms(2) by simp
qed

lemma expiry_sweeps_end_witness:
  "\<exists>t' m. monitor_expiry False [] (\<lambda>_. 7) [''q''] (2000 * second) (\<lambda>_. 0) 1 9 [sample_failing] = Inr (t', m) \<and>
    filter (timedOut [''q''] (2000 * second)) t' = [] \<and> 0 < m"
proof -
  let ?j = "retried_row False (message_output ''job timed out'') (2000 * second) 0 sample_failing"
  have t1: "failJobsByTimeout [] (\<lambda>_. 7) [''q''] (2000 * second) (\<lambda>_. 0) 1 [sample_failing] = Inr ([?j], 1)"
    by (simp add: failJobsByTimeout_def expireJobs_def timedOut_def failJobsBody_def run_delete_def
        sample_failing_def sample_job_def job_defaults_def run_insert_skip_def key_check_def
        retried_row_def can_retry_def run_insert_def check_table_def dlq_rows_def)
  have t2: "failJobsByTimeout [] (\<lambda>_. 7) [''q''] (2000 * second) (\<lambda>_. 0) 1 [?j] = Inr ([?j], 0)"
    "failJobsByHeartbeat [] (\<lambda>_. 7) [''q''] (2000 * second) (\<lambda>_. 0) 1 [?j] = Inr ([?j], 0)"
    by (simp_all add: failJobsByTimeout_def failJobsByHeartbeat_def expireJobs_def timedOut_def heartbeatLost_def
        failJobsBody_def run_delete_def sample_failing_def sample_job_def job_defaults_def run_insert_skip_def
        key_check_def retried_row_def can_retry_def run_insert_def check_table_def dlq_rows_def)
  have run: "monitor_expiry False [] (\<lambda>_. 7) [''q''] (2000 * second) (\<lambda>_. 0) 1 9 [sample_failing] = Inr ([?j], 6)"
    using t1 t2 by (simp add: monitor_expiry_def numeral_eq_Suc)
  have small: "length (filter p [sample_failing]) \<le> 1" for p by simp
  show ?thesis
    using expiry_sweeps_end [OF _ _ run] small [of "timedOut [''q''] (2000 * second)"]
      small [of "heartbeatLost [''q''] (2000 * second)"] run by fastforce
qed

text \<open>A queue with a finished job past its deletion time and a dependency row that has lost both jobs.\<close>

definition sample_world :: world where
  "sample_world = \<lparr>w_jobs = [complete_chg None False 3 (sample_job 1 ''q'' 2)],
     w_deps = [\<lparr>child_name = ''q'', child_id = 8, parent_name = ''q'', parent_id = 9\<rparr>],
     w_queues = [queue_defaults ''q'' Standard ''job_common'' 0
       \<lparr>q_retained_count := Some 1, q_retained_on := Some 5\<rparr>]\<rparr>"

lemma sample_world_ok:
  "distinct (map q_name (w_queues sample_world))"
  "\<forall>q\<in>set (w_queues sample_world). retained_exact (w_jobs sample_world) q"
  "due_queues [''q''] 60 False h now (w_queues sample_world) = {''q''}"
  "length (w_queues sample_world) * sweep_cost sample_world = 6"
  by (simp_all add: sample_world_def queue_defaults_def retained_exact_def counted_def complete_chg_def
      sample_job_def job_defaults_def retained_state_def on_or_before_def due_queues_def maintain_sel_def
      interval_due_def row_free_def sweep_cost_def)

lemma maintenance_stop_safe_witness:
  "\<exists>w' m. maintain 1 True [''q''] 60 False (\<lambda>_. False) (\<lambda>_. False) False (10 ^ 13) 1 sample_world = (w', m) \<and>
    list_all (retained_exact (w_jobs w')) (w_queues w') \<and> set (w_jobs w') \<subseteq> set (w_jobs sample_world)"
proof -
  obtain w' m where run: "maintain 1 True [''q''] 60 False (\<lambda>_. False) (\<lambda>_. False) False (10 ^ 13) 1 sample_world = (w', m)"
    by (metis surj_pair)
  from maintenance_stop_safe [OF _ _ sample_world_ok(1,2) run] run show ?thesis
    by (auto simp: list_all_iff)
qed

lemma maintenance_completes_witness:
  "\<exists>w' m. maintain 1 True [''q''] 60 False (\<lambda>_. False) (\<lambda>_. False) False (10 ^ 13) 6 sample_world = (w', m) \<and>
    queue_swept (10 ^ 13) ''q'' w'"
  using maintenance_completes [of 1 6 sample_world True "[''q'']" 60 False "\<lambda>_. False" "\<lambda>_. False" False "10 ^ 13"] sample_world_ok
  by auto

end
