(* ===== verification/Redrive.thy ===== *)
theory Redrive
  imports Fail_Props Queues
begin

text \<open>
  Dead letter redrive: \<^verbatim>\<open>redriveJobs\<close>, \<^verbatim>\<open>previewRedrive\<close> and the statements of the
  distributed form in \<^verbatim>\<open>src/src/plans.ts\<close>, with \<^verbatim>\<open>redrive()\<close> and
  \<^verbatim>\<open>previewRedrive()\<close> of \<^verbatim>\<open>src/src/manager.ts\<close>.

  A candidate's new id is a function of its row; the rows another session has locked are a predicate.
  The rows the insert created are found by their new ids, as the statement finds them.
\<close>

section \<open>The filter\<close>

text \<open>\<^verbatim>\<open>jsonb @> jsonb\<close>.  Scalars match their equals, an object the objects that hold its pairs,
  an array the arrays that hold its elements.  (A top-level array also contains a scalar; the filter is
  always an object.)\<close>

fun json_contains :: "json \<Rightarrow> json \<Rightarrow> bool" where
  "json_contains (JObj a) (JObj b) = list_all (\<lambda>kv. case map_of a (fst kv) of None \<Rightarrow> False
     | Some v \<Rightarrow> json_contains v (snd kv)) b"
| "json_contains (JArr a) (JArr b) = list_all (\<lambda>y. list_ex (\<lambda>x. json_contains x y) a) b"
| "json_contains a b = (a = b)"

record redrive_filter =
  rf_destination :: "str option"
  rf_source_name :: "str option"
  rf_data :: "json option"
  rf_created_before :: "time option"
  rf_ids :: "uuid list option"

text \<open>The check of the options, as far as their types leave it open.\<close>

datatype redrive_error =
    RedriveQueue queue_error
  | RedriveSql sql_error
  | DataNotObject
  | EmptyIds
  | BadLimit

definition lift_redrive :: "queue_error + 'a \<Rightarrow> redrive_error + 'a" where
  "lift_redrive r = (case r of Inl e \<Rightarrow> Inl (RedriveQueue e) | Inr x \<Rightarrow> Inr x)"

definition assert_optional_name :: "str option \<Rightarrow> redrive_error + unit" where
  "assert_optional_name n = (case n of None \<Rightarrow> Inr () | Some m \<Rightarrow> lift_redrive (assertQueueName m))"

definition redriveFilterValues :: "redrive_filter \<Rightarrow> redrive_error + redrive_filter" where
  "redriveFilterValues f =
     and_then (assert_optional_name (rf_destination f)) (\<lambda>_.
     and_then (assert_optional_name (rf_source_name f)) (\<lambda>_.
     and_then (ensure (case rf_data f of None \<Rightarrow> True | Some d \<Rightarrow> (case d of JObj _ \<Rightarrow> True | _ \<Rightarrow> False)) DataNotObject) (\<lambda>_.
     and_then (ensure (case rf_ids f of None \<Rightarrow> True | Some is \<Rightarrow> is \<noteq> []) EmptyIds) (\<lambda>_.
       Inr f))))"

text \<open>\<^verbatim>\<open>redriveWhere\<close>.\<close>

definition key_held :: "job list \<Rightarrow> job \<Rightarrow> bool" where
  "key_held t j = list_ex (\<lambda>k. policy j = Some KeyStrictFifo \<and> job_name k = job_name j \<and>
     singleton_key k \<noteq> None \<and> singleton_key k = singleton_key j \<and> policy k = Some KeyStrictFifo \<and>
     state k \<in> {Active, Retry, Failed}) t"

definition redriveWhere :: "str \<Rightarrow> redrive_filter \<Rightarrow> job list \<Rightarrow> job \<Rightarrow> bool" where
  "redriveWhere n f t j = (job_name j = n \<and> state j < Active \<and> \<not> key_held t j \<and>
     (case rf_source_name f of None \<Rightarrow> True | Some s \<Rightarrow> source_name j = Some s) \<and>
     (case rf_data f of None \<Rightarrow> True | Some d \<Rightarrow>
        (case job_data j of None \<Rightarrow> False | Some v \<Rightarrow> json_contains v d)) \<and>
     (case rf_created_before f of None \<Rightarrow> True | Some b \<Rightarrow> created_on j < b) \<and>
     (case rf_ids f of None \<Rightarrow> True | Some is \<Rightarrow> job_id j \<in> set is))"

text \<open>The queue a job goes to, when it exists: the join on \<^verbatim>\<open>COALESCE($2, source_name)\<close>.\<close>

definition redrive_queue :: "queue list \<Rightarrow> redrive_filter \<Rightarrow> job \<Rightarrow> queue option" where
  "redrive_queue qs f j = (case coalesce_opt (rf_destination f) (source_name j) of None \<Rightarrow> None
     | Some d \<Rightarrow> find_queue d qs)"

section \<open>The statements\<close>

text \<open>\<^verbatim>\<open>REDRIVE_INSERT_COLUMNS\<close> and \<^verbatim>\<open>redriveInsertValues\<close>.\<close>

definition redriven_row :: "uuid \<Rightarrow> queue \<Rightarrow> time \<Rightarrow> job \<Rightarrow> job" where
  "redriven_row new_id q now m = (job_defaults new_id (q_name q) now)\<lparr>
     job_data := job_data m,
     priority := priority m,
     retry_limit := q_retry_limit q,
     retry_backoff := q_retry_backoff q,
     retry_delay := q_retry_delay q,
     retry_delay_max := q_retry_delay_max q,
     expire_seconds := q_expire_seconds q,
     start_after := now,
     created_on := now,
     keep_until := now + q_retention_seconds q * second,
     deletion_seconds := q_deletion_seconds q,
     policy := Some (q_policy q),
     singleton_key := singleton_key m,
     group_id := group_id m,
     group_tier := group_tier m,
     heartbeat_seconds := q_heartbeat_seconds q,
     dead_letter := q_dead_letter q,
     source_root_id := coalesce_opt (source_root_id m) (source_id m),
     trace_context := trace_context m\<rparr>"

definition redrive_rows :: "queue list \<Rightarrow> redrive_filter \<Rightarrow> (job \<Rightarrow> uuid) \<Rightarrow> time \<Rightarrow> job list \<Rightarrow> job list" where
  "redrive_rows qs f new_id now cs = concat (map (\<lambda>m. case redrive_queue qs f m of None \<Rightarrow> []
     | Some q \<Rightarrow> [redriven_row (new_id m) q now m]) cs)"

text \<open>\<^verbatim>\<open>redriveConflictSet\<close>.\<close>

definition conflict_message :: "queue \<Rightarrow> job \<Rightarrow> str" where
  "conflict_message q j = ''Not redriven: queue '' @ q_name q @
     (case singleton_key j of None \<Rightarrow> '' already has a job this one conflicts with''
      | Some k \<Rightarrow> '' already has a job with singletonKey '' @ k) @
     '' under its '' @ policy_text (q_policy q) @ '' policy''"

definition conflict_output :: "queue \<Rightarrow> job \<Rightarrow> json" where
  "conflict_output q j = JObj [
     (''message'', JStr (conflict_message q j)),
     (''reason'', JStr ''redrive_conflict''),
     (''destination'', JStr (q_name q)),
     (''policy'', JStr (policy_text (q_policy q))),
     (''singletonKey'', case singleton_key j of None \<Rightarrow> JNull | Some k \<Rightarrow> JStr k)]"

definition conflicted_row :: "queue list \<Rightarrow> redrive_filter \<Rightarrow> time \<Rightarrow> job \<Rightarrow> job" where
  "conflicted_row qs f now j = (case redrive_queue qs f j of None \<Rightarrow> j
     | Some q \<Rightarrow> j\<lparr>state := Failed, completed_on := Some now,
         source_output := coalesce_opt (source_output j) (job_output j),
         job_output := Some (conflict_output q j)\<rparr>)"

text \<open>\<^verbatim>\<open>redriveConflictFailable\<close>: \<^verbatim>\<open>DISTINCT ON\<close> the key, the oldest of each.\<close>

definition oldest_of_key :: "job list \<Rightarrow> job \<Rightarrow> bool" where
  "oldest_of_key cs j = (j \<in> set cs \<and> policy j = Some KeyStrictFifo \<and>
     list_all (\<lambda>m. policy m = Some KeyStrictFifo \<and> singleton_key m = singleton_key j \<longrightarrow>
       (created_on j, job_id j) \<le> (created_on m, job_id m)) cs)"

definition redriveConflictFailable :: "job list \<Rightarrow> job \<Rightarrow> bool" where
  "redriveConflictFailable cs j = (policy j \<noteq> Some KeyStrictFifo \<or> singleton_key j = None \<or>
     job_id j \<in> job_id ` set (filter (oldest_of_key cs) cs))"

definition fail_conflicts ::
  "str \<Rightarrow> queue list \<Rightarrow> redrive_filter \<Rightarrow> time \<Rightarrow> uuid list \<Rightarrow> job list \<Rightarrow> sql_error + job list" where
  "fail_conflicts n qs f now ids t = (
     let cs = filter (\<lambda>m. job_name m = n \<and> job_id m \<in> set ids) t
     in and_then (run_update (\<lambda>j. job_name j = n \<and> job_id j \<in> set ids \<and>
          redrive_queue qs f j \<noteq> None \<and> redriveConflictFailable cs j) (conflicted_row qs f now) t)
        (\<lambda>(t', _). Inr t'))"

definition redrive_candidates ::
  "str \<Rightarrow> queue list \<Rightarrow> redrive_filter \<Rightarrow> nat \<Rightarrow> (uuid \<Rightarrow> bool) \<Rightarrow> job list \<Rightarrow> job list" where
  "redrive_candidates n qs f limit locked t = take limit (filter (\<lambda>j. \<not> locked (job_id j))
     (sort_key created_on (filter (\<lambda>j. redriveWhere n f t j \<and> redrive_queue qs f j \<noteq> None) t)))"

definition redriveJobs ::
  "str \<Rightarrow> queue list \<Rightarrow> redrive_filter \<Rightarrow> nat \<Rightarrow> (uuid \<Rightarrow> bool) \<Rightarrow> (job \<Rightarrow> uuid) \<Rightarrow> time \<Rightarrow> job list \<Rightarrow>
   nat statement" where
  "redriveJobs n qs f limit locked new_id now t = (
     let cs = redrive_candidates n qs f limit locked t in
     and_then (run_insert_skip (redrive_rows qs f new_id now cs) t) (\<lambda>(t1, ins).
       let inserted = (\<lambda>m. new_id m \<in> set (map job_id ins));
           t2 = fst (run_delete (\<lambda>j. job_name j = n \<and> job_id j \<in> set (map job_id (filter inserted cs))) t1)
       in and_then (fail_conflicts n qs f now (map job_id (filter (\<lambda>m. \<not> inserted m) cs)) t2)
            (\<lambda>t3. Inr (t3, length ins))))"

text \<open>The distributed form: the same steps as statements of one transaction, without
  \<^verbatim>\<open>SKIP LOCKED\<close>.\<close>

definition redriveDistributed ::
  "str \<Rightarrow> queue list \<Rightarrow> redrive_filter \<Rightarrow> nat \<Rightarrow> (job \<Rightarrow> uuid) \<Rightarrow> time \<Rightarrow> job list \<Rightarrow> nat statement" where
  "redriveDistributed n qs f limit new_id now t = (
     let cs = redrive_candidates n qs f limit (\<lambda>_. False) t in
     if cs = [] then Inr (t, 0) else
     and_then (run_insert_skip (redrive_rows qs f new_id now cs) t) (\<lambda>(t1, ins).
       let moved = filter (\<lambda>m. new_id m \<in> set (map job_id ins)) cs;
           conflicted = filter (\<lambda>m. new_id m \<notin> set (map job_id ins)) cs;
           t2 = (if moved = [] then t1 else deleteJobsByIds (map (\<lambda>m. (n, job_id m)) moved) t1)
       in and_then (if conflicted = [] then Inr t2 else fail_conflicts n qs f now (map job_id conflicted) t2)
            (\<lambda>t3. Inr (t3, length moved))))"

definition redrive ::
  "bool \<Rightarrow> str \<Rightarrow> queue list \<Rightarrow> redrive_filter \<Rightarrow> int \<Rightarrow> (uuid \<Rightarrow> bool) \<Rightarrow> (job \<Rightarrow> uuid) \<Rightarrow> time \<Rightarrow> job list \<Rightarrow>
   redrive_error + (job list \<times> nat)" where
  "redrive noMultiMutationCte n qs f limit locked new_id now t =
     and_then (lift_redrive (assertQueueName n)) (\<lambda>_.
     and_then (redriveFilterValues f) (\<lambda>f.
     and_then (ensure (limit \<ge> 1) BadLimit) (\<lambda>_.
     and_then (lift_redrive (getQueueCache qs n)) (\<lambda>_.
       case (if noMultiMutationCte then redriveDistributed n qs f (nat limit) new_id now t
             else redriveJobs n qs f (nat limit) locked new_id now t) of
         Inl e \<Rightarrow> Inl (RedriveSql e) | Inr x \<Rightarrow> Inr x))))"

section \<open>The preview\<close>

text \<open>\<^verbatim>\<open>previewRedrive\<close>: up to the limit of the jobs a redrive would take, and up to the limit of
  those it would leave for want of a queue.\<close>

definition previewRedrive :: "str \<Rightarrow> queue list \<Rightarrow> redrive_filter \<Rightarrow> nat \<Rightarrow> job list \<Rightarrow> str option list" where
  "previewRedrive n qs f limit t = (
     let js = filter (redriveWhere n f t) t in
     take limit (map (\<lambda>j. map_option q_name (redrive_queue qs f j)) (filter (\<lambda>j. redrive_queue qs f j \<noteq> None) js)) @
     take limit (map (\<lambda>_. None) (filter (\<lambda>j. redrive_queue qs f j = None) js)))"

record redrive_preview =
  rp_total :: nat
  rp_destinations :: "(str \<times> nat) list"
  rp_unroutable :: nat

text \<open>The counts in the order JavaScript's \<^verbatim>\<open>Map\<close> gives them, sorted by count downwards; names of one
  count by \<^verbatim>\<open>localeCompare\<close>, a parameter.\<close>

definition previewRedrive_result :: "((str \<times> nat) list \<Rightarrow> (str \<times> nat) list) \<Rightarrow> str option list \<Rightarrow> redrive_preview" where
  "previewRedrive_result by_name rows = (
     let names = concat (map (\<lambda>r. case r of None \<Rightarrow> [] | Some d \<Rightarrow> [d]) rows)
     in \<lparr>rp_total = length rows,
         rp_destinations = sort_key (\<lambda>(_, c). - int c)
           (by_name (map (\<lambda>d. (d, length (filter (\<lambda>x. x = d) names))) (uniq names))),
         rp_unroutable = length (filter (\<lambda>r. r = None) rows)\<rparr>)"

section \<open>What a redrive does to each candidate\<close>

definition redriven :: "queue list \<Rightarrow> redrive_filter \<Rightarrow> (job \<Rightarrow> uuid) \<Rightarrow> time \<Rightarrow> job \<Rightarrow> job" where
  "redriven qs f new_id now m = redriven_row (new_id m) (the (redrive_queue qs f m)) now m"

lemma redriven_id [simp]: "job_id (redriven qs f new_id now m) = new_id m"
  by (simp add: redriven_def redriven_row_def job_defaults_def)

lemma redriven_created [simp]: "state (redriven qs f new_id now m) = Created"
  by (simp add: redriven_def redriven_row_def job_defaults_def)

lemma redrive_rows_map:
  assumes "\<And>m. m \<in> set cs \<Longrightarrow> redrive_queue qs f m \<noteq> None"
  shows "redrive_rows qs f new_id now cs = map (redriven qs f new_id now) cs"
proof -
  have "(case redrive_queue qs f m of None \<Rightarrow> [] | Some q \<Rightarrow> [redriven_row (new_id m) q now m]) =
      [redriven qs f new_id now m]" if "m \<in> set cs" for m
    using assms [OF that] by (auto simp: redriven_def)
  thus ?thesis by (simp add: redrive_rows_def cong: map_cong)
qed

lemma candidates_where:
  assumes "m \<in> set (redrive_candidates n qs f limit locked t)"
  shows "m \<in> set t" "redriveWhere n f t m" "redrive_queue qs f m \<noteq> None" "job_name m = n"
  using assms by (auto simp: redrive_candidates_def redriveWhere_def dest!: in_set_takeD)

lemma candidates_distinct:
  assumes "distinct (map job_key t)"
  shows "distinct (map job_key (redrive_candidates n qs f limit locked t))"
proof -
  have "distinct (map job_key (sort_key created_on (filter p t)))" for p
  proof -
    have "distinct (map job_key (sort_key created_on (filter p t))) = distinct (map job_key (filter p t))"
      by (rule mset_eq_imp_distinct_iff) simp
    thus ?thesis using distinct_filter_map [OF assms] by blast
  qed
  hence d: "distinct (map job_key (filter q (sort_key created_on (filter p t))))" for p q
    by (rule distinct_filter_map)
  show ?thesis unfolding redrive_candidates_def take_map [symmetric] by (rule distinct_take [OF d])
qed

text \<open>The rows an insert created are the ones of its rows whose ids came back.\<close>

lemma insert_skip_ids:
  assumes "insert_skip t rs = (t', ins)" "distinct (map job_id rs)"
  shows "ins = filter (\<lambda>r. job_id r \<in> job_id ` set ins) rs"
  using assms
proof (induction t rs arbitrary: t' ins rule: insert_skip.induct)
  case (2 t r rs)
  show ?case
  proof (cases "list_ex (\<lambda>x. conflict x r) t")
    case True
    hence i: "insert_skip t rs = (t', ins)" using 2 by simp
    have "job_id r \<notin> job_id ` set ins" using insert_skip_subset [OF i] "2.prems"(2) by auto
    thus ?thesis using "2.IH"(1) [OF True i] "2.prems"(2) by simp
  next
    case False
    then obtain ins' where i: "insert_skip (t @ [r]) rs = (t', ins')" "ins = r # ins'"
      using "2.prems"(1) by (auto split: prod.splits)
    have eq: "ins' = filter (\<lambda>r. job_id r \<in> job_id ` set ins') rs"
      using "2.IH"(2) [OF False i(1)] "2.prems"(2) by simp
    have "filter (\<lambda>x. job_id x \<in> job_id ` set ins) rs = filter (\<lambda>x. job_id x \<in> job_id ` set ins') rs"
    proof (rule filter_cong [OF refl])
      fix x assume "x \<in> set rs"
      hence "job_id x \<noteq> job_id r" using "2.prems"(2) by (metis distinct.simps(2) image_eqI list.simps(9) set_map)
      thus "(job_id x \<in> job_id ` set ins) = (job_id x \<in> job_id ` set ins')" by (auto simp: i(2))
    qed
    thus ?thesis using eq i(2) by simp
  qed
qed simp

text \<open>The state between the insert and the deletes: candidates of a table that keeps its constraints, and
  what the insert made of them.\<close>

definition redrive_step ::
  "str \<Rightarrow> queue list \<Rightarrow> redrive_filter \<Rightarrow> job list \<Rightarrow> (job \<Rightarrow> uuid) \<Rightarrow> time \<Rightarrow> job list \<Rightarrow> job list \<Rightarrow> job list \<Rightarrow> bool" where
  "redrive_step n qs f cs new_id now t t1 ins = (table_ok t \<and>
     (\<forall>m\<in>set cs. m \<in> set t \<and> job_name m = n \<and> redrive_queue qs f m \<noteq> None \<and> state m < Active \<and> \<not> key_held t m) \<and>
     distinct (map job_key cs) \<and> inj_on new_id (set cs) \<and>
     run_insert_skip (redrive_rows qs f new_id now cs) t = Inr (t1, ins))"

definition moved :: "(job \<Rightarrow> uuid) \<Rightarrow> job list \<Rightarrow> job list \<Rightarrow> job list" where
  "moved new_id ins cs = filter (\<lambda>m. new_id m \<in> set (map job_id ins)) cs"

definition stuck :: "(job \<Rightarrow> uuid) \<Rightarrow> job list \<Rightarrow> job list \<Rightarrow> job list" where
  "stuck new_id ins cs = filter (\<lambda>m. new_id m \<notin> set (map job_id ins)) cs"

definition left_over :: "str \<Rightarrow> job list \<Rightarrow> job list \<Rightarrow> job list" where
  "left_over n ms t1 = filter (\<lambda>j. \<not> (job_name j = n \<and> job_id j \<in> set (map job_id ms))) t1"

lemma step_facts:
  assumes "redrive_step n qs f cs new_id now t t1 ins"
  shows "table_ok t" "distinct (map job_key cs)" "inj_on new_id (set cs)"
    "run_insert_skip (redrive_rows qs f new_id now cs) t = Inr (t1, ins)"
    "m \<in> set cs \<Longrightarrow> m \<in> set t" "m \<in> set cs \<Longrightarrow> job_name m = n"
    "m \<in> set cs \<Longrightarrow> redrive_queue qs f m \<noteq> None" "m \<in> set cs \<Longrightarrow> state m < Active"
    "m \<in> set cs \<Longrightarrow> \<not> key_held t m"
  using assms unfolding redrive_step_def by blast+

lemma step_rows:
  assumes "redrive_step n qs f cs new_id now t t1 ins"
  shows "redrive_rows qs f new_id now cs = map (redriven qs f new_id now) cs"
  by (rule redrive_rows_map) (rule step_facts(7) [OF assms])

lemma step_skip:
  assumes s: "redrive_step n qs f cs new_id now t t1 ins"
  shows "insert_skip t (map (redriven qs f new_id now) cs) = (t1, ins)"
    "list_all key_check (map (redriven qs f new_id now) cs)"
  using step_facts(4) [OF s] by (auto simp: run_insert_skip_def step_rows [OF s] split: if_splits)

lemma step_insert:
  assumes s: "redrive_step n qs f cs new_id now t t1 ins"
  shows "ins = map (redriven qs f new_id now) (moved new_id ins cs)" and "t1 = t @ ins" and "table_ok t1"
proof -
  note i = step_skip [OF s]
  show "t1 = t @ ins" by (rule insert_skip_append [OF i(1)])
  show "table_ok t1" by (rule insert_skip_ok [OF i(1) step_facts(1) [OF s] i(2)])
  have "distinct (map new_id cs)"
    using step_facts(2,3) [OF s] by (auto simp: distinct_map)
  hence "distinct (map job_id (map (redriven qs f new_id now) cs))" by (simp add: o_def)
  from insert_skip_ids [OF i(1) this] show "ins = map (redriven qs f new_id now) (moved new_id ins cs)"
    by (simp add: moved_def filter_map o_def)
qed

text \<open>A candidate that was not created met a row it conflicts with.\<close>

lemma stuck_conflict:
  assumes s: "redrive_step n qs f cs new_id now t t1 ins" and m: "m \<in> set (stuck new_id ins cs)"
  shows "\<exists>x\<in>set t1. conflict x (redriven qs f new_id now m)"
proof -
  have "redriven qs f new_id now m \<notin> set ins" using m by (force simp: stuck_def)
  thus ?thesis using insert_skip_reason [OF step_skip(1) [OF s], of "redriven qs f new_id now m"] m
    by (auto simp: stuck_def)
qed

lemma step_row_by_key:
  assumes "redrive_step n qs f cs new_id now t t1 ins"
  shows "x \<in> set t1 \<Longrightarrow> y \<in> set t1 \<Longrightarrow> job_name x = job_name y \<Longrightarrow> job_id x = job_id y \<Longrightarrow> x = y"
  using table_ok_key_eq [OF step_insert(3) [OF assms]] by (simp add: job_key_def)

lemma step_candidate:
  assumes s: "redrive_step n qs f cs new_id now t t1 ins" and "m \<in> set cs"
  shows "m \<in> set t1" "m \<notin> set ins"
proof -
  show "m \<in> set t1" using step_facts(5) [OF s assms(2)] step_insert(2) [OF s] by simp
  have "table_ok (t @ ins)" using step_insert(2,3) [OF s] by simp
  hence "\<And>x. x \<in> set ins \<Longrightarrow> \<not> conflict m x" using step_facts(5) [OF s assms(2)] by (auto simp: table_ok_append)
  thus "m \<notin> set ins" using conflict_same_key by blast
qed

lemma left_over_rows:
  assumes s: "redrive_step n qs f cs new_id now t t1 ins" and ms: "set ms \<subseteq> set cs" and x: "x \<in> set t1"
  shows "(job_name x = n \<and> job_id x \<in> set (map job_id ms)) = (x \<in> set ms)"
proof
  assume "job_name x = n \<and> job_id x \<in> set (map job_id ms)"
  then obtain m where m: "m \<in> set ms" "job_id x = job_id m" "job_name x = n" by auto
  have "m \<in> set t1" "job_name m = n" using m(1) ms step_candidate(1) [OF s] step_facts(6) [OF s] by auto
  thus "x \<in> set ms" using step_row_by_key [OF s x] m by simp
qed (use ms step_facts(6) [OF s] in auto)

lemma left_over_set:
  assumes s: "redrive_step n qs f cs new_id now t t1 ins" and ms: "set ms \<subseteq> set cs"
  shows "left_over n ms t1 = filter (\<lambda>x. x \<notin> set ms) t1"
  unfolding left_over_def using left_over_rows [OF assms] by (intro filter_cong) auto

lemma left_over_length:
  assumes s: "redrive_step n qs f cs new_id now t t1 ins"
  shows "length (left_over n (moved new_id ins cs) t1) = length t"
proof -
  let ?ms = "moved new_id ins cs"
  have ms: "set ?ms \<subseteq> set cs" by (auto simp: moved_def)
  have d1: "distinct t1" using table_ok_distinct [OF step_insert(3) [OF s]] by (simp add: distinct_map)
  have "distinct cs" using step_facts(2) [OF s] by (simp add: distinct_map)
  hence dm: "distinct ?ms" by (simp add: moved_def)
  have "set (filter (\<lambda>j. j \<in> set ?ms) t1) = set ?ms"
    using step_candidate(1) [OF s] ms by auto
  hence "length (filter (\<lambda>j. j \<in> set ?ms) t1) = length ?ms"
    using d1 dm by (metis distinct_card distinct_filter)
  moreover have "length t1 = length t + length ?ms"
    using step_insert(1,2) [OF s] by (metis length_append length_map)
  ultimately show ?thesis
    using length_filter_split [of "\<lambda>j. j \<in> set ?ms" t1] by (simp add: left_over_set [OF s ms])
qed

lemma step_ins_created:
  assumes "redrive_step n qs f cs new_id now t t1 ins" "x \<in> set ins"
  shows "state x = Created"
proof -
  have "set ins = redriven qs f new_id now ` set (moved new_id ins cs)"
    using arg_cong [OF step_insert(1) [OF assms(1)], of set] by simp
  thus ?thesis using assms(2) by auto
qed

section \<open>Failing the conflicted ones breaks no index\<close>

lemma conflicted_keys:
  "job_key (conflicted_row qs f now j) = job_key j"
  "policy (conflicted_row qs f now j) = policy j"
  "singleton_key (conflicted_row qs f now j) = singleton_key j"
  "job_name (conflicted_row qs f now j) = job_name j"
  by (simp_all add: conflicted_row_def job_key_def split: option.splits)

lemma conflicted_entries:
  assumes "state j < Active"
  shows "entry_le (job_i1 (conflicted_row qs f now j)) (job_i1 j)"
    "entry_le (job_i2 (conflicted_row qs f now j)) (job_i2 j)"
    "entry_le (job_i3 (conflicted_row qs f now j)) (job_i3 j)"
    "entry_le (job_i4 (conflicted_row qs f now j)) (job_i4 j)"
    "entry_le (job_i6 (conflicted_row qs f now j)) (job_i6 j)"
    "entry_le (job_i13 (conflicted_row qs f now j)) (job_i13 j)"
  using assms
  by (auto simp: entry_le_def conflicted_row_def index_defs skey_def less_eq_job_state_def split: option.splits)

definition index_le :: "job \<Rightarrow> job \<Rightarrow> bool" where
  "index_le b a = (job_key b = job_key a \<and>
     entry_le (job_i1 b) (job_i1 a) \<and> entry_le (job_i2 b) (job_i2 a) \<and>
     entry_le (job_i3 b) (job_i3 a) \<and> entry_le (job_i4 b) (job_i4 a) \<and>
     entry_le (job_i6 b) (job_i6 a) \<and> entry_le (job_i13 b) (job_i13 a))"

lemma conflict_but_i8:
  assumes "conflict x' y'" "index_le x' x" "index_le y' y"
  shows "conflict x y \<or> same_entry (job_i8 x') (job_i8 y')"
proof -
  have k: "job_key x' = job_key x" "job_key y' = job_key y" using assms(2,3) by (simp_all add: index_le_def)
  have e: "same_entry (job_i1 x') (job_i1 y') \<Longrightarrow> same_entry (job_i1 x) (job_i1 y)"
    "same_entry (job_i2 x') (job_i2 y') \<Longrightarrow> same_entry (job_i2 x) (job_i2 y)"
    "same_entry (job_i3 x') (job_i3 y') \<Longrightarrow> same_entry (job_i3 x) (job_i3 y)"
    "same_entry (job_i4 x') (job_i4 y') \<Longrightarrow> same_entry (job_i4 x) (job_i4 y)"
    "same_entry (job_i6 x') (job_i6 y') \<Longrightarrow> same_entry (job_i6 x) (job_i6 y)"
    "same_entry (job_i13 x') (job_i13 y') \<Longrightarrow> same_entry (job_i13 x) (job_i13 y)"
    using assms(2,3) unfolding index_le_def by (blast intro: entry_le_same)+
  show ?thesis using assms(1) e unfolding conflict_def k by blast
qed

lemma i8_entry:
  "job_i8 j = Some (a, k) \<longleftrightarrow> job_name j = a \<and> singleton_key j = Some k \<and> fifo_slot j"
  by (auto simp: job_i8_def split: option.splits if_splits)

lemma failable_oldest:
  assumes "redriveConflictFailable cs j" "policy j = Some KeyStrictFifo" "singleton_key j \<noteq> None"
  obtains m where "m \<in> set cs" "oldest_of_key cs m" "job_id m = job_id j"
  using assms by (auto simp: redriveConflictFailable_def)

lemma conflicts_update_ok:
  assumes s: "redrive_step n qs f cs new_id now t t1 ins"
    and t2: "t2 = left_over n (moved new_id ins cs) t1"
    and rows: "\<And>j. j \<in> set t2 \<Longrightarrow> sel j \<Longrightarrow> j \<in> set (stuck new_id ins cs) \<and>
      redriveConflictFailable (filter (\<lambda>m. job_name m = n \<and> job_id m \<in> set (map job_id (stuck new_id ins cs))) t2) j"
  shows "table_ok (upd_where sel (conflicted_row qs f now) t2)"
proof -
  let ?S = "stuck new_id ins cs"
  let ?C = "filter (\<lambda>m. job_name m = n \<and> job_id m \<in> set (map job_id ?S)) t2"
  let ?u = "\<lambda>j. if sel j then conflicted_row qs f now j else j"
  have sub: "x \<in> set t1" if "x \<in> set t2" for x using that by (simp add: t2 left_over_def)
  have cand: "x \<in> set cs" if "x \<in> set t2" "sel x" for x
    using rows [OF that] by (simp add: stuck_def)
  have le: "index_le (?u x) x" if "x \<in> set t2" for x
  proof (cases "sel x")
    case True
    have "state x < Active" by (rule step_facts(8) [OF s cand [OF that True]])
    thus ?thesis using True conflicted_keys(1) conflicted_entries by (simp add: index_le_def)
  qed (simp add: index_le_def)
  have chosen: "oldest_of_key ?C x"
    if x: "x \<in> set t2" "sel x" "policy x = Some KeyStrictFifo" "singleton_key x \<noteq> None" for x
  proof -
    obtain m where m: "m \<in> set ?C" "oldest_of_key ?C m" "job_id m = job_id x"
      using failable_oldest [OF conjunct2 [OF rows [OF x(1,2)]] x(3,4)] by blast
    have "m = x"
      using step_row_by_key [OF s, of m x] m(1,3) sub x(1) step_facts(6) [OF s cand [OF x(1,2)]] by simp
    thus ?thesis using m(2) by simp
  qed
  have held: False
    if x: "x \<in> set t2" "sel x" and y: "y \<in> set t2" "fifo_slot y" "job_name y = job_name x"
      "singleton_key y = Some k" "singleton_key x = Some k" "policy x = Some KeyStrictFifo" for x y k
  proof -
    have "\<not> key_held t x" by (rule step_facts(9) [OF s cand [OF x]])
    hence "y \<notin> set t" using y by (auto simp: key_held_def list_ex_iff fifo_slot_def)
    hence "y \<in> set ins" using sub [OF y(1)] step_insert(2) [OF s] by simp
    hence "state y = Created" by (rule step_ins_created [OF s])
    thus False using y(2) by (simp add: fifo_slot_def)
  qed
  have "sorted_wrt (\<lambda>a b. \<not> conflict a b) (upd_where sel (conflicted_row qs f now) t2)"
  proof (rule sorted_wrt_upd_where)
    show "sorted_wrt (\<lambda>a b. \<not> conflict a b) t2"
      using step_insert(3) [OF s] by (auto simp: t2 left_over_def table_ok_def intro: sorted_wrt_filter_any)
    fix x y assume x: "x \<in> set t2" and y: "y \<in> set t2" and no: "\<not> conflict x y"
    show "\<not> conflict (?u x) (?u y)"
    proof
      assume "conflict (?u x) (?u y)"
      hence "same_entry (job_i8 (?u x)) (job_i8 (?u y))"
        using conflict_but_i8 le [OF x] le [OF y] no by blast
      then obtain e0 where "job_i8 (?u x) = Some e0" "job_i8 (?u y) = Some e0" by (rule same_entry_E)
      then obtain a k where e: "job_i8 (?u x) = Some (a, k)" "job_i8 (?u y) = Some (a, k)" by (cases e0) blast
      hence ex: "job_name x = a" "singleton_key x = Some k" "policy x = Some KeyStrictFifo"
        and ey: "job_name y = a" "singleton_key y = Some k" "policy y = Some KeyStrictFifo"
        unfolding i8_entry by (auto simp: conflicted_keys fifo_slot_def split: if_splits)
      consider "\<not> sel x" "\<not> sel y" | "sel x" "\<not> sel y" | "\<not> sel x" "sel y" | "sel x" "sel y" by blast
      thus False
      proof cases
        case 1
        thus False using e no by (simp add: conflict_def)
      next
        case 2
        have "fifo_slot y" using e(2) 2(2) by (simp add: i8_entry)
        thus False using held [OF x 2(1) y] ex ey by metis
      next
        case 3
        have "fifo_slot x" using e(1) 3(1) by (simp add: i8_entry)
        thus False using held [OF y 3(2) x] ex ey by metis
      next
        case 4
        have ox: "oldest_of_key ?C x" using chosen [OF x 4(1)] ex by simp
        have oy: "oldest_of_key ?C y" using chosen [OF y 4(2)] ey by simp
        have "y \<in> set ?C" "x \<in> set ?C" using ox oy by (auto simp: oldest_of_key_def)
        hence "(created_on x, job_id x) \<le> (created_on y, job_id y)" "(created_on y, job_id y) \<le> (created_on x, job_id x)"
          using ox oy ex ey by (auto simp: oldest_of_key_def list_all_iff)
        hence "(created_on x, job_id x) = (created_on y, job_id y)" by (rule order_antisym)
        hence "job_id x = job_id y" by simp
        hence "job_key x = job_key y" using ex(1) ey(1) by (simp add: job_key_def)
        thus False using no conflict_same_key by blast
      qed
    qed
  qed
  moreover have "list_all key_check (upd_where sel (conflicted_row qs f now) t2)"
    using step_insert(3) [OF s]
    by (auto simp: t2 left_over_def table_ok_def list_all_iff set_upd_where key_check_def conflicted_keys)
  ultimately show ?thesis by (simp add: table_ok_def)
qed

section \<open>What a redrive promises\<close>

lemma redrive_step_of:
  assumes "table_ok t" "inj_on new_id (set (redrive_candidates n qs f limit locked t))"
    and "run_insert_skip (redrive_rows qs f new_id now (redrive_candidates n qs f limit locked t)) t = Inr (t1, ins)"
  shows "redrive_step n qs f (redrive_candidates n qs f limit locked t) new_id now t t1 ins"
proof -
  let ?cs = "redrive_candidates n qs f limit locked t"
  have "m \<in> set t \<and> job_name m = n \<and> redrive_queue qs f m \<noteq> None \<and> state m < Active \<and> \<not> key_held t m"
    if "m \<in> set ?cs" for m
  proof -
    note w = candidates_where [OF that]
    have "state m < Active" "\<not> key_held t m" using w(2) by (simp_all add: redriveWhere_def)
    thus ?thesis using w(1,3,4) by (intro conjI)
  qed
  hence "\<forall>m\<in>set ?cs. m \<in> set t \<and> job_name m = n \<and> redrive_queue qs f m \<noteq> None \<and> state m < Active \<and> \<not> key_held t m"
    by (rule ballI)
  thus ?thesis unfolding redrive_step_def
    using assms candidates_distinct [OF table_ok_distinct [OF assms(1)], of n qs f limit locked] by (intro conjI)
qed

text \<open>The single statement, whatever the filter and the locks.\<close>

lemma redrive_effect:
  assumes "table_ok t" "inj_on new_id (set (redrive_candidates n qs f limit locked t))"
    and "list_all key_check (redrive_rows qs f new_id now (redrive_candidates n qs f limit locked t))"
  shows "\<exists>t' k. redriveJobs n qs f limit locked new_id now t = Inr (t', k) \<and>
    table_ok t' \<and> length t' = length t \<and>
    (\<forall>j\<in>set t. j \<notin> set (redrive_candidates n qs f limit locked t) \<longrightarrow> j \<in> set t') \<and>
    (\<forall>m\<in>set (redrive_candidates n qs f limit locked t).
       (redriven qs f new_id now m \<in> set t' \<and> job_key m \<notin> job_key ` set t') \<or>
       (m \<in> set t' \<or> conflicted_row qs f now m \<in> set t') \<and>
       (\<exists>x\<in>set t \<union> (set t' \<inter> redriven qs f new_id now ` (set (redrive_candidates n qs f limit locked t) - {m})).
          conflict x (redriven qs f new_id now m))) \<and>
    k = length (filter (\<lambda>m. job_key m \<notin> job_key ` set t') (redrive_candidates n qs f limit locked t))"
proof -
  let ?cs = "redrive_candidates n qs f limit locked t"
  let ?row = "redriven qs f new_id now"
  obtain t1 ins where skip: "run_insert_skip (redrive_rows qs f new_id now ?cs) t = Inr (t1, ins)"
    using assms(3) by (cases "insert_skip t (redrive_rows qs f new_id now ?cs)") (simp add: run_insert_skip_def)
  note s = redrive_step_of [OF assms(1,2) skip]
  let ?ms = "moved new_id ins ?cs" and ?ss = "stuck new_id ins ?cs"
  define t2 where "t2 = left_over n ?ms t1"
  have sub: "set ?ms \<subseteq> set ?cs" "set ?ss \<subseteq> set ?cs" by (auto simp: moved_def stuck_def)
  have t2_set: "x \<in> set t2 \<longleftrightarrow> x \<in> set t1 \<and> x \<notin> set ?ms" for x
    by (simp add: t2_def left_over_set [OF s sub(1)])
  let ?C = "filter (\<lambda>m. job_name m = n \<and> job_id m \<in> set (map job_id ?ss)) t2"
  let ?sel = "\<lambda>j. job_name j = n \<and> job_id j \<in> set (map job_id ?ss) \<and> redrive_queue qs f j \<noteq> None \<and>
    redriveConflictFailable ?C j"
  have sel: "x \<in> set ?ss" if "x \<in> set t2" "?sel x" for x
    using left_over_rows [OF s sub(2), of x] that t2_set by simp
  have t3_ok: "table_ok (upd_where ?sel (conflicted_row qs f now) t2)"
    by (rule conflicts_update_ok [OF s t2_def]) (use sel in blast)
  define t' where "t' = upd_where ?sel (conflicted_row qs f now) t2"
  have fc: "fail_conflicts n qs f now (map job_id ?ss) t2 = Inr t'"
    using t3_ok by (simp add: fail_conflicts_def Let_def run_update_def check_table_def table_ok_def t'_def)
  have run: "redriveJobs n qs f limit locked new_id now t = Inr (t', length ins)"
    using skip fc by (simp add: redriveJobs_def Let_def t2_def left_over_def moved_def stuck_def run_delete_def)
  have keep: "x \<in> set t'" if "x \<in> set t2" "x \<notin> set ?ss" for x
  proof -
    have "\<not> ?sel x" using sel [OF that(1)] that(2) by blast
    thus ?thesis using that(1) unfolding t'_def set_upd_where by blast
  qed
  have in1: "x \<in> set t1" if "x \<in> set t \<or> x \<in> set ins" for x
    using that step_insert(2) [OF s] by auto
  have ins_t': "x \<in> set t'" if "x \<in> set ins" for x
    using that step_candidate(2) [OF s] sub keep in1 t2_set by blast
  have keys: "job_key ` set t' = job_key ` set t2"
  proof -
    have "map job_key t' = map job_key t2"
      unfolding t'_def by (rule map_upd_where_same) (simp add: conflicted_keys)
    thus ?thesis by (metis set_map)
  qed
  have row_in: "?row m \<in> set ins \<longleftrightarrow> m \<in> set ?ms" if "m \<in> set ?cs" for m
  proof
    assume "?row m \<in> set ins"
    thus "m \<in> set ?ms" using that by (force simp: moved_def)
  next
    assume "m \<in> set ?ms"
    thus "?row m \<in> set ins" using arg_cong [OF step_insert(1) [OF s], of set] by auto
  qed
  have moved_ok: "?row m \<in> set t' \<and> job_key m \<notin> job_key ` set t'" if m: "m \<in> set ?ms" for m
  proof
    have mc: "m \<in> set ?cs" using m sub by blast
    show "?row m \<in> set t'" using row_in [OF mc] m ins_t' by blast
    show "job_key m \<notin> job_key ` set t'"
    proof
      assume "job_key m \<in> job_key ` set t'"
      then obtain x where x: "x \<in> set t2" "job_key x = job_key m" unfolding keys by auto
      hence "x = m" using table_ok_key_eq [OF step_insert(3) [OF s]] step_candidate(1) [OF s mc] t2_set by metis
      thus False using x(1) m t2_set by simp
    qed
  qed
  have stuck_ok: "(m \<in> set t' \<or> conflicted_row qs f now m \<in> set t') \<and>
      (\<exists>x\<in>set t \<union> (set t' \<inter> ?row ` (set ?cs - {m})). conflict x (?row m))"
    if m: "m \<in> set ?ss" for m
  proof
    have mc: "m \<in> set ?cs" using m sub by blast
    have "m \<in> set t2" using t2_set step_candidate(1) [OF s mc] m by (auto simp: moved_def stuck_def)
    thus "m \<in> set t' \<or> conflicted_row qs f now m \<in> set t'" unfolding t'_def set_upd_where by blast
    obtain x where x: "x \<in> set t1" "conflict x (?row m)" using stuck_conflict [OF s m] by blast
    have "x \<in> ?row ` (set ?cs - {m})" if "x \<in> set ins"
    proof -
      have "x \<in> ?row ` set ?ms" using that arg_cong [OF step_insert(1) [OF s], of set] by simp
      then obtain m' where "m' \<in> set ?ms" "x = ?row m'" by (rule imageE)
      moreover have "m' \<noteq> m" using calculation(1) m by (auto simp: moved_def stuck_def)
      ultimately show ?thesis using sub by blast
    qed
    thus "\<exists>x\<in>set t \<union> (set t' \<inter> ?row ` (set ?cs - {m})). conflict x (?row m)"
      using x step_insert(2) [OF s] ins_t' by auto
  qed
  have split: "m \<in> set ?ms \<or> m \<in> set ?ss" if "m \<in> set ?cs" for m
    using that by (auto simp: moved_def stuck_def)
  have others: "j \<in> set t'" if "j \<in> set t" "j \<notin> set ?cs" for j
    using that keep in1 t2_set sub by blast
  have "length t' = length t" using left_over_length [OF s] by (simp add: t'_def t2_def)
  moreover have "length ins = length (filter (\<lambda>m. job_key m \<notin> job_key ` set t') ?cs)"
  proof -
    have gone: "job_key m \<notin> job_key ` set t' \<longleftrightarrow> new_id m \<in> set (map job_id ins)" if m: "m \<in> set ?cs" for m
    proof (cases "m \<in> set ?ms")
      case True
      thus ?thesis using moved_ok by (simp add: moved_def)
    next
      case False
      hence "m \<in> set ?ss" using split [OF m] by blast
      hence "job_key m \<in> job_key ` set t'" using stuck_ok conflicted_keys(1) by (metis imageI)
      thus ?thesis using False m by (simp add: moved_def)
    qed
    have "filter (\<lambda>m. job_key m \<notin> job_key ` set t') ?cs = ?ms"
      unfolding moved_def by (rule filter_cong [OF refl]) (rule gone)
    thus ?thesis using arg_cong [OF step_insert(1) [OF s], of length] by simp
  qed
  ultimately show ?thesis
    using run t3_ok others moved_ok stuck_ok split unfolding t'_def [symmetric] by blast
qed

lemma fail_conflicts_none: "table_ok t \<Longrightarrow> fail_conflicts n qs f now [] t = Inr t"
  by (simp add: fail_conflicts_def run_update_def upd_where_none check_table_Inr)

text \<open>The distributed form does the same, where no row is locked.\<close>

lemma redriveDistributed_eq:
  assumes "table_ok t" "inj_on new_id (set (redrive_candidates n qs f limit (\<lambda>_. False) t))"
  shows "redriveDistributed n qs f limit new_id now t = redriveJobs n qs f limit (\<lambda>_. False) new_id now t"
proof -
  let ?cs = "redrive_candidates n qs f limit (\<lambda>_. False) t"
  note none = fail_conflicts_none
  show ?thesis
  proof (cases "run_insert_skip (redrive_rows qs f new_id now ?cs) t")
    case (Inl e)
    hence "?cs \<noteq> []" by (auto simp: run_insert_skip_def redrive_rows_def)
    thus ?thesis using Inl by (simp add: redriveDistributed_def redriveJobs_def Let_def)
  next
    case (Inr r)
    obtain t1 ins where skip: "run_insert_skip (redrive_rows qs f new_id now ?cs) t = Inr (t1, ins)"
      using Inr by (cases r) simp
    note s = redrive_step_of [OF assms skip]
    let ?ms = "moved new_id ins ?cs" and ?ss = "stuck new_id ins ?cs"
    have del: "(if ?ms = [] then t1 else deleteJobsByIds (map (\<lambda>m. (n, job_id m)) ?ms) t1) = left_over n ?ms t1"
      by (auto simp: deleteJobsByIds_def left_over_def job_key_def intro!: filter_cong)
    have "table_ok (left_over n ?ms t1)"
      unfolding left_over_def by (rule table_ok_filter [OF step_insert(3) [OF s]])
    hence fc: "(if ?ss = [] then Inr (left_over n ?ms t1) else fail_conflicts n qs f now (map job_id ?ss) (left_over n ?ms t1)) =
        fail_conflicts n qs f now (map job_id ?ss) (left_over n ?ms t1)" by (simp add: none)
    have len: "length ins = length ?ms" using arg_cong [OF step_insert(1) [OF s], of length] by simp
    have single: "redriveJobs n qs f limit (\<lambda>_. False) new_id now t =
        and_then (fail_conflicts n qs f now (map job_id ?ss) (left_over n ?ms t1)) (\<lambda>t3. Inr (t3, length ins))"
      by (simp add: redriveJobs_def Let_def skip left_over_def moved_def stuck_def run_delete_def)
    have split: "redriveDistributed n qs f limit new_id now t =
        and_then (fail_conflicts n qs f now (map job_id ?ss) (left_over n ?ms t1)) (\<lambda>t3. Inr (t3, length ins))"
      if "?cs \<noteq> []"
    proof -
      have "redriveDistributed n qs f limit new_id now t =
          and_then (if ?ss = [] then Inr (if ?ms = [] then t1 else deleteJobsByIds (map (\<lambda>m. (n, job_id m)) ?ms) t1)
            else fail_conflicts n qs f now (map job_id ?ss)
              (if ?ms = [] then t1 else deleteJobsByIds (map (\<lambda>m. (n, job_id m)) ?ms) t1)) (\<lambda>t3. Inr (t3, length ?ms))"
        using that by (simp only: redriveDistributed_def Let_def skip and_then_simps prod.case if_False
            moved_def stuck_def)
      thus ?thesis unfolding del fc len .
    qed
    show ?thesis
    proof (cases "?cs = []")
      case True
      hence "t1 = t" "ins = []" using skip by (auto simp: run_insert_skip_def redrive_rows_def)
      hence "redriveJobs n qs f limit (\<lambda>_. False) new_id now t = Inr (t, 0)"
        using True none [OF assms(1)] by (simp add: single moved_def stuck_def left_over_def)
      thus ?thesis using True by (simp add: redriveDistributed_def Let_def)
    next
      case False
      thus ?thesis using single split by simp
    qed
  qed
qed

lemma lift_redrive_ok [simp]: "lift_redrive (Inr x) = Inr x"
  by (simp add: lift_redrive_def)

lemma redrive_call:
  assumes "object_name n" "n \<in> q_name ` set qs" "redriveFilterValues f = Inr f" "1 \<le> limit" "table_ok t"
    and "inj_on new_id (set (redrive_candidates n qs f (nat limit) (if noMulti then (\<lambda>_. False) else locked) t))"
  shows "redrive noMulti n qs f limit locked new_id now t =
    (case redriveJobs n qs f (nat limit) (if noMulti then (\<lambda>_. False) else locked) new_id now t of
       Inl e \<Rightarrow> Inl (RedriveSql e) | Inr x \<Rightarrow> Inr x)"
proof -
  obtain q where "find_queue n qs = Some q" using find_queue_Some [OF assms(2)] by blast
  thus ?thesis
    using assms redriveDistributed_eq [OF assms(5), of new_id n qs f "nat limit" now]
    by (cases noMulti) (simp_all add: redrive_def assertQueueName_ok getQueueCache_def)
qed

text \<open>A candidate without a key that goes to a strict FIFO queue.\<close>

definition keyless :: "queue list \<Rightarrow> redrive_filter \<Rightarrow> job \<Rightarrow> bool" where
  "keyless qs f m = (singleton_key m = None \<and>
     (case redrive_queue qs f m of None \<Rightarrow> False | Some q \<Rightarrow> q_policy q = KeyStrictFifo))"

lemma keyless_rows:
  "list_all key_check (redrive_rows qs f new_id now cs) \<longleftrightarrow> \<not> list_ex (keyless qs f) cs"
proof (induction cs)
  case (Cons m cs)
  thus ?case by (cases "redrive_queue qs f m")
      (auto simp: redrive_rows_def keyless_def key_check_def redriven_row_def)
qed (simp add: redrive_rows_def)

lemma redrive_keyless:
  assumes "list_ex (keyless qs f) (redrive_candidates n qs f limit locked t)"
  shows "redriveJobs n qs f limit locked new_id now t = Inl CheckViolation"
  using assms keyless_rows [of qs f new_id now "redrive_candidates n qs f limit locked t"]
  by (simp add: redriveJobs_def Let_def run_insert_skip_def)

text \<open>(C17) A redrive, in either form, loses no job and doubles none.  Where every candidate bound for a
  strict FIFO queue has a key, it succeeds, whatever conflicts it meets: the table keeps its constraints and
  its size; each candidate is either gone from the dead letter queue with its new row in place, or still
  there, itself or failed with the reason, and then a row its new one conflicts with shows why, one of the
  table or another that was redriven; every other row stays as it was, and the count is that of the new
  rows.  Where one candidate lacks the key its destination requires, the call fails on the check constraint
  and moves nothing.\<close>

theorem redrive_conserves:
  assumes "object_name n" "n \<in> q_name ` set qs" "redriveFilterValues f = Inr f" "1 \<le> limit" "table_ok t"
    and "cs = redrive_candidates n qs f (nat limit) (if noMulti then (\<lambda>_. False) else locked) t"
    and "inj_on new_id (set cs)"
  shows "if list_ex (keyless qs f) cs
    then redrive noMulti n qs f limit locked new_id now t = Inl (RedriveSql CheckViolation)
    else \<exists>t' k. redrive noMulti n qs f limit locked new_id now t = Inr (t', k) \<and>
      table_ok t' \<and> length t' = length t \<and>
      (\<forall>j\<in>set t. j \<notin> set cs \<longrightarrow> j \<in> set t') \<and>
      (\<forall>m\<in>set cs.
         (redriven qs f new_id now m \<in> set t' \<and> job_key m \<notin> job_key ` set t') \<or>
         (m \<in> set t' \<or> conflicted_row qs f now m \<in> set t') \<and>
         (\<exists>x\<in>set t \<union> (set t' \<inter> redriven qs f new_id now ` (set cs - {m})).
            conflict x (redriven qs f new_id now m))) \<and>
      k = length (filter (\<lambda>m. job_key m \<notin> job_key ` set t') cs)"
proof -
  note call = redrive_call [OF assms(1-5) assms(7) [unfolded assms(6)], of now]
  show ?thesis
  proof (cases "list_ex (keyless qs f) cs")
    case True
    show ?thesis
      unfolding call redrive_keyless [OF True [unfolded assms(6)]] using True by (simp add: assms(6))
  next
    case False
    hence "list_all key_check (redrive_rows qs f new_id now cs)" by (simp add: keyless_rows)
    from redrive_effect [OF assms(5) assms(7) [unfolded assms(6)] this [unfolded assms(6)],
        folded assms(6)]
    obtain t' k where all: "redriveJobs n qs f (nat limit) (if noMulti then (\<lambda>_. False) else locked) new_id now t =
        Inr (t', k) \<and> table_ok t' \<and> length t' = length t \<and> (\<forall>j\<in>set t. j \<notin> set cs \<longrightarrow> j \<in> set t') \<and>
        (\<forall>m\<in>set cs. (redriven qs f new_id now m \<in> set t' \<and> job_key m \<notin> job_key ` set t') \<or>
           (m \<in> set t' \<or> conflicted_row qs f now m \<in> set t') \<and>
           (\<exists>x\<in>set t \<union> (set t' \<inter> redriven qs f new_id now ` (set cs - {m})).
              conflict x (redriven qs f new_id now m))) \<and>
        k = length (filter (\<lambda>m. job_key m \<notin> job_key ` set t') cs)"
      by (elim exE)
    have r: "redrive noMulti n qs f limit locked new_id now t = Inr (t', k)"
      using call conjunct1 [OF all] by simp
    show ?thesis unfolding if_not_P [OF False] using conjI [OF r conjunct2 [OF all]] by (intro exI)
  qed
qed

lemma redrive_conserves_witness:
  "\<exists>t' k. redrive True ''d'' [queue_defaults ''d'' Standard ''job_common'' 0, queue_defaults ''q'' Standard ''job_common'' 0]
      \<lparr>rf_destination = None, rf_source_name = None, rf_data = None, rf_created_before = None, rf_ids = None\<rparr>
      10 (\<lambda>_. False) (\<lambda>_. 9) 5 [(sample_job 1 ''d'' 0)\<lparr>source_name := Some ''q''\<rparr>] = Inr (t', k) \<and>
    table_ok t' \<and> length t' = 1"
proof -
  let ?qs = "[queue_defaults ''d'' Standard ''job_common'' 0, queue_defaults ''q'' Standard ''job_common'' 0]"
  let ?f = "\<lparr>rf_destination = None, rf_source_name = None, rf_data = None, rf_created_before = None, rf_ids = None\<rparr>"
  let ?j = "(sample_job 1 ''d'' 0)\<lparr>source_name := Some ''q''\<rparr>"
  have n: "object_name ''d''" "''d'' \<in> q_name ` set ?qs"
    by (simp_all add: object_name_def word_char_def queue_defaults_def)
  have v: "redriveFilterValues ?f = Inr ?f" by (simp add: redriveFilterValues_def assert_optional_name_def)
  have t: "table_ok [?j]"
    by (simp add: table_ok_def key_check_def sample_job_def job_defaults_def)
  have cs: "[?j] = redrive_candidates ''d'' ?qs ?f (nat 10) (if True then (\<lambda>_. False) else (\<lambda>_. False)) [?j]"
    by (simp add: redrive_candidates_def redriveWhere_def key_held_def redrive_queue_def find_queue_def
        queue_defaults_def sample_job_def job_defaults_def)
  have chk: "\<not> list_ex (keyless ?qs ?f) [?j]"
    by (simp add: keyless_def redrive_queue_def find_queue_def queue_defaults_def)
  have "inj_on (\<lambda>_. 9) (set [?j])" "1 \<le> (10::int)" by simp_all
  from redrive_conserves [OF n v this(2) t cs this(1), of 5, unfolded if_not_P [OF chk]]
  show ?thesis by (elim exE conjE) (intro exI conjI, assumption+, simp)
qed

text \<open>The preview counts the jobs a redrive would take.\<close>

lemma preview_counts:
  "length (filter (\<lambda>r. r \<noteq> None) (previewRedrive n qs f limit t)) =
    length (redrive_candidates n qs f limit (\<lambda>_. False) t)"
proof -
  have some: "filter (\<lambda>r. r \<noteq> None) (take k (map (\<lambda>j. map_option q_name (redrive_queue qs f j))
      (filter (\<lambda>j. redrive_queue qs f j \<noteq> None) js))) =
    take k (map (\<lambda>j. map_option q_name (redrive_queue qs f j)) (filter (\<lambda>j. redrive_queue qs f j \<noteq> None) js))" for js k
    by (auto simp: filter_id_conv dest!: in_set_takeD)
  have none: "filter (\<lambda>r. r \<noteq> None) (take k (map (\<lambda>_. None) js)) = []" for js k
    by (auto simp: filter_empty_conv dest!: in_set_takeD)
  show ?thesis
    unfolding previewRedrive_def Let_def filter_append some none
    by (simp add: redrive_candidates_def conj_commute)
qed

text \<open>(C18) A redrive gives a dead letter job back.  Take the copy a terminal failure left: when a redrive
  without a destination, in either form, has it among its candidates, no candidate lacks a key its
  destination requires, the queue it came from still exists, and no row of the table and no other row of
  the batch conflicts with its new row, it becomes a fresh job of that queue, with the data, priority, key,
  group and trace of the job that failed and with the root of its chain, under the queue's policy and dead
  letter queue of today, and the copy is gone.\<close>

theorem dead_letter_redrive_roundtrip:
  assumes "object_name d" "d \<in> q_name ` set qs" "redriveFilterValues f = Inr f" "1 \<le> limit" "table_ok t"
    and "cs = redrive_candidates d qs f (nat limit) (if noMulti then (\<lambda>_. False) else locked) t"
    and "inj_on new_id (set cs)" "\<not> list_ex (keyless qs f) cs"
    and "c \<in> set cs" "c = dlq_row dq i now0 r" "rf_destination f = None" "find_queue (job_name r) qs = Some q"
    and "\<forall>x\<in>set t \<union> redriven qs f new_id now ` (set cs - {c}). \<not> conflict x (redriven_row (new_id c) q now c)"
  shows "\<exists>t' k b. redrive noMulti d qs f limit locked new_id now t = Inr (t', k) \<and> b \<in> set t' \<and>
    job_key c \<notin> job_key ` set t' \<and> job_name b = job_name r \<and> job_data b = job_data r \<and>
    priority b = priority r \<and> singleton_key b = singleton_key r \<and> group_id b = group_id r \<and>
    group_tier b = group_tier r \<and> trace_context b = trace_context r \<and> state b = Created \<and>
    retry_count b = 0 \<and> policy b = Some (q_policy q) \<and> dead_letter b = q_dead_letter q \<and>
    source_root_id b = Some (coalesce (source_root_id r) (job_id r))"
proof -
  have src: "source_name c = Some (job_name r)" by (simp add: assms(10) dlq_row_def)
  have rq: "redrive_queue qs f c = Some q" by (simp add: redrive_queue_def assms(11,12) src)
  hence row: "redriven qs f new_id now c = redriven_row (new_id c) q now c" by (simp add: redriven_def)
  have qn: "q_name q = job_name r" using find_queue_mem [OF assms(12)] by simp
  have "list_all key_check (redrive_rows qs f new_id now cs)" using assms(8) by (simp add: keyless_rows)
  from redrive_effect [OF assms(5) assms(7) [unfolded assms(6)] this [unfolded assms(6)], folded assms(6)]
  obtain t' k where run: "redriveJobs d qs f (nat limit) (if noMulti then (\<lambda>_. False) else locked) new_id now t =
      Inr (t', k)"
    and each: "\<forall>m\<in>set cs. (redriven qs f new_id now m \<in> set t' \<and> job_key m \<notin> job_key ` set t') \<or>
         (m \<in> set t' \<or> conflicted_row qs f now m \<in> set t') \<and>
         (\<exists>x\<in>set t \<union> (set t' \<inter> redriven qs f new_id now ` (set cs - {m})). conflict x (redriven qs f new_id now m))"
    by (elim exE conjE)
  have b: "redriven_row (new_id c) q now c \<in> set t'" "job_key c \<notin> job_key ` set t'"
    using bspec [OF each assms(9)] assms(13) unfolding row by blast+
  have r: "redrive noMulti d qs f limit locked new_id now t = Inr (t', k)"
    using redrive_call [OF assms(1-5) assms(7) [unfolded assms(6)], of now] run by simp
  show ?thesis
    by (intro exI [of _ t'] exI [of _ k] exI [of _ "redriven_row (new_id c) q now c"] conjI r b)
      (simp_all add: redriven_row_def qn assms(10) dlq_row_def job_defaults_def)
qed

lemma dead_letter_redrive_roundtrip_witness:
  "\<exists>t' k b. redrive False ''d'' [queue_defaults ''d'' Standard ''job_common'' 0, queue_defaults ''q'' Standard ''job_common'' 0]
      \<lparr>rf_destination = None, rf_source_name = None, rf_data = None, rf_created_before = None, rf_ids = None\<rparr>
      10 (\<lambda>_. False) (\<lambda>_. 9) 5 [dlq_row (queue_defaults ''d'' Standard ''job_common'' 0) 7 3 (sample_job 1 ''q'' 2)] =
      Inr (t', k) \<and> b \<in> set t' \<and> job_name b = ''q'' \<and> source_root_id b = Some 1"
proof -
  let ?qs = "[queue_defaults ''d'' Standard ''job_common'' 0, queue_defaults ''q'' Standard ''job_common'' 0]"
  let ?f = "\<lparr>rf_destination = None, rf_source_name = None, rf_data = None, rf_created_before = None, rf_ids = None\<rparr>"
  let ?c = "dlq_row (queue_defaults ''d'' Standard ''job_common'' 0) 7 3 (sample_job 1 ''q'' 2)"
  let ?q = "queue_defaults ''q'' Standard ''job_common'' 0"
  have n: "object_name ''d''" "''d'' \<in> q_name ` set ?qs"
    by (simp_all add: object_name_def word_char_def queue_defaults_def)
  have v: "redriveFilterValues ?f = Inr ?f" by (simp add: redriveFilterValues_def assert_optional_name_def)
  have t: "table_ok [?c]" by (simp add: table_ok_def key_check_def dlq_row_def job_defaults_def)
  have cs: "[?c] = redrive_candidates ''d'' ?qs ?f (nat 10) (if False then (\<lambda>_. False) else (\<lambda>_. False)) [?c]"
    by (simp add: redrive_candidates_def redriveWhere_def key_held_def redrive_queue_def find_queue_def
        dlq_row_def queue_defaults_def sample_job_def job_defaults_def)
  have q: "find_queue (job_name (sample_job 1 ''q'' 2)) ?qs = Some ?q"
    by (simp add: find_queue_def queue_defaults_def sample_job_def job_defaults_def)
  have k: "\<not> list_ex (keyless ?qs ?f) [?c]"
    by (simp add: keyless_def redrive_queue_def find_queue_def queue_defaults_def dlq_row_def sample_job_def
        job_defaults_def)
  have no: "\<forall>x\<in>set [?c] \<union> redriven ?qs ?f (\<lambda>_. 9) 5 ` (set [?c] - {?c}).
      \<not> conflict x (redriven_row ((\<lambda>_. 9) ?c) ?q 5 ?c)"
    by (simp add: conflict_def job_key_def index_defs skey_def dlq_row_def redriven_row_def queue_defaults_def
        sample_job_def job_defaults_def)
  have p: "inj_on (\<lambda>_. 9) (set [?c])" "1 \<le> (10::int)" "?c \<in> set [?c]" "rf_destination ?f = None" by simp_all
  from dead_letter_redrive_roundtrip [OF n v p(2) t cs p(1) k p(3) refl p(4) q no] show ?thesis
    by (elim exE conjE) (intro exI conjI, assumption+, simp_all add: sample_job_def job_defaults_def)
qed

end
