(* ===== verification/Rrule.thy ===== *)
theory Rrule
  imports Settle
begin

text \<open>
  Recurrence rules, \<^verbatim>\<open>src/src/rrule.ts\<close>: what tells a rule from a cron expression, the rewriting
  of an expression into the iCalendar text the parser reads, the checks on it, and the two reads a cron
  pass makes of a rule, the occurrences of a window and the latest occurrence of a gap, which is a search
  backwards in steps that widen and narrow.

  The parser, \<^verbatim>\<open>rrule-temporal\<close>, is a package: what it answers is a parameter, the record
  \<^verbatim>\<open>rrule_lib\<close>.  Instants are milliseconds since the epoch.  Text is the characters of Latin-1.
\<close>

section \<open>Text\<close>

definition LF :: char where "LF = CHR 0x0A"
definition CR :: char where "CR = CHR 0x0D"
definition TAB :: char where "TAB = CHR 0x09"

definition upper_ascii :: "char \<Rightarrow> char" where
  "upper_ascii c = (if 97 \<le> (of_char c :: nat) \<and> (of_char c :: nat) \<le> 122
     then char_of ((of_char c :: nat) - 32) else c)"

definition toUpperCase :: "str \<Rightarrow> str" where
  "toUpperCase = map upper_ascii"

definition is_alpha :: "char \<Rightarrow> bool" where
  "is_alpha c = (let n = (of_char (upper_ascii c) :: nat) in 65 \<le> n \<and> n \<le> 90)"

definition is_num :: "char \<Rightarrow> bool" where
  "is_num c = (let n = (of_char c :: nat) in 48 \<le> n \<and> n \<le> 57)"

text \<open>What JavaScript calls white space, in Latin-1.\<close>

definition is_space :: "char \<Rightarrow> bool" where
  "is_space c = (let n = (of_char c :: nat) in (9 \<le> n \<and> n \<le> 13) \<or> n = 32 \<or> n = 160)"

definition blank :: "char \<Rightarrow> bool" where
  "blank c = (c = CHR '' '' \<or> c = TAB)"

definition trim :: "str \<Rightarrow> str" where
  "trim s = rev (dropWhile is_space (rev (dropWhile is_space s)))"

fun split_on :: "char \<Rightarrow> str \<Rightarrow> str list" where
  "split_on d [] = [[]]"
| "split_on d (c # s) = (if c = d then [] # split_on d s
     else (case split_on d s of [] \<Rightarrow> [[c]] | p # ps \<Rightarrow> (c # p) # ps))"

fun join_with :: "char \<Rightarrow> str list \<Rightarrow> str" where
  "join_with d [] = []"
| "join_with d [l] = l"
| "join_with d (l # ls) = l @ d # join_with d ls"

definition starts_with :: "str \<Rightarrow> str \<Rightarrow> bool" where
  "starts_with p s = (take (length p) s = p)"

text \<open>\<^verbatim>\<open>replace(/\r?\n[ \t]/g, '')\<close>: unfolding.\<close>

fun unfold_lines :: "str \<Rightarrow> str" where
  "unfold_lines (a # b # c # s) = (
     if a = CR \<and> b = LF \<and> blank c then unfold_lines s
     else if a = LF \<and> blank b then unfold_lines (c # s)
     else a # unfold_lines (b # c # s))"
| "unfold_lines [a, b] = (if a = LF \<and> blank b then [] else [a, b])"
| "unfold_lines [a] = [a]"
| "unfold_lines [] = []"

text \<open>\<^verbatim>\<open>split(/\r?\n/)\<close>.\<close>

definition onto_first :: "char \<Rightarrow> str list \<Rightarrow> str list" where
  "onto_first c ls = (case ls of [] \<Rightarrow> [[c]] | l # r \<Rightarrow> (c # l) # r)"

fun lines_of :: "str \<Rightarrow> str list" where
  "lines_of (a # b # s) = (
     if a = CR \<and> b = LF then [] # lines_of s
     else if a = LF then [] # lines_of (b # s)
     else onto_first a (lines_of (b # s)))"
| "lines_of [a] = (if a = LF then [[], []] else [[a]])"
| "lines_of [] = [[]]"

text \<open>\<^verbatim>\<open>PROPERTY\<close>: the name a line begins with, followed by a colon or a semicolon.\<close>

definition property_char :: "char \<Rightarrow> bool" where
  "property_char c = (is_alpha c \<or> is_num c \<or> c = CHR ''-'')"

definition property_name :: "str \<Rightarrow> str option" where
  "property_name s = (let n = takeWhile property_char s; r = dropWhile property_char s in
     if n \<noteq> [] \<and> is_alpha (hd n) \<and> r \<noteq> [] \<and> hd r \<in> set '';:'' then Some (toUpperCase n) else None)"

text \<open>The places after each character of a kind.\<close>

fun after_each :: "(char \<Rightarrow> bool) \<Rightarrow> str \<Rightarrow> str list" where
  "after_each p [] = []"
| "after_each p (c # s) = (if p c then s # after_each p s else after_each p s)"

definition isRrule :: "str \<Rightarrow> bool" where
  "isRrule s = (
     list_ex (\<lambda>l. property_name (dropWhile blank l) \<noteq> None) (s # after_each (\<lambda>c. c = LF \<or> c = CR) s) \<or>
     list_ex (\<lambda>l. starts_with ''FREQ='' (toUpperCase l)) (s # after_each (\<lambda>c. is_space c \<or> c = CHR '';'') s))"

section \<open>Rewriting an expression\<close>

datatype rrule_error =
    BeginEnd
  | UnsupportedProperty str
  | TwoDtstart
  | TwoRrule
  | PartNoValue str
  | UnsupportedPart str
  | PartTwice str
  | NoRrule
  | CountNeedsDtstart
  | DateTypeMismatch str str
  | UnsupportedValue str
  | UnknownTimezone str
  | LibraryError str
  | NothingLeft

definition EPOCH_DTSTART :: str where
  "EPOCH_DTSTART = ''19700101T000000''"

definition PROPERTIES :: "str list" where
  "PROPERTIES = [''DTSTART'', ''RRULE'', ''RDATE'', ''EXDATE'']"

definition PART_OPTIONS :: "(str \<times> str) list" where
  "PART_OPTIONS = [
     (''FREQ'', ''freq''), (''UNTIL'', ''until''), (''COUNT'', ''count''), (''INTERVAL'', ''interval''),
     (''BYSECOND'', ''bySecond''), (''BYMINUTE'', ''byMinute''), (''BYHOUR'', ''byHour''),
     (''BYDAY'', ''byDay''), (''BYMONTHDAY'', ''byMonthDay''), (''BYYEARDAY'', ''byYearDay''),
     (''BYWEEKNO'', ''byWeekNo''), (''BYMONTH'', ''byMonth''), (''BYSETPOS'', ''bySetPos''),
     (''WKST'', ''wkst''), (''RSCALE'', ''rscale''), (''SKIP'', ''skip'')]"

text \<open>\<^verbatim>\<open>[name, value = '']\<close> of a part split at its equals signs.\<close>

definition part_of :: "str \<Rightarrow> str \<times> str" where
  "part_of p = (case split_on (CHR ''='') p of n # v # _ \<Rightarrow> (n, v) | [n] \<Rightarrow> (n, []) | [] \<Rightarrow> ([], []))"

fun assert_parts :: "str list \<Rightarrow> str list \<Rightarrow> rrule_error + unit" where
  "assert_parts named [] = Inr ()"
| "assert_parts named (p # ps) = (if p = [] then assert_parts named ps else
     (case part_of (toUpperCase p) of (n, v) \<Rightarrow>
        if v = [] then Inl (PartNoValue p)
        else if \<not> (n \<in> fst ` set PART_OPTIONS \<or> starts_with ''X-'' n) then Inl (UnsupportedPart p)
        else if n \<in> set named then Inl (PartTwice n)
        else assert_parts (n # named) ps))"

definition assertParts :: "str \<Rightarrow> rrule_error + unit" where
  "assertParts rule = assert_parts [] (split_on (CHR '';'') rule)"

definition has_time :: "str \<Rightarrow> bool" where
  "has_time s = (CHR ''T'' \<in> set s)"

fun assertDates :: "(str \<times> str) list \<Rightarrow> str \<Rightarrow> rrule_error + unit" where
  "assertDates [] dtstart = Inr ()"
| "assertDates ((n, v) # ds) dtstart =
     (case List.find (\<lambda>d. has_time d \<noteq> has_time dtstart) (split_on (CHR '','') v) of
        Some d \<Rightarrow> Inl (DateTypeMismatch n d) | None \<Rightarrow> assertDates ds dtstart)"

record ics_state =
  ics_lines :: "str list"
  ics_dates :: "(str \<times> str) list"
  ics_dtstart :: "str option"
  ics_rule :: "str option"

definition after_colon :: "str \<Rightarrow> str" where
  "after_colon s = (if CHR '':'' \<in> set s then tl (dropWhile (\<lambda>c. c \<noteq> CHR '':'') s) else s)"

text \<open>One line, trimmed and not empty.\<close>

definition ics_line :: "ics_state \<Rightarrow> str \<Rightarrow> rrule_error + ics_state" where
  "ics_line st s = (
     let property = property_name s;
         n = coalesce property ''RRULE'';
         v = (if property = None then s else after_colon s);
         line = (if property = None then ''RRULE:'' @ s else s)
     in if n = ''BEGIN'' \<or> n = ''END'' then Inl BeginEnd
        else if n \<notin> set PROPERTIES then Inl (UnsupportedProperty n)
        else if n = ''DTSTART'' \<and> ics_dtstart st \<noteq> None then Inl TwoDtstart
        else if n = ''RRULE'' \<and> ics_rule st \<noteq> None then Inl TwoRrule
        else and_then (if n = ''RRULE'' then assertParts v else Inr ()) (\<lambda>_.
          Inr \<lparr>ics_lines = ics_lines st @ [line],
            ics_dates = (if n = ''RDATE'' \<or> n = ''EXDATE'' then ics_dates st @ [(n, v)] else ics_dates st),
            ics_dtstart = (if n = ''DTSTART'' then Some v else ics_dtstart st),
            ics_rule = (if n = ''RRULE'' then Some v else ics_rule st)\<rparr>))"

fun ics_all :: "ics_state \<Rightarrow> str list \<Rightarrow> rrule_error + ics_state" where
  "ics_all st [] = Inr st"
| "ics_all st (l # ls) = (if trim l = [] then ics_all st ls
     else and_then (ics_line st (trim l)) (\<lambda>st'. ics_all st' ls))"

definition no_ics :: ics_state where
  "no_ics = \<lparr>ics_lines = [], ics_dates = [], ics_dtstart = None, ics_rule = None\<rparr>"

definition uses_count :: "str \<Rightarrow> bool" where
  "uses_count rule = list_ex (starts_with ''COUNT='') (split_on (CHR '';'') (toUpperCase rule))"

definition toIcs :: "str \<Rightarrow> rrule_error + (str \<times> str)" where
  "toIcs expression = and_then (ics_all no_ics (lines_of (unfold_lines expression))) (\<lambda>st.
     case ics_rule st of None \<Rightarrow> Inl NoRrule
     | Some rule \<Rightarrow> if ics_dtstart st = None \<and> uses_count rule then Inl CountNeedsDtstart
         else and_then (assertDates (ics_dates st) (coalesce (ics_dtstart st) EPOCH_DTSTART)) (\<lambda>_.
           Inr (join_with LF (if ics_dtstart st = None then (''DTSTART:'' @ EPOCH_DTSTART) # ics_lines st
                              else ics_lines st), rule)))"

section \<open>The library and the checks\<close>

datatype option_value = Undefined | Scalar | Items nat

record rrule_lib =
  rl_build :: "str \<Rightarrow> str \<Rightarrow> str option"
  rl_option :: "str \<Rightarrow> str \<Rightarrow> option_value"
  rl_next :: "str \<Rightarrow> str \<Rightarrow> int \<Rightarrow> int option"
  rl_between :: "str \<Rightarrow> str \<Rightarrow> int \<Rightarrow> int \<Rightarrow> str + int list"
  rl_timezone :: "str \<Rightarrow> bool"

fun assert_values :: "(str \<Rightarrow> option_value) \<Rightarrow> str list \<Rightarrow> rrule_error + unit" where
  "assert_values opt [] = Inr ()"
| "assert_values opt (p # ps) = (case part_of p of (n, v) \<Rightarrow>
     (case map_of PART_OPTIONS (toUpperCase n) of None \<Rightarrow> assert_values opt ps
      | Some k \<Rightarrow> (case opt k of Undefined \<Rightarrow> Inl (UnsupportedValue p)
          | Scalar \<Rightarrow> assert_values opt ps
          | Items m \<Rightarrow> if m = card (set (split_on (CHR '','') (toUpperCase v))) then assert_values opt ps
              else Inl (UnsupportedValue p))))"

definition assertValues :: "rrule_lib \<Rightarrow> str \<Rightarrow> str \<Rightarrow> rrule_error + unit" where
  "assertValues lib ics rule = assert_values (rl_option lib ics) (split_on (CHR '';'') rule)"

definition buildRule :: "rrule_lib \<Rightarrow> str \<Rightarrow> str \<Rightarrow> rrule_error + str" where
  "buildRule lib ics tz = (case rl_build lib ics tz of None \<Rightarrow> Inr ics | Some m \<Rightarrow> Inl (LibraryError m))"

definition parseRule :: "rrule_lib \<Rightarrow> str \<Rightarrow> str \<Rightarrow> rrule_error + str" where
  "parseRule lib expression tz = and_then (toIcs expression) (\<lambda>(ics, _). buildRule lib ics tz)"

definition assertTimezone :: "rrule_lib \<Rightarrow> str \<Rightarrow> rrule_error + unit" where
  "assertTimezone lib tz = ensure (rl_timezone lib tz) (UnknownTimezone tz)"

definition assertRrule :: "rrule_lib \<Rightarrow> str \<Rightarrow> str \<Rightarrow> rrule_error + unit" where
  "assertRrule lib expression tz = and_then (toIcs expression) (\<lambda>(ics, rule).
     and_then (buildRule lib ics ''UTC'') (\<lambda>_.
     and_then (assertValues lib ics rule) (\<lambda>_. assertTimezone lib tz)))"

definition nextOccurrence :: "rrule_lib \<Rightarrow> str \<Rightarrow> int \<Rightarrow> str \<Rightarrow> rrule_error + int option" where
  "nextOccurrence lib expression after tz = and_then (parseRule lib expression tz) (\<lambda>ics.
     Inr (rl_next lib ics tz after))"

definition assertRruleSends :: "rrule_lib \<Rightarrow> str \<Rightarrow> str \<Rightarrow> int \<Rightarrow> rrule_error + unit" where
  "assertRruleSends lib expression tz from = and_then (nextOccurrence lib expression from tz) (\<lambda>o'.
     ensure (o' \<noteq> None) NothingLeft)"

section \<open>The reads of a pass\<close>

definition lift_lib :: "str + 'a \<Rightarrow> rrule_error + 'a" where
  "lift_lib r = (case r of Inl m \<Rightarrow> Inl (LibraryError m) | Inr x \<Rightarrow> Inr x)"

definition occurrencesInWindow :: "rrule_lib \<Rightarrow> str \<Rightarrow> int \<Rightarrow> int \<Rightarrow> str \<Rightarrow> rrule_error + int list" where
  "occurrencesInWindow lib expression after until tz = and_then (parseRule lib expression tz) (\<lambda>ics.
     lift_lib (rl_between lib ics tz after (until + 1)))"

definition STEP_SECONDS :: int where
  "STEP_SECONDS = 60 * 60"

definition STEP_GROWTH :: int where
  "STEP_GROWTH = 4"

text \<open>The loop: the upper end of the range not read yet, the width of the next step and the cap no
  step goes over (\<^verbatim>\<open>ceiling\<close>, infinite at first).\<close>

partial_function (option) read_back ::
  "(int \<Rightarrow> int \<Rightarrow> str + int list) \<Rightarrow> int \<Rightarrow> int \<Rightarrow> int \<Rightarrow> int option \<Rightarrow> (str + int option) option" where
  "read_back between start upper width cap = (
     if upper \<le> start then Some (Inr None) else
     let lower = max start (upper - width); least = STEP_SECONDS * 1000 in
     case between lower (upper + 1) of
       Inl e \<Rightarrow> if upper - lower \<le> least then Some (Inl e)
         else let c = max least ((upper - lower) div 2) in read_back between start upper c (Some c)
     | Inr step \<Rightarrow> if step \<noteq> [] then Some (Inr (Some (last step)))
         else read_back between start lower
           (case cap of None \<Rightarrow> width * STEP_GROWTH | Some c \<Rightarrow> min (width * STEP_GROWTH) c) cap)"

definition latestOccurrenceBefore ::
  "rrule_lib \<Rightarrow> str \<Rightarrow> int \<Rightarrow> int \<Rightarrow> str \<Rightarrow> (rrule_error + int option) option" where
  "latestOccurrenceBefore lib expression after until tz = (case parseRule lib expression tz of
     Inl e \<Rightarrow> Some (Inl e)
   | Inr ics \<Rightarrow> map_option lift_lib
       (read_back (rl_between lib ics tz) after until (STEP_SECONDS * 1000) None))"

section \<open>The search backwards\<close>

text \<open>What the package documents of \<^verbatim>\<open>between\<close>: it answers with the occurrences strictly inside the
  range, in order.  A range it cannot materialize it refuses; an hour it can.\<close>

definition between_exact :: "(int \<Rightarrow> int \<Rightarrow> str + int list) \<Rightarrow> int set \<Rightarrow> bool" where
  "between_exact between occ = (\<forall>a b xs. between a b = Inr xs \<longrightarrow>
     sorted xs \<and> set xs = {x \<in> occ. a < x \<and> x < b})"

definition reads_an_hour :: "(int \<Rightarrow> int \<Rightarrow> str + int list) \<Rightarrow> bool" where
  "reads_an_hour between = (\<forall>a b. b - a \<le> STEP_SECONDS * 1000 + 1 \<longrightarrow> (\<exists>xs. between a b = Inr xs))"

definition latest_in :: "int set \<Rightarrow> int \<Rightarrow> int \<Rightarrow> int option \<Rightarrow> bool" where
  "latest_in occ start upper r = (case r of
     None \<Rightarrow> \<not> (\<exists>x\<in>occ. start < x \<and> x \<le> upper)
   | Some x \<Rightarrow> x \<in> occ \<and> start < x \<and> x \<le> upper \<and> (\<forall>y\<in>occ. start < y \<and> y \<le> upper \<longrightarrow> y \<le> x))"

lemma last_sorted:
  fixes xs :: "int list"
  assumes "sorted xs" "xs \<noteq> []" shows "last xs \<in> set xs" "\<forall>y\<in>set xs. y \<le> last xs"
proof -
  show "last xs \<in> set xs" using assms(2) by simp
  show "\<forall>y\<in>set xs. y \<le> last xs"
    using assms by (induction xs) (auto simp: sorted_append)
qed

lemma step_pos: "0 < STEP_SECONDS * 1000"
  by (simp add: STEP_SECONDS_def)

lemma read_back_exact:
  assumes "between_exact between occ" "reads_an_hour between"
  shows "0 < width \<Longrightarrow> (\<forall>c. cap = Some c \<longrightarrow> 0 < c) \<Longrightarrow>
    \<exists>r. read_back between start upper width cap = Some (Inr r) \<and> latest_in occ start upper r"
proof (induction "(nat (upper - start), nat width)" arbitrary: upper width cap rule: less_induct)
  case less
  let ?least = "STEP_SECONDS * 1000"
  show ?case
  proof (cases "upper \<le> start")
    case True
    thus ?thesis by (simp add: read_back.simps latest_in_def)
  next
    case False
    define lower where "lower = max start (upper - width)"
    have lo: "start \<le> lower" "lower < upper" "upper - lower \<le> width"
      using False less.prems(1) by (auto simp: lower_def)
    note unf = read_back.simps [of between start upper width cap]
    show ?thesis
    proof (cases "between lower (upper + 1)")
      case (Inl e)
      have wide: "\<not> upper - lower \<le> ?least"
      proof
        assume "upper - lower \<le> ?least"
        hence "\<exists>xs. between lower (upper + 1) = Inr xs"
          using assms(2) by (simp add: reads_an_hour_def)
        thus False using Inl by simp
      qed
      define c where "c = max ?least ((upper - lower) div 2)"
      have c: "0 < c" "c < width" using step_pos wide lo by (auto simp: c_def)
      have "\<exists>r. read_back between start upper c (Some c) = Some (Inr r) \<and> latest_in occ start upper r"
        by (rule less.hyps) (use c in auto)
      thus ?thesis using Inl wide False by (simp add: unf Let_def lower_def [symmetric] c_def [symmetric])
    next
      case (Inr step)
      have st: "sorted step" "set step = {x \<in> occ. lower < x \<and> x \<le> upper}"
        using assms(1) Inr by (auto simp: between_exact_def)
      show ?thesis
      proof (cases "step = []")
        case True
        define w where "w = (case cap of None \<Rightarrow> width * STEP_GROWTH | Some c \<Rightarrow> min (width * STEP_GROWTH) c)"
        have w: "0 < w" using less.prems by (auto simp: w_def STEP_GROWTH_def split: option.splits)
        have "\<exists>r. read_back between start lower w cap = Some (Inr r) \<and> latest_in occ start lower r"
          by (rule less.hyps) (use lo w less.prems(2) in auto)
        then obtain r where r: "read_back between start lower w cap = Some (Inr r)" "latest_in occ start lower r" by blast
        have none: "\<not> (\<exists>x\<in>occ. lower < x \<and> x \<le> upper)" using st(2) True by auto
        have "latest_in occ start upper r"
        proof (cases r)
          case None
          have "\<not> (start < x \<and> x \<le> upper)" if "x \<in> occ" for x
          proof
            assume "start < x \<and> x \<le> upper"
            moreover have "\<not> (start < x \<and> x \<le> lower)" using r(2) None that by (auto simp: latest_in_def)
            ultimately show False using none that by auto
          qed
          thus ?thesis using None by (auto simp: latest_in_def)
        next
          case (Some x)
          hence x: "x \<in> occ" "start < x" "x \<le> lower" "\<forall>y\<in>occ. start < y \<and> y \<le> lower \<longrightarrow> y \<le> x"
            using r(2) by (simp_all add: latest_in_def)
          have "y \<le> x" if "y \<in> occ" "start < y" "y \<le> upper" for y
            using x(4) none that by (cases "y \<le> lower") auto
          thus ?thesis using Some x lo by (auto simp: latest_in_def)
        qed
        thus ?thesis using Inr True False r(1)
          by (auto simp: unf Let_def lower_def [symmetric] w_def [symmetric])
      next
        case False': False
        have "latest_in occ start upper (Some (last step))"
          using last_sorted [OF st(1) False'] st(2) lo(1)
          by (auto simp: latest_in_def)
        thus ?thesis using Inr False False' by (simp add: unf Let_def lower_def [symmetric])
      qed
    qed
  qed
qed

text \<open>The catch-up read ends and is exact: however wide the gap, and wherever in it the rule is
  dense or empty, the widening and narrowing steps come to the latest occurrence after the gap's start
  and up to its end, or to none when there is none, as long as the package answers for an hour.\<close>

lemma latestOccurrenceBefore_exact:
  assumes "parseRule lib expression tz = Inr ics"
    and "between_exact (rl_between lib ics tz) occ" "reads_an_hour (rl_between lib ics tz)"
  shows "\<exists>r. latestOccurrenceBefore lib expression after until tz = Some (Inr r) \<and> latest_in occ after until r"
  using read_back_exact [OF assms(2,3), of "STEP_SECONDS * 1000" None after until] step_pos assms(1)
  by (auto simp: latestOccurrenceBefore_def lift_lib_def)

text \<open>A package that refuses any range wider than an hour, on a rule with two occurrences.\<close>

definition sample_lib :: rrule_lib where
  "sample_lib = \<lparr>rl_build = (\<lambda>_ _. None), rl_option = (\<lambda>_ _. Items 1), rl_next = (\<lambda>_ _ _. None),
     rl_between = (\<lambda>_ _ a b. if b - a \<le> 3600001
       then Inr (filter (\<lambda>x. a < x \<and> x < b) [5, 7200000]) else Inl ''too many''),
     rl_timezone = (\<lambda>_. True)\<rparr>"

lemma sample_ics: "toIcs ''FREQ=DAILY'' = Inr (''DTSTART:19700101T000000'' @ LF # ''RRULE:FREQ=DAILY'', ''FREQ=DAILY'')"
  by code_simp

end
