(* ===== verification/Dates.thy ===== *)
theory Dates
  imports Prelude "HOL-Library.List_Lexorder" "HOL-Library.Char_ord"
begin

text \<open>
  The text the cron pass files an occurrence under (\<^verbatim>\<open>throttleSlot\<close> of \<^verbatim>\<open>src/src/timekeeper.ts\<close>):
  the UTC calendar date and time of day of an instant, as JavaScript's \<^verbatim>\<open>toISOString\<close> writes them,
  and the slot's text, whose order as text is the order of the slots.  Instants are milliseconds since
  the epoch.
\<close>

section \<open>The calendar\<close>

text \<open>Years are counted from March first, so that the leap day ends a year: day 0 is the first of March
  of year 0.  The parts of a day number are its 400-year era, the century, the four-year block and the
  year in it, and the day of the year.\<close>

definition day_parts :: "int \<Rightarrow> int \<times> int" where
  "day_parts z = (let e = z div 146097; r = z mod 146097;
       c = min 3 (r div 36524); s = r - c * 36524;
       q = s div 1461; u = s mod 1461;
       a = min 3 (u div 365)
     in (400 * e + 100 * c + 4 * q + a, u - a * 365))"

definition year_start :: "int \<Rightarrow> int" where
  "year_start y = 365 * y + y div 4 - y div 100 + y div 400"

text \<open>The month, counted from March, and the day of the month are read off the day of the year.\<close>

definition civil_date :: "int \<Rightarrow> int \<times> int \<times> int" where
  "civil_date days = (case day_parts (days + 719468) of (y, n) \<Rightarrow>
     let m = (5 * n + 2) div 153; d = n - (153 * m + 2) div 5 + 1
     in if m < 10 then (y, m + 3, d) else (y + 1, m - 9, d))"

definition digit :: "int \<Rightarrow> char" where
  "digit n = char_of (48 + nat n)"

fun fixed :: "nat \<Rightarrow> int \<Rightarrow> str" where
  "fixed 0 n = []"
| "fixed (Suc w) n = fixed w (n div 10) @ [digit (n mod 10)]"

text \<open>\<^verbatim>\<open>toISOString()\<close> of an instant of the years 0 to 9999, up to the seconds, with a blank
  for the \<^verbatim>\<open>T\<close>.  Other years are written with a sign and six digits.\<close>

definition iso_year :: "int \<Rightarrow> str" where
  "iso_year y = (if 0 \<le> y \<and> y \<le> 9999 then fixed 4 y
     else if y < 0 then CHR ''-'' # fixed 6 (- y) else CHR ''+'' # fixed 6 y)"

definition iso_seconds :: "int \<Rightarrow> str" where
  "iso_seconds ms = (let s = ms div 1000; t = s mod 86400 in
     case civil_date (s div 86400) of (y, m, d) \<Rightarrow>
       iso_year y @ ''-'' @ fixed 2 m @ ''-'' @ fixed 2 d @ '' '' @
       fixed 2 (t div 3600) @ '':'' @ fixed 2 (t div 60 mod 60) @ '':'' @ fixed 2 (t mod 60))"

definition OCCURRENCE_WINDOW_SECONDS :: int where
  "OCCURRENCE_WINDOW_SECONDS = 60"

text \<open>The start of the slot an instant falls in, and its text: the first 19 characters.\<close>

definition slot_start :: "int \<Rightarrow> int" where
  "slot_start i = (let width = OCCURRENCE_WINDOW_SECONDS * 1000 in i div width * width)"

definition throttleSlot :: "int \<Rightarrow> str" where
  "throttleSlot i = take 19 (iso_seconds (slot_start i))"

section \<open>Lemmas\<close>

lemma clipped_div:
  fixes x w :: int
  assumes "0 \<le> x" "x \<le> 4 * w" "0 < w"
  shows "0 \<le> min 3 (x div w)" "min 3 (x div w) \<le> 3" "0 \<le> x - min 3 (x div w) * w"
    "x - min 3 (x div w) * w < w \<or> min 3 (x div w) = 3 \<and> x - min 3 (x div w) * w \<le> w"
proof -
  have d: "x - x div w * w = x mod w" by (simp add: minus_div_mult_eq_mod)
  have m: "0 \<le> x mod w" "x mod w < w" using assms(3) by simp_all
  have p: "0 \<le> x div w" using assms by (simp add: pos_imp_zdiv_nonneg_iff)
  show "0 \<le> min 3 (x div w)" "min 3 (x div w) \<le> 3" using p by simp_all
  have "0 \<le> x - min 3 (x div w) * w \<and>
    (x - min 3 (x div w) * w < w \<or> min 3 (x div w) = 3 \<and> x - min 3 (x div w) * w \<le> w)"
  proof (cases "x div w \<le> 3")
    case True
    thus ?thesis using d m by (simp add: min_absorb2)
  next
    case False
    hence "4 * w \<le> x div w * w" using assms(3) by (intro mult_right_mono) auto
    hence "x = 4 * w" using d m assms(2) by linarith
    thus ?thesis using False assms(3) by (simp add: min_absorb1)
  qed
  thus "0 \<le> x - min 3 (x div w) * w"
    "x - min 3 (x div w) * w < w \<or> min 3 (x div w) = 3 \<and> x - min 3 (x div w) * w \<le> w" by auto
qed

lemma day_parts_exact:
  assumes "day_parts z = (y, n)"
  shows "z = year_start y + n" "0 \<le> n" "n \<le> 365"
    "n = 365 \<longrightarrow> year_start (y + 1) = year_start y + 366"
    "year_start (y + 1) = year_start y + 365 \<or> year_start (y + 1) = year_start y + 366"
proof -
  define e where "e = z div 146097"
  define r where "r = z mod 146097"
  define c where "c = min 3 (r div 36524)"
  define s where "s = r - c * 36524"
  define q where "q = s div 1461"
  define u where "u = s mod 1461"
  define a where "a = min 3 (u div 365)"
  have "day_parts z = (400 * e + 100 * c + 4 * q + a, u - a * 365)"
    unfolding a_def u_def q_def s_def c_def r_def e_def day_parts_def Let_def by (rule refl)
  hence y: "y = 400 * e + 100 * c + 4 * q + a" and n: "n = u - a * 365"
    unfolding assms by blast+
  have z: "z = 146097 * e + r" "0 \<le> r" "r < 146097" unfolding e_def r_def by simp_all
  have r: "r = c * 36524 + s" by (simp add: s_def)
  have c: "0 \<le> c" "c \<le> 3" "0 \<le> s" "s < 36524 \<or> c = 3 \<and> s \<le> 36524"
    unfolding s_def c_def using clipped_div [of r 36524] z(2,3) by simp_all
  have s: "s = 1461 * q + u" "0 \<le> u" "u < 1461" unfolding q_def u_def by simp_all
  have q: "0 \<le> q" "q \<le> 24" using s c by linarith+
  have a: "0 \<le> a" "a \<le> 3" "0 \<le> n" "n < 365 \<or> a = 3 \<and> n \<le> 365"
    unfolding n a_def using clipped_div [of u 365] s(2,3) by (simp_all add: mult.commute)
  have d4: "y div 4 = 100 * e + 25 * c + q" unfolding y using a by linarith
  have d100: "y div 100 = 4 * e + c" unfolding y using a q by linarith
  have d400: "y div 400 = e" unfolding y using a q c by linarith
  have ys: "year_start y = 146097 * e + 36524 * c + 1461 * q + 365 * a"
    unfolding year_start_def d4 d100 d400 unfolding y by (simp add: algebra_simps)
  show "z = year_start y + n" unfolding ys using z r s n by linarith
  show "0 \<le> n" "n \<le> 365" using a by auto
  have d4': "(y + 1) div 4 = (if a = 3 then y div 4 + 1 else y div 4)"
    using a(1,2) unfolding d4 unfolding y by (auto; linarith)
  have d100': "(y + 1) div 100 = (if a = 3 \<and> q = 24 then y div 100 + 1 else y div 100)"
    using a(1,2) q unfolding d100 unfolding y by (auto; linarith)
  have d400': "(y + 1) div 400 = (if a = 3 \<and> q = 24 \<and> c = 3 then y div 400 + 1 else y div 400)"
    using a(1,2) q c(1,2) unfolding d400 unfolding y by (auto; linarith)
  have step: "year_start (y + 1) = year_start y + 365 + (if a = 3 then 1 else 0)
      - (if a = 3 \<and> q = 24 then 1 else 0) + (if a = 3 \<and> q = 24 \<and> c = 3 then 1 else 0)"
    unfolding year_start_def d4' d100' d400' by simp
  show "year_start (y + 1) = year_start y + 365 \<or> year_start (y + 1) = year_start y + 366"
    unfolding step by simp
  show "n = 365 \<longrightarrow> year_start (y + 1) = year_start y + 366"
  proof
    assume "n = 365"
    hence "a = 3" "u = 1460" using a n s(3) by auto
    moreover have "q = 24 \<longrightarrow> c = 3" using s c \<open>u = 1460\<close> by auto
    ultimately show "year_start (y + 1) = year_start y + 366" unfolding step by auto
  qed
qed

lemma year_start_mono: "y \<le> y' \<Longrightarrow> year_start y \<le> year_start y'"
proof (induction y' rule: int_ge_induct)
  case (step i)
  have "(i + 1) div 100 \<le> i div 100 + 1" "i div 4 \<le> (i + 1) div 4" "i div 400 \<le> (i + 1) div 400"
    by linarith+
  hence "year_start i \<le> year_start (i + 1)" unfolding year_start_def by simp
  thus ?case using step by simp
qed simp

lemma day_parts_mono:
  assumes "z < z'" "day_parts z = (y, n)" "day_parts z' = (y', n')"
  shows "y < y' \<or> y = y' \<and> n < n'"
proof (rule ccontr)
  note p = day_parts_exact [OF assms(2)] day_parts_exact [OF assms(3)]
  assume "\<not> ?thesis"
  hence "y' < y \<or> y = y' \<and> n' \<le> n" by auto
  moreover have "year_start y' + n' < year_start y" if "y' < y"
  proof -
    have "year_start (y' + 1) \<le> year_start y" using that by (intro year_start_mono) simp
    thus ?thesis using p(8,9,10) by (cases "n' = 365") (use p(7) in auto)
  qed
  ultimately show False using assms(1) p(1,2,6) by auto
qed

definition date_before :: "int \<times> int \<times> int \<Rightarrow> int \<times> int \<times> int \<Rightarrow> bool" where
  "date_before a b = (case (a, b) of ((y, m, d), (y', m', d')) \<Rightarrow>
     y < y' \<or> y = y' \<and> (m < m' \<or> m = m' \<and> d < d'))"

lemma civil_date_mono:
  assumes "z < z'"
  shows "date_before (civil_date z) (civil_date z')"
proof -
  obtain y n where p: "day_parts (z + 719468) = (y, n)" by fastforce
  obtain y' n' where p': "day_parts (z' + 719468) = (y', n')" by fastforce
  have lt: "y < y' \<or> y = y' \<and> n < n'" using day_parts_mono [OF _ p p'] assms by simp
  have r: "0 \<le> n" "n \<le> 365" "0 \<le> n'" "n' \<le> 365"
    using day_parts_exact(2,3) [OF p] day_parts_exact(2,3) [OF p'] by auto
  define m where "m = (5 * n + 2) div 153"
  define m' where "m' = (5 * n' + 2) div 153"
  have m: "0 \<le> m" "m \<le> 11" "0 \<le> m'" "m' \<le> 11" using r unfolding m_def m'_def by linarith+
  have mono: "n < n' \<Longrightarrow> m \<le> m'" unfolding m_def m'_def by linarith
  show ?thesis using lt m mono
    unfolding civil_date_def p p' date_before_def Let_def prod.case m_def [symmetric] m'_def [symmetric]
    by auto
qed

lemma civil_date_range:
  assumes "civil_date z = (y, m, d)"
  shows "1 \<le> m" "m \<le> 12" "1 \<le> d" "d \<le> 31"
proof -
  obtain y' n where p: "day_parts (z + 719468) = (y', n)" by fastforce
  have n: "0 \<le> n" "n \<le> 365" using day_parts_exact(2,3) [OF p] by auto
  define k where "k = (5 * n + 2) div 153"
  have k: "153 * k \<le> 5 * n + 2" "5 * n + 2 < 153 * k + 153" "0 \<le> k" "k \<le> 11"
    using n unfolding k_def by linarith+
  define l where "l = (153 * k + 2) div 5"
  have l: "5 * l \<le> 153 * k + 2" "153 * k + 2 < 5 * l + 5" unfolding l_def by linarith+
  have eq: "(y, m, d) = (if k < 10 then (y', k + 3, n - l + 1) else (y' + 1, k - 9, n - l + 1))"
    using assms unfolding civil_date_def p Let_def prod.case k_def [symmetric] l_def [symmetric] by simp
  show "1 \<le> m" "m \<le> 12" "1 \<le> d" "d \<le> 31" using eq k l by (auto split: if_splits)
qed

section \<open>The order of the texts\<close>

lemma append_less_iff:
  fixes xs ys us vs :: "'a::linorder list"
  assumes "length xs = length ys"
  shows "xs @ us < ys @ vs \<longleftrightarrow> xs < ys \<or> xs = ys \<and> us < vs"
  using assms by (induction xs ys rule: list_induct2) auto

lemma digit_less:
  assumes "0 \<le> n" "n < m" "m \<le> 9"
  shows "digit n < digit m"
proof -
  have "nat n < nat m" "48 + nat m < 256" "48 + nat n < 256" using assms by auto
  thus ?thesis unfolding digit_def less_char_def by simp
qed

lemma length_fixed [simp]: "length (fixed w n) = w"
  by (induction w arbitrary: n) auto

lemma fixed_less:
  assumes "0 \<le> n" "n < m" "m < 10 ^ w"
  shows "fixed w n < fixed w m"
  using assms
proof (induction w arbitrary: n m)
  case (Suc w)
  have r: "0 \<le> n mod 10" "m mod 10 \<le> 9" by simp_all
  show ?case
  proof (cases "n div 10 < m div 10")
    case True
    have "fixed w (n div 10) < fixed w (m div 10)"
      by (rule Suc.IH) (use True Suc.prems in auto)
    thus ?thesis by (simp add: append_less_iff)
  next
    case False
    hence e: "n div 10 = m div 10" using zdiv_mono1 [of n m 10] Suc.prems(2) by simp
    have "n = 10 * (n div 10) + n mod 10" "m = 10 * (m div 10) + m mod 10" by simp_all
    hence "n mod 10 < m mod 10" using Suc.prems(2) e by linarith
    thus ?thesis using digit_less [OF r(1) _ r(2)] e by (simp add: append_less_iff)
  qed
qed simp

definition in_slots :: "int \<Rightarrow> bool" where
  "in_slots i = (0 \<le> i \<and> i < 253402300800000)"

lemma civil_year:
  assumes "0 \<le> z" "z < 2932897" "civil_date z = (y, m, d)"
  shows "0 \<le> y \<and> y \<le> 9999"
proof -
  have "civil_date 0 = (1970, 1, 1)" "civil_date 2932896 = (9999, 12, 31)"
    by (simp_all add: civil_date_def day_parts_def Let_def)
  thus ?thesis
    using assms civil_date_mono [of 0 z] civil_date_mono [of z 2932896]
    by (cases "z = 0"; cases "z = 2932896") (auto simp: date_before_def)
qed

lemma iso_seconds_length:
  assumes "in_slots i"
  shows "length (iso_seconds i) = 19"
proof -
  obtain y m d where c: "civil_date (i div 1000 div 86400) = (y, m, d)" by (metis prod_cases3)
  have "0 \<le> i div 1000 div 86400" "i div 1000 div 86400 < 2932897"
    using assms by (auto simp: in_slots_def)
  hence "0 \<le> y \<and> y \<le> 9999" using civil_year c by blast
  thus ?thesis by (simp add: iso_seconds_def Let_def c iso_year_def)
qed

lemma clock_less:
  fixes a b c a' b' c' :: int
  assumes "3600 * a + 60 * b + c < 3600 * a' + 60 * b' + c'"
    "0 \<le> b" "b < 60" "0 \<le> c" "c < 60" "0 \<le> b'" "b' < 60" "0 \<le> c'" "c' < 60"
  shows "a < a' \<or> a = a' \<and> (b < b' \<or> b = b' \<and> c < c')"
  using assms by linarith

lemma iso_seconds_less:
  assumes "in_slots i" "in_slots j" "i div 1000 < j div 1000"
  shows "iso_seconds i < iso_seconds j"
proof -
  define s where "s = i div 1000"
  define r where "r = j div 1000"
  have lt: "s < r" using assms(3) by (simp add: s_def r_def)
  obtain y m d where c: "civil_date (s div 86400) = (y, m, d)" by (metis prod_cases3)
  obtain y' m' d' where c': "civil_date (r div 86400) = (y', m', d')" by (metis prod_cases3)
  have z: "0 \<le> s div 86400" "s div 86400 < 2932897" "0 \<le> r div 86400" "r div 86400 < 2932897"
    using assms by (auto simp: in_slots_def s_def r_def)
  have y: "0 \<le> y \<and> y \<le> 9999" "0 \<le> y' \<and> y' \<le> 9999" using civil_year c c' z by blast+
  note rng = civil_date_range [OF c] civil_date_range [OF c']
  define t where "t = s mod 86400"
  define u where "u = r mod 86400"
  have tu: "0 \<le> t" "t < 86400" "0 \<le> u" "u < 86400" by (simp_all add: t_def u_def)
  have date: "date_before (y, m, d) (y', m', d') \<or> (y, m, d) = (y', m', d') \<and> t < u"
  proof (cases "s div 86400 < r div 86400")
    case True
    thus ?thesis using civil_date_mono c c' by metis
  next
    case False
    hence e: "s div 86400 = r div 86400" using zdiv_mono1 [of s r 86400] lt by simp
    have "s = 86400 * (s div 86400) + t" "r = 86400 * (r div 86400) + u" by (simp_all add: t_def u_def)
    hence "t < u" using lt e by linarith
    thus ?thesis using c c' e by simp
  qed
  have time: "t div 3600 < u div 3600 \<or> t div 3600 = u div 3600 \<and>
      (t div 60 mod 60 < u div 60 mod 60 \<or> t div 60 mod 60 = u div 60 mod 60 \<and> t mod 60 < u mod 60)"
    if "t < u"
  proof -
    have eq: "x = 3600 * (x div 3600) + 60 * (x div 60 mod 60) + x mod 60" for x :: int
    proof -
      have "x div 3600 = x div 60 div 60" by (simp add: zdiv_zmult2_eq [symmetric])
      moreover have "x = 60 * (x div 60) + x mod 60" "x div 60 = 60 * (x div 60 div 60) + x div 60 mod 60"
        by simp_all
      ultimately show ?thesis by linarith
    qed
    have b: "0 \<le> x div 60 mod 60" "x div 60 mod 60 < 60" "0 \<le> x mod 60" "x mod 60 < 60" for x :: int
      by simp_all
    show ?thesis
      by (rule clock_less [OF _ b(1,2,3,4) b(1,2,3,4)]) (use that in \<open>simp only: eq [symmetric]\<close>)
  qed
  have f4: "a < b \<Longrightarrow> 0 \<le> a \<Longrightarrow> b \<le> 9999 \<Longrightarrow> fixed 4 a < fixed 4 b" for a b by (rule fixed_less) auto
  have f2: "a < b \<Longrightarrow> 0 \<le> a \<Longrightarrow> b < 100 \<Longrightarrow> fixed 2 a < fixed 2 b" for a b by (rule fixed_less) auto
  have h: "0 \<le> t div 3600" "u div 3600 < 100" "0 \<le> t div 60 mod 60" "u div 60 mod 60 < 100"
    "0 \<le> t mod 60" "u mod 60 < 100" using tu by auto
  let ?H = "fixed 2 (t div 3600)" and ?H' = "fixed 2 (u div 3600)"
  let ?N = "fixed 2 (t div 60 mod 60)" and ?N' = "fixed 2 (u div 60 mod 60)"
  let ?S = "fixed 2 (t mod 60)" and ?S' = "fixed 2 (u mod 60)"
  have clock: "?H < ?H' \<or> ?H = ?H' \<and> (?N < ?N' \<or> ?N = ?N' \<and> ?S < ?S')" if "t < u"
    using time [OF that] f2 [OF _ h(1,2)] f2 [OF _ h(3,4)] f2 [OF _ h(5,6)] by metis
  have "fixed 4 y < fixed 4 y' \<or> fixed 4 y = fixed 4 y' \<and> (fixed 2 m < fixed 2 m' \<or>
      fixed 2 m = fixed 2 m' \<and> (fixed 2 d < fixed 2 d' \<or> fixed 2 d = fixed 2 d' \<and>
      (?H < ?H' \<or> ?H = ?H' \<and> (?N < ?N' \<or> ?N = ?N' \<and> ?S < ?S'))))"
    using date
  proof
    assume "date_before (y, m, d) (y', m', d')"
    then consider "y < y'" | "y = y'" "m < m'" | "y = y'" "m = m'" "d < d'"
      by (auto simp: date_before_def)
    thus ?thesis by cases (use f4 [of y y'] f2 [of m m'] f2 [of d d'] y rng in simp_all)
  qed (use clock in simp)
  thus ?thesis
    unfolding iso_seconds_def Let_def s_def [symmetric] r_def [symmetric] c c' prod.case
      t_def [symmetric] u_def [symmetric] iso_year_def if_P [OF y(1)] if_P [OF y(2)]
    by (simp add: append_less_iff)
qed

lemma slot_start_bounds:
  "slot_start i \<le> i" "i < slot_start i + 60000" "slot_start i mod 60000 = 0"
proof -
  have "i = 60000 * (i div 60000) + i mod 60000" "0 \<le> i mod 60000" "i mod 60000 < 60000" by simp_all
  thus "slot_start i \<le> i" "i < slot_start i + 60000" "slot_start i mod 60000 = 0"
    by (simp_all add: slot_start_def OCCURRENCE_WINDOW_SECONDS_def)
qed

lemma slot_start_mono: "i \<le> j \<Longrightarrow> slot_start i \<le> slot_start j"
  by (simp add: slot_start_def OCCURRENCE_WINDOW_SECONDS_def Let_def zdiv_mono1)

lemma in_slots_start: "in_slots i \<Longrightarrow> in_slots (slot_start i)"
  by (auto simp: in_slots_def slot_start_def OCCURRENCE_WINDOW_SECONDS_def Let_def)

lemma slot_start_less_seconds:
  "slot_start i < slot_start j \<Longrightarrow> slot_start i div 1000 < slot_start j div 1000"
  by (simp add: slot_start_def OCCURRENCE_WINDOW_SECONDS_def Let_def)

lemma throttleSlot_less:
  assumes "in_slots i" "in_slots j" "slot_start i < slot_start j"
  shows "throttleSlot i < throttleSlot j"
  using iso_seconds_less [OF in_slots_start [OF assms(1)] in_slots_start [OF assms(2)]
      slot_start_less_seconds [OF assms(3)]]
    iso_seconds_length [OF in_slots_start [OF assms(1)]]
    iso_seconds_length [OF in_slots_start [OF assms(2)]]
  by (simp add: throttleSlot_def)

lemma throttleSlot_slot: "slot_start i = slot_start j \<Longrightarrow> throttleSlot i = throttleSlot j"
  by (simp add: throttleSlot_def)

lemma throttleSlot_eq_iff:
  assumes "in_slots i" "in_slots j"
  shows "throttleSlot i = throttleSlot j \<longleftrightarrow> slot_start i = slot_start j"
  using throttleSlot_less [OF assms] throttleSlot_less [OF assms(2,1)] throttleSlot_slot
  by (metis less_irrefl linorder_less_linear)

text \<open>The text an occurrence is filed under is its slot's: through the year 9999 it is 19
  characters long, two occurrences have the same text exactly when they fall in the same minute, and
  the texts compare as the instants of the slots do, which is what the send-it handler orders the
  occurrences of a batch by.\<close>

theorem slot_text_orders_slots:
  assumes "in_slots i" "in_slots j"
  shows "length (throttleSlot i) = 19 \<and>
    (throttleSlot i = throttleSlot j \<longleftrightarrow> i div 60000 = j div 60000) \<and>
    (throttleSlot i < throttleSlot j \<longleftrightarrow> slot_start i < slot_start j)"
proof -
  have "slot_start i = slot_start j \<longleftrightarrow> i div 60000 = j div 60000"
    by (simp add: slot_start_def OCCURRENCE_WINDOW_SECONDS_def Let_def)
  moreover have "throttleSlot i < throttleSlot j \<longleftrightarrow> slot_start i < slot_start j"
    using throttleSlot_less [OF assms] throttleSlot_less [OF assms(2,1)] throttleSlot_slot
    by (metis less_asym less_irrefl linorder_less_linear)
  ultimately show ?thesis using throttleSlot_eq_iff [OF assms] iso_seconds_length [OF in_slots_start [OF assms(1)]]
    by (simp add: throttleSlot_def)
qed

lemma slot_text_orders_slots_witness:
  "throttleSlot 1709210096789 = ''2024-02-29 12:34:00'' \<and> throttleSlot 1709210096789 < throttleSlot 1709210160000"
proof -
  have "throttleSlot 1709210096789 = ''2024-02-29 12:34:00''" by code_simp
  moreover have "throttleSlot 1709210096789 < throttleSlot 1709210160000"
    using slot_text_orders_slots [of 1709210096789 1709210160000]
    by (simp add: in_slots_def slot_start_def OCCURRENCE_WINDOW_SECONDS_def)
  ultimately show ?thesis ..
qed

end
