(* ===== verification/Schedule.thy ===== *)
theory Schedule
  imports Rrule Dates Insert_Props Claims
begin

text \<open>
  Schedules, \<^verbatim>\<open>src/src/timekeeper.ts\<close> and its statements in \<^verbatim>\<open>src/src/plans.ts\<close>: the
  schedule table, what a cron pass finds due and missed in each of its rows, the jobs it files under a
  throttle slot, and what the handler of those jobs records.

  Instants are milliseconds since the epoch, the columns of the table microseconds.  The cron parser is
  a package: the record \<^verbatim>\<open>cron_lib\<close> is what it answers.  A read that loops is an option, and is
  shown to end.
\<close>

section \<open>The table\<close>

datatype schedule_kind = CronKind | RruleKind

datatype missed_policy = MissedSkip | MissedOnce

record schedule_row =
  sc_name :: str
  sc_key :: str
  sc_kind :: schedule_kind
  sc_cron :: str
  sc_timezone :: "str option"
  sc_data :: "json option"
  sc_options :: "json option"
  sc_created_on :: time
  sc_updated_on :: time
  sc_last_job_id :: "uuid option"

definition schedule_pk :: "schedule_row \<Rightarrow> str \<times> str" where
  "schedule_pk s = (sc_name s, sc_key s)"

text \<open>The upsert of \<^verbatim>\<open>schedule()\<close>; the queue is a foreign key.\<close>

definition schedule_upsert ::
  "str list \<Rightarrow> str \<Rightarrow> str \<Rightarrow> schedule_kind \<Rightarrow> str \<Rightarrow> str option \<Rightarrow> json option \<Rightarrow> json option \<Rightarrow> time \<Rightarrow>
   schedule_row list \<Rightarrow> sql_error + schedule_row list" where
  "schedule_upsert queues n k kind cron tz data opts now ss =
     and_then (ensure (n \<in> set queues) ForeignKeyViolation) (\<lambda>_.
       Inr (if list_ex (\<lambda>s. schedule_pk s = (n, k)) ss
         then upd_where (\<lambda>s. schedule_pk s = (n, k)) (\<lambda>s. s\<lparr>sc_kind := kind, sc_cron := cron,
                sc_timezone := tz, sc_data := data, sc_options := opts, sc_updated_on := now\<rparr>) ss
         else ss @ [\<lparr>sc_name = n, sc_key = k, sc_kind = kind, sc_cron = cron, sc_timezone = tz,
                sc_data = data, sc_options = opts, sc_created_on = now, sc_updated_on = now,
                sc_last_job_id = None\<rparr>]))"

definition unschedule :: "str \<Rightarrow> str \<Rightarrow> schedule_row list \<Rightarrow> schedule_row list" where
  "unschedule n k ss = filter (\<lambda>s. schedule_pk s \<noteq> (n, k)) ss"

text \<open>A recordset with more than one record for a row leaves open which one an update uses; both
  callers hand over at most one.\<close>

definition setScheduleLastJobIds :: "(str \<times> str \<times> uuid) list \<Rightarrow> schedule_row list \<Rightarrow> schedule_row list" where
  "setScheduleLastJobIds xs ss = map (\<lambda>s. case List.find (\<lambda>(n, k, _). schedule_pk s = (n, k)) xs of
     None \<Rightarrow> s | Some (_, _, i) \<Rightarrow> s\<lparr>sc_last_job_id := Some i\<rparr>) ss"

definition setScheduleKinds ::
  "(str \<times> str \<times> schedule_kind \<times> str) list \<Rightarrow> schedule_row list \<Rightarrow> schedule_row list" where
  "setScheduleKinds xs ss = map (\<lambda>s. case List.find (\<lambda>(n, k, _, c). schedule_pk s = (n, k) \<and> sc_cron s = c) xs of
     None \<Rightarrow> s | Some (_, _, kd, _) \<Rightarrow> s\<lparr>sc_kind := kd\<rparr>) ss"

text \<open>The reads: ordered by the primary key, filtered by queue, by key, past a row, up to a limit.\<close>

definition getSchedules :: "str option \<Rightarrow> (str \<times> str) option \<Rightarrow> nat option \<Rightarrow> schedule_row list \<Rightarrow> schedule_row list" where
  "getSchedules n after limit ss = (
     let rows = sort_key schedule_pk (filter (\<lambda>s.
           (case n of None \<Rightarrow> True | Some m \<Rightarrow> sc_name s = m) \<and>
           (case after of None \<Rightarrow> True | Some a \<Rightarrow> a < schedule_pk s)) ss)
     in case limit of None \<Rightarrow> rows | Some l \<Rightarrow> take l rows)"

definition getSchedulesByQueueAndKey :: "str \<Rightarrow> str \<Rightarrow> schedule_row list \<Rightarrow> schedule_row list" where
  "getSchedulesByQueueAndKey n k ss = filter (\<lambda>s. schedule_pk s = (n, k)) ss"

definition getSchedule :: "str \<Rightarrow> str \<Rightarrow> schedule_row list \<Rightarrow> schedule_row option" where
  "getSchedule n k ss = (case getSchedulesByQueueAndKey n k ss of [] \<Rightarrow> None | s # _ \<Rightarrow> Some s)"

section \<open>Values of the driver\<close>

text \<open>What a timestamp column may be handed back as: a \<^verbatim>\<open>Date\<close>, which may be invalid; a text or a
  number, which \<^verbatim>\<open>new Date()\<close> reads; an object with \<^verbatim>\<open>epochMilliseconds\<close> and
  \<^verbatim>\<open>valueOf\<close>, either of which may throw or answer with no finite number.  Numbers are whole.\<close>

datatype js_read = Throws | Answers "int option"

datatype js_value =
    JsDate "int option"
  | JsText str
  | JsNumber int
  | JsObject js_read js_read
  | JsOther

definition date_range :: "int \<Rightarrow> int option" where
  "date_range n = (if \<bar>n\<bar> \<le> 8640000000000000 then Some n else None)"

definition toTime :: "(str \<Rightarrow> int option) \<Rightarrow> js_value \<Rightarrow> int option" where
  "toTime parse v = (case v of
     JsDate t \<Rightarrow> t
   | JsText s \<Rightarrow> parse s
   | JsNumber n \<Rightarrow> date_range n
   | JsObject epoch millis \<Rightarrow> (case epoch of Throws \<Rightarrow> None
       | Answers (Some e) \<Rightarrow> Some e
       | Answers None \<Rightarrow> (case millis of Throws \<Rightarrow> None | Answers m \<Rightarrow> m))
   | JsOther \<Rightarrow> None)"

datatype claim_value = ClaimText str | ClaimBool bool | ClaimNumber int | ClaimOther

definition claimTaken :: "claim_value \<Rightarrow> bool" where
  "claimTaken v = (case v of
     ClaimText s \<Rightarrow> map lower_ascii s \<in> {''true'', ''t'', ''1''}
   | ClaimBool b \<Rightarrow> b
   | ClaimNumber n \<Rightarrow> n = 1
   | ClaimOther \<Rightarrow> False)"

text \<open>\<^verbatim>\<open>claimRetryDelay\<close>, in milliseconds, for the age of the row in seconds; no age is one that
  is no finite number.\<close>

definition claimRetryDelay :: "int \<Rightarrow> rat option \<Rightarrow> rat" where
  "claimRetryDelay seconds elapsed = (
     let interval = of_int seconds * 1000;
         remaining = (case elapsed of None \<Rightarrow> interval
           | Some age \<Rightarrow> if age > 0 then max 0 (interval - age * 1000) else interval)
     in remaining + min 1000 (interval / 4))"

text \<open>The options of a row.\<close>

definition json_field :: "str \<Rightarrow> json option \<Rightarrow> json option" where
  "json_field k v = (case v of Some (JObj kvs) \<Rightarrow> map_of kvs k | _ \<Rightarrow> None)"

definition missedPolicy :: "json option \<Rightarrow> missed_policy" where
  "missedPolicy options = (if json_field ''missed'' options = Some (JStr ''once'') then MissedOnce else MissedSkip)"

definition assertMissedPolicy :: "json option \<Rightarrow> bool" where
  "assertMissedPolicy missed = (missed \<in> {None, Some JNull, Some (JStr ''skip''), Some (JStr ''once'')})"

text \<open>The key an occurrence is filed under: the underscores of the name are escaped.\<close>

definition escape_underscores :: "str \<Rightarrow> str" where
  "escape_underscores n = concat (map (\<lambda>c. if c = CHR ''_'' then [CHR 0x5C, CHR ''_''] else [c]) n)"

definition occurrenceKey :: "str \<Rightarrow> str \<Rightarrow> str" where
  "occurrenceKey n k = escape_underscores n @ ''__'' @ k"

section \<open>Reading an expression\<close>

text \<open>The parser: whether an expression parses at all, whether it does for a zone and a reference date,
  the number of hours it names, the occurrence strictly before or after an instant, and the offset of a
  zone from UTC in minutes at an instant.\<close>

record cron_lib =
  cl_syntax :: "str \<Rightarrow> str option"
  cl_parse :: "str \<Rightarrow> str \<Rightarrow> int \<Rightarrow> str option"
  cl_hours :: "str \<Rightarrow> nat"
  cl_prev :: "str \<Rightarrow> str \<Rightarrow> int \<Rightarrow> str + int"
  cl_next :: "str \<Rightarrow> str \<Rightarrow> int \<Rightarrow> str + int"
  cl_offset :: "str \<Rightarrow> int \<Rightarrow> int"

datatype schedule_error =
    EmptyExpression
  | CronError str
  | RuleError rrule_error
  | UnknownMissedPolicy
  | BadCount
  | GaveUp nat
  | ScheduleArgs str
  | QueueNotFound str

definition lift_rule :: "rrule_error + 'a \<Rightarrow> schedule_error + 'a" where
  "lift_rule r = (case r of Inl e \<Rightarrow> Inl (RuleError e) | Inr x \<Rightarrow> Inr x)"

definition lift_cron :: "str + 'a \<Rightarrow> schedule_error + 'a" where
  "lift_cron r = (case r of Inl e \<Rightarrow> Inl (CronError e) | Inr x \<Rightarrow> Inr x)"

definition parse_cron :: "cron_lib \<Rightarrow> str \<Rightarrow> str \<Rightarrow> int \<Rightarrow> schedule_error + unit" where
  "parse_cron cl e tz now = (case cl_parse cl e tz now of None \<Rightarrow> Inr () | Some m \<Rightarrow> Inl (CronError m))"

definition parseRecurrence :: "cron_lib \<Rightarrow> rrule_lib \<Rightarrow> str \<Rightarrow> str \<Rightarrow> int \<Rightarrow> schedule_error + unit" where
  "parseRecurrence cl rl e tz now =
     and_then (case cl_syntax cl e of None \<Rightarrow> Inr () | Some m \<Rightarrow> Inl (CronError m)) (\<lambda>_.
     and_then (lift_rule (assertTimezone rl tz)) (\<lambda>_. parse_cron cl e tz now))"

definition assertExpression :: "str \<Rightarrow> schedule_error + unit" where
  "assertExpression e = ensure (trim e \<noteq> []) EmptyExpression"

definition assertRecurrence :: "cron_lib \<Rightarrow> rrule_lib \<Rightarrow> str \<Rightarrow> str \<Rightarrow> int \<Rightarrow> schedule_error + unit" where
  "assertRecurrence cl rl e tz now = and_then (assertExpression e) (\<lambda>_.
     if isRrule e then lift_rule (assertRrule rl e tz) else parseRecurrence cl rl e tz now)"

text \<open>Whether the local time of an instant was shown once before, when the clocks went back.\<close>

definition repeatsLocalTime :: "(int \<Rightarrow> int) \<Rightarrow> int \<Rightarrow> bool" where
  "repeatsLocalTime offset instant = (
     let shift = offset (instant - 3 * 60 * 60 * 1000) - offset instant
     in shift > 0 \<and> offset (instant - shift * 60 * 1000) - offset instant = shift)"

partial_function (option) prev_walk ::
  "(int \<Rightarrow> str + int) \<Rightarrow> (int \<Rightarrow> bool) \<Rightarrow> int \<Rightarrow> (str + int) option" where
  "prev_walk prev skip cursor = (case prev cursor of Inl e \<Rightarrow> Some (Inl e)
     | Inr x \<Rightarrow> if skip x then prev_walk prev skip x else Some (Inr x))"

definition skipped :: "cron_lib \<Rightarrow> str \<Rightarrow> str \<Rightarrow> int \<Rightarrow> bool" where
  "skipped cl e tz x = (cl_hours cl e \<noteq> 24 \<and> repeatsLocalTime (cl_offset cl tz) x)"

definition previousOccurrence :: "cron_lib \<Rightarrow> str \<Rightarrow> str \<Rightarrow> int \<Rightarrow> (str + int) option" where
  "previousOccurrence cl e tz cursor = prev_walk (cl_prev cl e tz) (skipped cl e tz) cursor"

text \<open>The latest occurrence in a range, its upper end included, or none.\<close>

definition cron_latest :: "cron_lib \<Rightarrow> str \<Rightarrow> str \<Rightarrow> int \<Rightarrow> int \<Rightarrow> (schedule_error + int option) option" where
  "cron_latest cl e tz after until = (case parse_cron cl e tz (until + 1) of
     Inl err \<Rightarrow> Some (Inl err)
   | Inr _ \<Rightarrow> map_option (\<lambda>r. and_then (lift_cron r) (\<lambda>x. Inr (if x > after then Some x else None)))
       (previousOccurrence cl e tz (until + 1)))"

definition readOccurrences ::
  "cron_lib \<Rightarrow> rrule_lib \<Rightarrow> str \<Rightarrow> schedule_kind \<Rightarrow> str \<Rightarrow> int \<Rightarrow> (schedule_error + int list) option" where
  "readOccurrences cl rl e kind tz now = (let window = now - OCCURRENCE_WINDOW_SECONDS * 1000 in case kind of
     RruleKind \<Rightarrow> Some (lift_rule (occurrencesInWindow rl e window now tz))
   | CronKind \<Rightarrow> map_option (\<lambda>r. and_then r (\<lambda>x. Inr (case x of None \<Rightarrow> [] | Some y \<Rightarrow> [y])))
       (cron_latest cl e tz window now))"

definition detected_kind :: "str \<Rightarrow> schedule_kind" where
  "detected_kind e = (if isRrule e then RruleKind else CronKind)"

definition dueOccurrences ::
  "cron_lib \<Rightarrow> rrule_lib \<Rightarrow> str \<Rightarrow> schedule_kind \<Rightarrow> str \<Rightarrow> int \<Rightarrow>
   (schedule_error + schedule_kind \<times> int list) option" where
  "dueOccurrences cl rl e kind tz now = (case assertExpression e of
     Inl err \<Rightarrow> Some (Inl err)
   | Inr _ \<Rightarrow> (case readOccurrences cl rl e kind tz now of
       None \<Rightarrow> None
     | Some (Inr xs) \<Rightarrow> Some (Inr (kind, xs))
     | Some (Inl err) \<Rightarrow> if detected_kind e = kind then Some (Inl err)
         else map_option (\<lambda>r. and_then r (\<lambda>xs. Inr (detected_kind e, xs)))
           (readOccurrences cl rl e (detected_kind e) tz now)))"

definition shouldSendIt :: "cron_lib \<Rightarrow> rrule_lib \<Rightarrow> str \<Rightarrow> str \<Rightarrow> schedule_kind \<Rightarrow> int \<Rightarrow> (schedule_error + bool) option" where
  "shouldSendIt cl rl e tz kind now =
     map_option (\<lambda>r. and_then r (\<lambda>(_, xs). Inr (xs \<noteq> []))) (dueOccurrences cl rl e kind tz now)"

definition latest_occurrence ::
  "cron_lib \<Rightarrow> rrule_lib \<Rightarrow> str \<Rightarrow> schedule_kind \<Rightarrow> str \<Rightarrow> int \<Rightarrow> int \<Rightarrow> (schedule_error + int option) option" where
  "latest_occurrence cl rl e kind tz after until = (case kind of
     RruleKind \<Rightarrow> map_option lift_rule (latestOccurrenceBefore rl e after until tz)
   | CronKind \<Rightarrow> cron_latest cl e tz after until)"

text \<open>A row as the driver hands it over: the zone is coalesced by the statement.\<close>

definition row_zone :: "schedule_row \<Rightarrow> str" where
  "row_zone s = coalesce (sc_timezone s) ''UTC''"

definition missed_from :: "int \<Rightarrow> int option \<Rightarrow> int" where
  "missed_from lastPass created = max lastPass (coalesce created lastPass)"

definition missedOccurrence ::
  "cron_lib \<Rightarrow> rrule_lib \<Rightarrow> (schedule_row \<Rightarrow> int option) \<Rightarrow> schedule_row \<Rightarrow> schedule_kind \<Rightarrow> int option \<Rightarrow> int \<Rightarrow>
   (schedule_error + int option) option" where
  "missedOccurrence cl rl created s kind lastPass windowStart = (case lastPass of
     None \<Rightarrow> Some (Inr None)
   | Some p \<Rightarrow> if missedPolicy (sc_options s) = MissedSkip then Some (Inr None)
       else let from = missed_from p (created s) in
         if from \<ge> windowStart then Some (Inr None)
         else latest_occurrence cl rl (sc_cron s) kind (row_zone s) from windowStart)"

section \<open>The pass\<close>

text \<open>The payload of a forwarded job, and the job.  PostgreSQL reads the text of the slot back as the
  slot's start.\<close>

definition forwarded_data :: "schedule_row \<Rightarrow> int \<Rightarrow> json" where
  "forwarded_data s slot = JObj [
     (''name'', JStr (sc_name s)), (''key'', JStr (sc_key s)),
     (''data'', coalesce (sc_data s) JNull), (''options'', coalesce (sc_options s) JNull),
     (''slot'', JStr (throttleSlot slot))]"

definition forwarded :: "schedule_row \<Rightarrow> int \<Rightarrow> batch_job" where
  "forwarded s slot = \<lparr>bj_input = empty_input\<lparr>in_data := Some (forwarded_data s slot),
       in_singleton_key := Some (occurrenceKey (sc_name s) (sc_key s)),
       in_singleton_slot := Some (slot * 1000)\<rparr>, bj_group = None\<rparr>"

text \<open>The set of slots, in the order they were added.\<close>

definition add_slot :: "int \<Rightarrow> int list \<Rightarrow> int list" where
  "add_slot s acc = (if s \<in> set acc then acc else acc @ [s])"

definition row_slots :: "int option \<Rightarrow> int list \<Rightarrow> int list" where
  "row_slots missed due = fold add_slot
     (map slot_start ((case missed of None \<Rightarrow> [] | Some m \<Rightarrow> [m]) @ due)) []"

datatype pass_warning =
    NotEvaluated schedule_error
  | NotCaughtUp schedule_error

type_synonym warned_row = "str \<times> str \<times> str \<times> str"

record pass_state =
  ps_scheduled :: "batch_job list"
  ps_relabelled :: "(str \<times> str \<times> schedule_kind \<times> str) list"
  ps_broken :: "warned_row list"
  ps_warnings :: "(warned_row \<times> pass_warning) list"

definition warned_key :: "schedule_row \<Rightarrow> warned_row" where
  "warned_key s = (sc_name s, sc_key s, sc_cron s, row_zone s)"

definition warn :: "warned_row list \<Rightarrow> schedule_row \<Rightarrow> pass_warning \<Rightarrow> pass_state \<Rightarrow> pass_state" where
  "warn warned s w p = p\<lparr>
     ps_broken := (if warned_key s \<in> set (ps_broken p) then ps_broken p else ps_broken p @ [warned_key s]),
     ps_warnings := (if warned_key s \<in> set warned then ps_warnings p
        else ps_warnings p @ [(warned_key s, w)])\<rparr>"

text \<open>One row.  A read that fails is a warning, and costs the pass nothing else.\<close>

definition pass_row ::
  "cron_lib \<Rightarrow> rrule_lib \<Rightarrow> (schedule_row \<Rightarrow> int option) \<Rightarrow> int \<Rightarrow> int option \<Rightarrow> warned_row list \<Rightarrow>
   schedule_row \<Rightarrow> pass_state \<Rightarrow> pass_state option" where
  "pass_row cl rl created now lastPass warned s p = (
     let windowStart = now - OCCURRENCE_WINDOW_SECONDS * 1000 in
     case dueOccurrences cl rl (sc_cron s) (sc_kind s) (row_zone s) now of
       None \<Rightarrow> None
     | Some (Inl e) \<Rightarrow> Some (warn warned s (NotEvaluated e) p)
     | Some (Inr (kind, due)) \<Rightarrow> (case missedOccurrence cl rl created s kind lastPass windowStart of
         None \<Rightarrow> None
       | Some r \<Rightarrow>
         let p1 = (case r of Inl e \<Rightarrow> warn warned s (NotCaughtUp e) p | Inr _ \<Rightarrow> p);
             missed = (case r of Inl _ \<Rightarrow> None | Inr m \<Rightarrow> m);
             p2 = (if kind \<noteq> sc_kind s
                   then p1\<lparr>ps_relabelled := ps_relabelled p1 @ [(sc_name s, sc_key s, kind, sc_cron s)]\<rparr>
                   else p1)
         in Some (p2\<lparr>ps_scheduled := ps_scheduled p2 @ map (forwarded s) (row_slots missed due)\<rparr>)))"

fun pass_rows ::
  "cron_lib \<Rightarrow> rrule_lib \<Rightarrow> (schedule_row \<Rightarrow> int option) \<Rightarrow> int \<Rightarrow> int option \<Rightarrow> warned_row list \<Rightarrow>
   schedule_row list \<Rightarrow> pass_state \<Rightarrow> pass_state option" where
  "pass_rows cl rl created now lastPass warned [] p = Some p"
| "pass_rows cl rl created now lastPass warned (s # ss) p =
     (case pass_row cl rl created now lastPass warned s p of None \<Rightarrow> None
      | Some p' \<Rightarrow> pass_rows cl rl created now lastPass warned ss p')"

definition empty_pass :: pass_state where
  "empty_pass = \<lparr>ps_scheduled = [], ps_relabelled = [], ps_broken = [], ps_warnings = []\<rparr>"

definition SEND_IT :: str where
  "SEND_IT = ''__pgboss__send-it''"

text \<open>What a pass reads and writes: the jobs, the schedules, and the rows it has warned about.\<close>

record cron_world =
  cw_jobs :: "job list"
  cw_schedules :: "schedule_row list"
  cw_warned :: "warned_row list"

text \<open>The environment of a pass: the packages, how the driver hands a creation time back, the queues
  and the send-it queue of the cache, the ids, and the instance being stopped before the insert or
  before the relabelling.\<close>

record cron_env =
  ce_cron :: cron_lib
  ce_rrule :: rrule_lib
  ce_created :: "schedule_row \<Rightarrow> int option"
  ce_casts :: casts
  ce_no_notify :: bool
  ce_queues :: "queue list"
  ce_send_it :: queue
  ce_gen :: "nat \<Rightarrow> uuid"
  ce_claimed :: "bool \<Rightarrow> claim_value"

text \<open>The sends and the relabelling.  A failed insert raises, and the relabelling does not happen.\<close>

definition send_due ::
  "cron_env \<Rightarrow> bool \<Rightarrow> bool \<Rightarrow> time \<Rightarrow> pass_state \<Rightarrow> cron_world \<Rightarrow> insert_error option \<times> cron_world" where
  "send_due ce stopped1 stopped2 stamp p w = (
     let w1 = w\<lparr>cw_warned := ps_broken p\<rparr>;
         relabel = (\<lambda>v. if ps_relabelled p \<noteq> [] \<and> \<not> stopped2
           then v\<lparr>cw_schedules := setScheduleKinds (ps_relabelled p) (cw_schedules v)\<rparr> else v)
     in if ps_scheduled p \<noteq> [] \<and> \<not> stopped1
       then (case insert_batch (ce_casts ce) (ce_no_notify ce) (ce_queues ce) (ce_send_it ce) True None
              stamp (ce_gen ce) (ps_scheduled p) (cw_jobs w1) of
           Inl e \<Rightarrow> (Some e, w1)
         | Inr (t, _, _) \<Rightarrow> (None, relabel (w1\<lparr>cw_jobs := t\<rparr>)))
       else (None, relabel w1))"

text \<open>\<^verbatim>\<open>cron()\<close>: \<^verbatim>\<open>now\<close> is the instance's reading of the database clock, \<^verbatim>\<open>stamp\<close> the
  clock of the database the statements run at.\<close>

definition cron ::
  "cron_env \<Rightarrow> bool \<Rightarrow> bool \<Rightarrow> int \<Rightarrow> time \<Rightarrow> int option \<Rightarrow> cron_world \<Rightarrow>
   ((warned_row \<times> pass_warning) list \<times> insert_error option \<times> cron_world) option" where
  "cron ce stopped1 stopped2 now stamp lastPass w = (
     case pass_rows (ce_cron ce) (ce_rrule ce) (ce_created ce) now lastPass (cw_warned w)
         (getSchedules None None None (cw_schedules w)) empty_pass of
       None \<Rightarrow> None
     | Some p \<Rightarrow> (case send_due ce stopped1 stopped2 stamp p w of (e, w') \<Rightarrow> Some (ps_warnings p, e, w')))"

text \<open>\<^verbatim>\<open>onCron()\<close>: one pass at a time, the claim, and what the claim timer is anchored to, nothing
  when no claim was tried.  \<^verbatim>\<open>prior\<close> is how the driver hands the replaced timestamp back.\<close>

datatype cron_anchor = NoAnchor | AnchorNow | AnchorAfter rat

definition onCron ::
  "cron_env \<Rightarrow> bool \<Rightarrow> bool \<Rightarrow> bool \<Rightarrow> bool \<Rightarrow> bool \<Rightarrow> int \<Rightarrow> int \<Rightarrow> time \<Rightarrow> (time option \<Rightarrow> int option) \<Rightarrow>
   version_row \<Rightarrow> cron_world \<Rightarrow> (cron_anchor \<times> version_row \<times> insert_error option \<times> cron_world) option" where
  "onCron ce stopped timekeeping stopped1 stopped2 stopped3 interval now stamp prior v w = (
     if stopped \<or> timekeeping then Some (NoAnchor, v, None, w)
     else case trySetCronTime interval stamp v of (v', priorCronOn, elapsed, won) \<Rightarrow>
       if claimTaken (ce_claimed ce won)
       then (if stopped1 then Some (AnchorNow, v', None, w)
         else map_option (\<lambda>(_, e, w'). (AnchorNow, v', e, w'))
           (cron ce stopped2 stopped3 now stamp (prior priorCronOn) w))
       else Some (AnchorAfter (claimRetryDelay interval (map_option (\<lambda>us. of_int us / 1000000) elapsed)),
              v', None, w))"

section \<open>The handler of the forwarded jobs\<close>

text \<open>What a forwarded job carries and how its send was settled: refused, dropped by a policy, or a
  job.  The payload of an older instance lacks the key and the slot.\<close>

record send_result =
  sr_name :: str
  sr_key :: "str option"
  sr_slot :: "str option"
  sr_sent :: "insert_error + uuid option"

type_synonym fired = "((str \<times> str) \<times> uuid \<times> str) list"

fun map_set :: "'k \<Rightarrow> 'v \<Rightarrow> ('k \<times> 'v) list \<Rightarrow> ('k \<times> 'v) list" where
  "map_set k v [] = [(k, v)]"
| "map_set k v ((k', v') # m) = (if k' = k then (k, v) # m else (k', v') # map_set k v m)"

definition fire :: "str \<Rightarrow> send_result \<Rightarrow> fired \<Rightarrow> fired" where
  "fire current r m = (case (sr_sent r, sr_key r) of
     (Inr (Some i), Some k) \<Rightarrow>
       let key = (sr_name r, k); filed = coalesce (sr_slot r) current
       in (case map_of m key of
             None \<Rightarrow> map_set key (i, filed) m
           | Some (_, latest) \<Rightarrow> if latest \<le> filed then map_set key (i, filed) m else m)
   | _ \<Rightarrow> m)"

definition onSendIt_fired :: "str \<Rightarrow> send_result list \<Rightarrow> (str \<times> str \<times> uuid) list" where
  "onSendIt_fired current rs = map (\<lambda>((n, k), i, _). (n, k, i)) (fold (fire current) rs [])"

definition onSendIt :: "int \<Rightarrow> send_result list \<Rightarrow> schedule_row list \<Rightarrow> schedule_row list" where
  "onSendIt now rs ss = (let fired = onSendIt_fired (throttleSlot now) rs
     in if fired = [] then ss else setScheduleLastJobIds fired ss)"

section \<open>Previews\<close>

definition PREVIEW_DEFAULT_COUNT :: int where "PREVIEW_DEFAULT_COUNT = 5"
definition PREVIEW_MAX_COUNT :: int where "PREVIEW_MAX_COUNT = 1000"
definition PREVIEW_TIME_BUDGET_MS :: int where "PREVIEW_TIME_BUDGET_MS = 1000"

text \<open>The walker of an expression, which is validated first: the occurrence after an instant, none
  when a rule has run out.\<close>

definition rruleWalker :: "rrule_lib \<Rightarrow> str \<Rightarrow> str \<Rightarrow> rrule_error + (int \<Rightarrow> int option)" where
  "rruleWalker rl e tz = and_then (parseRule rl e tz) (\<lambda>ics. Inr (rl_next rl ics tz))"

definition occurrenceWalker ::
  "cron_lib \<Rightarrow> rrule_lib \<Rightarrow> str \<Rightarrow> str \<Rightarrow> int \<Rightarrow> schedule_error + (int \<Rightarrow> schedule_error + int option)" where
  "occurrenceWalker cl rl e tz from = and_then (assertExpression e) (\<lambda>_.
     if isRrule e then and_then (lift_rule (assertRrule rl e tz)) (\<lambda>_.
       and_then (lift_rule (rruleWalker rl e tz)) (\<lambda>next. Inr (\<lambda>x. Inr (next x))))
     else and_then (parseRecurrence cl rl e tz from) (\<lambda>_.
       Inr (\<lambda>x. and_then (lift_cron (cl_next cl e tz x)) (\<lambda>y. Inr (Some y)))))"

text \<open>The walk, until it has \<^verbatim>\<open>n\<close> more; \<^verbatim>\<open>late k\<close> is whether the time budget was spent once
  it had \<^verbatim>\<open>k\<close>.\<close>

fun preview_walk :: "(int \<Rightarrow> schedule_error + int option) \<Rightarrow> (nat \<Rightarrow> bool) \<Rightarrow> nat \<Rightarrow> int \<Rightarrow> int list \<Rightarrow>
    schedule_error + int list" where
  "preview_walk next late 0 from acc = Inr acc"
| "preview_walk next late (Suc n) from acc = and_then (next from) (\<lambda>r. case r of
     None \<Rightarrow> Inr acc
   | Some x \<Rightarrow> if n \<noteq> 0 \<and> late (length acc + 1) then Inl (GaveUp (length acc + 1))
       else preview_walk next late n x (acc @ [x]))"

definition previewSchedule ::
  "cron_lib \<Rightarrow> rrule_lib \<Rightarrow> (nat \<Rightarrow> bool) \<Rightarrow> str \<Rightarrow> str option \<Rightarrow> int option \<Rightarrow> int option \<Rightarrow> int \<Rightarrow>
   schedule_error + int list" where
  "previewSchedule cl rl late e tz count from databaseTime = (
     let zone = (case tz of None \<Rightarrow> ''UTC'' | Some z \<Rightarrow> if z = [] then ''UTC'' else z);
         n = coalesce count PREVIEW_DEFAULT_COUNT; start = coalesce from databaseTime in
     and_then (occurrenceWalker cl rl e zone start) (\<lambda>next.
     and_then (ensure (1 \<le> n \<and> n \<le> PREVIEW_MAX_COUNT) BadCount) (\<lambda>_.
       preview_walk next late (nat n) start [])))"

section \<open>What a read finds\<close>

text \<open>\<^verbatim>\<open>prev\<close> answers with the latest occurrence before an instant, and there always is one.\<close>

definition prev_exact :: "(int \<Rightarrow> str + int) \<Rightarrow> int set \<Rightarrow> bool" where
  "prev_exact prev occ = (\<forall>c. \<exists>x. prev c = Inr x \<and> x \<in> occ \<and> x < c \<and> (\<forall>y\<in>occ. y < c \<longrightarrow> y \<le> x))"

text \<open>What the packages document, for one expression and zone: they read it, and \<^verbatim>\<open>occ\<close> are its
  occurrences.  A cron expression's are those of the parser but for the second instants of a local time
  the clocks went back over, and a zone has kept one offset up to some instant.\<close>

definition follows ::
  "cron_lib \<Rightarrow> rrule_lib \<Rightarrow> str \<Rightarrow> schedule_kind \<Rightarrow> str \<Rightarrow> int set \<Rightarrow> bool" where
  "follows cl rl e kind tz occ = (trim e \<noteq> [] \<and> (case kind of
     CronKind \<Rightarrow> (\<forall>now. cl_parse cl e tz now = None) \<and>
       (\<exists>all b. prev_exact (cl_prev cl e tz) all \<and> (\<forall>x\<le>b. \<not> skipped cl e tz x) \<and>
         occ = {x \<in> all. \<not> skipped cl e tz x})
   | RruleKind \<Rightarrow> (\<exists>ics. parseRule rl e tz = Inr ics \<and> between_exact (rl_between rl ics tz) occ \<and>
       reads_an_hour (rl_between rl ics tz))))"

lemma prev_walk_exact:
  assumes "prev_exact prev all" "\<forall>x\<le>b. \<not> skip x"
  shows "\<exists>r. prev_walk prev skip c = Some (Inr r) \<and> r \<in> all \<and> \<not> skip r \<and> r < c \<and>
    (\<forall>y\<in>all. y < c \<and> \<not> skip y \<longrightarrow> y \<le> r)"
proof (induction "nat (c - b)" arbitrary: c rule: less_induct)
  case less
  obtain x where x: "prev c = Inr x" "x \<in> all" "x < c" "\<forall>y\<in>all. y < c \<longrightarrow> y \<le> x"
    using assms(1) unfolding prev_exact_def by blast
  note unf = prev_walk.simps [of prev skip c, unfolded x(1) sum.case]
  show ?case
  proof (cases "skip x")
    case False
    thus ?thesis using x unf by auto
  next
    case True
    hence "b < x" using assms(2) by (meson not_le)
    hence "nat (x - b) < nat (c - b)" using x(3) by simp
    then obtain r where r: "prev_walk prev skip x = Some (Inr r)" "r \<in> all" "\<not> skip r" "r < x"
      "\<forall>y\<in>all. y < x \<and> \<not> skip y \<longrightarrow> y \<le> r"
      using less by blast
    have "y \<le> r" if "y \<in> all" "y < c" "\<not> skip y" for y
    proof -
      have "y \<noteq> x" using that(3) True by blast
      hence "y < x" using x(4) that by force
      thus ?thesis using r(5) that by blast
    qed
    thus ?thesis using r x(3) unf True by auto
  qed
qed

lemma cron_latest_exact:
  assumes "follows cl rl e CronKind tz occ"
  shows "\<exists>r. cron_latest cl e tz after until = Some (Inr r) \<and> latest_in occ after until r"
proof -
  obtain all b where f: "\<forall>now. cl_parse cl e tz now = None" "prev_exact (cl_prev cl e tz) all"
    "\<forall>x\<le>b. \<not> skipped cl e tz x" and occ: "occ = {x \<in> all. \<not> skipped cl e tz x}"
    using assms by (auto simp: follows_def)
  obtain r where r: "previousOccurrence cl e tz (until + 1) = Some (Inr r)" "r \<in> occ" "r \<le> until"
    "\<forall>y\<in>occ. y \<le> until \<longrightarrow> y \<le> r"
    using prev_walk_exact [OF f(2,3), of "until + 1"] unfolding previousOccurrence_def occ by auto
  show ?thesis
    using r f(1) by (auto simp: cron_latest_def parse_cron_def lift_cron_def latest_in_def)
qed

lemma latest_occurrence_exact:
  assumes "follows cl rl e kind tz occ"
  shows "\<exists>r. latest_occurrence cl rl e kind tz after until = Some (Inr r) \<and> latest_in occ after until r"
proof (cases kind)
  case CronKind
  thus ?thesis using cron_latest_exact assms by (simp add: latest_occurrence_def)
next
  case RruleKind
  then obtain ics where "parseRule rl e tz = Inr ics" "between_exact (rl_between rl ics tz) occ"
    "reads_an_hour (rl_between rl ics tz)"
    using assms by (auto simp: follows_def)
  from latestOccurrenceBefore_exact [OF this, of after until] show ?thesis
    using RruleKind by (auto simp: latest_occurrence_def lift_rule_def)
qed

text \<open>What is due: every occurrence of the window for a rule, the latest for a cron expression.\<close>

definition due_in :: "schedule_kind \<Rightarrow> int set \<Rightarrow> int \<Rightarrow> int list \<Rightarrow> bool" where
  "due_in kind occ now xs = (set xs \<subseteq> {x \<in> occ. now - 60000 < x \<and> x \<le> now} \<and>
     (case kind of RruleKind \<Rightarrow> set xs = {x \<in> occ. now - 60000 < x \<and> x \<le> now}
      | CronKind \<Rightarrow> \<exists>r. latest_in occ (now - 60000) now r \<and> xs = (case r of None \<Rightarrow> [] | Some x \<Rightarrow> [x])))"

lemma dueOccurrences_exact:
  assumes "follows cl rl e kind tz occ"
  shows "\<exists>xs. dueOccurrences cl rl e kind tz now = Some (Inr (kind, xs)) \<and> due_in kind occ now xs"
proof -
  have e: "assertExpression e = Inr ()" using assms by (simp add: follows_def assertExpression_def)
  have "\<exists>xs. readOccurrences cl rl e kind tz now = Some (Inr xs) \<and> due_in kind occ now xs"
  proof (cases kind)
    case CronKind
    with assms obtain r where "cron_latest cl e tz (now - 60000) now = Some (Inr r)"
      "latest_in occ (now - 60000) now r"
      using cron_latest_exact by blast
    thus ?thesis using CronKind
      by (auto simp: readOccurrences_def OCCURRENCE_WINDOW_SECONDS_def due_in_def latest_in_def
          split: option.splits)
  next
    case RruleKind
    then obtain ics where f: "parseRule rl e tz = Inr ics" "between_exact (rl_between rl ics tz) occ"
      "reads_an_hour (rl_between rl ics tz)"
      using assms by (auto simp: follows_def)
    have "now + 1 - (now - 60000) \<le> STEP_SECONDS * 1000 + 1" by (simp add: STEP_SECONDS_def)
    then obtain xs where xs: "rl_between rl ics tz (now - 60000) (now + 1) = Inr xs"
      using f(3) unfolding reads_an_hour_def by blast
    hence "set xs = {x \<in> occ. now - 60000 < x \<and> x < now + 1}"
      using f(2) unfolding between_exact_def by blast
    hence "set xs = {x \<in> occ. now - 60000 < x \<and> x \<le> now}" by auto
    thus ?thesis using RruleKind f(1) xs
      by (auto simp: readOccurrences_def OCCURRENCE_WINDOW_SECONDS_def due_in_def occurrencesInWindow_def
          lift_rule_def lift_lib_def)
  qed
  thus ?thesis using e by (auto simp: dueOccurrences_def)
qed

lemma missedOccurrence_exact:
  assumes "follows cl rl (sc_cron s) kind (row_zone s) occ"
  shows "\<exists>r. missedOccurrence cl rl created s kind (Some p) windowStart = Some (Inr r) \<and>
    (if missedPolicy (sc_options s) = MissedOnce
     then latest_in occ (missed_from p (created s)) windowStart r else r = None)"
proof (cases "missedPolicy (sc_options s)")
  case MissedOnce
  show ?thesis
  proof (cases "missed_from p (created s) < windowStart")
    case True
    thus ?thesis using latest_occurrence_exact [OF assms, of "missed_from p (created s)" windowStart] MissedOnce
      by (simp add: missedOccurrence_def Let_def)
  next
    case False
    thus ?thesis using MissedOnce by (auto simp: missedOccurrence_def latest_in_def)
  qed
qed (simp add: missedOccurrence_def)

section \<open>The keys of occurrences\<close>

lemma escape_simps [simp]:
  "escape_underscores [] = []"
  "escape_underscores (c # n) = (if c = CHR ''_'' then CHR 0x5C # CHR ''_'' # escape_underscores n
     else c # escape_underscores n)"
  by (simp_all add: escape_underscores_def)

lemma escape_separates:
  assumes "CHR 0x5C \<notin> set n" "CHR 0x5C \<notin> set m"
    and "escape_underscores n @ CHR ''_'' # a = escape_underscores m @ CHR ''_'' # b"
  shows "n = m \<and> a = b"
  using assms
proof (induction n arbitrary: m)
  case Nil
  thus ?case by (cases m) (auto split: if_splits)
next
  case (Cons c n)
  then obtain d m' where m: "m = d # m'" by (cases m) (auto split: if_splits)
  have "c = d" using Cons.prems unfolding m by (auto split: if_splits)
  thus ?case using Cons unfolding m by (auto split: if_splits)
qed

lemma occurrenceKey_eq_iff:
  assumes "CHR 0x5C \<notin> set n" "CHR 0x5C \<notin> set m"
  shows "occurrenceKey n a = occurrenceKey m b \<longleftrightarrow> n = m \<and> a = b"
  using escape_separates [OF assms, of "CHR ''_'' # a" "CHR ''_'' # b"]
  by (auto simp: occurrenceKey_def)

lemma occurrenceKey_nonempty [simp]: "occurrenceKey n k \<noteq> []"
  by (simp add: occurrenceKey_def)

section \<open>The slots of a row\<close>

lemma add_slots:
  "set (fold add_slot xs acc) = set xs \<union> set acc"
  "distinct acc \<Longrightarrow> distinct (fold add_slot xs acc)"
  by (induction xs arbitrary: acc) (auto simp: add_slot_def)

lemma row_slots_set: "set (row_slots m due) = slot_start ` (set_option m \<union> set due)"
  by (cases m) (simp_all add: row_slots_def add_slots add_slot_def)

lemma row_slots_distinct: "distinct (row_slots m due)"
  by (simp add: row_slots_def add_slots)

section \<open>Maps in insertion order\<close>

lemma map_set_of [simp]: "map_of (map_set k v m) = (map_of m)(k \<mapsto> v)"
  by (induction m) (auto simp: fun_eq_iff)

lemma map_set_keys: "fst ` set (map_set k v m) = insert k (fst ` set m)"
  by (simp add: dom_map_of_conv_image_fst [symmetric])

lemma map_set_distinct: "distinct (map fst m) \<Longrightarrow> distinct (map fst (map_set k v m))"
proof (induction m)
  case (Cons a m)
  thus ?case using map_set_keys [of k v m] by (cases a) (auto simp: image_iff)
qed simp

section \<open>What a pass files\<close>

text \<open>The jobs of one row, and what is wrong with one that a read fails on.\<close>

definition row_missed ::
  "cron_lib \<Rightarrow> rrule_lib \<Rightarrow> (schedule_row \<Rightarrow> int option) \<Rightarrow> int \<Rightarrow> int option \<Rightarrow> schedule_kind \<Rightarrow> schedule_row \<Rightarrow>
   (schedule_error + int option) option" where
  "row_missed cl rl created now lastPass kind s =
     missedOccurrence cl rl created s kind lastPass (now - OCCURRENCE_WINDOW_SECONDS * 1000)"

definition row_due :: "cron_lib \<Rightarrow> rrule_lib \<Rightarrow> int \<Rightarrow> schedule_row \<Rightarrow> (schedule_error + schedule_kind \<times> int list) option" where
  "row_due cl rl now s = dueOccurrences cl rl (sc_cron s) (sc_kind s) (row_zone s) now"

definition row_ends ::
  "cron_lib \<Rightarrow> rrule_lib \<Rightarrow> (schedule_row \<Rightarrow> int option) \<Rightarrow> int \<Rightarrow> int option \<Rightarrow> schedule_row \<Rightarrow> bool" where
  "row_ends cl rl created now lastPass s = (case row_due cl rl now s of None \<Rightarrow> False
     | Some (Inl _) \<Rightarrow> True
     | Some (Inr (kind, _)) \<Rightarrow> row_missed cl rl created now lastPass kind s \<noteq> None)"

definition row_jobs ::
  "cron_lib \<Rightarrow> rrule_lib \<Rightarrow> (schedule_row \<Rightarrow> int option) \<Rightarrow> int \<Rightarrow> int option \<Rightarrow> schedule_row \<Rightarrow> batch_job list" where
  "row_jobs cl rl created now lastPass s = (case row_due cl rl now s of
     Some (Inr (kind, due)) \<Rightarrow> map (forwarded s) (row_slots
       (case row_missed cl rl created now lastPass kind s of Some (Inr m) \<Rightarrow> m | _ \<Rightarrow> None) due)
   | _ \<Rightarrow> [])"

definition row_warning ::
  "cron_lib \<Rightarrow> rrule_lib \<Rightarrow> (schedule_row \<Rightarrow> int option) \<Rightarrow> int \<Rightarrow> int option \<Rightarrow> schedule_row \<Rightarrow> pass_warning option" where
  "row_warning cl rl created now lastPass s = (case row_due cl rl now s of
     Some (Inl e) \<Rightarrow> Some (NotEvaluated e)
   | Some (Inr (kind, _)) \<Rightarrow> (case row_missed cl rl created now lastPass kind s of
       Some (Inl e) \<Rightarrow> Some (NotCaughtUp e) | _ \<Rightarrow> None)
   | None \<Rightarrow> None)"

lemma pass_row_eq:
  assumes "row_ends cl rl created now lastPass s"
  obtains p' where "pass_row cl rl created now lastPass warned s p = Some p'"
    "ps_scheduled p' = ps_scheduled p @ row_jobs cl rl created now lastPass s"
    "set (ps_broken p') = set (ps_broken p) \<union>
       (if row_warning cl rl created now lastPass s = None then {} else {warned_key s})"
    "ps_warnings p' = ps_warnings p @ (case row_warning cl rl created now lastPass s of None \<Rightarrow> []
       | Some w \<Rightarrow> if warned_key s \<in> set warned then [] else [(warned_key s, w)])"
proof -
  let ?due = "row_due cl rl now s"
  obtain d where d: "?due = Some d" using assms by (cases ?due) (auto simp: row_ends_def)
  show thesis
  proof (cases d)
    case (Inl e)
    show thesis
      by (rule that [of "warn warned s (NotEvaluated e) p"])
        (use d Inl in \<open>simp_all add: pass_row_def row_due_def warn_def row_jobs_def row_warning_def insert_absorb\<close>)
  next
    case (Inr kd)
    obtain kind due where kd: "d = Inr (kind, due)" using Inr by (cases kd) simp
    obtain r where r: "row_missed cl rl created now lastPass kind s = Some r"
      using assms d kd by (auto simp: row_ends_def)
    show thesis
    proof (cases r)
      case (Inl e)
      show thesis
        by (rule that, simp add: pass_row_def d [unfolded row_due_def] kd r [unfolded row_missed_def] Inl Let_def)
          (auto simp: warn_def row_jobs_def row_warning_def d kd r Inl)
    next
      case (Inr m)
      show thesis
        by (rule that, simp add: pass_row_def d [unfolded row_due_def] kd r [unfolded row_missed_def] Inr Let_def)
          (auto simp: row_jobs_def row_warning_def d kd r Inr)
    qed
  qed
qed

definition pass_warnings_of ::
  "cron_lib \<Rightarrow> rrule_lib \<Rightarrow> (schedule_row \<Rightarrow> int option) \<Rightarrow> int \<Rightarrow> int option \<Rightarrow> warned_row list \<Rightarrow>
   schedule_row list \<Rightarrow> (warned_row \<times> pass_warning) list" where
  "pass_warnings_of cl rl created now lastPass warned ss = concat (map (\<lambda>s.
     case row_warning cl rl created now lastPass s of None \<Rightarrow> []
     | Some w \<Rightarrow> if warned_key s \<in> set warned then [] else [(warned_key s, w)]) ss)"

lemma pass_rows_eq:
  assumes "list_all (row_ends cl rl created now lastPass) ss"
  shows "\<exists>p'. pass_rows cl rl created now lastPass warned ss p = Some p' \<and>
    ps_scheduled p' = ps_scheduled p @ concat (map (row_jobs cl rl created now lastPass) ss) \<and>
    set (ps_broken p') = set (ps_broken p) \<union>
       warned_key ` {s \<in> set ss. row_warning cl rl created now lastPass s \<noteq> None} \<and>
    ps_warnings p' = ps_warnings p @ pass_warnings_of cl rl created now lastPass warned ss"
  using assms
proof (induction ss arbitrary: p)
  case (Cons s ss)
  obtain p1 where p1: "pass_row cl rl created now lastPass warned s p = Some p1"
    "ps_scheduled p1 = ps_scheduled p @ row_jobs cl rl created now lastPass s"
    "set (ps_broken p1) = set (ps_broken p) \<union>
       (if row_warning cl rl created now lastPass s = None then {} else {warned_key s})"
    "ps_warnings p1 = ps_warnings p @ (case row_warning cl rl created now lastPass s of None \<Rightarrow> []
       | Some w \<Rightarrow> if warned_key s \<in> set warned then [] else [(warned_key s, w)])"
    using pass_row_eq [of cl rl created now lastPass s] Cons.prems by auto
  obtain p' where p': "pass_rows cl rl created now lastPass warned ss p1 = Some p'"
    "ps_scheduled p' = ps_scheduled p1 @ concat (map (row_jobs cl rl created now lastPass) ss)"
    "set (ps_broken p') = set (ps_broken p1) \<union>
       warned_key ` {s \<in> set ss. row_warning cl rl created now lastPass s \<noteq> None}"
    "ps_warnings p' = ps_warnings p1 @ pass_warnings_of cl rl created now lastPass warned ss"
    using Cons.IH [of p1] Cons.prems by auto
  have "warned_key ` {x \<in> set (s # ss). row_warning cl rl created now lastPass x \<noteq> None} =
      (if row_warning cl rl created now lastPass s = None then {} else {warned_key s}) \<union>
      warned_key ` {x \<in> set ss. row_warning cl rl created now lastPass x \<noteq> None}"
    by auto
  hence "set (ps_broken p') = set (ps_broken p) \<union>
       warned_key ` {x \<in> set (s # ss). row_warning cl rl created now lastPass x \<noteq> None}"
    unfolding p'(3) p1(3) by (simp only: Un_assoc)
  thus ?case using p1(1,2,4) p'(1,2,4) by (simp add: pass_warnings_of_def)
qed (simp add: pass_warnings_of_def)

lemma pass_rows_ends:
  "pass_rows cl rl created now lastPass warned ss p = Some p' \<Longrightarrow> list_all (row_ends cl rl created now lastPass) ss"
  by (induction ss arbitrary: p)
    (auto simp: pass_row_def row_ends_def row_due_def row_missed_def Let_def split: option.splits sum.splits prod.splits)

text \<open>The instants a row owes a job for, and the job that answers for one.\<close>

definition owed :: "cron_env \<Rightarrow> int \<Rightarrow> int option \<Rightarrow> schedule_row \<Rightarrow> int \<Rightarrow> bool" where
  "owed ce now lastPass s x = (\<exists>kind due. row_due (ce_cron ce) (ce_rrule ce) now s = Some (Inr (kind, due)) \<and>
     (x \<in> set due \<or> row_missed (ce_cron ce) (ce_rrule ce) (ce_created ce) now lastPass kind s = Some (Inr (Some x))))"

definition filed_for :: "schedule_row \<Rightarrow> int \<Rightarrow> job \<Rightarrow> bool" where
  "filed_for s x j = (job_name j = SEND_IT \<and> singleton_key j = Some (occurrenceKey (sc_name s) (sc_key s)) \<and>
     singleton_on j = Some (slot_start x * 1000) \<and> state j \<noteq> Cancelled)"

lemma row_jobs_mem:
  "b \<in> set (row_jobs (ce_cron ce) (ce_rrule ce) (ce_created ce) now lastPass s) \<longleftrightarrow>
    (\<exists>x. owed ce now lastPass s x \<and> b = forwarded s (slot_start x))"
proof (cases "\<exists>kind due. row_due (ce_cron ce) (ce_rrule ce) now s = Some (Inr (kind, due))")
  case True
  then obtain kind due where d: "row_due (ce_cron ce) (ce_rrule ce) now s = Some (Inr (kind, due))" by blast
  let ?m = "row_missed (ce_cron ce) (ce_rrule ce) (ce_created ce) now lastPass kind s"
  have o: "owed ce now lastPass s x \<longleftrightarrow> x \<in> set due \<or> ?m = Some (Inr (Some x))" for x
    by (simp add: owed_def d)
  have j: "set (row_jobs (ce_cron ce) (ce_rrule ce) (ce_created ce) now lastPass s) =
      forwarded s ` slot_start ` (set_option (case ?m of Some (Inr m) \<Rightarrow> m | _ \<Rightarrow> None) \<union> set due)"
    by (simp add: row_jobs_def d row_slots_set)
  have "set_option (case ?m of Some (Inr m) \<Rightarrow> m | _ \<Rightarrow> None) = {x. ?m = Some (Inr (Some x))}"
    by (auto split: option.splits sum.splits)
  thus ?thesis unfolding j o by auto
next
  case False
  hence "row_jobs (ce_cron ce) (ce_rrule ce) (ce_created ce) now lastPass s = []"
    by (auto simp: row_jobs_def split: option.splits sum.splits)
  thus ?thesis using False by (simp add: owed_def)
qed

end
