(* ===== verification/Schedule_Props.thy ===== *)
theory Schedule_Props
  imports Schedule
begin

text \<open>
  The properties of schedules: what a pass files and what it does with a row it cannot read, that every
  occurrence reaches a pass, what is owed for a gap, what the handler of the forwarded jobs records,
  and that edits of the schedule table and the passes' own writes do not undo each other.
\<close>

section \<open>Filing the jobs of a pass\<close>

text \<open>The send-it queue as \<^verbatim>\<open>start()\<close> creates it, in the cache and in the table, and ids that are new.\<close>

definition send_it_ready :: "cron_env \<Rightarrow> job list \<Rightarrow> bool" where
  "send_it_ready ce t = (q_name (ce_send_it ce) = SEND_IT \<and> q_policy (ce_send_it ce) = Standard \<and>
     q_dead_letter (ce_send_it ce) = None \<and> find_queue SEND_IT (ce_queues ce) = Some (ce_send_it ce) \<and>
     SEND_IT \<in> q_name ` set (ce_queues ce) \<and> cast_interval (ce_casts ce) ''0'' = Some 0 \<and>
     inj (ce_gen ce) \<and> range (ce_gen ce) \<inter> job_id ` set t = {})"

definition plain_forward :: "batch_job \<Rightarrow> bool" where
  "plain_forward b = (\<exists>s x. b = forwarded s x)"

lemma insert_payload_forwarded:
  "insert_payload True None (forwarded s x) = bj_input (forwarded s x)"
  by (simp add: insert_payload_def forwarded_def empty_input_def)

lemma duplicate_id_Nil: "list_all plain_forward bs \<Longrightarrow>
    duplicate_id (concat (map (\<lambda>b. case in_id (bj_input b) of None \<Rightarrow> [] | Some i \<Rightarrow> [i]) bs)) = None"
  by (induction bs) (auto simp: plain_forward_def forwarded_def empty_input_def)

text \<open>The row a forwarded job becomes.\<close>

definition is_send_it_row :: "schedule_row \<Rightarrow> int \<Rightarrow> time \<Rightarrow> uuid \<Rightarrow> job \<Rightarrow> bool" where
  "is_send_it_row s x stamp i r = (job_name r = SEND_IT \<and> job_id r = i \<and> state r = Created \<and>
     singleton_key r = Some (occurrenceKey (sc_name s) (sc_key s)) \<and> singleton_on r = Some (x * 1000) \<and>
     policy r = Some Standard \<and> dead_letter r = None \<and> upsert_by_key r = None \<and>
     created_on r = stamp \<and> start_after r = stamp \<and> job_data r = Some (forwarded_data s x))"

lemma forwarded_row:
  assumes "send_it_ready ce t"
  shows "\<exists>r. insert_row (ce_casts ce) (Some (ce_send_it ce)) SEND_IT True False stamp i (bj_input (forwarded s x)) = Inr r \<and>
    is_send_it_row s x stamp i r"
  using assms
  by (simp add: send_it_ready_def insert_row_def resolve_start_after_def singleton_on_of_def forwarded_def
      empty_input_def job_defaults_def is_send_it_row_def)

lemma map_ok_all:
  "(\<And>x. x \<in> set xs \<Longrightarrow> \<exists>y. f x = Inr y) \<Longrightarrow> \<exists>ys. map_ok f xs = Inr ys"
  by (induction xs) (auto simp: and_then_Inr_iff)

lemma send_it_row_conflict:
  assumes "is_send_it_row s x stamp i r" "conflict y r" "job_key y \<noteq> job_key r" "slot_start x' = x"
  shows "filed_for s x' y"
proof -
  have "same_entry (job_i4 y) (job_i4 r)"
    using assms by (auto simp: conflict_def is_send_it_row_def job_i1_def job_i2_def job_i3_def job_i6_def
        job_i8_def job_i13_def fifo_slot_def)
  hence "job_name y = SEND_IT" "singleton_on y = Some (x * 1000)" "state y \<noteq> Cancelled"
    "skey y = occurrenceKey (sc_name s) (sc_key s)"
    using assms(1) by (auto simp: job_i4_def same_entry_def is_send_it_row_def skey_def
        split: option.splits if_splits)
  thus ?thesis using assms(4) using occurrenceKey_nonempty [of "sc_name s" "sc_key s"]
    by (cases "singleton_key y") (auto simp: filed_for_def skey_def simp del: occurrenceKey_nonempty)
qed

lemma filed_for_i4:
  "filed_for s x j \<Longrightarrow> job_i4 j = Some (SEND_IT, slot_start x * 1000, occurrenceKey (sc_name s) (sc_key s))"
  by (simp add: filed_for_def job_i4_def skey_def)

lemma filed_at_most_once:
  assumes "table_ok t"
  shows "length (filter (filed_for s x) t) \<le> 1"
proof (rule ccontr)
  assume "\<not> ?thesis"
  then obtain a b r where f: "filter (filed_for s x) t = a # b # r"
    by (cases "filter (filed_for s x) t" rule: remdups_adj.cases) auto
  have "filed_for s x a" "filed_for s x b" using arg_cong [OF f, of set] by auto
  hence "conflict a b" by (simp add: conflict_def filed_for_i4 same_entry_def)
  moreover have "table_ok (a # b # r)" using table_ok_filter [OF assms, of "filed_for s x"] f by simp
  ultimately show False by (simp add: table_ok_Cons)
qed

lemma insert_forwarded:
  assumes ready: "send_it_ready ce t" and ok: "table_ok t" and bs: "list_all plain_forward bs"
  shows "\<exists>t' ins b. insert_batch (ce_casts ce) (ce_no_notify ce) (ce_queues ce) (ce_send_it ce) True None
      stamp (ce_gen ce) bs t = Inr (t @ ins, map job_id ins, b) \<and> table_ok (t @ ins) \<and> t' = t @ ins \<and>
    (\<forall>j\<in>set ins. \<exists>s x i. forwarded s x \<in> set bs \<and> is_send_it_row s x stamp i j) \<and>
    (\<forall>s x. forwarded s (slot_start x) \<in> set bs \<longrightarrow> list_ex (filed_for s x) (t @ ins))"
proof -
  let ?q = "ce_send_it ce" and ?inputs = "map bj_input bs"
  let ?row = "\<lambda>(k, i). insert_row (ce_casts ce) (Some ?q) SEND_IT True False stamp (ce_gen ce k) i"
  note r = ready [unfolded send_it_ready_def]
  have pay: "map (insert_payload True None) bs = ?inputs"
    using bs by (auto simp: list_all_iff plain_forward_def insert_payload_forwarded)
  have each: "\<exists>y. ?row (k, bj_input b) = Inr y \<and> (\<exists>s x. b = forwarded s x \<and> is_send_it_row s x stamp (ce_gen ce k) y)"
    if "b \<in> set bs" for k b
    using forwarded_row [OF ready] bs that by (fastforce simp: list_all_iff plain_forward_def)
  have "\<exists>rows. map_ok ?row (zip [0..<length ?inputs] ?inputs) = Inr rows"
  proof (rule map_ok_all)
    fix y assume y: "y \<in> set (zip [0..<length ?inputs] ?inputs)"
    obtain k i where ki: "y = (k, i)" by fastforce
    have "i \<in> set ?inputs" using y unfolding ki by (rule set_zip_rightD)
    then obtain b where "y = (k, bj_input b)" "b \<in> set bs" using ki by auto
    thus "\<exists>z. ?row y = Inr z" using each by blast
  qed
  then obtain rows where rows: "map_ok ?row (zip [0..<length ?inputs] ?inputs) = Inr rows" by blast
  have len: "length rows = length bs" using map_ok_length [OF rows] by simp
  have nth: "\<exists>s x. bs ! k = forwarded s x \<and> is_send_it_row s x stamp (ce_gen ce k) (rows ! k)" if "k < length bs" for k
    using map_ok_nth [OF rows, of k] each [of "bs ! k" k] that by auto
  have mem: "\<exists>s x i. forwarded s x \<in> set bs \<and> is_send_it_row s x stamp i j" if "j \<in> set rows" for j
    using that nth len by (metis in_set_conv_nth)
  have chk: "list_all key_check rows"
    using mem by (fastforce simp: list_all_iff key_check_def is_send_it_row_def)
  obtain t' ins where skip: "insert_skip t rows = (t', ins)" by fastforce
  have t': "t' = t @ ins" and sub: "set ins \<subseteq> set rows"
    using insert_skip_append [OF skip] insert_skip_subset [OF skip] by auto
  have fk: "fkeys_ok (ce_queues ce) ins"
    using mem sub r by (fastforce simp: fkeys_ok_def list_all_iff is_send_it_row_def)
  have okt: "table_ok t'" using insert_skip_ok [OF skip ok] chk by simp
  let ?io = "plain_insert\<lparr>io_notify := notifyEnabled (ce_no_notify ce) ?q, io_slots := True\<rparr>"
  have run: "insertJobs (ce_casts ce) (ce_queues ce) ?io SEND_IT stamp (ce_gen ce) ?inputs t =
      Inr (t', ins, io_notify ?io \<and> list_ex (\<lambda>j. start_after j \<le> stamp) ins)"
    using rows r chk skip fk by (simp add: insertJobs_def plain_insert_def run_insert_skip_def)
  have dup: "duplicate_id (concat (map (\<lambda>b. case in_id (bj_input b) of None \<Rightarrow> [] | Some i \<Rightarrow> [i]) bs)) = None"
    using bs by (rule duplicate_id_Nil)
  have grp: "list_all (\<lambda>b. group_valid (bj_group b)) bs"
    using bs by (auto simp: list_all_iff plain_forward_def forwarded_def group_valid_def)
  have key: "\<not> list_ex (\<lambda>b. requires_key ?q (in_singleton_key (bj_input b))) bs"
    using r by (simp add: requires_key_def list_ex_iff)
  have batch: "insert_batch (ce_casts ce) (ce_no_notify ce) (ce_queues ce) ?q True None stamp (ce_gen ce) bs t =
      Inr (t @ ins, map job_id ins, io_notify ?io \<and> list_ex (\<lambda>j. start_after j \<le> stamp) ins)"
  proof -
    have "q_name ?q = SEND_IT" using r by simp
    thus ?thesis unfolding insert_batch_def dup option.case if_not_P [OF key] pay \<open>q_name ?q = SEND_IT\<close> run t'
      using grp by simp
  qed
  have filed: "list_ex (filed_for s x) (t @ ins)" if fw: "forwarded s (slot_start x) \<in> set bs" for s x
  proof -
    obtain k where k: "k < length bs" "bs ! k = forwarded s (slot_start x)"
      using fw unfolding in_set_conv_nth by blast
    obtain s0 x0 where "bs ! k = forwarded s0 x0" and r0: "is_send_it_row s0 x0 stamp (ce_gen ce k) (rows ! k)"
      using nth [OF k(1)] by blast
    hence "singleton_key (rows ! k) = Some (occurrenceKey (sc_name s) (sc_key s))" "x0 = slot_start x"
      using k(2) by (simp_all add: forwarded_def empty_input_def is_send_it_row_def)
    hence row: "filed_for s x (rows ! k)" using r0 by (simp add: filed_for_def is_send_it_row_def)
    have "rows ! k \<in> set rows" using k(1) len by simp
    hence "rows ! k \<in> set ins \<or> (\<exists>y\<in>set t'. conflict y (rows ! k))"
      by (rule insert_skip_reason [OF skip])
    moreover have "filed_for s x y \<or> y = rows ! k" if y: "y \<in> set t'" "conflict y (rows ! k)" for y
    proof (cases "job_key y = job_key (rows ! k)")
      case False
      have "filed_for s0 x y"
        using send_it_row_conflict [OF r0 y(2) False] \<open>x0 = slot_start x\<close> by simp
      thus ?thesis using r0 \<open>singleton_key (rows ! k) = _\<close>
        by (simp add: filed_for_def is_send_it_row_def)
    next
      case True
      hence id: "job_id y = ce_gen ce k" using r0 by (simp add: job_key_def is_send_it_row_def)
      hence "y \<notin> set t" using r by (metis IntI image_eqI rangeI empty_iff)
      hence "y \<in> set rows" using y(1) sub t' by auto
      then obtain m where m: "m < length bs" "y = rows ! m" using len unfolding in_set_conv_nth by auto
      hence "ce_gen ce m = ce_gen ce k" using nth [OF m(1)] id by (auto simp: is_send_it_row_def)
      hence "m = k" using r by (simp add: inj_eq)
      thus ?thesis using m by simp
    qed
    ultimately show ?thesis using row t' by (auto simp: list_ex_iff)
  qed
  show ?thesis using batch okt t' mem sub filed by blast
qed

lemma getSchedules_all: "set (getSchedules None None None ss) = set ss"
  by (simp add: getSchedules_def)

lemma forwarded_inject:
  assumes "forwarded s x = forwarded s' x'"
  shows "occurrenceKey (sc_name s) (sc_key s) = occurrenceKey (sc_name s') (sc_key s')" "x = x'"
    "forwarded_data s x = forwarded_data s' x'"
  using assms by (auto simp: forwarded_def empty_input_def)

section \<open>Properties\<close>

text \<open>(C19) A pass files each occurrence once: whatever the table holds, the insert of a pass
  succeeds; each schedule has, for each instant it owes a job for, the occurrences due and the one
  missed, exactly one job in that instant's slot, however many passes and instances have read it; and
  every job the pass adds carries one schedule's payload for an instant that schedule owes.\<close>

theorem pass_files_each_slot_once:
  assumes "table_ok (cw_jobs w)" "send_it_ready ce (cw_jobs w)"
    and "cron ce False stopped2 now stamp lastPass w = Some (ws, e, w')"
  shows "e = None \<and> table_ok (cw_jobs w') \<and>
    (\<forall>s\<in>set (cw_schedules w). \<forall>x. owed ce now lastPass s x \<longrightarrow>
      length (filter (filed_for s x) (cw_jobs w')) = 1) \<and>
    (\<exists>new. cw_jobs w' = cw_jobs w @ new \<and> (\<forall>j\<in>set new. \<exists>s\<in>set (cw_schedules w). \<exists>x.
      owed ce now lastPass s x \<and> filed_for s x j \<and> state j = Created \<and>
      job_data j = Some (forwarded_data s (slot_start x))))"
proof -
  let ?ss = "getSchedules None None None (cw_schedules w)"
  let ?jobs = "row_jobs (ce_cron ce) (ce_rrule ce) (ce_created ce) now lastPass"
  obtain p where p: "pass_rows (ce_cron ce) (ce_rrule ce) (ce_created ce) now lastPass (cw_warned w) ?ss empty_pass = Some p"
    and send: "send_due ce False stopped2 stamp p w = (e, w')"
    using assms(3) by (auto simp: cron_def split: option.splits prod.splits)
  have sched: "ps_scheduled p = concat (map ?jobs ?ss)"
    using pass_rows_eq [OF pass_rows_ends [OF p], of "cw_warned w" empty_pass] p
    by (auto simp: empty_pass_def)
  have mem: "b \<in> set (ps_scheduled p) \<longleftrightarrow>
      (\<exists>s\<in>set (cw_schedules w). \<exists>x. owed ce now lastPass s x \<and> b = forwarded s (slot_start x))" for b
    unfolding sched by (auto simp: getSchedules_all row_jobs_mem)
  have plain: "list_all plain_forward (ps_scheduled p)"
    unfolding list_all_iff plain_forward_def using mem by blast
  obtain ins b where run: "insert_batch (ce_casts ce) (ce_no_notify ce) (ce_queues ce) (ce_send_it ce) True None
      stamp (ce_gen ce) (ps_scheduled p) (cw_jobs w) = Inr (cw_jobs w @ ins, map job_id ins, b)"
    and ok: "table_ok (cw_jobs w @ ins)"
    and new: "\<forall>j\<in>set ins. \<exists>s x i. forwarded s x \<in> set (ps_scheduled p) \<and> is_send_it_row s x stamp i j"
    and filed: "\<forall>s x. forwarded s (slot_start x) \<in> set (ps_scheduled p) \<longrightarrow> list_ex (filed_for s x) (cw_jobs w @ ins)"
    using insert_forwarded [OF assms(2,1) plain] by blast
  have w': "e = None \<and> (ps_scheduled p \<noteq> [] \<longrightarrow> cw_jobs w' = cw_jobs w @ ins) \<and>
      (ps_scheduled p = [] \<longrightarrow> cw_jobs w' = cw_jobs w)"
    using send run by (auto simp: send_due_def Let_def split: if_splits)
  show ?thesis
  proof (cases "ps_scheduled p = []")
    case True
    hence "\<not> owed ce now lastPass s x" if "s \<in> set (cw_schedules w)" for s x
      using mem [of "forwarded s (slot_start x)"] that by auto
    thus ?thesis using w' True assms(1) by auto
  next
    case False
    hence jobs: "cw_jobs w' = cw_jobs w @ ins" using w' by simp
    have one: "length (filter (filed_for s x) (cw_jobs w')) = 1"
      if "s \<in> set (cw_schedules w)" "owed ce now lastPass s x" for s x
    proof -
      have "forwarded s (slot_start x) \<in> set (ps_scheduled p)" unfolding mem using that by blast
      hence "list_ex (filed_for s x) (cw_jobs w')" using filed jobs by simp
      hence "filter (filed_for s x) (cw_jobs w') \<noteq> []" by (auto simp: list_ex_iff filter_empty_conv)
      moreover have "length (filter (filed_for s x) (cw_jobs w')) \<le> 1"
        unfolding jobs by (rule filed_at_most_once [OF ok])
      ultimately show ?thesis by (simp add: le_antisym Suc_le_eq)
    qed
    have "\<exists>s\<in>set (cw_schedules w). \<exists>x. owed ce now lastPass s x \<and> filed_for s x j \<and> state j = Created \<and>
        job_data j = Some (forwarded_data s (slot_start x))" if j: "j \<in> set ins" for j
    proof -
      obtain s0 x0 i where f: "forwarded s0 x0 \<in> set (ps_scheduled p)" and r: "is_send_it_row s0 x0 stamp i j"
        using new j by blast
      obtain s x where s: "s \<in> set (cw_schedules w)" "owed ce now lastPass s x"
        and eq: "forwarded s0 x0 = forwarded s (slot_start x)" using f unfolding mem by blast
      show ?thesis using s r forwarded_inject [OF eq]
        by (intro bexI [of _ s] exI [of _ x]) (simp_all add: is_send_it_row_def filed_for_def)
    qed
    thus ?thesis using w' jobs ok one by auto
  qed
qed

text \<open>Two passes within a minute, from different instances.\<close>

definition sample_cron :: cron_lib where
  "sample_cron = \<lparr>cl_syntax = (\<lambda>_. None), cl_parse = (\<lambda>_ _ _. None), cl_hours = (\<lambda>_. 24),
     cl_prev = (\<lambda>_ _ c. Inr ((c - 1) div 60000 * 60000)), cl_next = (\<lambda>_ _ c. Inr ((c div 60000 + 1) * 60000)),
     cl_offset = (\<lambda>_ _. 0)\<rparr>"

definition sample_env :: cron_env where
  "sample_env = \<lparr>ce_cron = sample_cron, ce_rrule = sample_lib, ce_created = (\<lambda>s. Some (sc_created_on s div 1000)),
     ce_casts = sample_casts, ce_no_notify = False,
     ce_queues = [queue_defaults SEND_IT Standard ''job_common'' 0],
     ce_send_it = queue_defaults SEND_IT Standard ''job_common'' 0, ce_gen = (\<lambda>k. k), ce_claimed = ClaimBool\<rparr>"

definition sample_schedule :: schedule_row where
  "sample_schedule = \<lparr>sc_name = ''q'', sc_key = '''', sc_kind = CronKind, sc_cron = ''* * * * *'',
     sc_timezone = None, sc_data = None, sc_options = None, sc_created_on = 0, sc_updated_on = 0,
     sc_last_job_id = None\<rparr>"

definition sample_world :: cron_world where
  "sample_world = \<lparr>cw_jobs = [], cw_schedules = [sample_schedule], cw_warned = []\<rparr>"

lemma sample_due: "row_due sample_cron sample_lib 90000 sample_schedule = Some (Inr (CronKind, [60000]))"
  by (simp add: row_due_def sample_schedule_def dueOccurrences_def assertExpression_def row_zone_def
      readOccurrences_def OCCURRENCE_WINDOW_SECONDS_def cron_latest_def parse_cron_def sample_cron_def
      previousOccurrence_def prev_walk.simps skipped_def lift_cron_def trim_def is_space_def)

lemma sample_pass_ends:
  "row_ends sample_cron sample_lib (ce_created sample_env) 90000 None sample_schedule"
  by (simp add: row_ends_def sample_due row_missed_def missedOccurrence_def)

lemma sample_cron_runs:
  "\<exists>ws e w'. cron sample_env False False 90000 90000000 None sample_world = Some (ws, e, w')"
proof -
  have "list_all (row_ends sample_cron sample_lib (ce_created sample_env) 90000 None) [sample_schedule]"
    using sample_pass_ends by simp
  from pass_rows_eq [OF this, of "[]" empty_pass] show ?thesis
    by (auto simp: cron_def sample_world_def getSchedules_def sample_env_def split: prod.splits)
qed

lemma pass_files_each_slot_once_witness:
  "\<exists>ws w'. cron sample_env False False 90000 90000000 None sample_world = Some (ws, None, w') \<and>
    length (filter (filed_for sample_schedule 60000) (cw_jobs w')) = 1"
proof -
  obtain ws e w' where run: "cron sample_env False False 90000 90000000 None sample_world = Some (ws, e, w')"
    using sample_cron_runs by blast
  have "table_ok (cw_jobs sample_world)" by (simp add: sample_world_def)
  moreover have "send_it_ready sample_env (cw_jobs sample_world)"
    by (simp add: send_it_ready_def sample_env_def sample_world_def queue_defaults_def find_queue_def sample_casts_def)
  moreover have "owed sample_env 90000 None sample_schedule 60000"
    using sample_due by (simp add: owed_def sample_env_def)
  ultimately show ?thesis
    using pass_files_each_slot_once [OF _ _ run] run by (auto simp: sample_world_def)
qed

text \<open>No two occurrences share a job: a job filed for one schedule's instant answers for no other
  schedule and no other minute, whatever underscores the names and keys hold, so the throttle drops no
  schedule's occurrence in favour of another's.  Queue names have no backslash.\<close>

theorem occurrences_kept_apart:
  assumes "CHR 0x5C \<notin> set (sc_name s)" "CHR 0x5C \<notin> set (sc_name s')"
    and "filed_for s x j" "filed_for s' x' j"
  shows "schedule_pk s = schedule_pk s' \<and> x div 60000 = x' div 60000"
  using assms occurrenceKey_eq_iff [OF assms(1,2), of "sc_key s" "sc_key s'"]
  by (simp add: filed_for_def schedule_pk_def slot_start_def OCCURRENCE_WINDOW_SECONDS_def)

definition report_daily :: schedule_row where
  "report_daily = sample_schedule\<lparr>sc_name := ''report_'', sc_key := ''daily''\<rparr>"

definition daily_report :: schedule_row where
  "daily_report = sample_schedule\<lparr>sc_name := ''report'', sc_key := ''_daily''\<rparr>"

lemma occurrences_kept_apart_witness:
  "\<not> filed_for daily_report 60000 (sample_job 1 SEND_IT 0 \<lparr>singleton_on := Some 60000000,
     singleton_key := Some (occurrenceKey ''report_'' ''daily'')\<rparr>)"
proof
  let ?j = "sample_job 1 SEND_IT 0 \<lparr>singleton_on := Some 60000000,
     singleton_key := Some (occurrenceKey ''report_'' ''daily'')\<rparr>"
  assume d: "filed_for daily_report 60000 ?j"
  have r: "filed_for report_daily 60000 ?j"
    by (simp add: filed_for_def report_daily_def sample_job_def job_defaults_def slot_start_def
        OCCURRENCE_WINDOW_SECONDS_def)
  have "schedule_pk report_daily = schedule_pk daily_report \<and> (60000 :: int) div 60000 = 60000 div 60000"
    by (rule occurrences_kept_apart [OF _ _ r d]) (simp_all add: report_daily_def daily_report_def)
  thus False by (simp add: schedule_pk_def report_daily_def daily_report_def)
qed

section \<open>Every occurrence reaches a pass\<close>

text \<open>Pass times, each less than \<^verbatim>\<open>g\<close> after the one before.\<close>

fun cadence :: "int \<Rightarrow> int list \<Rightarrow> bool" where
  "cadence g (p # q # ps) = (p \<le> q \<and> q < p + g \<and> cadence g (q # ps))"
| "cadence g ps = True"

text \<open>The seconds a cron expression names are the same in every minute it matches.\<close>

definition minute_grid :: "int set \<Rightarrow> bool" where
  "minute_grid occ = (\<forall>x\<in>occ. \<forall>y\<in>occ. slot_start y + x mod 60000 \<in> occ)"

lemma first_pass_after:
  "cadence g ps \<Longrightarrow> ps \<noteq> [] \<Longrightarrow> hd ps < f \<Longrightarrow> f \<le> last ps \<Longrightarrow> \<exists>p\<in>set ps. f \<le> p \<and> p < f + g"
proof (induction g ps rule: cadence.induct)
  case (1 g p q ps)
  thus ?case by (cases "q < f") auto
qed auto

lemma slot_start_decomp: "slot_start x + x mod 60000 = x"
  by (simp add: slot_start_def OCCURRENCE_WINDOW_SECONDS_def)

lemma slot_start_step: "slot_start x < slot_start y \<Longrightarrow> slot_start x + 60000 \<le> slot_start y"
  by (simp add: slot_start_def OCCURRENCE_WINDOW_SECONDS_def)

lemma first_of_minute:
  assumes "x \<in> (occ :: int set)"
  shows "\<exists>f\<in>occ. slot_start f = slot_start x \<and> f \<le> x \<and> (\<forall>y\<in>occ. slot_start y = slot_start x \<longrightarrow> f \<le> y)"
proof -
  let ?A = "{y \<in> occ. slot_start y = slot_start x}"
  have "?A \<subseteq> {slot_start x ..< slot_start x + 60000}"
  proof
    fix y assume "y \<in> ?A"
    thus "y \<in> {slot_start x ..< slot_start x + 60000}"
      using slot_start_bounds(1,2) [of y] by auto
  qed
  hence fin: "finite ?A" by (rule finite_subset) simp
  moreover have "?A \<noteq> {}" using assms by blast
  ultimately have "Min ?A \<in> ?A" by (rule Min_in)
  moreover have "\<forall>y\<in>?A. Min ?A \<le> y" using fin by simp
  ultimately show ?thesis using assms by (intro bexI [of _ "Min ?A"]) auto
qed

text \<open>(C20) No occurrence is lost between passes less than a minute apart: each of them, of a
  rule or of a cron expression with seconds or without, is found due by some pass, itself or an
  occurrence of its own slot, so a job is filed for its minute.\<close>

theorem every_occurrence_reaches_a_pass:
  assumes "follows cl rl e kind tz occ" "kind = CronKind \<longrightarrow> minute_grid occ"
    and "cadence 60000 ps" "ps \<noteq> []" "x \<in> occ" "hd ps < slot_start x" "x \<le> last ps"
  shows "\<exists>p\<in>set ps. \<exists>xs y. dueOccurrences cl rl e kind tz p = Some (Inr (kind, xs)) \<and> y \<in> set xs \<and>
    throttleSlot y = throttleSlot x"
proof (cases kind)
  case RruleKind
  obtain p where p: "p \<in> set ps" "x \<le> p" "p < x + 60000"
    using first_pass_after [OF assms(3,4), of x] assms(6,7) slot_start_bounds(1) [of x] by auto
  obtain xs where "dueOccurrences cl rl e kind tz p = Some (Inr (kind, xs))" "due_in kind occ p xs"
    using dueOccurrences_exact [OF assms(1)] by blast
  moreover have "x \<in> set xs" using calculation(2) RruleKind p assms(5) by (simp add: due_in_def)
  ultimately show ?thesis using p(1) by blast
next
  case CronKind
  obtain f where f: "f \<in> occ" "slot_start f = slot_start x" "f \<le> x"
    "\<forall>y\<in>occ. slot_start y = slot_start x \<longrightarrow> f \<le> y"
    using first_of_minute [OF assms(5)] by blast
  obtain p where p: "p \<in> set ps" "f \<le> p" "p < f + 60000"
    using first_pass_after [OF assms(3,4), of f] assms(6,7) f slot_start_bounds(1) [of f] by auto
  obtain xs where xs: "dueOccurrences cl rl e kind tz p = Some (Inr (kind, xs))" "due_in kind occ p xs"
    using dueOccurrences_exact [OF assms(1)] by blast
  then obtain r where r: "latest_in occ (p - 60000) p r" "xs = (case r of None \<Rightarrow> [] | Some y \<Rightarrow> [y])"
    using CronKind by (auto simp: due_in_def)
  then obtain y where y: "r = Some y" "y \<in> occ" "y \<le> p" "f \<le> y"
    using f(1) p by (cases r) (auto simp: latest_in_def)
  have "slot_start y = slot_start f"
  proof (rule ccontr)
    assume "slot_start y \<noteq> slot_start f"
    hence step: "slot_start f + 60000 \<le> slot_start y"
      using slot_start_mono [OF y(4)] slot_start_step [of f y] by simp
    let ?z = "slot_start f + y mod 60000"
    have "?z \<in> occ" using assms(2) CronKind f(1) y(2) by (simp add: minute_grid_def)
    moreover have "slot_start ?z = slot_start f"
      by (simp add: slot_start_def OCCURRENCE_WINDOW_SECONDS_def)
    ultimately have "f \<le> ?z" using f(2,4) by simp
    hence "f + 60000 \<le> y" using step slot_start_decomp [of y] by linarith
    thus False using y(3) p(3) by simp
  qed
  hence "throttleSlot y = throttleSlot x" using f(2) by (intro throttleSlot_slot) simp
  moreover have "y \<in> set xs" using r(2) y(1) by simp
  ultimately show ?thesis using p(1) xs(1) by blast
qed

lemma sample_follows: "follows sample_cron sample_lib ''* * * * *'' CronKind ''UTC'' {x. x mod 60000 = 0}"
proof -
  have p: "prev_exact (cl_prev sample_cron ''* * * * *'' ''UTC'') {x. x mod 60000 = 0}"
    unfolding prev_exact_def
  proof
    fix c :: int
    have "(c - 1) div 60000 * 60000 < c" using slot_start_bounds(1) [of "c - 1"]
      by (simp add: slot_start_def OCCURRENCE_WINDOW_SECONDS_def)
    moreover have "y \<le> (c - 1) div 60000 * 60000" if "y mod 60000 = 0" "y < c" for y
      using slot_start_mono [of y "c - 1"] slot_start_decomp [of y] that
      by (simp add: slot_start_def OCCURRENCE_WINDOW_SECONDS_def)
    ultimately show "\<exists>x. cl_prev sample_cron ''* * * * *'' ''UTC'' c = Inr x \<and> x \<in> {x. x mod 60000 = 0} \<and> x < c \<and>
        (\<forall>y\<in>{x. x mod 60000 = 0}. y < c \<longrightarrow> y \<le> x)"
      by (simp add: sample_cron_def)
  qed
  have s: "skipped sample_cron e tz x = False" for e tz x by (simp add: skipped_def sample_cron_def)
  show ?thesis unfolding follows_def s
    using p by (auto simp: sample_cron_def trim_def is_space_def)
qed

lemma every_occurrence_reaches_a_pass_witness:
  "list_ex (\<lambda>p. case dueOccurrences sample_cron sample_lib ''* * * * *'' CronKind ''UTC'' p of
     Some (Inr (_, xs)) \<Rightarrow> list_ex (\<lambda>y. throttleSlot y = throttleSlot 120000) xs | _ \<Rightarrow> False)
     [90000, 121000, 151500]"
proof -
  have "minute_grid {x. x mod 60000 = 0}"
    by (auto simp: minute_grid_def slot_start_bounds(3))
  hence "\<exists>p\<in>set [90000, 121000, 151500]. \<exists>xs y. dueOccurrences sample_cron sample_lib ''* * * * *'' CronKind ''UTC'' p =
      Some (Inr (CronKind, xs)) \<and> y \<in> set xs \<and> throttleSlot y = throttleSlot 120000"
    by (intro every_occurrence_reaches_a_pass [OF sample_follows])
      (simp_all add: slot_start_def OCCURRENCE_WINDOW_SECONDS_def)
  thus ?thesis unfolding list_ex_iff by fastforce
qed

section \<open>Gaps\<close>

text \<open>What is owed for a gap, whichever format the expression is in: nothing without a
  catch-up policy or a known last pass, and otherwise the latest occurrence after the last pass and
  after the row was created, up to where the due window opens.  The search ends, over a repeated hour of
  a clock change and over ranges the package refuses, and the instant it answers with is not one the
  due window holds.\<close>

theorem missed_occurrence_exact:
  assumes "follows cl rl (sc_cron s) kind (row_zone s) occ"
  shows "missedOccurrence cl rl created s kind None windowStart = Some (Inr None) \<and>
    (\<exists>r. missedOccurrence cl rl created s kind (Some p) windowStart = Some (Inr r) \<and>
      (missedPolicy (sc_options s) = MissedSkip \<longrightarrow> r = None) \<and>
      (missedPolicy (sc_options s) = MissedOnce \<longrightarrow>
        latest_in occ (missed_from p (created s)) windowStart r) \<and>
      (\<forall>x xs. r = Some x \<and> dueOccurrences cl rl (sc_cron s) kind (row_zone s) (windowStart + 60000) =
        Some (Inr (kind, xs)) \<longrightarrow> x \<notin> set xs))"
proof -
  obtain r where r: "missedOccurrence cl rl created s kind (Some p) windowStart = Some (Inr r)"
    "if missedPolicy (sc_options s) = MissedOnce
     then latest_in occ (missed_from p (created s)) windowStart r else r = None"
    using missedOccurrence_exact [OF assms] by blast
  obtain ys where ys: "dueOccurrences cl rl (sc_cron s) kind (row_zone s) (windowStart + 60000) = Some (Inr (kind, ys))"
    "due_in kind occ (windowStart + 60000) ys"
    using dueOccurrences_exact [OF assms] by blast
  have "x \<notin> set ys" if "r = Some x" for x
    using r(2) ys(2) that by (auto simp: due_in_def latest_in_def split: if_splits)
  hence "\<forall>x xs. r = Some x \<and> dueOccurrences cl rl (sc_cron s) kind (row_zone s) (windowStart + 60000) =
        Some (Inr (kind, xs)) \<longrightarrow> x \<notin> set xs"
    using ys(1) by auto
  thus ?thesis using r by (cases "missedPolicy (sc_options s)") (auto simp: missedOccurrence_def)
qed

text \<open>An hourly rule whose package refuses more than an hour: a gap of a day owes its last occurrence.\<close>

definition sample_missed :: schedule_row where
  "sample_missed = sample_schedule\<lparr>sc_kind := RruleKind, sc_cron := ''FREQ=DAILY'',
     sc_options := Some (JObj [(''missed'', JStr ''once'')])\<rparr>"

lemma sample_follows_rule: "follows sample_cron sample_lib ''FREQ=DAILY'' RruleKind ''UTC'' {5, 7200000}"
proof -
  have "parseRule sample_lib ''FREQ=DAILY'' ''UTC'' = Inr (''DTSTART:19700101T000000'' @ LF # ''RRULE:FREQ=DAILY'')"
    by (simp add: parseRule_def sample_ics buildRule_def sample_lib_def)
  moreover have "between_exact (rl_between sample_lib ics ''UTC'') {5, 7200000}" for ics
    by (auto simp: between_exact_def sample_lib_def split: if_splits)
  moreover have "reads_an_hour (rl_between sample_lib ics ''UTC'')" for ics
    by (simp add: reads_an_hour_def sample_lib_def STEP_SECONDS_def)
  ultimately show ?thesis by (simp add: follows_def trim_def is_space_def)
qed

lemma missed_occurrence_exact_witness:
  "missedOccurrence sample_cron sample_lib (\<lambda>_. Some 1000) sample_missed RruleKind (Some 6) 100000000
   = Some (Inr (Some 7200000))"
proof -
  have f: "follows sample_cron sample_lib (sc_cron sample_missed) RruleKind (row_zone sample_missed) {5, 7200000}"
    using sample_follows_rule by (simp add: sample_missed_def sample_schedule_def row_zone_def)
  have "missedPolicy (sc_options sample_missed) = MissedOnce"
    by (simp add: sample_missed_def missedPolicy_def json_field_def)
  then obtain r where r: "missedOccurrence sample_cron sample_lib (\<lambda>_. Some 1000) sample_missed RruleKind (Some 6) 100000000
      = Some (Inr r)" "latest_in {5, 7200000} (missed_from 6 (Some 1000)) 100000000 r"
    using missed_occurrence_exact [OF f, of "\<lambda>_. Some 1000" 100000000 6] by auto
  hence "r = Some 7200000" by (cases r) (auto simp: latest_in_def missed_from_def)
  thus ?thesis using r(1) by simp
qed

section \<open>Rows a pass cannot read\<close>

text \<open>One row does not decide the fate of the others: when every read of a pass ends, the
  pass files exactly the jobs of each row on its own, a row whose due read fails files none, one whose
  catch-up fails still files what is due, and the rows it warns about are exactly the broken ones it
  had not warned about on the pass before, so a row that stays broken warns once.\<close>

theorem pass_isolates_rows:
  assumes "list_all (row_ends cl rl created now lastPass) ss"
  shows "\<exists>p. pass_rows cl rl created now lastPass warned ss empty_pass = Some p \<and>
    ps_scheduled p = concat (map (row_jobs cl rl created now lastPass) ss) \<and>
    ps_warnings p = pass_warnings_of cl rl created now lastPass warned ss \<and>
    (\<forall>s\<in>set ss. \<forall>err. row_due cl rl now s = Some (Inl err) \<longrightarrow>
      row_jobs cl rl created now lastPass s = [] \<and> warned_key s \<in> set (ps_broken p)) \<and>
    (\<forall>s\<in>set ss. \<forall>kind due err. row_due cl rl now s = Some (Inr (kind, due)) \<and>
      row_missed cl rl created now lastPass kind s = Some (Inl err) \<longrightarrow>
      row_jobs cl rl created now lastPass s = map (forwarded s) (row_slots None due)) \<and>
    (\<forall>now' lastPass' ss'. \<forall>v\<in>set (pass_warnings_of cl rl created now' lastPass' (ps_broken p) ss').
      fst v \<notin> set (ps_broken p))"
proof -
  obtain p where p: "pass_rows cl rl created now lastPass warned ss empty_pass = Some p"
    "ps_scheduled p = concat (map (row_jobs cl rl created now lastPass) ss)"
    "ps_warnings p = pass_warnings_of cl rl created now lastPass warned ss"
    and b: "set (ps_broken p) = warned_key ` {s \<in> set ss. row_warning cl rl created now lastPass s \<noteq> None}"
    using pass_rows_eq [OF assms, of warned empty_pass] by (auto simp: empty_pass_def)
  have "warned_key s \<in> set (ps_broken p)" if "s \<in> set ss" "row_due cl rl now s = Some (Inl err)" for s err
    unfolding b using that by (intro imageI) (simp add: row_warning_def)
  moreover have "fst v \<notin> set (ps_broken p)"
    if "v \<in> set (pass_warnings_of cl rl created now' lastPass' (ps_broken p) ss')" for v now' lastPass' ss'
    using that by (auto simp: pass_warnings_of_def split: option.splits if_splits)
  ultimately show ?thesis using p by (intro exI [of _ p]) (auto simp: row_jobs_def)
qed

text \<open>A row with an empty expression beside a good one.\<close>

lemma pass_isolates_rows_witness:
  "\<exists>p. pass_rows sample_cron sample_lib (ce_created sample_env) 90000 None []
      [sample_schedule\<lparr>sc_cron := '' ''\<rparr>, sample_schedule] empty_pass = Some p \<and>
    ps_scheduled p = [forwarded sample_schedule 60000] \<and>
    ps_warnings p = [(warned_key (sample_schedule\<lparr>sc_cron := '' ''\<rparr>), NotEvaluated EmptyExpression)]"
proof -
  let ?bad = "sample_schedule\<lparr>sc_cron := '' ''\<rparr>"
  have bad: "row_due sample_cron sample_lib 90000 ?bad = Some (Inl EmptyExpression)"
    by (simp add: row_due_def dueOccurrences_def assertExpression_def trim_def is_space_def)
  have missed: "row_missed sample_cron sample_lib (ce_created sample_env) 90000 None CronKind sample_schedule
      = Some (Inr None)"
    by (simp add: row_missed_def missedOccurrence_def)
  have "list_all (row_ends sample_cron sample_lib (ce_created sample_env) 90000 None) [?bad, sample_schedule]"
    using sample_pass_ends bad by (simp add: row_ends_def)
  from pass_isolates_rows [OF this, of "[]"] show ?thesis
    by (auto simp: row_jobs_def bad sample_due missed row_slots_def add_slot_def slot_start_def
        OCCURRENCE_WINDOW_SECONDS_def pass_warnings_of_def row_warning_def)
qed

section \<open>What the handler records\<close>

definition sent_for :: "str \<Rightarrow> str \<times> str \<Rightarrow> uuid \<Rightarrow> str \<Rightarrow> send_result \<Rightarrow> bool" where
  "sent_for current pk i slot r = (sr_sent r = Inr (Some i) \<and> sr_name r = fst pk \<and> sr_key r = Some (snd pk) \<and>
     slot = coalesce (sr_slot r) current)"

lemma fire_other: "\<not> (\<exists>i f. sent_for current pk i f r) \<Longrightarrow> map_of (fire current r m) pk = map_of m pk"
  by (cases pk) (auto simp: fire_def sent_for_def Let_def split: sum.splits option.splits)

lemma fire_this:
  assumes "sent_for current pk i f r"
  shows "map_of (fire current r m) pk = (case map_of m pk of None \<Rightarrow> Some (i, f)
    | Some (i', f') \<Rightarrow> if f' \<le> f then Some (i, f) else Some (i', f'))"
  using assms by (cases pk) (auto simp: fire_def sent_for_def Let_def split: option.splits)

lemma sent_for_unique: "sent_for c pk i f r \<Longrightarrow> sent_for c pk i' f' r \<Longrightarrow> i' = i \<and> f' = f"
  by (simp add: sent_for_def)

definition latest_send :: "str \<Rightarrow> send_result list \<Rightarrow> str \<times> str \<Rightarrow> uuid \<Rightarrow> bool" where
  "latest_send current rs pk i = (\<exists>as r bs f. rs = as @ r # bs \<and> sent_for current pk i f r \<and>
     (\<forall>r'\<in>set as. \<forall>i' f'. sent_for current pk i' f' r' \<longrightarrow> f' \<le> f) \<and>
     (\<forall>r'\<in>set bs. \<forall>i' f'. sent_for current pk i' f' r' \<longrightarrow> f' < f))"

lemma fired_latest:
  "case map_of (fold (fire current) rs []) pk of
     None \<Rightarrow> \<forall>r\<in>set rs. \<forall>i f. \<not> sent_for current pk i f r
   | Some (i, f) \<Rightarrow> \<exists>as r bs. rs = as @ r # bs \<and> sent_for current pk i f r \<and>
     (\<forall>r'\<in>set as. \<forall>i' f'. sent_for current pk i' f' r' \<longrightarrow> f' \<le> f) \<and>
     (\<forall>r'\<in>set bs. \<forall>i' f'. sent_for current pk i' f' r' \<longrightarrow> f' < f)"
proof (induction rs rule: rev_induct)
  case (snoc r rs)
  let ?m = "fold (fire current) rs []"
  have step: "map_of (fold (fire current) (rs @ [r]) []) pk = map_of (fire current r ?m) pk" by simp
  show ?case
  proof (cases "\<exists>i f. sent_for current pk i f r")
    case False
    show ?thesis
    proof (cases "map_of ?m pk")
      case None
      thus ?thesis using snoc False by (auto simp: fire_other)
    next
      case (Some p)
      obtain i f where p: "p = (i, f)" by fastforce
      then obtain as r0 bs where s: "rs = as @ r0 # bs" "sent_for current pk i f r0"
        "\<forall>r'\<in>set as. \<forall>i' f'. sent_for current pk i' f' r' \<longrightarrow> f' \<le> f"
        "\<forall>r'\<in>set bs. \<forall>i' f'. sent_for current pk i' f' r' \<longrightarrow> f' < f"
        using snoc Some by auto
      have "rs @ [r] = as @ r0 # (bs @ [r])" using s(1) by simp
      moreover have "\<forall>r'\<in>set (bs @ [r]). \<forall>i' f'. sent_for current pk i' f' r' \<longrightarrow> f' < f"
        using s(4) False by auto
      ultimately have "\<exists>as r' bs. rs @ [r] = as @ r' # bs \<and> sent_for current pk i f r' \<and>
          (\<forall>r'\<in>set as. \<forall>i' f'. sent_for current pk i' f' r' \<longrightarrow> f' \<le> f) \<and>
          (\<forall>r'\<in>set bs. \<forall>i' f'. sent_for current pk i' f' r' \<longrightarrow> f' < f)"
        using s(2,3) by blast
      thus ?thesis unfolding step fire_other [OF False] Some p by simp
    qed
  next
    case True
    then obtain i f where r: "sent_for current pk i f r" by blast
    show ?thesis
    proof (cases "map_of ?m pk")
      case None
      hence "\<forall>r'\<in>set rs. \<forall>i' f'. \<not> sent_for current pk i' f' r'" using snoc by simp
      hence "\<exists>as r' bs. rs @ [r] = as @ r' # bs \<and> sent_for current pk i f r' \<and>
          (\<forall>r'\<in>set as. \<forall>i' f'. sent_for current pk i' f' r' \<longrightarrow> f' \<le> f) \<and>
          (\<forall>r'\<in>set bs. \<forall>i' f'. sent_for current pk i' f' r' \<longrightarrow> f' < f)"
        using r by (intro exI [of _ rs] exI [of _ r] exI [of _ "[]"]) auto
      thus ?thesis unfolding step fire_this [OF r] None by simp
    next
      case (Some p)
      obtain i1 f1 where p: "p = (i1, f1)" by fastforce
      then obtain as r0 bs where s: "rs = as @ r0 # bs" "sent_for current pk i1 f1 r0"
        "\<forall>r'\<in>set as. \<forall>i' f'. sent_for current pk i' f' r' \<longrightarrow> f' \<le> f1"
        "\<forall>r'\<in>set bs. \<forall>i' f'. sent_for current pk i' f' r' \<longrightarrow> f' < f1"
        using snoc Some by auto
      show ?thesis
      proof (cases "f1 \<le> f")
        case le: True
        have "f' \<le> f" if rr: "r' \<in> set rs" "sent_for current pk i' f' r'" for r' i' f'
        proof -
          consider "r' \<in> set as" | "r' = r0" | "r' \<in> set bs" using rr(1) s(1) by auto
          hence "f' \<le> f1"
            by cases (use s(3) rr(2) in blast, use sent_for_unique [OF s(2)] rr(2) in blast,
              use s(4) rr(2) less_imp_le in blast)
          thus ?thesis using le by (rule order_trans)
        qed
        hence "\<exists>as r' bs. rs @ [r] = as @ r' # bs \<and> sent_for current pk i f r' \<and>
            (\<forall>r'\<in>set as. \<forall>i' f'. sent_for current pk i' f' r' \<longrightarrow> f' \<le> f) \<and>
            (\<forall>r'\<in>set bs. \<forall>i' f'. sent_for current pk i' f' r' \<longrightarrow> f' < f)"
          using r by (intro exI [of _ rs] exI [of _ r] exI [of _ "[]"]) auto
        thus ?thesis unfolding step fire_this [OF r] Some p using le by simp
      next
        case gt: False
        have "rs @ [r] = as @ r0 # (bs @ [r])" using s(1) by simp
        moreover have "\<forall>r'\<in>set (bs @ [r]). \<forall>i' f'. sent_for current pk i' f' r' \<longrightarrow> f' < f1"
          using s(4) sent_for_unique [OF r] gt unfolding set_append ball_Un by (simp add: not_le) blast
        ultimately have "\<exists>as r' bs. rs @ [r] = as @ r' # bs \<and> sent_for current pk i1 f1 r' \<and>
            (\<forall>r'\<in>set as. \<forall>i' f'. sent_for current pk i' f' r' \<longrightarrow> f' \<le> f1) \<and>
            (\<forall>r'\<in>set bs. \<forall>i' f'. sent_for current pk i' f' r' \<longrightarrow> f' < f1)"
          using s(2,3) by blast
        thus ?thesis unfolding step fire_this [OF r] Some p using gt by simp
      qed
    qed
  qed
qed simp

lemma fired_distinct: "distinct (map fst m) \<Longrightarrow> distinct (map fst (fold (fire current) rs m))"
  by (induction rs arbitrary: m) (auto simp: fire_def Let_def map_set_distinct split: sum.splits option.splits)

lemma find_fired:
  "List.find (\<lambda>(n, k, _). pk = (n, k)) (map (\<lambda>((n, k), i, _). (n, k, i)) m) =
   map_option (\<lambda>(i, _). (fst pk, snd pk, i)) (map_of m pk)"
  by (induction m) (auto split: if_splits)

text \<open>The handler of the forwarded jobs records, for each schedule, the job of the latest slot the
  batch sent for it, the last of them when one slot was sent twice, in whatever order the jobs were
  fetched; it hands the update at most one record for a schedule, and leaves the row of a schedule
  nothing was sent for as it was.\<close>

theorem send_it_records_latest:
  shows "distinct (map (\<lambda>(n, k, _). (n, k)) (onSendIt_fired (throttleSlot now) rs)) \<and>
    length (onSendIt now rs ss) = length ss \<and>
    (\<forall>m<length ss. let s = ss ! m; s' = onSendIt now rs ss ! m; pk = schedule_pk s in
      s' = s\<lparr>sc_last_job_id := sc_last_job_id s'\<rparr> \<and>
      (case sc_last_job_id s' of None \<Rightarrow> sc_last_job_id s = None | Some i \<Rightarrow>
         latest_send (throttleSlot now) rs pk i \<or> sc_last_job_id s = Some i) \<and>
      (if list_ex (\<lambda>r. \<exists>i f. sent_for (throttleSlot now) pk i f r) rs
       then \<exists>i. sc_last_job_id s' = Some i \<and> latest_send (throttleSlot now) rs pk i else s' = s))"
proof -
  let ?c = "throttleSlot now" and ?m = "fold (fire (throttleSlot now)) rs []"
  have out: "onSendIt now rs ss = map (\<lambda>s. case map_of ?m (schedule_pk s) of None \<Rightarrow> s
      | Some (i, _) \<Rightarrow> s\<lparr>sc_last_job_id := Some i\<rparr>) ss"
  proof (cases "?m = []")
    case True
    thus ?thesis by (simp add: onSendIt_def onSendIt_fired_def)
  next
    case False
    thus ?thesis
      by (auto simp: onSendIt_def onSendIt_fired_def setScheduleLastJobIds_def find_fired split: option.splits)
  qed
  have "let s = ss ! m; s' = onSendIt now rs ss ! m; pk = schedule_pk s in
      s' = s\<lparr>sc_last_job_id := sc_last_job_id s'\<rparr> \<and>
      (case sc_last_job_id s' of None \<Rightarrow> sc_last_job_id s = None | Some i \<Rightarrow>
         latest_send ?c rs pk i \<or> sc_last_job_id s = Some i) \<and>
      (if list_ex (\<lambda>r. \<exists>i f. sent_for ?c pk i f r) rs
       then \<exists>i. sc_last_job_id s' = Some i \<and> latest_send ?c rs pk i else s' = s)" if m: "m < length ss" for m
  proof -
    let ?pk = "schedule_pk (ss ! m)"
    show ?thesis
    proof (cases "map_of ?m ?pk")
      case None
      hence "\<not> list_ex (\<lambda>r. \<exists>i f. sent_for ?c ?pk i f r) rs"
        using fired_latest [where current = ?c and rs = rs and pk = ?pk] by (auto simp: list_ex_iff)
      moreover have "onSendIt now rs ss ! m = ss ! m" using m None by (simp add: out)
      ultimately show ?thesis by (simp add: Let_def split: option.splits)
    next
      case (Some p)
      obtain i f where p: "p = (i, f)" by fastforce
      have l: "latest_send ?c rs ?pk i"
        using fired_latest [where current = ?c and rs = rs and pk = ?pk] Some p by (simp add: latest_send_def) blast
      hence "list_ex (\<lambda>r. \<exists>i f. sent_for ?c ?pk i f r) rs"
        unfolding latest_send_def list_ex_iff by (metis in_set_conv_decomp)
      moreover have "onSendIt now rs ss ! m = (ss ! m)\<lparr>sc_last_job_id := Some i\<rparr>"
        using m Some p by (simp add: out)
      ultimately show ?thesis using l by (simp add: Let_def)
    qed
  qed
  moreover have "map (\<lambda>(n, k, _). (n, k)) (onSendIt_fired ?c rs) = map fst ?m"
    by (simp add: onSendIt_fired_def case_prod_beta o_def)
  hence "distinct (map (\<lambda>(n, k, _). (n, k)) (onSendIt_fired ?c rs))" using fired_distinct [of "[]"] by simp
  ultimately show ?thesis by (simp add: out)
qed

definition late_then_early :: "send_result list" where
  "late_then_early = [
     \<lparr>sr_name = ''q'', sr_key = Some '''', sr_slot = Some ''1970-01-01 00:05:00'', sr_sent = Inr (Some 7)\<rparr>,
     \<lparr>sr_name = ''q'', sr_key = Some '''', sr_slot = Some ''1970-01-01 00:01:00'', sr_sent = Inr (Some 8)\<rparr>]"

lemma send_it_records_latest_witness:
  "sc_last_job_id (onSendIt 300000 late_then_early [sample_schedule] ! 0) = Some 7"
proof -
  have pk: "schedule_pk sample_schedule = (''q'', '''')" by (simp add: schedule_pk_def sample_schedule_def)
  have "list_ex (\<lambda>r. \<exists>i f. sent_for (throttleSlot 300000) (schedule_pk sample_schedule) i f r) late_then_early"
    unfolding pk by (simp add: late_then_early_def sent_for_def)
  then obtain i where i: "sc_last_job_id (onSendIt 300000 late_then_early [sample_schedule] ! 0) = Some i"
    "latest_send (throttleSlot 300000) late_then_early (''q'', '''') i"
    using send_it_records_latest [of 300000 late_then_early "[sample_schedule]"] pk by (auto simp: Let_def)
  have "\<not> ''1970-01-01 00:05:00'' \<le> ''1970-01-01 00:01:00''" by code_simp
  hence "i = 7" using i(2)
    unfolding latest_send_def late_then_early_def sent_for_def by (auto simp: Cons_eq_append_conv)
  thus ?thesis using i(1) by simp
qed

section \<open>The schedule table\<close>

definition schedules_ok :: "str list \<Rightarrow> schedule_row list \<Rightarrow> bool" where
  "schedules_ok queues ss = (distinct (map schedule_pk ss) \<and> list_all (\<lambda>s. sc_name s \<in> set queues) ss)"

lemma pk_updates [simp]:
  "schedule_pk (s\<lparr>sc_kind := a\<rparr>) = schedule_pk s" "schedule_pk (s\<lparr>sc_cron := c\<rparr>) = schedule_pk s"
  "schedule_pk (s\<lparr>sc_timezone := z\<rparr>) = schedule_pk s" "schedule_pk (s\<lparr>sc_data := d\<rparr>) = schedule_pk s"
  "schedule_pk (s\<lparr>sc_options := p\<rparr>) = schedule_pk s" "schedule_pk (s\<lparr>sc_updated_on := u\<rparr>) = schedule_pk s"
  "schedule_pk (s\<lparr>sc_last_job_id := i\<rparr>) = schedule_pk s"
  by (simp_all add: schedule_pk_def)

lemma filter_pk_one:
  "distinct (map schedule_pk ss) \<Longrightarrow> s \<in> set ss \<Longrightarrow> filter (\<lambda>x. schedule_pk x = schedule_pk s) ss = [s]"
  by (induction ss) (auto simp: filter_empty_conv image_iff)

lemma filter_pk_map:
  assumes "\<And>s. schedule_pk (f s) = schedule_pk s"
  shows "filter (\<lambda>s. schedule_pk s = pk) (map f ss) = map f (filter (\<lambda>s. schedule_pk s = pk) ss)"
  by (induction ss) (simp_all add: assms)

lemma schedule_pk_relabel: "schedule_pk (case List.find (\<lambda>(n, k, _, c). schedule_pk s = (n, k) \<and> sc_cron s = c) xs of
     None \<Rightarrow> s | Some (_, _, kd, _) \<Rightarrow> s\<lparr>sc_kind := kd\<rparr>) = schedule_pk s"
  by (simp split: option.splits)

lemma schedule_upsert_reads:
  assumes "schedules_ok queues ss" "n \<in> set queues"
  shows "\<exists>ss' s. schedule_upsert queues n k kind expr tz data opts now ss = Inr ss' \<and> schedules_ok queues ss' \<and>
    getSchedule n k ss' = Some s \<and> sc_kind s = kind \<and> sc_cron s = expr \<and> sc_timezone s = tz \<and>
    sc_data s = data \<and> sc_options s = opts \<and> sc_updated_on s = now \<and>
    (case getSchedule n k ss of None \<Rightarrow> sc_created_on s = now \<and> sc_last_job_id s = None
     | Some old \<Rightarrow> sc_created_on s = sc_created_on old \<and> sc_last_job_id s = sc_last_job_id old) \<and>
    filter (\<lambda>x. schedule_pk x \<noteq> (n, k)) ss' = filter (\<lambda>x. schedule_pk x \<noteq> (n, k)) ss \<and>
    getSchedule n k (unschedule n k ss') = None \<and>
    unschedule n k ss' = unschedule n k ss \<and>
    (\<forall>kd expr'. expr' \<noteq> expr \<longrightarrow> setScheduleKinds [(n, k, kd, expr')] ss' = ss')"
proof -
  let ?upd = "\<lambda>s. s\<lparr>sc_kind := kind, sc_cron := expr, sc_timezone := tz, sc_data := data,
    sc_options := opts, sc_updated_on := now\<rparr>"
  let ?new = "\<lparr>sc_name = n, sc_key = k, sc_kind = kind, sc_cron = expr, sc_timezone = tz,
    sc_data = data, sc_options = opts, sc_created_on = now, sc_updated_on = now, sc_last_job_id = None\<rparr>"
  note ok = assms(1) [unfolded schedules_ok_def]
  have relabel: "setScheduleKinds [(n, k, kd, expr')] xs = xs"
    if "\<forall>x\<in>set xs. schedule_pk x = (n, k) \<longrightarrow> sc_cron x = expr" "expr' \<noteq> expr" for kd expr' xs
    using that by (auto simp: setScheduleKinds_def intro!: map_idI)
  have unsch: "getSchedule n k (unschedule n k xs) = None" for xs
    by (simp add: getSchedule_def getSchedulesByQueueAndKey_def unschedule_def filter_empty_conv split: list.splits)
  show ?thesis
  proof (cases "list_ex (\<lambda>s. schedule_pk s = (n, k)) ss")
    case True
    then obtain old where old: "old \<in> set ss" "schedule_pk old = (n, k)" by (auto simp: list_ex_iff)
    let ?ss = "upd_where (\<lambda>s. schedule_pk s = (n, k)) ?upd ss"
    have one: "filter (\<lambda>x. schedule_pk x = (n, k)) ss = [old]"
      using filter_pk_one [of ss old] ok old by simp
    have one': "filter (\<lambda>x. schedule_pk x = (n, k)) ?ss = [?upd old]"
    proof -
      have "filter (\<lambda>x. schedule_pk x = (n, k)) ?ss =
          map (\<lambda>x. if schedule_pk x = (n, k) then ?upd x else x) (filter (\<lambda>x. schedule_pk x = (n, k)) ss)"
        unfolding upd_where_def by (rule filter_pk_map) simp
      thus ?thesis using one old(2) by simp
    qed
    have others: "filter (\<lambda>x. schedule_pk x \<noteq> (n, k)) ?ss = filter (\<lambda>x. schedule_pk x \<noteq> (n, k)) ss"
      by (rule filter_upd_where_other) simp
    have keys: "map schedule_pk ?ss = map schedule_pk ss" by (rule map_upd_where_same) simp
    have "schedules_ok queues ?ss"
      using ok keys by (auto simp: schedules_ok_def list_all_iff set_upd_where)
    moreover have "\<forall>x\<in>set ?ss. schedule_pk x = (n, k) \<longrightarrow> sc_cron x = expr"
      by (auto simp: set_upd_where)
    moreover have "schedule_upsert queues n k kind expr tz data opts now ss = Inr ?ss"
      using True assms(2) by (simp add: schedule_upsert_def)
    ultimately show ?thesis
      using one one' others unsch relabel
      by (intro exI [of _ ?ss] exI [of _ "?upd old"])
        (simp add: getSchedule_def getSchedulesByQueueAndKey_def unschedule_def)
  next
    case False
    let ?ss = "ss @ [?new]"
    have none: "filter (\<lambda>x. schedule_pk x = (n, k)) ss = []"
      using False by (simp add: list_ex_iff filter_empty_conv)
    have "schedules_ok queues ?ss"
      using ok False assms(2) by (auto simp: schedules_ok_def list_ex_iff schedule_pk_def)
    moreover have "\<forall>x\<in>set ?ss. schedule_pk x = (n, k) \<longrightarrow> sc_cron x = expr"
      using False by (auto simp: list_ex_iff)
    moreover have "schedule_upsert queues n k kind expr tz data opts now ss = Inr ?ss"
      using False assms(2) by (simp add: schedule_upsert_def)
    ultimately show ?thesis
      using none unsch relabel
      by (intro exI [of _ ?ss] exI [of _ ?new])
        (simp add: getSchedule_def getSchedulesByQueueAndKey_def unschedule_def schedule_pk_def)
  qed
qed

text \<open>The schedule table round-trips: after \<^verbatim>\<open>schedule()\<close> its row reads back with what was
  given, keeping the creation time and the last job of the row it replaced; every other row is
  untouched; the primary key and the queue reference hold; unscheduling takes exactly that row out.
  And a pass that relabels the row from an expression read before does not touch the row of a
  \<^verbatim>\<open>schedule()\<close> that put another expression there in between.\<close>

theorem schedule_roundtrip:
  assumes "schedules_ok queues ss" "n \<in> set queues"
  shows "\<exists>ss' s. schedule_upsert queues n k kind expr tz data opts now ss = Inr ss' \<and> schedules_ok queues ss' \<and>
    getSchedule n k ss' = Some s \<and> sc_kind s = kind \<and> sc_cron s = expr \<and> sc_timezone s = tz \<and>
    sc_data s = data \<and> sc_options s = opts \<and> sc_updated_on s = now \<and>
    (case getSchedule n k ss of None \<Rightarrow> sc_created_on s = now \<and> sc_last_job_id s = None
     | Some old \<Rightarrow> sc_created_on s = sc_created_on old \<and> sc_last_job_id s = sc_last_job_id old) \<and>
    filter (\<lambda>x. schedule_pk x \<noteq> (n, k)) ss' = filter (\<lambda>x. schedule_pk x \<noteq> (n, k)) ss \<and>
    getSchedule n k (unschedule n k ss') = None \<and>
    unschedule n k ss' = unschedule n k ss \<and>
    (\<forall>kd expr'. expr' \<noteq> expr \<longrightarrow> setScheduleKinds [(n, k, kd, expr')] ss' = ss')"
  using schedule_upsert_reads [OF assms] .

lemma schedule_roundtrip_witness:
  "\<exists>ss' s. schedule_upsert [''q''] ''q'' '''' CronKind ''0 9 * * *'' (Some ''UTC'') None None 5 [sample_schedule] = Inr ss' \<and>
    getSchedule ''q'' '''' ss' = Some s \<and> sc_cron s = ''0 9 * * *'' \<and> sc_created_on s = 0"
proof -
  have ok: "schedules_ok [''q''] [sample_schedule]" by (simp add: schedules_ok_def sample_schedule_def)
  have old: "getSchedule ''q'' '''' [sample_schedule] = Some sample_schedule"
    by (simp add: getSchedule_def getSchedulesByQueueAndKey_def schedule_pk_def sample_schedule_def)
  show ?thesis
    using schedule_roundtrip [OF ok, of "''q''" "''''" CronKind "''0 9 * * *''" "Some ''UTC''" None None 5] old
    by (auto simp: sample_schedule_def)
qed

section \<open>The claim of a pass\<close>

text \<open>An instance that loses the claim tries again just after the row comes due: never before
  it, at most a second after it, and below the ceiling of the configurable interval soon enough that
  no occurrence falls out of the due window between two passes.  The claim is read the same whatever
  the driver makes of a boolean, and a refusal is never read as a claim.\<close>

theorem claim_retry_lands_after_due:
  assumes "0 < seconds" "0 < age" "age \<le> of_int seconds"
  shows "of_int seconds * 1000 < age * 1000 + claimRetryDelay seconds (Some age) \<and>
    age * 1000 + claimRetryDelay seconds (Some age) \<le> of_int seconds * 1000 + 1000 \<and>
    (seconds \<le> 45 \<longrightarrow> age * 1000 + claimRetryDelay seconds (Some age) < of_int (OCCURRENCE_WINDOW_SECONDS * 1000)) \<and>
    list_all claimTaken [ClaimText ''true'', ClaimText ''t'', ClaimText ''True'', ClaimText ''1'', ClaimBool True, ClaimNumber 1] \<and>
    list_all (\<lambda>v. \<not> claimTaken v) [ClaimText ''false'', ClaimText ''f'', ClaimText ''0'', ClaimBool False, ClaimNumber 0, ClaimOther]"
proof -
  have s: "0 < (of_int seconds :: rat)" using assms(1) by simp
  have eq: "age * 1000 + claimRetryDelay seconds (Some age) = of_int seconds * 1000 + min 1000 (of_int seconds * 1000 / 4)"
    using assms(2,3) by (simp add: claimRetryDelay_def Let_def)
  have "seconds \<le> 45 \<Longrightarrow> (of_int seconds :: rat) \<le> 45"
    by (metis of_int_le_iff of_int_numeral)
  hence "seconds \<le> 45 \<Longrightarrow> of_int seconds * 1000 + min 1000 (of_int seconds * 1000 / 4) <
      (of_int (OCCURRENCE_WINDOW_SECONDS * 1000) :: rat)"
    by (auto simp: min_def OCCURRENCE_WINDOW_SECONDS_def)
  moreover have "list_all claimTaken [ClaimText ''true'', ClaimText ''t'', ClaimText ''True'', ClaimText ''1'', ClaimBool True, ClaimNumber 1]"
    by code_simp
  moreover have "list_all (\<lambda>v. \<not> claimTaken v) [ClaimText ''false'', ClaimText ''f'', ClaimText ''0'', ClaimBool False, ClaimNumber 0, ClaimOther]"
    by code_simp
  moreover have "0 < min 1000 (of_int seconds * 1000 / 4 :: rat)" "min 1000 (of_int seconds * 1000 / 4 :: rat) \<le> 1000"
    using s by simp_all
  ultimately show ?thesis unfolding eq by (intro conjI) (assumption | linarith | blast)+
qed

lemma claim_retry_lands_after_due_witness:
  "20000 + claimRetryDelay 30 (Some 20) \<le> 31000"
  using claim_retry_lands_after_due [of 30 20] by simp

end
