(* ===== verification/Attorney.thy ===== *)
theory Attorney
  imports Schedule_Props
begin

text \<open>
  The checks of \<^verbatim>\<open>src/src/attorney.ts\<close> on what a caller hands in: the options of
  \<^verbatim>\<open>send()\<close>, \<^verbatim>\<open>update()\<close>, \<^verbatim>\<open>fetch()\<close> and \<^verbatim>\<open>work()\<close>, the configuration of an instance
  with its defaults and backend profile, and the names that become SQL.

  A caller's value is any JavaScript value.  An object is its own entries in order; the coercions of a
  text or an object to a number, and of a value to a text, are the language's and are parameters.  A
  failed assertion is its message.
\<close>

section \<open>Values\<close>

datatype js_num = Fin rat | PosInf | NegInf | NotANumber

datatype js =
    VUndef
  | VNull
  | VBool bool
  | VNum js_num
  | VStr str
  | VFun
  | VDate "int option"
  | VObj "(str \<times> js) list"
  | VArr "js list"

type_synonym config = "(str \<times> js) list"

record js_lang =
  jl_num :: "js \<Rightarrow> js_num"
  jl_text :: "js \<Rightarrow> str"

definition to_num :: "js_lang \<Rightarrow> js \<Rightarrow> js_num" where
  "to_num L v = (case v of
     VUndef \<Rightarrow> NotANumber | VNull \<Rightarrow> Fin 0 | VBool b \<Rightarrow> Fin (if b then 1 else 0) | VNum n \<Rightarrow> n
   | VDate None \<Rightarrow> NotANumber | VDate (Some t) \<Rightarrow> Fin (of_int t) | _ \<Rightarrow> jl_num L v)"

definition to_text :: "js_lang \<Rightarrow> js \<Rightarrow> str" where
  "to_text L v = (case v of VStr s \<Rightarrow> s | _ \<Rightarrow> jl_text L v)"

fun num_le :: "js_num \<Rightarrow> js_num \<Rightarrow> bool" where
  "num_le NotANumber _ = False"
| "num_le _ NotANumber = False"
| "num_le NegInf _ = True"
| "num_le _ PosInf = True"
| "num_le (Fin a) (Fin b) = (a \<le> b)"
| "num_le _ _ = False"

definition at_least :: "js_lang \<Rightarrow> rat \<Rightarrow> js \<Rightarrow> bool" where
  "at_least L r v = num_le (Fin r) (to_num L v)"

definition at_most :: "js_lang \<Rightarrow> rat \<Rightarrow> js \<Rightarrow> bool" where
  "at_most L r v = num_le (to_num L v) (Fin r)"

definition positive :: "js_lang \<Rightarrow> js \<Rightarrow> bool" where
  "positive L v = (at_least L 0 v \<and> to_num L v \<noteq> Fin 0)"

definition truthy :: "js \<Rightarrow> bool" where
  "truthy v = (v \<notin> {VUndef, VNull, VBool False, VNum (Fin 0), VNum NotANumber, VStr []})"

definition isInteger :: "js \<Rightarrow> bool" where
  "isInteger v = (case v of VNum (Fin r) \<Rightarrow> of_int \<lfloor>r\<rfloor> = r | _ \<Rightarrow> False)"

definition integer_at_least :: "rat \<Rightarrow> js \<Rightarrow> bool" where
  "integer_at_least m v = (isInteger v \<and> (case v of VNum (Fin r) \<Rightarrow> m \<le> r | _ \<Rightarrow> False))"

definition is_number :: "js \<Rightarrow> bool" where
  "is_number v = (case v of VNum _ \<Rightarrow> True | _ \<Rightarrow> False)"

definition is_string :: "js \<Rightarrow> bool" where
  "is_string v = (case v of VStr _ \<Rightarrow> True | _ \<Rightarrow> False)"

definition is_bool :: "js \<Rightarrow> bool" where
  "is_bool v = (case v of VBool _ \<Rightarrow> True | _ \<Rightarrow> False)"

definition is_object :: "js \<Rightarrow> bool" where
  "is_object v = (case v of VNull \<Rightarrow> True | VDate _ \<Rightarrow> True | VObj _ \<Rightarrow> True | VArr _ \<Rightarrow> True | _ \<Rightarrow> False)"

definition nonempty_string :: "js \<Rightarrow> bool" where
  "nonempty_string v = (case v of VStr s \<Rightarrow> s \<noteq> [] | _ \<Rightarrow> False)"

definition nullish :: "js \<Rightarrow> bool" where
  "nullish v = (v = VUndef \<or> v = VNull)"

text \<open>The own entries of a value, and what reading, testing and writing a key make of them.\<close>

definition spread :: "js \<Rightarrow> config" where
  "spread v = (case v of VObj kvs \<Rightarrow> kvs | VArr xs \<Rightarrow> zip (map show_nat [0..<length xs]) xs | _ \<Rightarrow> [])"

definition get :: "config \<Rightarrow> str \<Rightarrow> js" where
  "get c k = (case map_of c k of None \<Rightarrow> VUndef | Some v \<Rightarrow> v)"

definition has :: "str \<Rightarrow> config \<Rightarrow> bool" where
  "has k c = (map_of c k \<noteq> None)"

definition field :: "js \<Rightarrow> str \<Rightarrow> js" where
  "field v k = get (spread v) k"

definition put :: "str \<Rightarrow> js \<Rightarrow> config \<Rightarrow> config" where
  "put k v c = map_set k v c"

text \<open>\<^verbatim>\<open>c.k = c.k || v\<close>.\<close>

definition put_default :: "str \<Rightarrow> js \<Rightarrow> config \<Rightarrow> config" where
  "put_default k v c = put k (if truthy (get c k) then get c k else v) c"

text \<open>\<^verbatim>\<open>c.k = ('k' in c) ? c.k : v\<close>.\<close>

definition put_absent :: "str \<Rightarrow> js \<Rightarrow> config \<Rightarrow> config" where
  "put_absent k v c = (if has k c then c else put k v c)"

abbreviation num :: "rat \<Rightarrow> js" where
  "num r \<equiv> VNum (Fin r)"

text \<open>Assertions in their order: the message of the first that fails.\<close>

fun check_all :: "(bool \<times> str) list \<Rightarrow> str + unit" where
  "check_all [] = Inr ()"
| "check_all ((b, m) # cs) = (if b then check_all cs else Inl m)"

section \<open>Options\<close>

definition MAX_EXPIRATION_HOURS :: rat where "MAX_EXPIRATION_HOURS = 24"
definition MIN_POLLING_INTERVAL_MS :: rat where "MIN_POLLING_INTERVAL_MS = 500"
definition MAX_RETENTION_DAYS :: rat where "MAX_RETENTION_DAYS = 365"

text \<open>\<^verbatim>\<open>x / 60 / 60 <= hours\<close>.\<close>

definition within_hours :: "js_lang \<Rightarrow> js \<Rightarrow> bool" where
  "within_hours L v = at_most L (MAX_EXPIRATION_HOURS * 60 * 60) v"

definition object_name_char :: "char \<Rightarrow> bool" where
  "object_name_char c = (is_alpha c \<or> is_num c \<or> c \<in> set ''_.-/'')"

definition object_name :: "str \<Rightarrow> bool" where
  "object_name s = (s \<noteq> [] \<and> list_all object_name_char s)"

definition assertObjectName :: "js_lang \<Rightarrow> js \<Rightarrow> str \<Rightarrow> str + unit" where
  "assertObjectName L v n = ensure (object_name (to_text L v)) (n @ '' can only contain alphanumeric characters, underscores, hyphens, periods, or forward slashes'')"

definition validateRetryConfig :: "config \<Rightarrow> str + unit" where
  "validateRetryConfig c = check_all [
     (\<not> has ''retryDelay'' c \<or> integer_at_least 0 (get c ''retryDelay''), ''retryDelay must be an integer >= 0''),
     (\<not> has ''retryLimit'' c \<or> integer_at_least 0 (get c ''retryLimit''), ''retryLimit must be an integer >= 0''),
     (\<not> has ''retryBackoff'' c \<or> is_bool (get c ''retryBackoff''), ''retryBackoff must be either true or false''),
     (\<not> has ''retryDelayMax'' c \<or> get c ''retryDelayMax'' = VNull \<or> get c ''retryBackoff'' = VBool True,
        ''retryDelayMax can only be set if retryBackoff is true''),
     (\<not> has ''retryDelayMax'' c \<or> get c ''retryDelayMax'' = VNull \<or> integer_at_least 0 (get c ''retryDelayMax''),
        ''retryDelayMax must be an integer >= 0'')]"

definition validateExpirationConfig :: "js_lang \<Rightarrow> config \<Rightarrow> str + unit" where
  "validateExpirationConfig L c = check_all [
     (\<not> has ''expireInSeconds'' c \<or> at_least L 1 (get c ''expireInSeconds''),
        ''configuration assert: expireInSeconds must be at least every second''),
     (\<not> truthy (get c ''expireInSeconds'') \<or> within_hours L (get c ''expireInSeconds''),
        ''configuration assert: expiration cannot exceed 24 hours'')]"

definition validateRetentionConfig :: "js_lang \<Rightarrow> config \<Rightarrow> str + unit" where
  "validateRetentionConfig L c = check_all [
     (\<not> has ''retentionSeconds'' c \<or> at_least L 1 (get c ''retentionSeconds''),
        ''configuration assert: retentionSeconds must be at least every second'')]"

definition validateDeletionConfig :: "js_lang \<Rightarrow> config \<Rightarrow> str + unit" where
  "validateDeletionConfig L c = check_all [
     (\<not> has ''deleteAfterSeconds'' c \<or> at_least L 0 (get c ''deleteAfterSeconds''),
        ''configuration assert: deleteAfterSeconds must be at least 0 (0 disables deletion)'')]"

definition validateGroupConfig :: "config \<Rightarrow> str + unit" where
  "validateGroupConfig c = (let g = get c ''group'' in if nullish g then Inr () else check_all [
     (is_object g, ''group must be an object''),
     (nonempty_string (field g ''id''), ''group.id must be a non-empty string''),
     (\<not> has ''tier'' (spread g) \<or> nonempty_string (field g ''tier''),
        ''group.tier must be a non-empty string if provided'')])"

definition validateHeartbeatConfig :: "config \<Rightarrow> str + unit" where
  "validateHeartbeatConfig c = check_all [
     (\<not> has ''heartbeatSeconds'' c \<or> get c ''heartbeatSeconds'' = VNull \<or>
        integer_at_least 10 (get c ''heartbeatSeconds''), ''heartbeatSeconds must be an integer >= 10'')]"

definition validateHeartbeatRefreshConfig :: "js_lang \<Rightarrow> config \<Rightarrow> str + unit" where
  "validateHeartbeatRefreshConfig L c = (let v = get c ''heartbeatRefreshSeconds'' in
     if nullish v then Inr () else check_all [
     (is_number v \<and> positive L v, ''heartbeatRefreshSeconds must be a number > 0'')])"

definition validateQueueArgs :: "js_lang \<Rightarrow> config \<Rightarrow> str + unit" where
  "validateQueueArgs L c =
     and_then (check_all [
       (\<not> has ''deadLetter'' c \<or> get c ''deadLetter'' = VNull \<or> is_string (get c ''deadLetter''), ''deadLetter must be a string''),
       (\<not> has ''notify'' c \<or> is_bool (get c ''notify''), ''notify must be a boolean'')]) (\<lambda>_.
     and_then (if truthy (get c ''deadLetter'') then assertObjectName L (get c ''deadLetter'') ''deadLetter'' else Inr ()) (\<lambda>_.
     and_then (validateRetryConfig c) (\<lambda>_.
     and_then (validateExpirationConfig L c) (\<lambda>_.
     and_then (validateRetentionConfig L c) (\<lambda>_.
     and_then (validateDeletionConfig L c) (\<lambda>_. validateHeartbeatConfig c))))))"

section \<open>Start times\<close>

text \<open>\<^verbatim>\<open>ISO_DATE\<close>, and \<^verbatim>\<open>ZONELESS_TIME\<close> of what follows the date: nothing, or an hour with
  optional minutes, seconds and a fraction.\<close>

definition ISO_DATE :: "str \<Rightarrow> bool" where
  "ISO_DATE s = (length s \<ge> 10 \<and> list_all (\<lambda>i. is_digit (s ! i)) [0, 1, 2, 3, 5, 6, 8, 9] \<and>
     s ! 4 = CHR ''-'' \<and> s ! 7 = CHR ''-'')"

definition fraction :: "str \<Rightarrow> bool" where
  "fraction s = (case s of [] \<Rightarrow> True | c # d \<Rightarrow> (c = CHR ''.'' \<or> c = CHR '','') \<and> d \<noteq> [] \<and> list_all is_digit d)"

fun zoneless_seconds :: "str \<Rightarrow> bool" where
  "zoneless_seconds [] = True"
| "zoneless_seconds (c # a # b # s) = (c = CHR '':'' \<and> is_digit a \<and> is_digit b \<and> fraction s)"
| "zoneless_seconds _ = False"

fun zoneless_minutes :: "str \<Rightarrow> bool" where
  "zoneless_minutes [] = True"
| "zoneless_minutes (c # a # b # s) = (c = CHR '':'' \<and> is_digit a \<and> is_digit b \<and> zoneless_seconds s)"
| "zoneless_minutes _ = False"

fun ZONELESS_TIME :: "str \<Rightarrow> bool" where
  "ZONELESS_TIME [] = True"
| "ZONELESS_TIME (c # a # b # s) = ((c = CHR ''T'' \<or> c = CHR '' '') \<and> is_digit a \<and> is_digit b \<and> zoneless_minutes s)"
| "ZONELESS_TIME _ = False"

definition pinZonelessDateTime :: "str \<Rightarrow> str" where
  "pinZonelessDateTime s = (if ISO_DATE s \<and> ZONELESS_TIME (drop 10 s) then s @ ''Z'' else s)"

text \<open>\<^verbatim>\<open>toISOString()\<close>.\<close>

definition toISOString :: "int \<Rightarrow> str" where
  "toISOString ms = map (\<lambda>c. if c = CHR '' '' then CHR ''T'' else c) (iso_seconds ms) @ ''.'' @
     fixed 3 (ms mod 1000) @ ''Z''"

definition date_text :: "int option \<Rightarrow> str + js" where
  "date_text t = (case t of None \<Rightarrow> Inl ''Invalid time value'' | Some ms \<Rightarrow> Inr (VStr (toISOString ms)))"

definition send_start_after :: "js_lang \<Rightarrow> js \<Rightarrow> str + js" where
  "send_start_after L v = (case v of VDate t \<Rightarrow> date_text t
     | _ \<Rightarrow> if positive L v then Inr (VStr (to_text L v))
       else (case v of VStr s \<Rightarrow> Inr (VStr (pinZonelessDateTime s)) | _ \<Rightarrow> Inr VUndef))"

definition edit_start_after :: "js_lang \<Rightarrow> js \<Rightarrow> str + js" where
  "edit_start_after L v = (case v of VDate t \<Rightarrow> date_text t
     | VNum (Fin _) \<Rightarrow> Inr (VStr (to_text L v))
     | VStr s \<Rightarrow> Inr (VStr (pinZonelessDateTime s))
     | _ \<Rightarrow> Inr VUndef)"

section \<open>The arguments of a call\<close>

record request =
  req_name :: js
  req_data :: js
  req_options :: config

definition nth_arg :: "js list \<Rightarrow> nat \<Rightarrow> js" where
  "nth_arg args n = (if n < length args then args ! n else VUndef)"

text \<open>The name, the data and the options of either form of a call.\<close>

definition send_form :: "js list \<Rightarrow> str + js \<times> js \<times> js" where
  "send_form args = (case nth_arg args 0 of
     VStr s \<Rightarrow> and_then (ensure (nth_arg args 1 \<noteq> VFun)
         ''send() cannot accept a function as the payload.  Did you intend to use work()?'') (\<lambda>_.
       Inr (VStr s, nth_arg args 1, nth_arg args 2))
   | v \<Rightarrow> if is_object v then and_then (check_all [
         (length args = 1, ''send object API only accepts 1 argument''),
         (truthy v, ''boss requires all jobs to have a name'')]) (\<lambda>_.
         Inr (field v ''name'', field v ''data'', field v ''options''))
     else Inr (VUndef, VUndef, VUndef))"

definition or_object :: "js \<Rightarrow> js" where
  "or_object v = (if truthy v then v else VObj [])"

definition checkSendArgs :: "js_lang \<Rightarrow> js list \<Rightarrow> str + request" where
  "checkSendArgs L args = and_then (send_form args) (\<lambda>(name, data, opts0).
     let opts = or_object opts0; c = spread opts in
     and_then (check_all [
       (truthy name, ''boss requires all jobs to have a queue name''),
       (is_object opts, ''options should be an object''),
       (\<not> has ''priority'' c \<or> isInteger (get c ''priority''), ''priority must be an integer'')]) (\<lambda>_.
     let c1 = put_default ''priority'' (num 0) c in
     and_then (send_start_after L (get c1 ''startAfter'')) (\<lambda>sa.
     let c2 = put ''startAfter'' sa c1 in
     and_then (validateRetryConfig c2) (\<lambda>_.
     and_then (validateExpirationConfig L c2) (\<lambda>_.
     and_then (validateRetentionConfig L c2) (\<lambda>_.
     and_then (validateDeletionConfig L c2) (\<lambda>_.
     and_then (validateGroupConfig c2) (\<lambda>_.
     and_then (validateHeartbeatConfig c2) (\<lambda>_.
       Inr \<lparr>req_name = name, req_data = data, req_options = c2\<rparr>)))))))))"

definition JOB_MATCH_STRATEGIES :: "str list" where
  "JOB_MATCH_STRATEGIES = [''newest'', ''oldest'', ''all'']"

definition update_form :: "str \<Rightarrow> js list \<Rightarrow> str + js \<times> js \<times> js" where
  "update_form verb args = (case nth_arg args 0 of
     VStr s \<Rightarrow> Inr (VStr s, nth_arg args 1, nth_arg args 2)
   | v \<Rightarrow> if is_object v then and_then (check_all [
         (length args = 1, verb @ '' object API only accepts 1 argument''),
         (truthy v, ''boss requires all jobs to have a name'')]) (\<lambda>_.
         Inr (field v ''name'', field v ''data'', field v ''options''))
     else Inr (VUndef, VUndef, VUndef))"

definition checkUpdateArgs :: "js_lang \<Rightarrow> js list \<Rightarrow> bool \<Rightarrow> str + request" where
  "checkUpdateArgs L args upserts = (let verb = (if upserts then ''upsert()'' else ''update()'') in
     and_then (update_form verb args) (\<lambda>(name, data, opts0).
     let c = spread (or_object opts0); i = get c ''id''; key = get c ''singletonKey''; m = get c ''match'' in
     and_then (check_all [
       (truthy name, ''boss requires all jobs to have a queue name''),
       (data \<noteq> VFun, verb @ '' cannot accept a function as the payload.  Did you intend to use work()?''),
       (truthy i \<noteq> truthy key, verb @ '' requires exactly one of id or singletonKey''),
       (\<not> (truthy i \<and> m \<noteq> VUndef), ''match is only valid when targeting jobs by singletonKey''),
       (m = VUndef \<or> m \<in> VStr ` set JOB_MATCH_STRATEGIES, ''match must be one of: newest, oldest, all''),
       (\<not> has ''priority'' c \<or> isInteger (get c ''priority''), ''priority must be an integer'')]) (\<lambda>_.
     and_then (if has ''startAfter'' c
        then and_then (edit_start_after L (get c ''startAfter'')) (\<lambda>sa. Inr (put ''startAfter'' sa c))
        else Inr c) (\<lambda>c1.
     and_then (validateRetryConfig c1) (\<lambda>_.
     and_then (validateExpirationConfig L c1) (\<lambda>_.
     and_then (validateRetentionConfig L c1) (\<lambda>_.
     and_then (validateGroupConfig c1) (\<lambda>_.
     and_then (validateHeartbeatConfig c1) (\<lambda>_.
       Inr \<lparr>req_name = name, req_data = data, req_options = c1\<rparr>)))))))))"

section \<open>Fetching and working\<close>

definition validatePriorityRangeConfig :: "config \<Rightarrow> str + unit" where
  "validatePriorityRangeConfig c = (let lo = get c ''minPriority''; hi = get c ''maxPriority'' in check_all [
     (lo = VUndef \<or> isInteger lo, ''minPriority must be an integer''),
     (hi = VUndef \<or> isInteger hi, ''maxPriority must be an integer''),
     (lo = VUndef \<or> hi = VUndef \<or> (case (lo, hi) of (VNum a, VNum b) \<Rightarrow> num_le a b | _ \<Rightarrow> False),
        ''minPriority must be <= maxPriority'')])"

definition validateGroupConcurrencyValue :: "js \<Rightarrow> str \<Rightarrow> str + unit" where
  "validateGroupConcurrencyValue v n = (if is_number v
     then ensure (integer_at_least 1 v) (n @ '' must be an integer >= 1'')
     else and_then (check_all [
       (is_object v, n @ '' must be a number or an object with { default, tiers? }''),
       (integer_at_least 1 (field v ''default''), n @ ''.default must be an integer >= 1''),
       (\<not> truthy (field v ''tiers'') \<or> is_object (field v ''tiers''), n @ ''.tiers must be an object'')]) (\<lambda>_.
       if truthy (field v ''tiers'') then check_all (concat (map (\<lambda>(tier, limit). [
           (tier \<noteq> [], n @ '' tier keys must be non-empty strings''),
           (integer_at_least 1 limit, n @ ''.tiers[\"'' @ tier @ ''\"] must be an integer >= 1'')])
         (spread (field v ''tiers''))))
       else Inr ()))"

definition validateLocalGroupConcurrencyLimit :: "js_lang \<Rightarrow> js \<Rightarrow> js \<Rightarrow> str + unit" where
  "validateLocalGroupConcurrencyLimit L v lc = (
     let most = (if nullish lc then num 1 else lc);
         fits = (\<lambda>x. num_le (to_num L x) (to_num L most)) in
     if is_number v then ensure (fits v) ''localGroupConcurrency cannot exceed localConcurrency''
     else if is_object v then and_then (ensure (fits (field v ''default''))
         ''localGroupConcurrency.default cannot exceed localConcurrency'') (\<lambda>_.
       if truthy (field v ''tiers'') then check_all (map (\<lambda>(tier, limit).
           (fits limit, ''localGroupConcurrency.tiers cannot exceed localConcurrency'')) (spread (field v ''tiers'')))
       else Inr ())
     else Inr ())"

definition validateGroupConcurrencyConfig :: "js_lang \<Rightarrow> config \<Rightarrow> str + unit" where
  "validateGroupConcurrencyConfig L c = (
     let g = get c ''groupConcurrency''; l = get c ''localGroupConcurrency'' in
     and_then (ensure (nullish g \<or> nullish l)
       ''cannot specify both groupConcurrency and localGroupConcurrency - choose one'') (\<lambda>_.
     and_then (if nullish g then Inr () else validateGroupConcurrencyValue g ''groupConcurrency'') (\<lambda>_.
     if nullish l then Inr () else
       and_then (validateGroupConcurrencyValue l ''localGroupConcurrency'') (\<lambda>_.
         validateLocalGroupConcurrencyLimit L l (get c ''localConcurrency'')))))"

definition validateTransactionalConfig :: "config \<Rightarrow> str + unit" where
  "validateTransactionalConfig c = and_then (check_all [
     (\<not> has ''transactionTimeoutSeconds'' c \<or> integer_at_least 0 (get c ''transactionTimeoutSeconds''),
        ''transactionTimeoutSeconds must be an integer >= 0'')]) (\<lambda>_.
     if \<not> truthy (get c ''transactional'')
     then ensure (\<not> has ''transactionTimeoutSeconds'' c) ''transactionTimeoutSeconds requires transactional''
     else ensure (\<not> truthy (get c ''perJobResults'')) ''transactional cannot be combined with perJobResults'')"

text \<open>The polling intervals, in milliseconds; the relaxed one of a queue that notifies is never the
  shorter.\<close>

definition times_1000 :: "js_num \<Rightarrow> js_num" where
  "times_1000 n = (case n of Fin r \<Rightarrow> Fin (r * 1000) | x \<Rightarrow> x)"

definition max_30000 :: "js_num \<Rightarrow> js_num" where
  "max_30000 n = (if n = NotANumber then NotANumber else if num_le n (Fin 30000) then Fin 30000 else n)"

definition applyPollingInterval :: "js_lang \<Rightarrow> config \<Rightarrow> str + config" where
  "applyPollingInterval L c = and_then (check_all [
     (\<not> has ''pollingIntervalSeconds'' c \<or> at_least L (MIN_POLLING_INTERVAL_MS / 1000) (get c ''pollingIntervalSeconds''),
        ''configuration assert: pollingIntervalSeconds must be at least every 500ms'')]) (\<lambda>_.
     let base = (if has ''pollingIntervalSeconds'' c
                 then times_1000 (to_num L (get c ''pollingIntervalSeconds'')) else Fin 2000);
         c1 = put ''pollingInterval'' (VNum base) c in
     and_then (check_all [
       (\<not> has ''notifyPollingIntervalSeconds'' c1 \<or>
          at_least L (MIN_POLLING_INTERVAL_MS / 1000) (get c1 ''notifyPollingIntervalSeconds''),
        ''configuration assert: notifyPollingIntervalSeconds must be at least every 500ms'')]) (\<lambda>_.
     let notify = (if has ''notifyPollingIntervalSeconds'' c1
                   then times_1000 (to_num L (get c1 ''notifyPollingIntervalSeconds'')) else max_30000 base);
         c2 = put ''notifyPollingInterval'' (VNum notify) c1 in
     and_then (check_all [
       (\<not> has ''notifyPollingIntervalSeconds'' c1 \<or> num_le base notify,
        ''configuration assert: notifyPollingIntervalSeconds must be at least pollingIntervalSeconds''),
       (\<not> has ''burstWhenReadyExceeds'' c2 \<or> integer_at_least 1 (get c2 ''burstWhenReadyExceeds''),
        ''configuration assert: burstWhenReadyExceeds must be an integer >= 1''),
       (\<not> has ''burstWhenBatchFull'' c2 \<or> is_bool (get c2 ''burstWhenBatchFull''),
        ''configuration assert: burstWhenBatchFull must be a boolean'')]) (\<lambda>_.
       Inr c2)))"

definition flag_checks :: "str list \<Rightarrow> config \<Rightarrow> (bool \<times> str) list" where
  "flag_checks ks c = map (\<lambda>k. (\<not> has k c \<or> is_bool (get c k), k @ '' must be a boolean'')) ks"

definition count_check :: "str \<Rightarrow> str \<Rightarrow> config \<Rightarrow> bool \<times> str" where
  "count_check k bound c = (\<not> has k c \<or> integer_at_least 1 (get c k), k @ '' must be an integer '' @ bound)"

definition checkWorkArgs :: "js_lang \<Rightarrow> js \<Rightarrow> js list \<Rightarrow> str + config" where
  "checkWorkArgs L name args = (
     let opts = (if length args > 1 then or_object (nth_arg args 0)
                 else if length args = 1 then VObj [] else VUndef);
         callback = (if length args > 1 then nth_arg args 1 else nth_arg args 0) in
     and_then (check_all [
       (truthy name, ''queue name is required''),
       (callback = VFun, ''expected callback to be a function''),
       (is_object opts, ''expected config to be an object'')]) (\<lambda>_.
     and_then (applyPollingInterval L (spread opts)) (\<lambda>c.
     and_then (check_all [count_check ''batchSize'' ''> 0'' c,
       (\<not> has ''includeMetadata'' c \<or> is_bool (get c ''includeMetadata''), ''includeMetadata must be a boolean''),
       (\<not> has ''priority'' c \<or> is_bool (get c ''priority''), ''priority must be a boolean''),
       count_check ''localConcurrency'' ''>= 1'' c,
       (\<not> has ''perJobResults'' c \<or> is_bool (get c ''perJobResults''), ''perJobResults must be a boolean''),
       (\<not> has ''transactional'' c \<or> is_bool (get c ''transactional''), ''transactional must be a boolean'')]) (\<lambda>_.
     and_then (validatePriorityRangeConfig c) (\<lambda>_.
     and_then (validateGroupConcurrencyConfig L c) (\<lambda>_.
     and_then (validateHeartbeatRefreshConfig L c) (\<lambda>_.
     and_then (validateTransactionalConfig c) (\<lambda>_. Inr c))))))))"

definition checkFetchArgs :: "js \<Rightarrow> config \<Rightarrow> str + unit" where
  "checkFetchArgs name c = and_then (check_all ([(truthy name, ''missing queue name''), count_check ''batchSize'' ''> 0'' c] @
     flag_checks [''includeMetadata'', ''priority'', ''ignoreStartAfter''] c)) (\<lambda>_. validatePriorityRangeConfig c)"

section \<open>Lists\<close>

definition LIST_LIMIT_DEFAULT :: rat where "LIST_LIMIT_DEFAULT = 1000"
definition LIST_LIMIT_MAX :: rat where "LIST_LIMIT_MAX = 100000"

definition assertListLimit :: "js_lang \<Rightarrow> str \<Rightarrow> js \<Rightarrow> str + js" where
  "assertListLimit L meth limit = (let l = (if limit = VUndef then num LIST_LIMIT_DEFAULT else limit) in
     and_then (ensure (isInteger l \<and> at_least L 1 l \<and> at_most L LIST_LIMIT_MAX l)
       (meth @ '': limit must be an integer between 1 and 100000'')) (\<lambda>_. Inr l))"

definition uuid_char :: "char \<Rightarrow> bool" where
  "uuid_char c = hex_digit (lower_ascii c)"

fun uuid_groups :: "nat \<Rightarrow> str \<Rightarrow> bool" where
  "uuid_groups 0 s = (s = [])"
| "uuid_groups (Suc n) s = (let r = (case s of c # t \<Rightarrow> if c = CHR ''-'' then t else s | [] \<Rightarrow> s)
     in length r \<ge> 4 \<and> list_all uuid_char (take 4 r) \<and> uuid_groups n (drop 4 r))"

definition plain_uuid :: "str \<Rightarrow> bool" where
  "plain_uuid s = (length s \<ge> 4 \<and> list_all uuid_char (take 4 s) \<and> uuid_groups 7 (drop 4 s))"

definition isUuid :: "str \<Rightarrow> bool" where
  "isUuid s = (plain_uuid s \<or>
     (length s \<ge> 2 \<and> hd s = CHR ''{'' \<and> last s = CHR ''}'' \<and> plain_uuid (butlast (tl s))))"

definition assertListAfter :: "str \<Rightarrow> js \<Rightarrow> bool \<Rightarrow> str + unit" where
  "assertListAfter meth after as_id = check_all [
     (after = VUndef \<or> nonempty_string after, meth @ '': after must be a non-empty string''),
     (\<not> as_id \<or> after = VUndef \<or> (case after of VStr s \<Rightarrow> isUuid s | _ \<Rightarrow> False), meth @ '': after must be a uuid'')]"

definition assertListAfterRow :: "str \<Rightarrow> js \<Rightarrow> str \<times> str \<Rightarrow> str option \<Rightarrow> str + unit" where
  "assertListAfterRow meth after two row_id = check_all [
     (after = VUndef \<or> (is_object after \<and> after \<noteq> VNull \<and>
        list_all (\<lambda>f. is_string (field after f)) [fst two, snd two]),
      meth @ '': after must be an object with string '' @ fst two @ '' and '' @ snd two),
     (case row_id of None \<Rightarrow> True | Some i \<Rightarrow> after = VUndef \<or>
        (case field after i of VStr s \<Rightarrow> isUuid s | _ \<Rightarrow> False), meth @ '': after must be a uuid'')]"

definition assertKey :: "js_lang \<Rightarrow> js \<Rightarrow> str + unit" where
  "assertKey L k = (if \<not> truthy k then Inr () else
     and_then (ensure (is_string k) ''Key must be a string'') (\<lambda>_. assertObjectName L k ''Key''))"

section \<open>Names that become SQL\<close>

definition forbidden :: "(char \<Rightarrow> bool) \<Rightarrow> str \<Rightarrow> str \<Rightarrow> str option \<Rightarrow> str option" where
  "forbidden p m s rest = (if list_ex p s then Some m else rest)"

definition control_char :: "char \<Rightarrow> bool" where
  "control_char c = ((of_char c :: nat) < 32 \<or> (of_char c :: nat) = 127)"

definition quotedNameProblem :: "str \<Rightarrow> str option" where
  "quotedNameProblem s =
     forbidden (\<lambda>c. c = CHR 0x22) ''cannot contain double quotes'' s (
     forbidden (\<lambda>c. c = CHR 0x27) ''cannot contain single quotes'' s (
     forbidden (\<lambda>c. c = CHR ''%'') ''cannot contain percent signs'' s (
     forbidden (\<lambda>c. c = CHR ''$'') ''cannot contain dollar signs'' s (
     forbidden (\<lambda>c. c = CHR ''.'') ''cannot contain periods'' s (
     forbidden (\<lambda>c. c = CHR 0x5C) ''cannot contain backslashes'' s (
     forbidden control_char ''cannot contain control characters'' s None))))))"

definition word_char :: "char \<Rightarrow> bool" where
  "word_char c = (is_alpha c \<or> is_num c \<or> c = CHR ''_'')"

text \<open>The bytes of a Latin-1 text in UTF-8.\<close>

definition byte_length :: "str \<Rightarrow> nat" where
  "byte_length s = sum_list (map (\<lambda>c. if (of_char c :: nat) < 128 then 1 else 2) s)"

definition is_quoted :: "str \<Rightarrow> bool" where
  "is_quoted s = (length s > 1 \<and> hd s = CHR 0x22 \<and> last s = CHR 0x22)"

definition resolved_name :: "str \<Rightarrow> str" where
  "resolved_name s = (if is_quoted s then butlast (tl s) else s)"

definition assertPostgresObjectName :: "js \<Rightarrow> str + unit" where
  "assertPostgresObjectName v = (case v of VStr s \<Rightarrow>
       and_then (check_all [
         (resolved_name s \<noteq> [], ''Name cannot be empty''),
         (byte_length (resolved_name s) \<le> 50, ''Name cannot exceed 50 bytes'')]) (\<lambda>_.
       if is_quoted s then (case quotedNameProblem (resolved_name s) of None \<Rightarrow> Inr ()
         | Some p \<Rightarrow> Inl (''Quoted name '' @ p))
       else let remedy = (case quotedNameProblem s of
                None \<Rightarrow> '' Pass it quoted to use it verbatim''
              | Some p \<Rightarrow> '' Quoting will not help: a quoted name '' @ p) in check_all [
         (list_all word_char s, ''Schema name can only contain alphanumeric characters or underscores when unquoted.'' @ remedy),
         (\<not> is_num (hd s), ''Schema name cannot start with a number when unquoted.'' @ remedy)])
   | _ \<Rightarrow> Inl ''Name must be a string'')"

section \<open>The configuration\<close>

definition COMPATIBILITY_FLAGS :: "str list" where
  "COMPATIBILITY_FLAGS = [''noSkipLocked'', ''noMultiMutationCte'', ''noTablePartitioning'',
     ''noDeferrableConstraints'', ''noAdvisoryLocks'', ''noCoveringIndexes'', ''noAddColumnBackfill'',
     ''noListenNotify'', ''noIndexProgressView'', ''noReindex'', ''noMonitorVacuum'',
     ''noTransactionalHeartbeat'', ''inlineTableIndexes'']"

datatype backend_kind = StandardBackend | DistributedBackend | EmbeddedBackend

definition BACKEND_PROFILES :: "(str \<times> backend_kind \<times> str list) list" where
  "BACKEND_PROFILES = [
     (''postgres'', StandardBackend, []),
     (''cockroachdb'', DistributedBackend, [''noSkipLocked'', ''noMultiMutationCte'', ''noTablePartitioning'',
        ''noDeferrableConstraints'', ''noAdvisoryLocks'', ''noCoveringIndexes'', ''noAddColumnBackfill'',
        ''noListenNotify'', ''noIndexProgressView'', ''noReindex'', ''noMonitorVacuum'',
        ''noTransactionalHeartbeat'', ''inlineTableIndexes'']),
     (''yugabytedb'', DistributedBackend, [''noAdvisoryLocks'', ''noTablePartitioning'',
        ''noIndexProgressView'', ''noReindex'', ''noMonitorVacuum'']),
     (''citus'', DistributedBackend, []),
     (''pglite'', EmbeddedBackend, [])]"

text \<open>The hooks of the tests: each turns its flags on.\<close>

definition TEST_HOOKS :: "(str \<times> str list) list" where
  "TEST_HOOKS = [(''__test__distributed'', [''noSkipLocked'', ''noMultiMutationCte'']),
     (''__test__noAdvisoryLocks'', [''noAdvisoryLocks'']),
     (''__test__noIndexProgressView'', [''noIndexProgressView'']),
     (''__test__noTransactionalHeartbeat'', [''noTransactionalHeartbeat'']),
     (''__test__noReindex'', [''noReindex''])]"

definition apply_hook :: "str \<times> str list \<Rightarrow> config \<Rightarrow> config" where
  "apply_hook h c = (if truthy (get c (fst h)) then fold (\<lambda>f. put f (VBool True)) (snd h) c else c)"

definition resolveBackend :: "js_lang \<Rightarrow> config \<Rightarrow> str + config" where
  "resolveBackend L c = (let backend = (if has ''backend'' c then get c ''backend'' else VStr ''postgres'') in
     case map_of BACKEND_PROFILES (to_text L backend) of
       None \<Rightarrow> Inl ''configuration assert: backend must be one of postgres, cockroachdb, yugabytedb, citus, pglite''
     | Some (_, flags) \<Rightarrow> Inr (fold apply_hook TEST_HOOKS
         (fold (\<lambda>f. put f (VBool (f \<in> set flags))) COMPATIBILITY_FLAGS (put ''backend'' backend c))))"

definition CLOCK_METHODS :: "str list" where
  "CLOCK_METHODS = [''now'', ''setTimeout'', ''clearTimeout'', ''setInterval'', ''clearInterval'']"

text \<open>The system's clock and the default schema.\<close>

definition systemClock :: js where
  "systemClock = VObj (map (\<lambda>m. (m, VFun)) CLOCK_METHODS)"

definition applyClockConfig :: "config \<Rightarrow> str + config" where
  "applyClockConfig c = (let clock = get c ''clock'' in
     and_then (if truthy clock then check_all (map (\<lambda>m. (field clock m = VFun,
         ''configuration assert: clock must implement '' @ m @ ''()'')) CLOCK_METHODS) else Inr ()) (\<lambda>_.
       Inr (put_default ''clock'' systemClock c)))"

definition applySchemaConfig :: "config \<Rightarrow> str + config" where
  "applySchemaConfig c = and_then (if truthy (get c ''schema'') then assertPostgresObjectName (get c ''schema'') else Inr ()) (\<lambda>_.
     Inr (put_default ''schema'' (VStr ''pgboss'') c))"

text \<open>An interval of at least one second, with its default, and at most the maximum.\<close>

definition interval_config :: "js_lang \<Rightarrow> str \<Rightarrow> rat \<Rightarrow> config \<Rightarrow> str + config" where
  "interval_config L k d c = and_then (check_all [
       (\<not> has k c \<or> at_least L 1 (get c k), ''configuration assert: '' @ k @ '' must be at least every second'')]) (\<lambda>_.
     let c1 = put_default k (num d) c in
     and_then (check_all [(within_hours L (get c1 k), ''configuration assert: '' @ k @ '' cannot exceed 24 hours'')]) (\<lambda>_.
       Inr c1))"

definition days_config :: "str \<Rightarrow> rat \<Rightarrow> config \<Rightarrow> str + config" where
  "days_config k d c = and_then (if has k c then check_all [
       (integer_at_least 1 (get c k), ''configuration assert: '' @ k @ '' must be an integer >= 1''),
       (case get c k of VNum n \<Rightarrow> num_le n (Fin MAX_RETENTION_DAYS) | _ \<Rightarrow> False,
          ''configuration assert: '' @ k @ '' cannot exceed 365 days'')] else Inr ()) (\<lambda>_.
     Inr (put_default k (num d) c))"

definition validateReindexConfig :: "js_lang \<Rightarrow> config \<Rightarrow> str + config" where
  "validateReindexConfig L c = (let r = get c ''reindex''; f = field r in
     and_then (check_all [(\<not> has ''reindex'' c \<or> is_bool r \<or> (is_object r \<and> r \<noteq> VNull),
        ''configuration assert: reindex must be a boolean or an options object'')]) (\<lambda>_.
     and_then (if is_object r \<and> r \<noteq> VNull then check_all [
        (f ''minPages'' = VUndef \<or> integer_at_least 0 (f ''minPages''),
           ''configuration assert: reindex.minPages must be an integer >= 0''),
        (f ''maxEntriesPerPage'' = VUndef \<or> (is_number (f ''maxEntriesPerPage'') \<and> positive L (f ''maxEntriesPerPage'')),
           ''configuration assert: reindex.maxEntriesPerPage must be a number > 0''),
        (f ''minSizeRatio'' = VUndef \<or> (is_number (f ''minSizeRatio'') \<and> at_least L 0 (f ''minSizeRatio'')),
           ''configuration assert: reindex.minSizeRatio must be a number >= 0''),
        (f ''maxIndexBytes'' = VUndef \<or> (isInteger (f ''maxIndexBytes'') \<and> positive L (f ''maxIndexBytes'')),
           ''configuration assert: reindex.maxIndexBytes must be an integer > 0''),
        (f ''force'' = VUndef \<or> f ''force'' = VBool False,
           ''configuration assert: reindex.force cannot be set in constructor options. Pass it to supervise()'')]
       else Inr ()) (\<lambda>_. interval_config L ''reindexIntervalSeconds'' (MAX_EXPIRATION_HOURS * 60 * 60) c)))"

definition validateVacuumMonitorConfig :: "config \<Rightarrow> str + unit" where
  "validateVacuumMonitorConfig c = check_all [
     (\<not> has ''monitorVacuum'' c \<or> is_bool (get c ''monitorVacuum''),
        ''configuration assert: monitorVacuum must be a boolean'')]"

definition applyOpsConfig :: "js_lang \<Rightarrow> config \<Rightarrow> str + config" where
  "applyOpsConfig L c =
     and_then (interval_config L ''superviseIntervalSeconds'' 60 c) (\<lambda>c.
     and_then (interval_config L ''maintenanceIntervalSeconds'' (MAX_EXPIRATION_HOURS * 60 * 60) c) (\<lambda>c.
     and_then (interval_config L ''monitorIntervalSeconds'' 60 c) (\<lambda>c.
     and_then (interval_config L ''queueCacheIntervalSeconds'' 60 c) (\<lambda>c.
     and_then (days_config ''queueStatRetentionDays'' 7 c) (\<lambda>c.
     and_then (validateReindexConfig L c) (\<lambda>c.
     and_then (validateVacuumMonitorConfig c) (\<lambda>_. Inr c)))))))"

text \<open>An interval between bounds that are checked together.\<close>

definition ranged_config :: "js_lang \<Rightarrow> str \<Rightarrow> rat \<Rightarrow> rat option \<Rightarrow> rat \<Rightarrow> str \<Rightarrow> config \<Rightarrow> str + config" where
  "ranged_config L k lo hi d m c = and_then (check_all [
       (\<not> has k c \<or> (at_least L lo (get c k) \<and> (case hi of None \<Rightarrow> True | Some h \<Rightarrow> at_most L h (get c k))), m)]) (\<lambda>_.
     Inr (put_default k (num d) c))"

definition applyScheduleConfig :: "js_lang \<Rightarrow> config \<Rightarrow> str + config" where
  "applyScheduleConfig L c =
     and_then (ranged_config L ''clockMonitorIntervalSeconds'' 1 (Some 600) 600
       ''configuration assert: clockMonitorIntervalSeconds must be between 1 second and 10 minutes'' c) (\<lambda>c.
     and_then (ranged_config L ''cronMonitorIntervalSeconds'' 1 (Some 45) 30
       ''configuration assert: cronMonitorIntervalSeconds must be between 1 and 45 seconds'' c) (\<lambda>c.
     ranged_config L ''cronWorkerIntervalSeconds'' 1 (Some 45) 5
       ''configuration assert: cronWorkerIntervalSeconds must be between 1 and 45 seconds'' c))"

definition applyBamConfig :: "js_lang \<Rightarrow> config \<Rightarrow> str + config" where
  "applyBamConfig L c = ranged_config L ''bamIntervalSeconds''
     (if truthy (get c ''__test__bypass_bam_interval_check'') then 1 else 10) None 60
     ''configuration assert: bamIntervalSeconds is below its minimum'' c"

definition applyFlowConfig :: "js_lang \<Rightarrow> config \<Rightarrow> str + config" where
  "applyFlowConfig L c = ranged_config L ''flowIntervalSeconds''
     (if truthy (get c ''__test__bypass_flow_interval_check'') then 1 / 2 else 1) None 5
     ''configuration assert: flowIntervalSeconds is below its minimum'' c"

definition applyInstanceConfig :: "js_lang \<Rightarrow> config \<Rightarrow> str + config" where
  "applyInstanceConfig L c0 = (
     let c = put ''registerInstance'' (VBool (if has ''registerInstance'' c0
               then get c0 ''registerInstance'' \<noteq> VBool False else True)) c0;
         n = get c ''instanceName''; h = get c ''instanceHeartbeatSeconds'' in
     and_then (check_all [
       (n = VUndef \<or> nonempty_string n, ''configuration assert: instanceName must be a non-empty string''),
       (h = VUndef \<or> (integer_at_least 1 h \<and> at_most L 3600 h),
          ''configuration assert: instanceHeartbeatSeconds must be an integer from 1 to 3600'')]) (\<lambda>_.
       Inr (put_default ''instanceHeartbeatSeconds'' (num 30) c)))"

definition validateWarningConfig :: "js_lang \<Rightarrow> config \<Rightarrow> str + config" where
  "validateWarningConfig L c = and_then (check_all [
       (\<not> has ''warningQueueSize'' c \<or> at_least L 1 (get c ''warningQueueSize''),
          ''configuration assert: warningQueueSize must be at least 1''),
       (\<not> has ''warningSlowQuerySeconds'' c \<or> at_least L 1 (get c ''warningSlowQuerySeconds''),
          ''configuration assert: warningSlowQuerySeconds must be at least 1'')]) (\<lambda>_.
     days_config ''warningRetentionDays'' MAX_RETENTION_DAYS c)"

definition validateOpenTelemetryConfig :: "config \<Rightarrow> str + unit" where
  "validateOpenTelemetryConfig c = (let ot = get c ''openTelemetry''; f = field ot in
     if nullish ot then Inr () else check_all ([
       (is_object ot, ''configuration assert: openTelemetry must be an object'')] @
       map (\<lambda>k. (f k = VUndef \<or> is_bool (f k), ''configuration assert: openTelemetry.'' @ k @ '' must be a boolean''))
         [''enabled'', ''propagateContext''] @ [
       (f ''tracerProvider'' = VUndef \<or> field (f ''tracerProvider'') ''getTracer'' = VFun,
          ''configuration assert: openTelemetry.tracerProvider must implement getTracer()''),
       (f ''meterProvider'' = VUndef \<or> field (f ''meterProvider'') ''getMeter'' = VFun,
          ''configuration assert: openTelemetry.meterProvider must implement getMeter()''),
       (f ''propagator'' = VUndef \<or> (field (f ''propagator'') ''inject'' = VFun \<and> field (f ''propagator'') ''extract'' = VFun),
          ''configuration assert: openTelemetry.propagator must implement inject() and extract()'')]))"

definition config_defaults :: "config \<Rightarrow> config" where
  "config_defaults c = fold (\<lambda>(k, v). put_absent k (VBool v)) [(''schedule'', True), (''supervise'', True),
     (''migrate'', True), (''createSchema'', True), (''useListenNotify'', False), (''reindex'', True)] c"

definition getConfig :: "js_lang \<Rightarrow> js \<Rightarrow> str + config" where
  "getConfig L v =
     and_then (ensure (truthy v \<and> (is_object v \<or> is_string v))
       ''configuration assert: string or config object is required to connect to postgres'') (\<lambda>_.
     let c = config_defaults (case v of VStr s \<Rightarrow> [(''connectionString'', VStr s)] | _ \<Rightarrow> spread v) in
     and_then (resolveBackend L c) (\<lambda>c.
     and_then (applyClockConfig c) (\<lambda>c.
     and_then (applySchemaConfig c) (\<lambda>c.
     and_then (applyOpsConfig L c) (\<lambda>c.
     and_then (applyScheduleConfig L c) (\<lambda>c.
     and_then (applyBamConfig L c) (\<lambda>c.
     and_then (applyFlowConfig L c) (\<lambda>c.
     and_then (applyInstanceConfig L c) (\<lambda>c.
     and_then (validateWarningConfig L c) (\<lambda>c.
     and_then (validateOpenTelemetryConfig c) (\<lambda>_. Inr c)))))))))))"

section \<open>The call of \<^verbatim>\<open>schedule()\<close>\<close>

text \<open>The options a caller gives: the zone, the key, the catch-up policy, the send options that remain,
  and the whole of them as the driver stores them.\<close>

record schedule_options =
  so_tz :: "str option"
  so_key :: "str option"
  so_missed :: "json option"
  so_rest :: config
  so_persisted :: "json option"

definition schedule_zone :: "str option \<Rightarrow> str" where
  "schedule_zone tz = (if truthy_str tz then coalesce tz [] else ''UTC'')"

definition lift_args :: "str + 'a \<Rightarrow> schedule_error + 'a" where
  "lift_args r = (case r of Inl m \<Rightarrow> Inl (ScheduleArgs m) | Inr x \<Rightarrow> Inr x)"

definition schedule_call ::
  "js_lang \<Rightarrow> cron_lib \<Rightarrow> rrule_lib \<Rightarrow> str list \<Rightarrow> str \<Rightarrow> str \<Rightarrow> js \<Rightarrow> json option \<Rightarrow> schedule_options \<Rightarrow> int \<Rightarrow> int \<Rightarrow>
   time \<Rightarrow> schedule_row list \<Rightarrow> schedule_error + schedule_row list" where
  "schedule_call L cl rl queues n expr data stored so local databaseTime stamp ss = (
     let tz = schedule_zone (so_tz so); key = coalesce (so_key so) []; kind = detected_kind expr in
     and_then (assertRecurrence cl rl expr tz local) (\<lambda>_.
     and_then (if kind = RruleKind then lift_rule (assertRruleSends rl expr tz databaseTime) else Inr ()) (\<lambda>_.
     and_then (lift_args (checkSendArgs L [VStr n, data, VObj (so_rest so)])) (\<lambda>_.
     and_then (lift_args (assertKey L (VStr key))) (\<lambda>_.
     and_then (ensure (assertMissedPolicy (so_missed so)) UnknownMissedPolicy) (\<lambda>_.
       case schedule_upsert queues n key kind expr (Some tz) stored (so_persisted so) stamp ss of
         Inl _ \<Rightarrow> Inl (QueueNotFound n) | Inr ss' \<Rightarrow> Inr ss'))))))"

section \<open>Lemmas\<close>

lemma check_all_Inr: "check_all cs = Inr u \<longleftrightarrow> list_all fst cs"
  by (induction cs rule: check_all.induct) auto

lemma check_all_true: "check_all [] = Inr ()" "check_all ((True, m) # cs) = check_all cs"
  by simp_all

declare check_all.simps [simp del]

lemma get_put: "get (put k v c) k' = (if k' = k then v else get c k')"
  by (simp add: get_def put_def)

lemma has_put: "has k' (put k v c) = (k' = k \<or> has k' c)"
  by (simp add: has_def put_def)

lemma get_put_default: "get (put_default k v c) k' =
    (if k' = k then if truthy (get c k) then get c k else v else get c k')"
  by (simp add: put_default_def get_put)

lemma has_put_default: "has k' (put_default k v c) = (k' = k \<or> has k' c)"
  by (simp add: put_default_def has_put)

lemma get_not_has: "\<not> has k c \<Longrightarrow> get c k = VUndef"
  by (simp add: has_def get_def)

lemma not_truthy [simp]: "\<not> truthy VUndef" "\<not> truthy VNull"
  by (simp_all add: truthy_def)

definition in_range :: "js_lang \<Rightarrow> rat \<Rightarrow> rat option \<Rightarrow> js \<Rightarrow> bool" where
  "in_range L lo hi v = (at_least L lo v \<and> (case hi of None \<Rightarrow> True | Some h \<Rightarrow> at_most L h v))"

lemma in_range_num [simp]: "in_range L lo hi (num r) = (lo \<le> r \<and> (case hi of None \<Rightarrow> True | Some h \<Rightarrow> r \<le> h))"
  by (simp add: in_range_def at_least_def at_most_def to_num_def split: option.splits)

text \<open>What an accepted step leaves: its key defaulted, in range, every other key as it was.\<close>

lemma ranged_config_Inr:
  assumes "ranged_config L k lo hi d m c = Inr c'" "in_range L lo hi (num d)"
  shows "c' = put_default k (num d) c \<and> in_range L lo hi (get c' k)"
proof -
  have c': "c' = put_default k (num d) c"
    and "\<not> has k c \<or> in_range L lo hi (get c k)"
    using assms(1) by (auto simp: ranged_config_def and_then_Inr_iff check_all_Inr in_range_def)
  thus ?thesis using assms(2) get_not_has [of k c] by (auto simp: get_put_default)
qed

lemma interval_config_Inr:
  assumes "interval_config L k d c = Inr c'" "1 \<le> d"
  shows "c' = put_default k (num d) c \<and> in_range L 1 (Some 86400) (get c' k)"
proof -
  have c': "c' = put_default k (num d) c" and m: "within_hours L (get c' k)"
    and l: "\<not> has k c \<or> at_least L 1 (get c k)"
    using assms(1) by (auto simp: interval_config_def and_then_Inr_iff check_all_Inr Let_def)
  have "at_least L 1 (get c' k)"
    using l assms(2) get_not_has [of k c] unfolding c' get_put_default
    by (auto simp: at_least_def to_num_def)
  thus ?thesis using c' m by (simp add: in_range_def within_hours_def MAX_EXPIRATION_HOURS_def)
qed

lemma integer_at_least_in_range:
  "integer_at_least lo v \<Longrightarrow> at_least L lo v"
  by (auto simp: integer_at_least_def at_least_def to_num_def split: js.splits js_num.splits)

lemma days_config_Inr:
  assumes "days_config k d c = Inr c'" "1 \<le> d" "d \<le> 365"
  shows "c' = put_default k (num d) c \<and> in_range L 1 (Some 365) (get c' k)"
proof -
  have c': "c' = put_default k (num d) c"
    and "has k c \<longrightarrow> integer_at_least 1 (get c k) \<and> (case get c k of VNum n \<Rightarrow> num_le n (Fin 365) | _ \<Rightarrow> False)"
    using assms(1) unfolding days_config_def MAX_RETENTION_DAYS_def
    by (auto simp: and_then_Inr_iff check_all_Inr split: if_splits)
  hence "has k c \<longrightarrow> in_range L 1 (Some 365) (get c k)"
    by (auto simp: in_range_def integer_at_least_in_range at_most_def to_num_def split: js.splits)
  thus ?thesis using c' assms(2,3) get_not_has [of k c] by (auto simp: get_put_default)
qed

lemma validateReindexConfig_Inr:
  "validateReindexConfig L c = Inr c' \<Longrightarrow>
    interval_config L ''reindexIntervalSeconds'' (MAX_EXPIRATION_HOURS * 60 * 60) c = Inr c'"
  by (auto simp: validateReindexConfig_def Let_def and_then_Inr_iff)

section \<open>Properties\<close>

text \<open>The intervals of a configuration and their ranges.  The lower bounds of the intervals of background
  migrations and of flows are those with the test hooks; without them they are 10 and 1.\<close>

definition config_ranges :: "(str \<times> rat \<times> rat option) list" where
  "config_ranges = [
     (''superviseIntervalSeconds'', 1, Some 86400), (''maintenanceIntervalSeconds'', 1, Some 86400),
     (''monitorIntervalSeconds'', 1, Some 86400), (''queueCacheIntervalSeconds'', 1, Some 86400),
     (''queueStatRetentionDays'', 1, Some 365), (''reindexIntervalSeconds'', 1, Some 86400),
     (''clockMonitorIntervalSeconds'', 1, Some 600), (''cronMonitorIntervalSeconds'', 1, Some 45),
     (''cronWorkerIntervalSeconds'', 1, Some 45), (''bamIntervalSeconds'', 1, None),
     (''flowIntervalSeconds'', 1 / 2, None), (''instanceHeartbeatSeconds'', 1, Some 3600),
     (''warningRetentionDays'', 1, Some 365)]"

lemma applyInstanceConfig_Inr:
  assumes "applyInstanceConfig L c = Inr c'"
  shows "\<exists>b. c' = put_default ''instanceHeartbeatSeconds'' (num 30) (put ''registerInstance'' (VBool b) c) \<and>
    in_range L 1 (Some 3600) (get c' ''instanceHeartbeatSeconds'')"
proof -
  obtain b where b: "c' = put_default ''instanceHeartbeatSeconds'' (num 30) (put ''registerInstance'' (VBool b) c)"
    and h: "get c ''instanceHeartbeatSeconds'' = VUndef \<or>
      integer_at_least 1 (get c ''instanceHeartbeatSeconds'') \<and> at_most L 3600 (get c ''instanceHeartbeatSeconds'')"
    using assms unfolding applyInstanceConfig_def Let_def and_then_Inr_iff check_all_Inr by (auto simp: get_put)
  hence "get c ''instanceHeartbeatSeconds'' = VUndef \<or> in_range L 1 (Some 3600) (get c ''instanceHeartbeatSeconds'')"
    by (auto simp: in_range_def integer_at_least_in_range)
  thus ?thesis using b by (auto simp: get_put_default get_put)
qed

lemma validateWarningConfig_Inr:
  assumes "validateWarningConfig L c = Inr c'"
  shows "c' = put_default ''warningRetentionDays'' (num 365) c \<and> in_range L 1 (Some 365) (get c' ''warningRetentionDays'')"
proof -
  have "days_config ''warningRetentionDays'' 365 c = Inr c'"
    using assms unfolding validateWarningConfig_def MAX_RETENTION_DAYS_def by (auto simp: and_then_Inr_iff)
  thus ?thesis by (rule days_config_Inr) simp_all
qed

lemma applyOpsConfig_Inr:
  assumes "applyOpsConfig L c = Inr c'"
  shows "c' = put_default ''reindexIntervalSeconds'' (num 86400) (put_default ''queueStatRetentionDays'' (num 7)
      (put_default ''queueCacheIntervalSeconds'' (num 60) (put_default ''monitorIntervalSeconds'' (num 60)
      (put_default ''maintenanceIntervalSeconds'' (num 86400) (put_default ''superviseIntervalSeconds'' (num 60) c))))) \<and>
    in_range L 1 (Some 86400) (get c' ''superviseIntervalSeconds'') \<and>
    in_range L 1 (Some 86400) (get c' ''maintenanceIntervalSeconds'') \<and>
    in_range L 1 (Some 86400) (get c' ''monitorIntervalSeconds'') \<and>
    in_range L 1 (Some 86400) (get c' ''queueCacheIntervalSeconds'') \<and>
    in_range L 1 (Some 365) (get c' ''queueStatRetentionDays'') \<and>
    in_range L 1 (Some 86400) (get c' ''reindexIntervalSeconds'')"
proof -
  obtain c1 c2 c3 c4 c5 where s: "interval_config L ''superviseIntervalSeconds'' 60 c = Inr c1"
    "interval_config L ''maintenanceIntervalSeconds'' 86400 c1 = Inr c2"
    "interval_config L ''monitorIntervalSeconds'' 60 c2 = Inr c3"
    "interval_config L ''queueCacheIntervalSeconds'' 60 c3 = Inr c4"
    "interval_config L ''reindexIntervalSeconds'' 86400 c5 = Inr c'"
    and d: "days_config ''queueStatRetentionDays'' 7 c4 = Inr c5"
    using assms unfolding applyOpsConfig_def and_then_Inr_iff
    by (auto dest!: validateReindexConfig_Inr simp: MAX_EXPIRATION_HOURS_def)
  note i = s [THEN interval_config_Inr, simplified] and j = days_config_Inr [OF d, of L, simplified]
  note e = i(1-4) [THEN conjunct1] j [THEN conjunct1] i(5) [THEN conjunct1]
  note r = i [THEN conjunct2] j [THEN conjunct2]
  have "in_range L 1 (Some 86400) (get c' ''superviseIntervalSeconds'')"
    using r(1) by (simp add: e(2-6) get_put_default)
  moreover have "in_range L 1 (Some 86400) (get c' ''maintenanceIntervalSeconds'')"
    using r(2) by (simp add: e(3-6) get_put_default)
  moreover have "in_range L 1 (Some 86400) (get c' ''monitorIntervalSeconds'')"
    using r(3) by (simp add: e(4-6) get_put_default)
  moreover have "in_range L 1 (Some 86400) (get c' ''queueCacheIntervalSeconds'')"
    using r(4) by (simp add: e(5-6) get_put_default)
  moreover have "in_range L 1 (Some 365) (get c' ''queueStatRetentionDays'')"
    using r(6) by (simp add: e(6) get_put_default)
  ultimately show ?thesis using r(5) by (simp add: e)
qed

lemma applyScheduleConfig_Inr:
  assumes "applyScheduleConfig L c = Inr c'"
  shows "c' = put_default ''cronWorkerIntervalSeconds'' (num 5) (put_default ''cronMonitorIntervalSeconds'' (num 30)
      (put_default ''clockMonitorIntervalSeconds'' (num 600) c)) \<and>
    in_range L 1 (Some 600) (get c' ''clockMonitorIntervalSeconds'') \<and>
    in_range L 1 (Some 45) (get c' ''cronMonitorIntervalSeconds'') \<and>
    in_range L 1 (Some 45) (get c' ''cronWorkerIntervalSeconds'')"
proof -
  obtain c1 c2 m1 m2 m3 where s:
    "ranged_config L ''clockMonitorIntervalSeconds'' 1 (Some 600) 600 m1 c = Inr c1"
    "ranged_config L ''cronMonitorIntervalSeconds'' 1 (Some 45) 30 m2 c1 = Inr c2"
    "ranged_config L ''cronWorkerIntervalSeconds'' 1 (Some 45) 5 m3 c2 = Inr c'"
    using assms unfolding applyScheduleConfig_def and_then_Inr_iff by blast
  note i = ranged_config_Inr [OF s(1), simplified] ranged_config_Inr [OF s(2), simplified]
    ranged_config_Inr [OF s(3), simplified]
  note e = i [THEN conjunct1] and r = i [THEN conjunct2]
  have "in_range L 1 (Some 600) (get c' ''clockMonitorIntervalSeconds'')"
    using r(1) by (simp add: e(2,3) get_put_default)
  moreover have "in_range L 1 (Some 45) (get c' ''cronMonitorIntervalSeconds'')"
    using r(2) by (simp add: e(3) get_put_default)
  ultimately show ?thesis using r(3) by (simp add: e)
qed

text \<open>The flags: those of the profile, and those of the test hooks that are set.\<close>

lemma get_fold_put: "get (fold (\<lambda>f. put f (g f)) fs c) k = (if k \<in> set fs then g k else get c k)"
  by (induction fs arbitrary: c) (auto simp: get_put)

lemma get_hook_flag:
  "get (apply_hook h c) k = (if truthy (get c (fst h)) \<and> k \<in> set (snd h) then VBool True else get c k)"
  by (simp add: apply_hook_def get_fold_put)

definition backend_flags :: "config \<Rightarrow> bool" where
  "backend_flags c = list_all (\<lambda>f. is_bool (get c f)) COMPATIBILITY_FLAGS"

lemma hooks_keep_flags: "backend_flags c \<Longrightarrow> backend_flags (fold apply_hook hs c)"
proof (induction hs arbitrary: c)
  case (Cons h hs)
  have "backend_flags (apply_hook h c)"
    using Cons.prems by (auto simp: backend_flags_def list_all_iff get_hook_flag is_bool_def)
  thus ?case using Cons.IH by simp
qed simp

lemma resolveBackend_flags: "resolveBackend L c = Inr c' \<Longrightarrow> backend_flags c'"
proof -
  have set_flags: "backend_flags (fold (\<lambda>f. put f (VBool (p f))) COMPATIBILITY_FLAGS x)" for p x
    by (simp add: backend_flags_def list_all_iff get_fold_put is_bool_def)
  assume "resolveBackend L c = Inr c'"
  then obtain fs x where eq: "c' = fold apply_hook TEST_HOOKS (fold (\<lambda>f. put f (VBool (f \<in> set fs))) COMPATIBILITY_FLAGS x)"
    unfolding resolveBackend_def Let_def by (auto split: option.splits)
  show ?thesis unfolding eq by (intro hooks_keep_flags set_flags)
qed

lemma put_keeps_flags: "k \<notin> set COMPATIBILITY_FLAGS \<Longrightarrow> backend_flags (put k v c) = backend_flags c"
  by (auto simp: backend_flags_def list_all_iff get_put)

lemma default_keeps_flags: "k \<notin> set COMPATIBILITY_FLAGS \<Longrightarrow> backend_flags (put_default k v c) = backend_flags c"
  by (simp add: put_default_def put_keeps_flags)

text \<open>Names that are safe inside a statement.\<close>

definition safe_char :: "char \<Rightarrow> bool" where
  "safe_char c = (c \<notin> {CHR 0x22, CHR 0x27, CHR ''%'', CHR ''$'', CHR ''.'', CHR 0x5C} \<and> \<not> control_char c)"

definition safe_name :: "str \<Rightarrow> bool" where
  "safe_name s = (resolved_name s \<noteq> [] \<and> byte_length (resolved_name s) \<le> 50 \<and> list_all safe_char (resolved_name s) \<and>
     (is_quoted s \<or> (list_all word_char s \<and> \<not> is_num (hd s))))"

lemma word_char_safe: "word_char c \<Longrightarrow> safe_char c"
proof -
  have n: "c = d" if "(of_char c :: nat) = of_char d" for d using that by (metis char_of_char)
  assume "word_char c"
  hence "(48 \<le> (of_char c :: nat) \<and> (of_char c :: nat) \<le> 57) \<or> (65 \<le> (of_char c :: nat) \<and> (of_char c :: nat) \<le> 90) \<or>
      (97 \<le> (of_char c :: nat) \<and> (of_char c :: nat) \<le> 122) \<or> (of_char c :: nat) = 95"
    by (auto simp: word_char_def is_alpha_def is_num_def upper_ascii_def Let_def split: if_splits)
  thus ?thesis by (auto simp: safe_char_def control_char_def)
qed

lemma forbidden_None: "forbidden p m s rest = None \<longleftrightarrow> \<not> list_ex p s \<and> rest = None"
  by (simp add: forbidden_def)

lemma quotedNameProblem_None: "quotedNameProblem s = None \<longleftrightarrow> list_all safe_char s"
  unfolding quotedNameProblem_def forbidden_None safe_char_def list_all_iff list_ex_iff by auto

lemma assertPostgresObjectName_Inr:
  assumes "assertPostgresObjectName v = Inr u"
  shows "\<exists>s. v = VStr s \<and> safe_name s"
proof (cases v)
  case (VStr s)
  show ?thesis
  proof (cases "is_quoted s")
    case True
    thus ?thesis using assms VStr
      by (auto simp: assertPostgresObjectName_def and_then_Inr_iff check_all_Inr safe_name_def
          quotedNameProblem_None split: option.splits)
  next
    case False
    hence "list_all word_char s" "\<not> is_num (hd s)" "resolved_name s \<noteq> []" "byte_length (resolved_name s) \<le> 50"
      using assms VStr by (auto simp: assertPostgresObjectName_def and_then_Inr_iff check_all_Inr Let_def)
    thus ?thesis using VStr False word_char_safe
      by (auto simp: safe_name_def resolved_name_def list_all_iff)
  qed
qed (use assms in \<open>simp_all add: assertPostgresObjectName_def\<close>)

lemma config_defaults_frame: "k \<notin> fst ` set [(''schedule'', True), (''supervise'', True),
     (''migrate'', True), (''createSchema'', True), (''useListenNotify'', False), (''reindex'', True)] \<Longrightarrow>
   get (config_defaults c) k = get c k"
  by (simp add: config_defaults_def put_absent_def get_put)

text \<open>(C21) An accepted configuration is one the instance can run with, whatever it was built from: every interval
  and retention is a number in its documented range, defaults included, so two cron passes of the
  deployment stay inside the due window; every compatibility flag is a boolean; and the schema, which is
  written into every statement as it is, holds no character that could end an identifier, a literal,
  a dollar quote or a format template.\<close>

theorem config_in_bounds:
  assumes "getConfig L v = Inr c"
  shows "list_all (\<lambda>(k, lo, hi). in_range L lo hi (get c k)) config_ranges \<and> backend_flags c \<and>
    (\<exists>s. get c ''schema'' = VStr s \<and> safe_name s)"
proof -
  obtain c0 c1 c2 c3 c4 c5 c6 c7 c8 where s1: "resolveBackend L c0 = Inr c1" and s2: "applyClockConfig c1 = Inr c2"
    and s3: "applySchemaConfig c2 = Inr c3" and s4: "applyOpsConfig L c3 = Inr c4"
    and s5: "applyScheduleConfig L c4 = Inr c5" and s6: "applyBamConfig L c5 = Inr c6"
    and s7: "applyFlowConfig L c6 = Inr c7" and s8: "applyInstanceConfig L c7 = Inr c8"
    and s9: "validateWarningConfig L c8 = Inr c"
    using assms unfolding getConfig_def Let_def and_then_Inr_iff by auto
  have e2: "c2 = put_default ''clock'' systemClock c1"
    using s2 by (auto simp: applyClockConfig_def Let_def and_then_Inr_iff)
  have e3: "c3 = put_default ''schema'' (VStr ''pgboss'') c2"
    and a3: "truthy (get c2 ''schema'') \<longrightarrow> assertPostgresObjectName (get c2 ''schema'') = Inr ()"
    using s3 by (auto simp: applySchemaConfig_def and_then_Inr_iff split: if_splits)
  have "safe_name ''pgboss''" by code_simp
  hence schema: "\<exists>s. get c3 ''schema'' = VStr s \<and> safe_name s"
    using a3 assertPostgresObjectName_Inr [of "get c2 ''schema''"] unfolding e3 get_put_default by auto
  note o4 = applyOpsConfig_Inr [OF s4] and o5 = applyScheduleConfig_Inr [OF s5]
  note e4 = o4 [THEN conjunct1] and e5 = o5 [THEN conjunct1]
  have b6: "c6 = put_default ''bamIntervalSeconds'' (num 60) c5 \<and> in_range L 1 None (get c6 ''bamIntervalSeconds'')"
  proof (cases "truthy (get c5 ''__test__bypass_bam_interval_check'')")
    case True
    thus ?thesis using s6 ranged_config_Inr by (auto simp: applyBamConfig_def)
  next
    case False
    hence "c6 = put_default ''bamIntervalSeconds'' (num 60) c5 \<and> in_range L 10 None (get c6 ''bamIntervalSeconds'')"
      using s6 by (intro ranged_config_Inr) (auto simp: applyBamConfig_def)
    moreover have "at_least L 10 x \<Longrightarrow> at_least L 1 x" for x
      by (cases "to_num L x") (auto simp: at_least_def)
    ultimately show ?thesis by (auto simp: in_range_def)
  qed
  have b7: "c7 = put_default ''flowIntervalSeconds'' (num 5) c6 \<and> in_range L (1 / 2) None (get c7 ''flowIntervalSeconds'')"
  proof (cases "truthy (get c6 ''__test__bypass_flow_interval_check'')")
    case True
    thus ?thesis using s7 by (intro ranged_config_Inr) (auto simp: applyFlowConfig_def)
  next
    case False
    hence "c7 = put_default ''flowIntervalSeconds'' (num 5) c6 \<and> in_range L 1 None (get c7 ''flowIntervalSeconds'')"
      using s7 by (intro ranged_config_Inr) (auto simp: applyFlowConfig_def)
    moreover have "at_least L 1 x \<Longrightarrow> at_least L (1 / 2) x" for x
      by (cases "to_num L x") (auto simp: at_least_def)
    ultimately show ?thesis by (auto simp: in_range_def)
  qed
  obtain b where o8: "c8 = put_default ''instanceHeartbeatSeconds'' (num 30) (put ''registerInstance'' (VBool b) c7)"
    "in_range L 1 (Some 3600) (get c8 ''instanceHeartbeatSeconds'')"
    using applyInstanceConfig_Inr [OF s8] by blast
  note o9 = validateWarningConfig_Inr [OF s9]
  note e6 = b6 [THEN conjunct1] and e7 = b7 [THEN conjunct1] and e9 = o9 [THEN conjunct1]
  have from4: "list_all (\<lambda>k. get c k = get c4 k) [''superviseIntervalSeconds'', ''maintenanceIntervalSeconds'',
      ''monitorIntervalSeconds'', ''queueCacheIntervalSeconds'', ''queueStatRetentionDays'',
      ''reindexIntervalSeconds'', ''schema'']"
    by (simp add: e9 o8(1) e7 e6 e5 get_put_default get_put)
  have from5: "list_all (\<lambda>k. get c k = get c5 k) [''clockMonitorIntervalSeconds'', ''cronMonitorIntervalSeconds'',
      ''cronWorkerIntervalSeconds'']"
    by (simp add: e9 o8(1) e7 e6 get_put_default get_put)
  have from6: "get c ''bamIntervalSeconds'' = get c6 ''bamIntervalSeconds''"
    by (simp add: e9 o8(1) e7 get_put_default get_put)
  have from7: "get c ''flowIntervalSeconds'' = get c7 ''flowIntervalSeconds''"
    by (simp add: e9 o8(1) get_put_default get_put)
  have from8: "get c ''instanceHeartbeatSeconds'' = get c8 ''instanceHeartbeatSeconds''"
    by (simp add: e9 get_put_default)
  have "get c ''schema'' = get c4 ''schema''" using from4 by simp
  also have "\<dots> = get c3 ''schema''" by (simp add: e4 get_put_default)
  finally have "\<exists>s. get c ''schema'' = VStr s \<and> safe_name s" using schema by simp
  moreover have "backend_flags c"
    using resolveBackend_flags [OF s1] unfolding e9 o8(1) e7 e6 e5 e4 e3 e2
    by (simp add: default_keeps_flags put_keeps_flags COMPATIBILITY_FLAGS_def)
  moreover have "list_all (\<lambda>(k, lo, hi). in_range L lo hi (get c k)) config_ranges"
    using o4 [THEN conjunct2] o5 [THEN conjunct2] b6 [THEN conjunct2] b7 [THEN conjunct2] o8(2) o9 [THEN conjunct2]
      from4 from5 by (simp add: config_ranges_def from6 from7 from8)
  ultimately show ?thesis by blast
qed

definition plain_lang :: js_lang where
  "plain_lang = \<lparr>jl_num = (\<lambda>_. NotANumber), jl_text = (\<lambda>_. ''[object Object]'')\<rparr>"

lemma config_in_bounds_witness:
  "\<exists>c. getConfig plain_lang (VObj [(''backend'', VStr ''citus''), (''cronMonitorIntervalSeconds'', num 45)]) = Inr c \<and>
    get c ''schema'' = VStr ''pgboss'' \<and> in_range plain_lang 1 (Some 45) (get c ''cronMonitorIntervalSeconds'')"
proof -
  let ?v = "VObj [(''backend'', VStr ''citus''), (''cronMonitorIntervalSeconds'', num 45)]"
  have "(case getConfig plain_lang ?v of Inl _ \<Rightarrow> False | Inr c \<Rightarrow> get c ''schema'' = VStr ''pgboss'')" by code_simp
  then obtain c where c: "getConfig plain_lang ?v = Inr c" "get c ''schema'' = VStr ''pgboss''"
    by (auto split: sum.splits)
  from config_in_bounds [OF c(1)] have "list_all (\<lambda>(k, lo, hi). in_range plain_lang lo hi (get c k)) config_ranges"
    by blast
  hence "in_range plain_lang 1 (Some 45) (get c ''cronMonitorIntervalSeconds'')" by (simp add: config_ranges_def)
  thus ?thesis using c by blast
qed

section \<open>The arguments of a call\<close>

text \<open>A value that counts as a positive number is not written as a date.\<close>

definition lang_ok :: "js_lang \<Rightarrow> bool" where
  "lang_ok L = (\<forall>v. positive L v \<longrightarrow> \<not> ISO_DATE (to_text L v))"

text \<open>What it is to name no zone: a calendar date, alone or with an hour of two digits, minutes, seconds
  and a fraction of them, and nothing after.\<close>

definition digits :: "nat \<Rightarrow> str \<Rightarrow> bool" where
  "digits n s = (length s = n \<and> list_all is_digit s)"

definition zoneless_time :: "str \<Rightarrow> bool" where
  "zoneless_time t = (t = [] \<or> (\<exists>sep\<in>set ''T ''. \<exists>h m. t = sep # h @ m \<and> digits 2 h \<and>
     (m = [] \<or> (\<exists>mm s. m = '':'' @ mm @ s \<and> digits 2 mm \<and>
       (s = [] \<or> (\<exists>ss f. s = '':'' @ ss @ f \<and> digits 2 ss \<and>
         (f = [] \<or> (\<exists>point d. f = point # d \<and> point \<in> set ''.,'' \<and> d \<noteq> [] \<and> digits (length d) d))))))))"

definition zoneless :: "str \<Rightarrow> bool" where
  "zoneless s = (\<exists>y m d t. s = y @ ''-'' @ m @ ''-'' @ d @ t \<and> digits 4 y \<and> digits 2 m \<and> digits 2 d \<and> zoneless_time t)"

lemma digits_2: "digits 2 h \<longleftrightarrow> (\<exists>a b. h = [a, b] \<and> is_digit a \<and> is_digit b)"
  by (auto simp: digits_def numeral_2_eq_2 length_Suc_conv)

lemma digits_2_split:
  "(\<exists>h m. x = h @ m \<and> digits 2 h \<and> P m) \<longleftrightarrow> (\<exists>a b m. x = a # b # m \<and> is_digit a \<and> is_digit b \<and> P m)"
proof
  assume "\<exists>a b m. x = a # b # m \<and> is_digit a \<and> is_digit b \<and> P m"
  then obtain a b m where "x = [a, b] @ m" "is_digit a" "is_digit b" "P m" by auto
  thus "\<exists>h m. x = h @ m \<and> digits 2 h \<and> P m" unfolding digits_2 by blast
qed (auto simp: digits_2)

lemma digits_short: "\<not> digits 2 []" "\<not> digits 2 [a]"
  by (simp_all add: digits_def)

lemma fraction_iff:
  "fraction f \<longleftrightarrow> f = [] \<or> (\<exists>point d. f = point # d \<and> point \<in> set ''.,'' \<and> d \<noteq> [] \<and> digits (length d) d)"
  by (auto simp: fraction_def digits_def split: list.splits)

lemma zoneless_seconds_iff:
  "zoneless_seconds s \<longleftrightarrow> s = [] \<or> (\<exists>ss f. s = '':'' @ ss @ f \<and> digits 2 ss \<and> fraction f)"
  by (cases s rule: zoneless_seconds.cases) (auto simp: digits_2_split digits_short)

lemma zoneless_minutes_iff:
  "zoneless_minutes m \<longleftrightarrow> m = [] \<or> (\<exists>mm s. m = '':'' @ mm @ s \<and> digits 2 mm \<and> zoneless_seconds s)"
  by (cases m rule: zoneless_minutes.cases) (auto simp: digits_2_split digits_short)

lemma zoneless_time_iff: "zoneless_time t \<longleftrightarrow> ZONELESS_TIME t"
  unfolding zoneless_time_def fraction_iff [symmetric] zoneless_seconds_iff [symmetric] zoneless_minutes_iff [symmetric]
  by (cases t rule: ZONELESS_TIME.cases) (auto simp: digits_2_split digits_short)

lemma ISO_DATE_iff:
  "ISO_DATE s \<longleftrightarrow> (\<exists>y m d. s = y @ ''-'' @ m @ ''-'' @ d @ drop 10 s \<and> digits 4 y \<and> digits 2 m \<and> digits 2 d)"
proof
  assume i: "ISO_DATE s"
  have "\<exists>a0 a1 a2 a3 a4 a5 a6 a7 a8 a9. s = [a0, a1, a2, a3, a4, a5, a6, a7, a8, a9] @ drop 10 s"
  proof -
    have "10 \<le> length s" using i by (simp add: ISO_DATE_def)
    thus ?thesis by (auto simp: numeral_eq_Suc Suc_le_length_iff)
  qed
  then obtain a0 a1 a2 a3 a4 a5 a6 a7 a8 a9 where s: "s = [a0, a1, a2, a3, a4, a5, a6, a7, a8, a9] @ drop 10 s"
    by blast
  have "list_all is_digit [a0, a1, a2, a3] \<and> list_all is_digit [a5, a6] \<and> list_all is_digit [a8, a9] \<and>
      a4 = CHR ''-'' \<and> a7 = CHR ''-''"
    using i by (subst (asm) s) (simp add: ISO_DATE_def)
  thus "\<exists>y m d. s = y @ ''-'' @ m @ ''-'' @ d @ drop 10 s \<and> digits 4 y \<and> digits 2 m \<and> digits 2 d"
    using s by (intro exI [of _ "[a0, a1, a2, a3]"] exI [of _ "[a5, a6]"] exI [of _ "[a8, a9]"]) (simp add: digits_def)
next
  assume "\<exists>y m d. s = y @ ''-'' @ m @ ''-'' @ d @ drop 10 s \<and> digits 4 y \<and> digits 2 m \<and> digits 2 d"
  then obtain y m d where s: "s = y @ ''-'' @ m @ ''-'' @ d @ drop 10 s" and g: "digits 4 y" "digits 2 m" "digits 2 d"
    by blast
  obtain a b c e where "y = [a, b, c, e]" using g(1) by (auto simp: digits_def numeral_eq_Suc length_Suc_conv)
  moreover obtain a' b' where "m = [a', b']" using g(2) by (auto simp: digits_2)
  moreover obtain a'' b'' where "d = [a'', b'']" using g(3) by (auto simp: digits_2)
  ultimately show "ISO_DATE s" using g by (subst s) (simp add: ISO_DATE_def digits_def)
qed

lemma zoneless_iff: "zoneless s \<longleftrightarrow> ISO_DATE s \<and> ZONELESS_TIME (drop 10 s)"
proof
  assume "zoneless s"
  then obtain y m d t where s: "s = y @ ''-'' @ m @ ''-'' @ d @ t" "digits 4 y" "digits 2 m" "digits 2 d" "zoneless_time t"
    unfolding zoneless_def by blast
  moreover have "drop 10 s = t" using s by (simp add: digits_def)
  ultimately show "ISO_DATE s \<and> ZONELESS_TIME (drop 10 s)" using ISO_DATE_iff zoneless_time_iff by metis
next
  assume "ISO_DATE s \<and> ZONELESS_TIME (drop 10 s)"
  thus "zoneless s" unfolding ISO_DATE_iff zoneless_def zoneless_time_iff by blast
qed

lemma fraction_Z: "\<not> fraction (s @ ''Z'')"
  by (cases s) (auto simp: fraction_def is_digit_def)

lemma zoneless_seconds_Z: "\<not> zoneless_seconds (s @ ''Z'')"
  using fraction_Z by (cases s rule: zoneless_seconds.cases) (auto simp: is_digit_def)

lemma zoneless_minutes_Z: "\<not> zoneless_minutes (s @ ''Z'')"
  using zoneless_seconds_Z by (cases s rule: zoneless_minutes.cases) (auto simp: is_digit_def)

lemma ZONELESS_TIME_Z: "\<not> ZONELESS_TIME (s @ ''Z'')"
  using zoneless_minutes_Z by (cases s rule: ZONELESS_TIME.cases) (auto simp: is_digit_def)

lemma pinned_fixed:
  assumes "s = t @ ''Z''" "10 \<le> length t"
  shows "pinZonelessDateTime s = s"
  using assms ZONELESS_TIME_Z [of "drop 10 t"] by (simp add: pinZonelessDateTime_def)

lemma ISO_DATE_length: "ISO_DATE s \<Longrightarrow> 10 \<le> length s"
  by (simp add: ISO_DATE_def)

lemma pin_idempotent: "pinZonelessDateTime (pinZonelessDateTime s) = pinZonelessDateTime s"
proof (cases "ISO_DATE s \<and> ZONELESS_TIME (drop 10 s)")
  case True
  thus ?thesis using pinned_fixed [of "s @ ''Z''" s] by (simp add: pinZonelessDateTime_def ISO_DATE_def)
next
  case False
  hence "pinZonelessDateTime s = s" by (auto simp: pinZonelessDateTime_def)
  thus ?thesis by simp
qed

lemma iso_seconds_min: "10 \<le> length (iso_seconds ms)"
proof -
  have "4 \<le> length (iso_year y)" for y by (simp add: iso_year_def)
  thus ?thesis by (simp add: iso_seconds_def Let_def split: prod.split)
qed

lemma toISOString_pinned: "pinZonelessDateTime (toISOString ms) = toISOString ms"
proof -
  let ?t = "map (\<lambda>c. if c = CHR '' '' then CHR ''T'' else c) (iso_seconds ms) @ ''.'' @ fixed 3 (ms mod 1000)"
  have "10 \<le> length ?t" using iso_seconds_min [of ms] by simp
  thus ?thesis using pinned_fixed [of "toISOString ms" ?t] by (simp add: toISOString_def)
qed

text \<open>The start time a call is normalised to stays what it is, and is never a date without a zone.\<close>

lemma send_start_after_fixed:
  assumes "lang_ok L" "send_start_after L v = Inr sa"
  shows "send_start_after L sa = Inr sa \<and> (sa = VUndef \<or> (\<exists>s. sa = VStr s \<and> pinZonelessDateTime s = s))"
proof -
  have text_case: "send_start_after L (VStr s) = Inr (VStr s)" if "pinZonelessDateTime s = s" for s
    using that by (simp add: send_start_after_def to_text_def)
  have undef: "send_start_after L VUndef = Inr VUndef"
    by (simp add: send_start_after_def positive_def at_least_def to_num_def)
  have pos: "pinZonelessDateTime (to_text L v) = to_text L v" if "positive L v" for v
    using assms(1) that by (auto simp: lang_ok_def pinZonelessDateTime_def)
  have "sa = VUndef \<or> (\<exists>s. sa = VStr s \<and> pinZonelessDateTime s = s)"
  proof (cases v)
    case (VDate t)
    thus ?thesis using assms(2) toISOString_pinned
      by (auto simp: send_start_after_def date_text_def split: option.splits)
  next
    case (VStr s)
    thus ?thesis using assms(2) pos [of "VStr s"] pin_idempotent
      by (auto simp: send_start_after_def split: if_splits)
  qed (use assms(2) pos [of v] in \<open>auto simp: send_start_after_def split: if_splits\<close>)
  thus ?thesis using text_case undef by auto
qed

lemma put_same: "has k c \<Longrightarrow> get c k = v \<Longrightarrow> put k v c = c"
  unfolding has_def get_def put_def by (induction c) (auto split: if_splits)

lemma put_default_same: "has k c \<Longrightarrow> truthy (get c k) \<or> get c k = v \<Longrightarrow> put_default k v c = c"
  unfolding put_default_def by (auto intro: put_same)

text \<open>(C22) The options of a send are normalised once and for all: checking the request a call was
  turned into gives the same request, so the options \<^verbatim>\<open>schedule()\<close> checked are the ones the cron
  pass later sends.  A start time given as a calendar date, alone or with a time of two-digit hours,
  minutes and seconds and no zone, is pinned to UTC, any other text is left as it is, and no request
  carries a start time of that form.  Other spellings without a zone that PostgreSQL reads, such as
  \<^verbatim>\<open>2024-01-01 8:30\<close>, are left to the time zone of the session.\<close>

theorem send_args_normal_form:
  assumes "lang_ok L" "checkSendArgs L args = Inr r" "req_name r = VStr n" "req_data r \<noteq> VFun"
  shows "checkSendArgs L [VStr n, req_data r, VObj (req_options r)] = Inr r \<and>
    (case get (req_options r) ''startAfter'' of VUndef \<Rightarrow> True | VStr s \<Rightarrow> \<not> zoneless s | _ \<Rightarrow> False) \<and>
    (\<forall>nm d opts s. send_form args = Inr (nm, d, opts) \<and> get (spread (or_object opts)) ''startAfter'' = VStr s \<longrightarrow>
       get (req_options r) ''startAfter'' = VStr (if zoneless s then s @ ''Z'' else s))"
proof -
  obtain name data opts0 where f: "send_form args = Inr (name, data, opts0)"
    using assms(2) unfolding checkSendArgs_def and_then_Inr_iff by (metis prod_cases3)
  define c0 where "c0 = spread (or_object opts0)"
  obtain sa where n: "truthy name" and p: "\<not> has ''priority'' c0 \<or> isInteger (get c0 ''priority'')"
    and sa: "send_start_after L (get (put_default ''priority'' (num 0) c0) ''startAfter'') = Inr sa"
    and r: "r = \<lparr>req_name = name, req_data = data, req_options =
      put ''startAfter'' sa (put_default ''priority'' (num 0) c0)\<rparr>"
    and v: "validateRetryConfig (req_options r) = Inr ()" "validateExpirationConfig L (req_options r) = Inr ()"
      "validateRetentionConfig L (req_options r) = Inr ()" "validateDeletionConfig L (req_options r) = Inr ()"
      "validateGroupConfig (req_options r) = Inr ()" "validateHeartbeatConfig (req_options r) = Inr ()"
    using assms(2) unfolding checkSendArgs_def f and_then_simps prod.case Let_def c0_def [symmetric] and_then_Inr_iff
    by (auto simp: check_all_Inr)
  let ?c = "req_options r"
  have c: "get ?c ''startAfter'' = sa" "has ''startAfter'' ?c" "has ''priority'' ?c"
    by (simp_all add: r get_put has_put has_put_default)
  have pr: "isInteger (get ?c ''priority'') \<and> (truthy (get ?c ''priority'') \<or> get ?c ''priority'' = num 0)"
    using p by (auto simp: r get_put get_put_default isInteger_def get_not_has)
  have same: "put_default ''priority'' (num 0) ?c = ?c" using c(3) pr by (auto intro: put_default_same)
  have same2: "put ''startAfter'' sa ?c = ?c" using c(1,2) by (rule put_same [rotated])
  note fx = send_start_after_fixed [OF assms(1) sa]
  have "checkSendArgs L [VStr n, data, VObj ?c] = Inr r"
    using assms(3,4) n pr same same2 fx v c
    by (simp add: checkSendArgs_def send_form_def nth_arg_def or_object_def truthy_def spread_def is_object_def
        check_all_true Let_def r)
  moreover have "case sa of VUndef \<Rightarrow> True | VStr s \<Rightarrow> \<not> zoneless s | _ \<Rightarrow> False"
    using fx by (auto simp: pinZonelessDateTime_def zoneless_iff split: if_splits)
  moreover have "sa = VStr (if zoneless s then s @ ''Z'' else s)" if "get c0 ''startAfter'' = VStr s" for s
  proof -
    have "send_start_after L (VStr s) = Inr sa" using sa that by (simp add: get_put_default)
    moreover have "positive L (VStr s) \<Longrightarrow> \<not> zoneless s"
      using assms(1) by (auto simp: lang_ok_def to_text_def zoneless_iff)
    ultimately show ?thesis
      by (auto simp: send_start_after_def to_text_def pinZonelessDateTime_def zoneless_iff split: if_splits)
  qed
  ultimately show ?thesis using c(1) f by (simp add: r c0_def get_put)
qed

lemma plain_lang_ok: "lang_ok plain_lang"
  unfolding lang_ok_def
proof (intro allI impI)
  fix v assume p: "positive plain_lang v"
  have "\<not> is_string v" using p
    by (auto simp: positive_def at_least_def to_num_def plain_lang_def is_string_def split: js.splits)
  hence "to_text plain_lang v = ''[object Object]''"
    by (auto simp: to_text_def plain_lang_def is_string_def split: js.splits)
  moreover have "\<not> ISO_DATE ''[object Object]''" by code_simp
  ultimately show "\<not> ISO_DATE (to_text plain_lang v)" by simp
qed

lemma send_args_normal_form_witness:
  "\<exists>r. checkSendArgs plain_lang [VStr ''q'', VNull, VObj [(''startAfter'', VStr ''2024-02-29 08:30'')]] = Inr r \<and>
    get (req_options r) ''startAfter'' = VStr ''2024-02-29 08:30Z'' \<and>
    checkSendArgs plain_lang [VStr ''q'', VNull, VObj (req_options r)] = Inr r"
proof -
  let ?r = "\<lparr>req_name = VStr ''q'', req_data = VNull,
     req_options = [(''startAfter'', VStr ''2024-02-29 08:30Z''), (''priority'', num 0)]\<rparr>"
  have run: "checkSendArgs plain_lang [VStr ''q'', VNull, VObj [(''startAfter'', VStr ''2024-02-29 08:30'')]] = Inr ?r"
    by code_simp
  have "checkSendArgs plain_lang [VStr ''q'', req_data ?r, VObj (req_options ?r)] = Inr ?r"
    using send_args_normal_form [OF plain_lang_ok run, of "''q''"] by simp
  thus ?thesis using run by (intro exI [of _ ?r]) (simp add: get_def)
qed

text \<open>An edit stays partial: what \<^verbatim>\<open>update()\<close> and \<^verbatim>\<open>upsert()\<close> pass on has exactly the
  keys the caller gave, in their order and with their values but for the start time, so no default of
  \<^verbatim>\<open>send()\<close> overwrites a stored column; it names its jobs by exactly one of id and key, and a
  match strategy only with a key; and an explicit start of zero, or below, is kept.\<close>

theorem update_args_partial:
  assumes "checkUpdateArgs L args upserts = Inr r"
  shows "\<exists>name data opts. update_form (if upserts then ''upsert()'' else ''update()'') args = Inr (name, data, opts) \<and>
    req_name r = name \<and> truthy name \<and> req_data r = data \<and> data \<noteq> VFun \<and>
    map fst (req_options r) = map fst (spread (or_object opts)) \<and>
    (\<forall>k. k \<noteq> ''startAfter'' \<longrightarrow> get (req_options r) k = get (spread (or_object opts)) k) \<and>
    (truthy (get (req_options r) ''id'') \<noteq> truthy (get (req_options r) ''singletonKey'')) \<and>
    (get (req_options r) ''match'' \<noteq> VUndef \<longrightarrow> truthy (get (req_options r) ''singletonKey'')) \<and>
    (\<forall>x. get (spread (or_object opts)) ''startAfter'' = num x \<longrightarrow>
      get (req_options r) ''startAfter'' = VStr (to_text L (num x)))"
proof -
  let ?verb = "if upserts then ''upsert()'' else ''update()''"
  obtain name data opts where f: "update_form ?verb args = Inr (name, data, opts)"
    using assms unfolding checkUpdateArgs_def Let_def and_then_Inr_iff by (metis prod_cases3)
  define c where "c = spread (or_object opts)"
  obtain c1 where a: "truthy name" "data \<noteq> VFun" "truthy (get c ''id'') \<noteq> truthy (get c ''singletonKey'')"
      "\<not> (truthy (get c ''id'') \<and> get c ''match'' \<noteq> VUndef)"
    and s: "(if has ''startAfter'' c
        then and_then (edit_start_after L (get c ''startAfter'')) (\<lambda>sa. Inr (put ''startAfter'' sa c))
        else Inr c) = Inr c1"
    and r: "r = \<lparr>req_name = name, req_data = data, req_options = c1\<rparr>"
    using assms unfolding checkUpdateArgs_def f and_then_simps prod.case Let_def c_def [symmetric] and_then_Inr_iff
      check_all_Inr by auto
  have keys: "map fst (put k v c) = map fst c" if "has k c" for k v
    using that unfolding put_def has_def by (induction c) (auto split: if_splits)
  have "map fst c1 = map fst c \<and> (\<forall>k. k \<noteq> ''startAfter'' \<longrightarrow> get c1 k = get c k) \<and>
      (\<forall>x. get c ''startAfter'' = num x \<longrightarrow> get c1 ''startAfter'' = VStr (to_text L (num x)))"
  proof (cases "has ''startAfter'' c")
    case True
    then obtain sa where "edit_start_after L (get c ''startAfter'') = Inr sa" "c1 = put ''startAfter'' sa c"
      using s by (auto simp: and_then_Inr_iff)
    thus ?thesis using keys [OF True] by (auto simp: get_put edit_start_after_def)
  next
    case False
    thus ?thesis using s get_not_has [OF False] by auto
  qed
  thus ?thesis using f a r unfolding c_def by (intro exI [of _ name] exI [of _ data] exI [of _ opts]) auto
qed

lemma update_args_partial_witness:
  "\<exists>r. checkUpdateArgs plain_lang [VStr ''q'', VUndef, VObj [(''id'', VStr ''a''), (''retryLimit'', num 3)]] False = Inr r \<and>
    map fst (req_options r) = [''id'', ''retryLimit'']"
proof -
  let ?args = "[VStr ''q'', VUndef, VObj [(''id'', VStr ''a''), (''retryLimit'', num 3)]]"
  let ?r = "\<lparr>req_name = VStr ''q'', req_data = VUndef, req_options = [(''id'', VStr ''a''), (''retryLimit'', num 3)]\<rparr>"
  have run: "checkUpdateArgs plain_lang ?args False = Inr ?r" by code_simp
  have "\<exists>name data opts. update_form ''update()'' ?args = Inr (name, data, opts) \<and>
      map fst (req_options ?r) = map fst (spread (or_object opts))"
    using update_args_partial [OF run] by auto
  thus ?thesis using run by auto
qed

text \<open>What an accepted \<^verbatim>\<open>schedule()\<close> stores: one row, of the format its expression is written in,
  with an expression a pass does not refuse as empty.\<close>

lemma schedule_call_row:
  assumes "schedule_call L cl rl queues n expr data stored so local databaseTime stamp ss = Inr ss'"
    and "schedules_ok queues ss"
  shows "schedules_ok queues ss' \<and> assertExpression expr = Inr () \<and>
    (\<exists>s. getSchedule n (coalesce (so_key so) []) ss' = Some s \<and> sc_kind s = detected_kind expr \<and>
      sc_cron s = expr \<and> row_zone s = schedule_zone (so_tz so))"
proof -
  let ?k = "coalesce (so_key so) []"
  have up: "schedule_upsert queues n ?k (detected_kind expr) expr (Some (schedule_zone (so_tz so))) stored
      (so_persisted so) stamp ss = Inr ss'"
    and e: "assertExpression expr = Inr ()"
    using assms(1) unfolding schedule_call_def Let_def and_then_Inr_iff assertRecurrence_def
    by (auto split: sum.splits)
  have "n \<in> set queues" using up by (auto simp: schedule_upsert_def and_then_Inr_iff)
  from schedule_upsert_reads [OF assms(2) this, of ?k "detected_kind expr" expr "Some (schedule_zone (so_tz so))" stored
      "so_persisted so" stamp]
  show ?thesis using up e by (auto simp: row_zone_def)
qed

end
