(* ===== verification/Worker.thy ===== *)
theory Worker
  imports Prelude
begin

text \<open>
  The workers of \<^verbatim>\<open>work()\<close>: the polling loop of \<^verbatim>\<open>src/src/worker.ts\<close> as a state machine, the
  interval it polls at (\<^verbatim>\<open>resolveInterval\<close> of \<^verbatim>\<open>src/src/manager.ts\<close>), and the pool of an
  instance's workers: spawning, waking, stopping and giving up on them.

  The loop is asynchronous: it runs from one \<^verbatim>\<open>await\<close> to the next, and between two of them anything
  else of the process may run.  A worker is its fields and the point its loop waits at; an input is what
  can happen to it, at a moment: the promise the loop waits for settles, the timer of its delay fires, or a
  method is called.  A step is the code that runs in answer, up to the next \<^verbatim>\<open>await\<close>, with the calls it
  makes as output.  An input that cannot happen where the loop is has no step.
\<close>

section \<open>The polling interval\<close>

record work_options =
  batchSize :: nat
  burstWhenReadyExceeds :: "int option"
  burstWhenBatchFull :: bool
  pollingInterval :: int
  notifyPollingInterval :: int

text \<open>A moment: the wall clock and the instance's clock, in milliseconds, and what
  \<^verbatim>\<open>getReadyCount\<close> and \<^verbatim>\<open>isNotifyActive\<close> read of the queue then.\<close>

record moment =
  wall :: int
  clk :: int
  readyCount :: int
  notifyActive :: bool

definition resolveInterval :: "work_options \<Rightarrow> moment \<Rightarrow> nat \<Rightarrow> int" where
  "resolveInterval opt m lastFetchCount = (
     let fullBatch = batchSize opt \<le> lastFetchCount;
       burst = fullBatch \<and>
         ((case burstWhenReadyExceeds opt of None \<Rightarrow> False | Some k \<Rightarrow> readyCount m > k) \<or>
          (burstWhenBatchFull opt \<and> 1 < batchSize opt))
     in if burst then 0
        else if notifyActive m then notifyPollingInterval opt else pollingInterval opt)"

section \<open>The worker\<close>

datatype worker_state = WCreated | WActive | WStopping | WStopped

text \<open>Where the loop waits: for \<^verbatim>\<open>start()\<close>, for the fetch or the handler of the round that started
  at an instant, for the delay (due at an instant of the clock; whether its promise has resolved), or it has
  returned.\<close>

datatype point = Idle | Fetching int | Handling int nat | Sleeping int bool | Ended

record 'j worker =
  w_id :: str
  w_workId :: str
  w_name :: str
  w_state :: worker_state
  w_jobs :: "'j list"
  createdOn :: int
  lastFetchedOn :: "int option"
  lastJobStartedOn :: "int option"
  lastJobEndedOn :: "int option"
  lastJobDuration :: "int option"
  lastError :: "str option"
  lastErrorOn :: "int option"
  w_stopping :: bool
  w_stopped :: bool
  beenNotified :: bool
  stopSignal :: bool
  abortController :: "bool option"
  w_aborted :: bool
  graceExpired :: bool
  at_point :: point

definition new_worker :: "str \<Rightarrow> str \<Rightarrow> str \<Rightarrow> int \<Rightarrow> 'j worker" where
  "new_worker i wid n now = \<lparr>w_id = i, w_workId = wid, w_name = n, w_state = WCreated, w_jobs = [],
     createdOn = now, lastFetchedOn = None, lastJobStartedOn = None, lastJobEndedOn = None,
     lastJobDuration = None, lastError = None, lastErrorOn = None, w_stopping = False,
     w_stopped = False, beenNotified = False, stopSignal = False, abortController = None,
     w_aborted = False, graceExpired = False, at_point = Idle\<rparr>"

datatype 'j input =
    Start
  | Fetched "'j list"
  | FetchFails str
  | OnFetchReturns
  | OnFetchFails str
  | TimerFires
  | Resumes
  | Notify
  | Stop

datatype 'j effect =
    CallFetch int
  | CallOnFetch "'j list"
  | CallOnError str

text \<open>The head of the loop: fetch, or leave it.\<close>

definition loop_head :: "moment \<Rightarrow> 'j worker \<Rightarrow> 'j worker \<times> 'j effect list" where
  "loop_head m w = (if w_stopping w
     then (w\<lparr>w_stopping := False, w_stopped := True, w_state := WStopped, at_point := Ended\<rparr>, [])
     else (w\<lparr>beenNotified := False, at_point := Fetching (wall m)\<rparr>, [CallFetch (wall m)]))"

text \<open>The end of a round that started at an instant and fetched a number of jobs.\<close>

definition round_end ::
  "work_options \<Rightarrow> moment \<Rightarrow> int \<Rightarrow> nat \<Rightarrow> 'j worker \<Rightarrow> 'j worker \<times> 'j effect list" where
  "round_end opt m started fetchedCount w = (
     let duration = wall m - started;
       w1 = w\<lparr>lastJobDuration := Some duration\<rparr>;
       interval = resolveInterval opt m fetchedCount
     in if \<not> w_stopping w \<and> \<not> beenNotified w \<and> interval - duration > 100
        then (w1\<lparr>at_point := Sleeping (clk m + (interval - duration)) False\<rparr>, [])
        else loop_head m w1)"

definition error_text :: "str \<Rightarrow> 'j worker \<Rightarrow> str" where
  "error_text e w = e @ '' (Queue: '' @ w_name w @ '', Worker: '' @ w_id w @ '')''"

definition round_fails ::
  "work_options \<Rightarrow> moment \<Rightarrow> int \<Rightarrow> nat \<Rightarrow> str \<Rightarrow> 'j worker \<Rightarrow> 'j worker \<times> 'j effect list" where
  "round_fails opt m started n e w = (
     let w1 = w\<lparr>lastErrorOn := Some (clk m), lastError := Some (error_text e w)\<rparr>;
       (w2, out) = round_end opt m started n w1
     in (w2, CallOnError (error_text e w) # out))"

text \<open>\<^verbatim>\<open>notify()\<close> and \<^verbatim>\<open>stop()\<close>; both resolve the delay the loop waits for, if it does.\<close>

definition abort_delay :: "point \<Rightarrow> point" where
  "abort_delay p = (case p of Sleeping due _ \<Rightarrow> Sleeping due True | _ \<Rightarrow> p)"

definition notify :: "'j worker \<Rightarrow> 'j worker" where
  "notify w = w\<lparr>beenNotified := True, at_point := abort_delay (at_point w)\<rparr>"

definition stop_worker :: "'j worker \<Rightarrow> 'j worker" where
  "stop_worker w = (if w_stopped w then w
     else w\<lparr>w_stopping := True, w_state := WStopping, stopSignal := True,
       at_point := abort_delay (at_point w)\<rparr>)"

text \<open>\<^verbatim>\<open>abort()\<close>.\<close>

definition abort :: "'j worker \<Rightarrow> 'j worker" where
  "abort w = (case abortController w of None \<Rightarrow> w
     | Some _ \<Rightarrow> w\<lparr>w_aborted := True, abortController := Some True\<rparr>)"

fun wstep :: "work_options \<Rightarrow> moment \<times> 'j input \<Rightarrow> 'j worker \<Rightarrow> ('j worker \<times> 'j effect list) option" where
  "wstep opt (m, Start) w = (if at_point w = Idle
     then Some (loop_head m (w\<lparr>w_state := WActive\<rparr>)) else None)"
| "wstep opt (m, Fetched jobs) w = (case at_point w of
     Fetching s \<Rightarrow> Some (w\<lparr>lastFetchedOn := Some (clk m), w_jobs := jobs, lastJobStartedOn := Some (clk m),
       at_point := Handling s (length jobs)\<rparr>, [CallOnFetch jobs])
   | _ \<Rightarrow> None)"
| "wstep opt (m, FetchFails e) w = (case at_point w of
     Fetching s \<Rightarrow> Some (round_fails opt m s 0 e w) | _ \<Rightarrow> None)"
| "wstep opt (m, OnFetchReturns) w = (case at_point w of
     Handling s n \<Rightarrow> Some (round_end opt m s n (w\<lparr>lastJobEndedOn := Some (clk m), w_jobs := []\<rparr>))
   | _ \<Rightarrow> None)"
| "wstep opt (m, OnFetchFails e) w = (case at_point w of
     Handling s n \<Rightarrow> Some (round_fails opt m s n e w) | _ \<Rightarrow> None)"
| "wstep opt (m, TimerFires) w = (case at_point w of
     Sleeping due False \<Rightarrow> if due \<le> clk m then Some (w\<lparr>at_point := Sleeping due True\<rparr>, []) else None
   | _ \<Rightarrow> None)"
| "wstep opt (m, Resumes) w = (case at_point w of
     Sleeping due True \<Rightarrow> Some (loop_head m w) | _ \<Rightarrow> None)"
| "wstep opt (m, Notify) w = Some (notify w, [])"
| "wstep opt (m, Stop) w = Some (stop_worker w, [])"

fun wrun ::
  "work_options \<Rightarrow> (moment \<times> 'j input) list \<Rightarrow> 'j worker \<Rightarrow> ('j worker \<times> 'j effect list) option" where
  "wrun opt [] w = Some (w, [])"
| "wrun opt (e # es) w = Option.bind (wstep opt e w) (\<lambda>(w1, out).
     map_option (\<lambda>(w2, outs). (w2, out @ outs)) (wrun opt es w1))"

text \<open>The states a worker can be in.\<close>

inductive worker_reachable :: "work_options \<Rightarrow> 'j worker \<Rightarrow> bool" for opt where
  fresh: "worker_reachable opt (new_worker i wid n now)"
| step: "worker_reachable opt w \<Longrightarrow> wstep opt e w = Some (w', out) \<Longrightarrow> worker_reachable opt w'"

section \<open>Invariants of the loop\<close>

text \<open>A loop that waits out its delay has neither been notified nor told to stop, and the flags, the
  state and the point agree.\<close>

definition worker_ok :: "'j worker \<Rightarrow> bool" where
  "worker_ok w = (
     (\<forall>due. at_point w = Sleeping due False \<longrightarrow> \<not> w_stopping w \<and> \<not> beenNotified w) \<and>
     (w_stopped w \<longleftrightarrow> at_point w = Ended) \<and>
     (w_stopped w \<longrightarrow> w_state w = WStopped \<and> \<not> w_stopping w) \<and>
     (w_stopping w \<longleftrightarrow> w_state w = WStopping) \<and>
     (w_stopping w \<longrightarrow> stopSignal w))"

lemmas loop_defs = loop_head_def round_end_def round_fails_def Let_def

lemma worker_ok_new: "worker_ok (new_worker i wid n now)"
  by (simp add: worker_ok_def new_worker_def)



lemma resume_head_ok:
  assumes "worker_ok w" "\<not> w_stopped w" "loop_head m w = (w', out)"
  shows "worker_ok w'"
  using assms by (auto simp: loop_head_def worker_ok_def split: if_splits)

lemma round_end_ok:
  assumes "worker_ok w" "\<not> w_stopped w" "round_end opt m s n w = (w', out)"
  shows "worker_ok w'"
proof -
  let ?w = "w\<lparr>lastJobDuration := Some (wall m - s)\<rparr>"
  have ok: "worker_ok ?w" "\<not> w_stopped ?w" using assms(1,2) by (auto simp: worker_ok_def)
  show ?thesis
  proof (cases "\<not> w_stopping w \<and> \<not> beenNotified w \<and> resolveInterval opt m n - (wall m - s) > 100")
    case True
    thus ?thesis using assms by (auto simp: round_end_def Let_def worker_ok_def)
  next
    case False
    hence "loop_head m ?w = (w', out)" using assms(3) by (auto simp: round_end_def Let_def)
    thus ?thesis by (rule resume_head_ok [OF ok])
  qed
qed

lemma round_fails_ok:
  assumes "worker_ok w" "\<not> w_stopped w" "round_fails opt m s n e w = (w', out)"
  shows "worker_ok w'"
proof -
  let ?w = "w\<lparr>lastErrorOn := Some (clk m), lastError := Some (error_text e w)\<rparr>"
  have "worker_ok ?w" "\<not> w_stopped ?w" using assms(1,2) by (auto simp: worker_ok_def)
  moreover obtain out' where "round_end opt m s n ?w = (w', out')"
    using assms(3) by (auto simp: round_fails_def Let_def split: prod.splits)
  ultimately show ?thesis by (rule round_end_ok)
qed

lemma worker_ok_step:
  assumes ok: "worker_ok w" and step: "wstep opt e w = Some (w', out)"
  shows "worker_ok w'"
proof -
  obtain m i where e: "e = (m, i)" by (cases e)
  have ended: "at_point w \<noteq> Ended \<Longrightarrow> \<not> w_stopped w" using ok by (simp add: worker_ok_def)
  show ?thesis
  proof (cases i)
    case Start
    have "at_point w = Idle \<and> loop_head m (w\<lparr>w_state := WActive\<rparr>) = (w', out)"
      using step Start e by (auto split: if_splits)
    thus ?thesis using ok by (auto simp: loop_head_def worker_ok_def split: if_splits)
  next
    case (FetchFails x)
    then obtain s where "at_point w = Fetching s" "round_fails opt m s 0 x w = (w', out)"
      using step e by (auto split: point.splits)
    thus ?thesis using ok ended round_fails_ok by fastforce
  next
    case OnFetchReturns
    then obtain s n where "at_point w = Handling s n"
      "round_end opt m s n (w\<lparr>lastJobEndedOn := Some (clk m), w_jobs := []\<rparr>) = (w', out)"
      using step e by (auto split: point.splits)
    moreover from this have "worker_ok (w\<lparr>lastJobEndedOn := Some (clk m), w_jobs := []\<rparr>)"
      "\<not> w_stopped (w\<lparr>lastJobEndedOn := Some (clk m), w_jobs := []\<rparr>)"
      using ok ended by (auto simp: worker_ok_def)
    ultimately show ?thesis using round_end_ok by blast
  next
    case (OnFetchFails x)
    then obtain s n where "at_point w = Handling s n" "round_fails opt m s n x w = (w', out)"
      using step e by (auto split: point.splits)
    thus ?thesis using ok ended round_fails_ok by fastforce
  next
    case Resumes
    then obtain d where "at_point w = Sleeping d True" "loop_head m w = (w', out)"
      using step e by (auto split: point.splits bool.splits)
    thus ?thesis using ok ended resume_head_ok by fastforce
  qed (use step e ok in \<open>auto simp: worker_ok_def notify_def stop_worker_def abort_delay_def
        split: point.splits bool.splits if_splits\<close>)
qed

lemma reachable_ok: "worker_reachable opt w \<Longrightarrow> worker_ok w"
  by (induction rule: worker_reachable.induct) (auto intro: worker_ok_new worker_ok_step)

lemma wrun_step_E:
  assumes "wrun opt (e # es) w = Some (w', out)"
  obtains w1 o1 o2 where "wstep opt e w = Some (w1, o1)" "wrun opt es w1 = Some (w', o2)"
    "out = o1 @ o2"
  using assms by (auto simp: bind_eq_Some_conv)

lemma reachable_run:
  "wrun opt es w = Some (w', out) \<Longrightarrow> worker_reachable opt w \<Longrightarrow> worker_reachable opt w'"
proof (induction es arbitrary: w out)
  case (Cons e es)
  from Cons.prems(1) obtain w1 o1 o2 where
    "wstep opt e w = Some (w1, o1)" "wrun opt es w1 = Some (w', o2)" by (rule wrun_step_E)
  thus ?case using Cons.IH Cons.prems(2) worker_reachable.step by blast
qed simp

section \<open>Stopping\<close>

text \<open>The answers the loop still waits for before it has returned, and the inputs that are such
  answers: the timer, \<^verbatim>\<open>notify()\<close> and \<^verbatim>\<open>stop()\<close> are not.\<close>

definition answers_left :: "point \<Rightarrow> nat" where
  "answers_left p = (case p of Idle \<Rightarrow> 1 | Fetching _ \<Rightarrow> 2 | Handling _ _ \<Rightarrow> 1 | Sleeping _ _ \<Rightarrow> 1
     | Ended \<Rightarrow> 0)"

definition loop_input :: "'j input \<Rightarrow> bool" where
  "loop_input i = (case i of TimerFires \<Rightarrow> False | Notify \<Rightarrow> False | Stop \<Rightarrow> False | _ \<Rightarrow> True)"

definition fetch_times :: "'j effect list \<Rightarrow> int list" where
  "fetch_times out = concat (map (\<lambda>x. case x of CallFetch t \<Rightarrow> [t] | _ \<Rightarrow> []) out)"

lemma fetch_times_simps [simp]:
  "fetch_times [] = []"
  "fetch_times (CallFetch t # out) = t # fetch_times out"
  "fetch_times (CallOnFetch js # out) = fetch_times out"
  "fetch_times (CallOnError e # out) = fetch_times out"
  "fetch_times (o1 @ o2) = fetch_times o1 @ fetch_times o2"
  by (simp_all add: fetch_times_def)

definition leaving :: "'j worker \<Rightarrow> bool" where
  "leaving w = (w_stopping w \<or> w_stopped w)"

lemma leaving_step:
  assumes ok: "worker_ok w" and lv: "leaving w" and step: "wstep opt (m, i) w = Some (w', out)"
  shows "leaving w' \<and> fetch_times out = [] \<and>
    answers_left (at_point w') + (if loop_input i then 1 else 0) \<le> answers_left (at_point w)"
proof (cases i)
  case Start
  thus ?thesis using step lv ok
    by (auto simp: leaving_def loop_defs loop_input_def answers_left_def worker_ok_def split: if_splits)
next
  case (FetchFails x)
  thus ?thesis using step lv ok
    by (auto simp: leaving_def loop_defs loop_input_def answers_left_def worker_ok_def
        split: if_splits point.splits)
next
  case OnFetchReturns
  thus ?thesis using step lv ok
    by (auto simp: leaving_def loop_defs loop_input_def answers_left_def worker_ok_def
        split: if_splits point.splits)
next
  case (OnFetchFails x)
  thus ?thesis using step lv ok
    by (auto simp: leaving_def loop_defs loop_input_def answers_left_def worker_ok_def
        split: if_splits point.splits)
next
  case Resumes
  thus ?thesis using step lv ok
    by (auto simp: leaving_def loop_defs loop_input_def answers_left_def worker_ok_def
        split: if_splits point.splits bool.splits)
qed (use step lv ok in \<open>auto simp: leaving_def loop_input_def answers_left_def worker_ok_def notify_def
      stop_worker_def abort_delay_def split: point.splits bool.splits if_splits\<close>)

lemma leaving_run:
  assumes "wrun opt es w = Some (w', out)" "worker_ok w" "leaving w"
  shows "leaving w' \<and> worker_ok w' \<and> fetch_times out = [] \<and>
    answers_left (at_point w') + length (filter (\<lambda>(m, i). loop_input i) es) \<le> answers_left (at_point w)"
  using assms
proof (induction es arbitrary: w out)
  case (Cons e es)
  obtain m i where e: "e = (m, i)" by (cases e)
  from Cons.prems(1) obtain w1 o1 o2 where s: "wstep opt e w = Some (w1, o1)"
    and r: "wrun opt es w1 = Some (w', o2)" and out: "out = o1 @ o2" by (rule wrun_step_E)
  have one: "leaving w1 \<and> fetch_times o1 = [] \<and>
      answers_left (at_point w1) + (if loop_input i then 1 else 0) \<le> answers_left (at_point w)"
    using leaving_step Cons.prems(2,3) s e by blast
  moreover have "worker_ok w1" using worker_ok_step Cons.prems(2) s by blast
  ultimately show ?case using Cons.IH [OF r] out e by auto
qed simp

lemma leaving_after_stop: "leaving (stop_worker w)"
  by (simp add: leaving_def stop_worker_def)

text \<open>(C27) After \<^verbatim>\<open>stop()\<close> a worker never fetches again, it waits for at most the fetch and the handler
  in flight and never for its delay, and it has returned once those answers are in: whatever happens
  meanwhile, timers, notifications and further stops included.\<close>

theorem worker_stop_ends:
  assumes "worker_reachable opt w" "wrun opt es (stop_worker w) = Some (w', out)"
  shows "fetch_times out = [] \<and>
    length (filter (\<lambda>(m, i). loop_input i) es) + answers_left (at_point w') \<le> 2 \<and>
    (\<forall>due. at_point w' \<noteq> Sleeping due False) \<and>
    (w_stopped w' \<longleftrightarrow> at_point w' = Ended) \<and> (w_stopped w' \<longleftrightarrow> w_state w' = WStopped)"
proof -
  have ok: "worker_ok (stop_worker w)"
    using worker_ok_step [of w opt "(undefined, Stop)"] reachable_ok [OF assms(1)] by simp
  note run = leaving_run [OF assms(2) ok leaving_after_stop]
  have "answers_left (at_point (stop_worker w)) \<le> 2"
    by (auto simp: answers_left_def split: point.splits)
  moreover have "w_state w' = WStopped \<longleftrightarrow> w_stopped w'"
    using run by (auto simp: worker_ok_def leaving_def)
  ultimately show ?thesis using run by (auto simp: worker_ok_def leaving_def)
qed

definition at_ms :: "int \<Rightarrow> moment" where
  "at_ms t = \<lparr>wall = t, clk = t, readyCount = 0, notifyActive = False\<rparr>"

definition sample_options :: work_options where
  "sample_options = \<lparr>batchSize = 1, burstWhenReadyExceeds = None, burstWhenBatchFull = False,
     pollingInterval = 2000, notifyPollingInterval = 30000\<rparr>"

definition sample_rounds :: "(moment \<times> nat input) list" where
  "sample_rounds = [(at_ms 0, Start), (at_ms 10, Fetched []), (at_ms 20, OnFetchReturns)]"

lemma sample_rounds_run:
  assumes "wrun sample_options sample_rounds (new_worker i wid n 0) = Some (w', out)"
  shows "worker_reachable sample_options w'"
  using assms reachable_run worker_reachable.fresh by blast

lemma worker_stop_ends_witness:
  "case wrun sample_options sample_rounds (new_worker ''w'' ''w'' ''q'' 0) of None \<Rightarrow> False
   | Some (w, _) \<Rightarrow> at_point w = Sleeping 2000 False \<and>
     (case wrun sample_options [(at_ms 30, Notify), (at_ms 31, Resumes)] (stop_worker w) of
        None \<Rightarrow> False
      | Some (w', out) \<Rightarrow> fetch_times out = [] \<and> at_point w' = Ended \<and> w_stopped w')"
proof -
  obtain w out where w: "wrun sample_options sample_rounds (new_worker ''w'' ''w'' ''q'' 0) = Some (w, out)"
    "at_point w = Sleeping 2000 False"
    by (simp add: sample_rounds_def new_worker_def loop_defs sample_options_def resolveInterval_def at_ms_def)
  obtain w' out' where w': "wrun sample_options [(at_ms 30, Notify), (at_ms 31, Resumes)] (stop_worker w) = Some (w', out')"
    "at_point w' = Ended"
    using w(2) reachable_ok [OF sample_rounds_run [OF w(1)]]
    by (auto simp: stop_worker_def notify_def abort_delay_def loop_defs worker_ok_def)
  show ?thesis
    using w w' worker_stop_ends [OF sample_rounds_run [OF w(1)] w'(1)] by simp
qed

section \<open>Waking\<close>

lemma waking_step:
  assumes ok: "worker_ok w" and wk: "beenNotified w" "\<not> leaving w" and i: "i \<noteq> Stop"
    and step: "wstep opt (m, i) w = Some (w', out)"
  shows "fetch_times out \<noteq> [] \<or> (beenNotified w' \<and> \<not> leaving w' \<and>
    answers_left (at_point w') + (if loop_input i then 1 else 0) \<le> answers_left (at_point w) \<and>
    answers_left (at_point w') \<noteq> 0)"
proof (cases i)
  case Start
  thus ?thesis using step wk
    by (auto simp: leaving_def loop_defs loop_input_def split: if_splits)
next
  case (FetchFails x)
  thus ?thesis using step wk
    by (auto simp: leaving_def loop_defs loop_input_def split: if_splits point.splits)
next
  case OnFetchReturns
  thus ?thesis using step wk
    by (auto simp: leaving_def loop_defs loop_input_def split: if_splits point.splits)
next
  case (OnFetchFails x)
  thus ?thesis using step wk
    by (auto simp: leaving_def loop_defs loop_input_def split: if_splits point.splits)
next
  case Resumes
  thus ?thesis using step wk
    by (auto simp: leaving_def loop_defs loop_input_def split: if_splits point.splits bool.splits)
next
  case Stop
  thus ?thesis using i by simp
qed (use step wk ok in \<open>auto simp: leaving_def loop_input_def answers_left_def worker_ok_def notify_def
      abort_delay_def split: point.splits bool.splits if_splits\<close>)

lemma waking_run:
  assumes "wrun opt es w = Some (w', out)" "worker_ok w" "beenNotified w" "\<not> leaving w"
    "Stop \<notin> snd ` set es" "fetch_times out = []" "answers_left (at_point w) \<noteq> 0"
  shows "worker_ok w' \<and> beenNotified w' \<and> \<not> leaving w' \<and> answers_left (at_point w') \<noteq> 0 \<and>
    answers_left (at_point w') + length (filter (\<lambda>(m, i). loop_input i) es) \<le> answers_left (at_point w)"
  using assms
proof (induction es arbitrary: w out)
  case (Cons e es)
  obtain m i where e: "e = (m, i)" by (cases e)
  from Cons.prems(1) obtain w1 o1 o2 where s: "wstep opt e w = Some (w1, o1)"
    and r: "wrun opt es w1 = Some (w', o2)" and out: "out = o1 @ o2" by (rule wrun_step_E)
  have i: "i \<noteq> Stop" using Cons.prems(5) e by auto
  have one: "beenNotified w1 \<and> \<not> leaving w1 \<and> answers_left (at_point w1) \<noteq> 0 \<and>
      answers_left (at_point w1) + (if loop_input i then 1 else 0) \<le> answers_left (at_point w)"
    using waking_step [OF Cons.prems(2-4) i] s e out Cons.prems(6) by auto
  moreover have "worker_ok w1" using worker_ok_step Cons.prems(2) s by blast
  ultimately show ?case using Cons.IH [OF r] out e Cons.prems(5,6) by auto
qed simp

text \<open>(C28) No notification is lost: from \<^verbatim>\<open>notify()\<close> on, wherever the loop is, until it fetches
  again it takes in at most one answer (of the fetch in flight) and never waits for its delay, so a
  job that became visible before the notification is looked for as soon as the round in flight ends.\<close>

theorem worker_wakes:
  assumes "worker_reachable opt w" "\<not> w_stopping w" "\<not> w_stopped w"
    and "wrun opt es (notify w) = Some (w', out)" "Stop \<notin> snd ` set es" "fetch_times out = []"
  shows "length (filter (\<lambda>(m, i). loop_input i) es) \<le> 1 \<and>
    (\<forall>due. at_point w' \<noteq> Sleeping due False) \<and> at_point w' \<noteq> Ended \<and> beenNotified w'"
proof -
  have ok: "worker_ok (notify w)"
    using worker_ok_step [of w opt "(undefined, Notify)"] reachable_ok [OF assms(1)] by simp
  have lv: "\<not> leaving (notify w)" "beenNotified (notify w)"
    using assms(2,3) by (simp_all add: leaving_def notify_def)
  hence "answers_left (at_point (notify w)) \<noteq> 0" using ok
    by (auto simp: answers_left_def worker_ok_def leaving_def split: point.splits)
  from waking_run [OF assms(4) ok lv(2,1) assms(5,6) this]
  have r: "worker_ok w'" "beenNotified w'" "answers_left (at_point w') \<noteq> 0"
    "answers_left (at_point w') + length (filter (\<lambda>(m, i). loop_input i) es) \<le> 2"
    by (auto simp: answers_left_def split: point.splits)
  hence "length (filter (\<lambda>(m, i). loop_input i) es) \<le> 1" by linarith
  thus ?thesis using r by (auto simp: worker_ok_def answers_left_def)
qed

lemma worker_wakes_witness:
  "case wrun sample_options sample_rounds (new_worker ''w'' ''w'' ''q'' 0) of None \<Rightarrow> False
   | Some (w, _) \<Rightarrow> at_point w = Sleeping 2000 False \<and>
     (case wrun sample_options [(at_ms 30, Notify)] (notify w) of None \<Rightarrow> False
      | Some (w', out) \<Rightarrow> (\<forall>due. at_point w' \<noteq> Sleeping due False) \<and>
        (case wstep sample_options (at_ms 31, Resumes) w' of None \<Rightarrow> False
         | Some (_, out) \<Rightarrow> fetch_times out = [31]))"
proof -
  obtain w out where w: "wrun sample_options sample_rounds (new_worker ''w'' ''w'' ''q'' 0) = Some (w, out)"
    "at_point w = Sleeping 2000 False"
    by (simp add: sample_rounds_def new_worker_def loop_defs sample_options_def resolveInterval_def at_ms_def)
  have live: "\<not> w_stopping w" "\<not> w_stopped w"
    using w(2) reachable_ok [OF sample_rounds_run [OF w(1)]] by (auto simp: worker_ok_def)
  have w': "wrun sample_options [(at_ms 30, Notify)] (notify w) = Some (notify (notify w), [])" by simp
  have "\<forall>due. at_point (notify (notify w)) \<noteq> Sleeping due False"
    using worker_wakes [OF sample_rounds_run [OF w(1)] live w'] by simp
  thus ?thesis using w live w' by (simp add: notify_def abort_delay_def loop_head_def at_ms_def)
qed

section \<open>Polling\<close>

definition no_burst :: "work_options \<Rightarrow> bool" where
  "no_burst opt = (burstWhenReadyExceeds opt = None \<and> \<not> (burstWhenBatchFull opt \<and> 1 < batchSize opt))"

definition least_interval :: "work_options \<Rightarrow> int" where
  "least_interval opt = min (pollingInterval opt) (notifyPollingInterval opt)"

lemma resolveInterval_least: "no_burst opt \<Longrightarrow> least_interval opt \<le> resolveInterval opt m n"
  by (auto simp: no_burst_def least_interval_def resolveInterval_def Let_def)

definition far_apart :: "work_options \<Rightarrow> int \<Rightarrow> int \<Rightarrow> bool" where
  "far_apart opt s t = (least_interval opt - 100 \<le> t - s)"

text \<open>What the loop knows of its last fetch at an instant, while nothing has notified it.\<close>

definition paced :: "work_options \<Rightarrow> int option \<Rightarrow> int \<Rightarrow> 'j worker \<Rightarrow> bool" where
  "paced opt prev now w = (\<not> beenNotified w \<and> (case at_point w of
     Idle \<Rightarrow> prev = None
   | Fetching s \<Rightarrow> prev = Some s \<and> s \<le> now
   | Handling s _ \<Rightarrow> prev = Some s \<and> s \<le> now
   | Sleeping due done \<Rightarrow> (\<exists>s. prev = Some s \<and> s + least_interval opt \<le> due) \<and>
       (done \<longrightarrow> w_stopping w \<or> due \<le> now)
   | Ended \<Rightarrow> True))"

definition after_last :: "int option \<Rightarrow> int list \<Rightarrow> int list" where
  "after_last prev ts = (case prev of None \<Rightarrow> ts | Some s \<Rightarrow> s # ts)"

definition new_last :: "int option \<Rightarrow> int list \<Rightarrow> int option" where
  "new_last prev ts = (if ts = [] then prev else Some (last ts))"

definition one_clock :: "moment \<Rightarrow> bool" where
  "one_clock m = (clk m = wall m)"

lemma paced_head:
  assumes "\<not> beenNotified w"
    and "\<not> w_stopping w \<Longrightarrow> \<forall>s. prev = Some s \<longrightarrow> far_apart opt s (wall m)"
    and "loop_head m w = (w', out)"
  shows "paced opt (new_last prev (fetch_times out)) (wall m) w' \<and>
    successively (far_apart opt) (after_last prev (fetch_times out)) \<and> length (fetch_times out) \<le> 1"
  using assms by (cases prev)
    (auto simp: loop_head_def paced_def after_last_def new_last_def split: if_splits)

lemma paced_round_end:
  assumes nb: "no_burst opt" and c: "one_clock m" and n: "\<not> beenNotified w" and s: "s \<le> wall m"
    and step: "round_end opt m s n w = (w', out)"
  shows "paced opt (new_last (Some s) (fetch_times out)) (wall m) w' \<and>
    successively (far_apart opt) (after_last (Some s) (fetch_times out)) \<and> length (fetch_times out) \<le> 1"
proof (cases "\<not> w_stopping w \<and> resolveInterval opt m n - (wall m - s) > 100")
  case True
  hence "w' = w\<lparr>lastJobDuration := Some (wall m - s),
      at_point := Sleeping (clk m + (resolveInterval opt m n - (wall m - s))) False\<rparr>" "out = []"
    using step n by (auto simp: round_end_def Let_def)
  thus ?thesis using n c resolveInterval_least [OF nb, of m n]
    by (auto simp: paced_def new_last_def after_last_def one_clock_def)
next
  case False
  hence "loop_head m (w\<lparr>lastJobDuration := Some (wall m - s)\<rparr>) = (w', out)"
    using step n by (auto simp: round_end_def Let_def)
  moreover have "\<not> w_stopping w \<Longrightarrow> far_apart opt s (wall m)"
    using False resolveInterval_least [OF nb, of m n] by (auto simp: far_apart_def)
  ultimately show ?thesis using n by (intro paced_head) auto
qed

lemma paced_round_fails:
  assumes "no_burst opt" "one_clock m" "\<not> beenNotified w" "s \<le> wall m"
    and "round_fails opt m s n e w = (w', out)"
  shows "paced opt (new_last (Some s) (fetch_times out)) (wall m) w' \<and>
    successively (far_apart opt) (after_last (Some s) (fetch_times out)) \<and> length (fetch_times out) \<le> 1"
proof -
  let ?w = "w\<lparr>lastErrorOn := Some (clk m), lastError := Some (error_text e w)\<rparr>"
  obtain out' where o: "round_end opt m s n ?w = (w', out')" "out = CallOnError (error_text e w) # out'"
    using assms(5) by (auto simp: round_fails_def Let_def split: prod.splits)
  have "\<not> beenNotified ?w" using assms(3) by simp
  from paced_round_end [OF assms(1,2) this assms(4) o(1)] show ?thesis using o(2) by simp
qed

lemma paced_step:
  assumes nb: "no_burst opt" and c: "one_clock m" and p: "paced opt prev t w" and t: "t \<le> wall m"
    and i: "i \<noteq> Notify" and step: "wstep opt (m, i) w = Some (w', out)"
  shows "paced opt (new_last prev (fetch_times out)) (wall m) w' \<and>
    successively (far_apart opt) (after_last prev (fetch_times out)) \<and> length (fetch_times out) \<le> 1"
proof -
  have n: "\<not> beenNotified w" using p by (simp add: paced_def)
  show ?thesis
  proof (cases i)
    case Start
    hence "at_point w = Idle" "loop_head m (w\<lparr>w_state := WActive\<rparr>) = (w', out)"
      using step by (auto split: if_splits)
    thus ?thesis using p n by (intro paced_head) (auto simp: paced_def)
  next
    case (FetchFails x)
    then obtain s where a: "at_point w = Fetching s" "round_fails opt m s 0 x w = (w', out)"
      using step by (auto split: point.splits)
    hence "prev = Some s" "s \<le> wall m" using p t by (auto simp: paced_def)
    thus ?thesis using paced_round_fails [OF nb c n _ a(2)] by simp
  next
    case OnFetchReturns
    then obtain s k where a: "at_point w = Handling s k"
      "round_end opt m s k (w\<lparr>lastJobEndedOn := Some (clk m), w_jobs := []\<rparr>) = (w', out)"
      using step by (auto split: point.splits)
    hence "prev = Some s" "s \<le> wall m" using p t by (auto simp: paced_def)
    thus ?thesis using paced_round_end [OF nb c _ _ a(2)] n by simp
  next
    case (OnFetchFails x)
    then obtain s k where a: "at_point w = Handling s k" "round_fails opt m s k x w = (w', out)"
      using step by (auto split: point.splits)
    hence "prev = Some s" "s \<le> wall m" using p t by (auto simp: paced_def)
    thus ?thesis using paced_round_fails [OF nb c n _ a(2)] by simp
  next
    case Resumes
    then obtain d where a: "at_point w = Sleeping d True" "loop_head m w = (w', out)"
      using step by (auto split: point.splits bool.splits)
    then obtain s where "prev = Some s" "s + least_interval opt \<le> d" "w_stopping w \<or> d \<le> t"
      using p by (auto simp: paced_def)
    hence "\<not> w_stopping w \<Longrightarrow> \<forall>s. prev = Some s \<longrightarrow> far_apart opt s (wall m)"
      using t by (auto simp: far_apart_def)
    thus ?thesis using n a(2) by (intro paced_head)
  next
    case Notify
    thus ?thesis using i by simp
  qed (use step p t c in \<open>auto simp: paced_def new_last_def after_last_def stop_worker_def abort_delay_def
        one_clock_def split: point.splits bool.splits if_splits option.splits\<close>)
qed

lemma after_last_step:
  "after_last (new_last prev ts1) ts2 = (if ts1 = [] then after_last prev ts2 else last ts1 # ts2)"
  by (simp add: after_last_def new_last_def)

lemma paced_run:
  assumes "wrun opt es w = Some (w', out)" "no_burst opt" "paced opt prev t w"
    "list_all (\<lambda>(m, i). one_clock m \<and> i \<noteq> Notify) es" "sorted (t # map (wall \<circ> fst) es)"
  shows "successively (far_apart opt) (after_last prev (fetch_times out))"
  using assms
proof (induction es arbitrary: w out prev t)
  case (Cons e es)
  obtain m i where e: "e = (m, i)" by (cases e)
  from Cons.prems(1) obtain w1 o1 o2 where s: "wstep opt e w = Some (w1, o1)"
    and r: "wrun opt es w1 = Some (w', o2)" and out: "out = o1 @ o2" by (rule wrun_step_E)
  have one: "paced opt (new_last prev (fetch_times o1)) (wall m) w1 \<and>
      successively (far_apart opt) (after_last prev (fetch_times o1)) \<and> length (fetch_times o1) \<le> 1"
    using paced_step [OF Cons.prems(2) _ Cons.prems(3)] s e Cons.prems(4,5) by auto
  hence "successively (far_apart opt) (after_last (new_last prev (fetch_times o1)) (fetch_times o2))"
    using Cons.IH [OF r Cons.prems(2)] Cons.prems(4,5) e by auto
  hence "successively (far_apart opt) (if fetch_times o1 = [] then after_last prev (fetch_times o2)
      else last (fetch_times o1) # fetch_times o2)"
    by (simp add: after_last_step)
  thus ?case using one out
    by (cases "fetch_times o1") (auto simp: after_last_def split: option.splits)
qed (simp add: after_last_def split: option.splits)

text \<open>A worker that is not notified and has no burst option polls at its interval, to within a
  tenth of a second: two fetches are never closer, however short the rounds, whether they failed, and
  however often the interval changed between the notify backstop and the base poll.\<close>

theorem worker_polls_apart:
  assumes "wrun opt es (new_worker i wid n t) = Some (w', out)" "no_burst opt"
    and "list_all (\<lambda>(m, inp). one_clock m \<and> inp \<noteq> Notify) es" "sorted (t # map (wall \<circ> fst) es)"
  shows "successively (\<lambda>a b. min (pollingInterval opt) (notifyPollingInterval opt) - 100 \<le> b - a)
    (fetch_times out)"
proof -
  have "paced opt None t (new_worker i wid n t :: 'a worker)" by (simp add: paced_def new_worker_def)
  from paced_run [OF assms(1,2) this assms(3,4)] show ?thesis
    by (simp add: after_last_def far_apart_def [abs_def] least_interval_def)
qed

definition sample_polls :: "(moment \<times> nat input) list" where
  "sample_polls = sample_rounds @
     [(at_ms 2000, TimerFires), (at_ms 2001, Resumes), (at_ms 2010, FetchFails ''down'')]"

lemma worker_polls_apart_witness:
  "case wrun sample_options sample_polls (new_worker ''w'' ''w'' ''q'' 0) of None \<Rightarrow> False
   | Some (w', out) \<Rightarrow> fetch_times out = [0, 2001] \<and>
       successively (\<lambda>a b. min 2000 30000 - 100 \<le> b - a) (fetch_times out)"
proof -
  obtain w' out where r: "wrun sample_options sample_polls (new_worker ''w'' ''w'' ''q'' 0) = Some (w', out)"
    and ts: "fetch_times out = [0, 2001]"
    by (simp add: sample_polls_def sample_rounds_def new_worker_def loop_defs sample_options_def
        resolveInterval_def at_ms_def)
  have "successively (\<lambda>a b. min (pollingInterval sample_options) (notifyPollingInterval sample_options) - 100
      \<le> b - a) (fetch_times out)"
    by (rule worker_polls_apart [OF r])
      (simp_all add: no_burst_def sample_options_def sample_polls_def sample_rounds_def one_clock_def at_ms_def)
  thus ?thesis using r ts by (simp add: sample_options_def)
qed

section \<open>The pool\<close>

text \<open>The workers of an instance, in the order they were added.  \<^verbatim>\<open>work()\<close> adds one worker per unit of
  \<^verbatim>\<open>localConcurrency\<close> and answers with the id of the first, which all of them carry as
  \<^verbatim>\<open>workId\<close>.\<close>

type_synonym 'j pool = "'j worker list"

definition spawn_workers ::
  "work_options \<Rightarrow> moment \<Rightarrow> str \<Rightarrow> str list \<Rightarrow> 'j pool \<Rightarrow> 'j pool \<times> str option" where
  "spawn_workers opt m n ids pool = (pool @ map (\<lambda>i. fst (loop_head m
       ((new_worker i (hd ids) n (clk m))\<lparr>w_state := WActive\<rparr>))) ids,
     if ids = [] then None else Some (hd ids))"

definition internal_queue :: "str \<Rightarrow> bool" where
  "internal_queue n = (n = ''__pgboss__send-it'')"

definition notifyWorker :: "str \<Rightarrow> 'j pool \<Rightarrow> 'j pool" where
  "notifyWorker i pool = upd_where (\<lambda>w. w_id w = i) notify pool"

definition notifyQueue :: "str \<Rightarrow> 'j pool \<Rightarrow> 'j pool" where
  "notifyQueue n pool = upd_where (\<lambda>w. w_name w = n) notify pool"

text \<open>After the listener (re)connects: the workers of the queues whose cached row has \<^verbatim>\<open>notify\<close>.\<close>

definition forceFetchLnWorkers :: "(str \<Rightarrow> bool) \<Rightarrow> 'j pool \<Rightarrow> 'j pool" where
  "forceFetchLnWorkers queue_notify pool = upd_where (\<lambda>w. queue_notify (w_name w)) notify pool"

text \<open>\<^verbatim>\<open>offWork()\<close> stops the workers that match, and removes each when its loop has returned.\<close>

definition offWork_query :: "str \<Rightarrow> str option \<Rightarrow> 'j worker \<Rightarrow> bool" where
  "offWork_query n i w = (w_name w = n \<and>
     (case i of None \<Rightarrow> True | Some x \<Rightarrow> x = [] \<or> w_id w = x \<or> w_workId w = x))"

definition offWork :: "str \<Rightarrow> str option \<Rightarrow> 'j pool \<Rightarrow> 'j pool" where
  "offWork n i pool = upd_where (offWork_query n i) stop_worker pool"

definition removeWorker :: "'j worker \<Rightarrow> 'j pool \<Rightarrow> 'j pool" where
  "removeWorker w pool = filter (\<lambda>x. w_id x \<noteq> w_id w) pool"

text \<open>\<^verbatim>\<open>stop()\<close> of the manager takes the queues of the workers that are not the instance's own.\<close>

definition stop_names :: "'j pool \<Rightarrow> str list" where
  "stop_names pool = remdups (map w_name (filter (\<lambda>w. \<not> internal_queue (w_name w)) pool))"

definition stop_pool :: "'j pool \<Rightarrow> 'j pool" where
  "stop_pool pool = fold (\<lambda>n. offWork n None) (stop_names pool) pool"

text \<open>The end of the grace: every worker refuses what it may still claim, the jobs in flight are failed
  (the calls, in their order), and the handlers' signals are aborted.\<close>

definition failWip :: "'j pool \<Rightarrow> 'j pool \<times> (str \<times> 'j list) list" where
  "failWip pool = (map (\<lambda>w. abort (w\<lparr>graceExpired := True\<rparr>)) pool,
     map (\<lambda>w. (w_name w, w_jobs w)) (filter (\<lambda>w. w_jobs w \<noteq> []) pool))"

lemma stop_worker_name [simp]: "w_name (stop_worker w) = w_name w"
  by (simp add: stop_worker_def)

lemma stop_worker_twice [simp]: "stop_worker (stop_worker w) = stop_worker w"
  by (auto simp: stop_worker_def abort_delay_def split: point.splits)

lemma stop_fold:
  "fold (\<lambda>n. offWork n None) ns pool = upd_where (\<lambda>w. w_name w \<in> set ns) stop_worker pool"
proof (induction ns arbitrary: pool)
  case Nil
  thus ?case by (simp add: upd_where_none)
next
  case (Cons n ns)
  show ?case unfolding fold_Cons comp_apply Cons.IH
    by (auto simp: offWork_def offWork_query_def upd_where_def)
qed

lemma stop_pool_eq: "stop_pool pool = upd_where (\<lambda>w. \<not> internal_queue (w_name w)) stop_worker pool"
  unfolding stop_pool_def stop_fold by (auto simp: upd_where_def stop_names_def)

text \<open>Once the instance stops, the loops of its callers' workers only wind down: whatever each of them
  takes in from then on, none fetches.\<close>

theorem stopped_pool_fetches_nothing:
  assumes "\<And>w. w \<in> set pool \<Longrightarrow> worker_reachable opt w" "w \<in> set (stop_pool pool)"
    and "\<not> internal_queue (w_name w)" "wrun opt es w = Some (w', out)"
  shows "fetch_times out = []"
proof -
  obtain v where "v \<in> set pool" "w = stop_worker v"
    using assms(2,3) by (auto simp: stop_pool_eq set_upd_where)
  moreover from this have "worker_ok w"
    using worker_ok_step [of v opt "(undefined, Stop)"] reachable_ok assms(1) by auto
  ultimately show ?thesis using leaving_run [OF assms(4)] leaving_after_stop by blast
qed

text \<open>The id \<^verbatim>\<open>work()\<close> answers with reaches every worker of that call, and no worker of another.\<close>

theorem offWork_reaches_call:
  assumes "ids \<noteq> []" "distinct ids" "[] \<notin> set ids"
    and fresh: "\<And>w. w \<in> set pool \<Longrightarrow> w_id w \<notin> set ids \<and> w_workId w \<notin> set ids"
    and sp: "spawn_workers opt m n ids pool = (pool', i)"
  shows "offWork n i pool' = pool @ map stop_worker (drop (length pool) pool') \<and>
    length pool' = length pool + length ids"
proof -
  define ws where "ws = map (\<lambda>i. fst (loop_head m
    ((new_worker i (hd ids) n (clk m))\<lparr>w_state := WActive\<rparr>)) :: 'a worker) ids"
  have pool': "pool' = pool @ ws" "i = Some (hd ids)"
    using sp assms(1) by (auto simp: spawn_workers_def ws_def)
  have hd: "hd ids \<in> set ids" using assms(1) by simp
  hence "hd ids \<noteq> []" using assms(3) by metis
  have "upd_where (offWork_query n i) stop_worker ws = map stop_worker ws"
    by (auto simp: upd_where_def ws_def offWork_query_def pool'(2) loop_head_def new_worker_def)
  moreover have "upd_where (offWork_query n i) stop_worker pool = pool"
  proof (rule upd_where_none)
    fix w assume "w \<in> set pool"
    hence "w_id w \<noteq> hd ids" "w_workId w \<noteq> hd ids" using fresh hd by metis+
    thus "\<not> offWork_query n i w"
      using \<open>hd ids \<noteq> []\<close> by (simp add: offWork_query_def pool'(2))
  qed
  ultimately have "upd_where (offWork_query n i) stop_worker (pool @ ws) = pool @ map stop_worker ws"
    by (simp add: upd_where_def)
  thus ?thesis by (simp add: offWork_def pool'(1) ws_def)
qed

text \<open>Every worker is reached by \<^verbatim>\<open>failWip()\<close>, and every job one of them holds is failed.\<close>

lemma failWip_reaches:
  assumes "failWip pool = (pool', calls)"
  shows "list_all (\<lambda>w. graceExpired w \<and> abortController w \<noteq> Some False) pool'"
    "concat (map snd calls) = concat (map w_jobs pool)"
proof -
  show "list_all (\<lambda>w. graceExpired w \<and> abortController w \<noteq> Some False) pool'"
    using assms by (auto simp: failWip_def abort_def list_all_iff split: option.splits)
  have "concat (map w_jobs (filter (\<lambda>w. w_jobs w \<noteq> []) pool)) = concat (map w_jobs pool)"
    by (induction pool) auto
  thus "concat (map snd calls) = concat (map w_jobs pool)"
    using assms by (auto simp: failWip_def comp_def)
qed

end
