(* ===== verification/Delivery.thy ===== *)
theory Delivery
  imports Settle_Props "HOL-Library.AList"
begin

text \<open>
  From the claim to the handler, in \<^verbatim>\<open>src/src/manager.ts\<close>: the call \<^verbatim>\<open>fetch()\<close> around the claim
  statement, which tolerates a lost race, counts the active jobs of its groups after the claim and gives
  back what exceeds their limit (\<^verbatim>\<open>#fetch\<close>, \<^verbatim>\<open>#giveBack\<close>); the limits of
  \<^verbatim>\<open>localGroupConcurrency\<close>, counted in memory (\<^verbatim>\<open>#trackLocalGroupStart\<close> and what belongs to
  it); and a worker's \<^verbatim>\<open>onFetch\<close>, which hands the allowed jobs to the handler, restores the rest and
  frees the slots, step by step beside the other batches of the instance.

  Other sessions run between two statements: what they do to the table there is a parameter.
\<close>

section \<open>Giving back\<close>

text \<open>\<^verbatim>\<open>#giveBack\<close>: one statement for all, and each id alone when an index refuses.  Inside a caller's
  transaction the refusal aborts it: nothing more is tried, and the last component says so.  The table is
  then the one the transaction last saw; all it can still do is roll back, the claim included.\<close>

fun giveBack_each :: "str \<Rightarrow> uuid list \<Rightarrow> job list \<Rightarrow> manager_error + (job list \<times> uuid list)" where
  "giveBack_each n [] t = Inr (t, [])"
| "giveBack_each n (i # is) t = (case restore n [i] t of
     Inr t' \<Rightarrow> and_then (giveBack_each n is t') (\<lambda>(t'', given). Inr (t'', i # given))
   | Inl (SqlError UniqueViolation) \<Rightarrow> giveBack_each n is t
   | Inl e \<Rightarrow> Inl e)"

definition giveBack ::
  "bool \<Rightarrow> str \<Rightarrow> uuid list \<Rightarrow> job list \<Rightarrow> manager_error + (job list \<times> uuid list \<times> bool)" where
  "giveBack callerDb n ids t = (case restore n ids t of
     Inr t' \<Rightarrow> Inr (t', ids, False)
   | Inl (SqlError UniqueViolation) \<Rightarrow>
       if length ids = 1 \<or> callerDb then Inr (t, [], callerDb)
       else and_then (giveBack_each n ids t) (\<lambda>(t', given). Inr (t', given, False))
   | Inl e \<Rightarrow> Inl e)"

section \<open>The call\<close>

text \<open>The rows over the limit, found from the end of the batch: \<^verbatim>\<open>active\<close> counts each group, this
  fetch's own rows included, and goes down with every row given back.\<close>

fun excess_ids :: "group_concurrency \<Rightarrow> (str option \<Rightarrow> int) \<Rightarrow> job list \<Rightarrow> uuid list" where
  "excess_ids gc active [] = []"
| "excess_ids gc active (row # rows) =
     (if active (group_id row) > group_limit gc (group_tier row)
      then job_id row # excess_ids gc (active(group_id row := active (group_id row) - 1)) rows
      else excess_ids gc active rows)"

definition active_map :: "(str \<times> nat) list \<Rightarrow> str option \<Rightarrow> int" where
  "active_map counts g = (case g of None \<Rightarrow> 0
     | Some x \<Rightarrow> (case map_of counts x of None \<Rightarrow> 0 | Some k \<Rightarrow> int k))"

definition row_groups :: "job list \<Rightarrow> str list" where
  "row_groups rows = concat (map (\<lambda>j. case group_id j of None \<Rightarrow> [] | Some g \<Rightarrow>
     if g = [] then [] else [g]) rows)"

text \<open>An attempt: the moment of its statements, the rows locked then, what other sessions commit
  between the claim and the count, and during the pause after it.\<close>

record fetch_env =
  fe_now :: time
  fe_locked :: "uuid \<Rightarrow> bool"
  fe_peers :: "job list \<Rightarrow> job list"
  fe_pause :: "job list \<Rightarrow> job list"

text \<open>The claim: a unique violation is a lost race and reads as an empty fetch.\<close>

definition claim_rows ::
  "fetch_env \<Rightarrow> fetch_options \<Rightarrow> bool \<Rightarrow> job list \<Rightarrow> manager_error + (job list \<times> job list)" where
  "claim_rows env opt noSkipLocked t =
     (case fetchNextJob opt noSkipLocked (fe_locked env) (fe_now env) t of
        Inr (t', rows) \<Rightarrow> Inr (t', rows)
      | Inl UniqueViolation \<Rightarrow> Inr (t, [])
      | Inl e \<Rightarrow> Inl (SqlError e))"

text \<open>After the claim: the rows kept, whether any was over the limit, and whether the caller's transaction
  was aborted, on the table as others left it.\<close>

definition trim_rows ::
  "fetch_options \<Rightarrow> bool \<Rightarrow> job list \<Rightarrow> job list \<Rightarrow> manager_error + (job list \<times> job list \<times> bool \<times> bool)" where
  "trim_rows opt callerDb rows t = (case fo_group_concurrency opt of
     None \<Rightarrow> Inr (t, rows, False, False)
   | Some gc \<Rightarrow>
       if row_groups rows = [] then Inr (t, rows, False, False)
       else let excess = excess_ids gc
                (active_map (getActiveGroupCounts (fo_name opt) (row_groups rows) t)) (rev rows)
         in if excess = [] then Inr (t, rows, False, False)
            else and_then (giveBack callerDb (fo_name opt) excess t) (\<lambda>(t', given, aborted).
              Inr (t', filter (\<lambda>j. job_id j \<notin> set given) rows, True, aborted)))"

text \<open>\<^verbatim>\<open>#fetch\<close> with a number of attempts left after this one; \<^verbatim>\<open>fetch()\<close> starts with two.  The result is
  the table, the jobs handed out, and whether the caller's transaction is left aborted.\<close>

primrec fetch_call ::
  "nat \<Rightarrow> (nat \<Rightarrow> fetch_env) \<Rightarrow> fetch_options \<Rightarrow> bool \<Rightarrow> bool \<Rightarrow> job list \<Rightarrow>
   manager_error + (job list \<times> job list \<times> bool)" where
  "fetch_call 0 env opt noSkipLocked callerDb t =
     and_then (claim_rows (env 0) opt noSkipLocked t) (\<lambda>(t1, rows).
     and_then (trim_rows opt callerDb rows (fe_peers (env 0) t1)) (\<lambda>(t2, kept, gave, aborted).
       Inr (t2, kept, aborted)))"
| "fetch_call (Suc k) env opt noSkipLocked callerDb t =
     and_then (claim_rows (env (Suc k)) opt noSkipLocked t) (\<lambda>(t1, rows).
     and_then (trim_rows opt callerDb rows (fe_peers (env (Suc k)) t1)) (\<lambda>(t2, kept, gave, aborted).
       if gave \<and> kept = [] \<and> \<not> callerDb
       then fetch_call k env opt noSkipLocked callerDb (fe_pause (env (Suc k)) t2)
       else Inr (t2, kept, aborted)))"

section \<open>Restoring\<close>

lemma restore_Inr_iff:
  "restore n ids t = Inr t' \<longleftrightarrow> ids \<noteq> [] \<and> t' = upd_where (restore_sel n ids) restore_chg t \<and> table_ok t'"
  by (auto simp: restore_def mapCompletionIdArg_def restoreJobs_def and_then_Inr_iff run_update_Inr
      split: if_splits)

lemma restore_key: "job_key (restore_chg j) = job_key j" "job_id (restore_chg j) = job_id j"
  "job_name (restore_chg j) = job_name j" "state (restore_chg j) = Created"
  "group_id (restore_chg j) = group_id j"
  by (simp_all add: restore_chg_def job_key_def)

text \<open>Only a unique index can refuse: the check constraint does not read what is restored.\<close>

lemma restore_error:
  assumes "table_ok t" "ids \<noteq> []" "restore n ids t = Inl e"
  shows "e = SqlError UniqueViolation"
proof -
  have "list_all key_check (upd_where (restore_sel n ids) restore_chg t)"
    using assms(1) by (auto simp: list_all_iff set_upd_where table_ok_def key_check_def restore_chg_def)
  thus ?thesis using assms(2,3)
    by (auto simp: restore_def mapCompletionIdArg_def restoreJobs_def run_update_def check_table_def
        split: if_splits)
qed

text \<open>What a give-back leaves: the rows it names are back in \<^verbatim>\<open>created\<close>, the others untouched.\<close>

definition given_back :: "str \<Rightarrow> uuid list \<Rightarrow> job list \<Rightarrow> job list" where
  "given_back n given t = upd_where (restore_sel n given) restore_chg t"

lemma given_back_Nil [simp]: "given_back n [] t = t"
  by (simp add: given_back_def restore_sel_def upd_where_none)

lemma restore_twice [simp]: "restore_chg (restore_chg j) = restore_chg j"
  by (simp add: restore_chg_def)

lemma given_back_Cons: "given_back n is (given_back n [i] t) = given_back n (i # is) t"
  by (auto simp: given_back_def upd_where_def restore_sel_def restore_key)

lemma giveBack_each_total:
  "table_ok t \<Longrightarrow> \<exists>given. giveBack_each n ids t = Inr (given_back n given t, given) \<and>
    table_ok (given_back n given t) \<and> set given \<subseteq> set ids"
proof (induction ids arbitrary: t)
  case (Cons i "is")
  show ?case
  proof (cases "restore n [i] t")
    case (Inl e)
    hence "e = SqlError UniqueViolation" using restore_error [OF Cons.prems, of "[i]"] by simp
    hence "giveBack_each n (i # is) t = giveBack_each n is t" using Inl by simp
    moreover obtain given where "giveBack_each n is t = Inr (given_back n given t, given)"
      "table_ok (given_back n given t)" "set given \<subseteq> set is"
      using Cons.IH [OF Cons.prems] by blast
    ultimately show ?thesis by (intro exI [of _ given]) auto
  next
    case (Inr t')
    hence t': "t' = given_back n [i] t" "table_ok t'" by (auto simp: restore_Inr_iff given_back_def)
    then obtain given where "giveBack_each n is t' = Inr (given_back n given t', given)"
      "table_ok (given_back n given t')" "set given \<subseteq> set is"
      using Cons.IH by blast
    thus ?thesis using Inr t' by (intro exI [of _ "i # given"]) (auto simp: given_back_Cons and_then_def)
  qed
qed (rule exI [of _ "[]"], simp)

lemma giveBack_total:
  assumes "table_ok t" "ids \<noteq> []"
  obtains given aborted where "giveBack db n ids t = Inr (given_back n given t, given, aborted)"
    "table_ok (given_back n given t)" "set given \<subseteq> set ids" "aborted \<longrightarrow> db \<and> given = []"
proof (cases "restore n ids t")
  case (Inr t')
  hence "t' = given_back n ids t" "table_ok t'" by (auto simp: restore_Inr_iff given_back_def)
  thus ?thesis using that [of ids False] Inr by (simp add: giveBack_def)
next
  case (Inl e)
  hence e: "e = SqlError UniqueViolation" using restore_error assms by blast
  show ?thesis
  proof (cases "length ids = 1 \<or> db")
    case True
    thus ?thesis using that [of "[]" db] Inl e assms(1) by (simp add: giveBack_def)
  next
    case False
    obtain given where "giveBack_each n ids t = Inr (given_back n given t, given)"
      "table_ok (given_back n given t)" "set given \<subseteq> set ids"
      using giveBack_each_total [OF assms(1), of n ids] by blast
    thus ?thesis using that [of given False] False Inl e by (simp add: giveBack_def and_then_def)
  qed
qed


lemma given_back_mem:
  "j \<in> set t \<Longrightarrow> job_name j = n \<Longrightarrow> job_id j \<in> set given \<Longrightarrow>
    restore_chg j \<in> set (given_back n given t)"
  "j \<in> set t \<Longrightarrow> \<not> (job_name j = n \<and> job_id j \<in> set given) \<Longrightarrow> j \<in> set (given_back n given t)"
  by (auto simp: given_back_def set_upd_where restore_sel_def)

text \<open>Every attempt accounts for what it claimed: a row is handed out and active, or it is back in
  \<^verbatim>\<open>created\<close>; and the attempt cannot fail, whatever the other sessions did in between.\<close>

lemma claim_rows_total:
  assumes "table_ok t"
  obtains t' rows where "claim_rows env opt skip t = Inr (t', rows)" "table_ok t'"
    "set rows \<subseteq> set t'" "distinct (map job_id rows)"
    "\<And>j. j \<in> set rows \<Longrightarrow> job_name j = fo_name opt \<and> state j = Active"
proof -
  let ?l = "effective_locks skip (fe_locked env)"
  let ?sel = "fetch_selected opt ?l (fe_now env) t"
  have f: "fetchNextJob opt skip (fe_locked env) (fe_now env) t =
      run_update (\<lambda>j. j \<in> set ?sel) (claim_row (fe_now env)) t"
    by (rule fetch_update [OF assms])
  show ?thesis
  proof (cases "table_ok (upd_where (\<lambda>j. j \<in> set ?sel) (claim_row (fe_now env)) t)")
    case True
    let ?rows = "map (claim_row (fe_now env)) (filter (\<lambda>j. j \<in> set ?sel) t)"
    have names: "job_name j = fo_name opt" if "j \<in> set ?sel" for j
      using selected_sub(2) [OF that] candidate_basic(1) by blast
    have d: "distinct (map job_id (filter (\<lambda>j. j \<in> set ?sel) t))"
    proof -
      have "distinct (map job_key (filter (\<lambda>j. j \<in> set ?sel) t))"
        using table_ok_distinct [OF assms] by (rule distinct_filter_map)
      moreover have "inj_on snd (set (map job_key (filter (\<lambda>j. j \<in> set ?sel) t)))"
        using names by (auto simp: inj_on_def job_key_def)
      ultimately have "distinct (map snd (map job_key (filter (\<lambda>j. j \<in> set ?sel) t)))"
        unfolding distinct_map by blast
      thus ?thesis by (simp add: comp_def job_key_def)
    qed
    have "claim_rows env opt skip t = Inr (upd_where (\<lambda>j. j \<in> set ?sel) (claim_row (fe_now env)) t, ?rows)"
      unfolding claim_rows_def f using True by (simp add: run_update_def check_table_def table_ok_def)
    thus ?thesis
      by (rule that) (use True names d in \<open>auto simp: set_upd_where claim_row_def comp_def\<close>)
  next
    case False
    have "list_all key_check (upd_where (\<lambda>j. j \<in> set ?sel) (claim_row (fe_now env)) t)"
      using assms by (auto simp: list_all_iff set_upd_where table_ok_def)
    hence "claim_rows env opt skip t = Inr (t, [])"
      unfolding claim_rows_def f using False by (simp add: run_update_def check_table_def table_ok_def)
    thus ?thesis by (rule that) (use assms in auto)
  qed
qed

lemma excess_ids_sub: "set (excess_ids gc active rows) \<subseteq> set (map job_id rows)"
  by (induction rows arbitrary: active) auto

lemma trim_rows_total:
  assumes "table_ok t"
  obtains given gave aborted where
    "trim_rows opt db rows t = Inr (given_back (fo_name opt) given t,
       filter (\<lambda>j. job_id j \<notin> set given) rows, gave, aborted)"
    "table_ok (given_back (fo_name opt) given t)" "set given \<subseteq> set (map job_id rows)"
    "aborted \<longrightarrow> db \<and> given = []"
proof (cases "fo_group_concurrency opt")
  case None
  thus ?thesis using that [of "[]" False False] assms by (simp add: trim_rows_def)
next
  case (Some gc)
  let ?ex = "excess_ids gc (active_map (getActiveGroupCounts (fo_name opt) (row_groups rows) t)) (rev rows)"
  have sub: "set ?ex \<subseteq> set (map job_id rows)" using excess_ids_sub [of gc _ "rev rows"] by auto
  show ?thesis
  proof (cases "row_groups rows = [] \<or> ?ex = []")
    case True
    thus ?thesis using that [of "[]" False False] assms Some by (auto simp: trim_rows_def Let_def)
  next
    case False
    hence "?ex \<noteq> []" by simp
    then obtain given aborted where g: "giveBack db (fo_name opt) ?ex t =
        Inr (given_back (fo_name opt) given t, given, aborted)"
      "table_ok (given_back (fo_name opt) given t)" "set given \<subseteq> set ?ex" "aborted \<longrightarrow> db \<and> given = []"
      by (rule giveBack_total [OF assms])
    thus ?thesis using that [of given True aborted] Some False sub by (auto simp: trim_rows_def Let_def)
  qed
qed

text \<open>Other sessions keep the constraints, and leave the rows this one has just claimed.\<close>

definition fair_peers :: "(nat \<Rightarrow> fetch_env) \<Rightarrow> bool" where
  "fair_peers env = (\<forall>k t. table_ok t \<longrightarrow>
     table_ok (fe_peers (env k) t) \<and> table_ok (fe_pause (env k) t))"

definition keeps_claims :: "(job list \<Rightarrow> job list) \<Rightarrow> time \<Rightarrow> bool" where
  "keeps_claims f now = (\<forall>t. \<forall>j\<in>set t. state j = Active \<and> started_on j = Some now \<longrightarrow> j \<in> set (f t))"

lemma claimed_now:
  "claim_rows env opt skip t = Inr (t', rows) \<Longrightarrow> j \<in> set rows \<Longrightarrow> started_on j = Some (fe_now env)"
  by (auto simp: claim_rows_def fetchNextJob_def Let_def run_update_Inr claim_row_def
      split: sum.splits sql_error.splits)

text \<open>(C36) An attempt of \<^verbatim>\<open>fetch()\<close> accounts for every row it claimed, and does not fail, whatever
  other sessions do between its claim and its count, as long as they keep the constraints of the table (a
  lost race, racing claims of the same groups, rows that take the place of what it would give back, a cancel
  or a delete of what it claimed).  A row is handed out, and stays as those sessions left it, or it is given
  back: if it is still there it returns to \<^verbatim>\<open>created\<close>, without a start time, and one that was
  cancelled meanwhile is thereby waiting again.  Only in a transaction of the caller's that the give-back
  aborted is every row handed out; that transaction can only roll back, the claim with it.\<close>

theorem fetch_strands_nothing:
  assumes "table_ok t" "fair_peers env"
  shows "\<exists>t1 rows t2 kept gave aborted.
    claim_rows (env k) opt skip t = Inr (t1, rows) \<and>
    trim_rows opt db rows (fe_peers (env k) t1) = Inr (t2, kept, gave, aborted) \<and> table_ok t2 \<and>
    (\<forall>j\<in>set rows. state j = Active \<and> j \<in> set t1) \<and> set kept \<subseteq> set rows \<and> (aborted \<longrightarrow> db \<and> kept = rows) \<and>
    (\<forall>j\<in>set rows. \<forall>x\<in>set (fe_peers (env k) t1). job_key x = job_key j \<longrightarrow>
       (if j \<in> set kept then x \<in> set t2 else restore_chg x \<in> set t2))"
proof -
  obtain t1 rows where c: "claim_rows (env k) opt skip t = Inr (t1, rows)" "table_ok t1"
    "set rows \<subseteq> set t1" "\<And>j. j \<in> set rows \<Longrightarrow> job_name j = fo_name opt \<and> state j = Active"
    using claim_rows_total [OF assms(1)] by metis
  let ?t = "fe_peers (env k) t1"
  have ok: "table_ok ?t" using assms(2) c(2) by (simp add: fair_peers_def)
  obtain given gave aborted where tr: "trim_rows opt db rows ?t = Inr (given_back (fo_name opt) given ?t,
      filter (\<lambda>j. job_id j \<notin> set given) rows, gave, aborted)" "table_ok (given_back (fo_name opt) given ?t)"
    "aborted \<longrightarrow> db \<and> given = []"
    using trim_rows_total [OF ok] by metis
  let ?t2 = "given_back (fo_name opt) given ?t" and ?kept = "filter (\<lambda>j. job_id j \<notin> set given) rows"
  have "if j \<in> set ?kept then x \<in> set ?t2 else restore_chg x \<in> set ?t2"
    if j: "j \<in> set rows" and x: "x \<in> set ?t" "job_key x = job_key j" for j x
  proof -
    have n: "job_name x = fo_name opt" "job_id x = job_id j" using x(2) c(4) [OF j] by (auto simp: job_key_def)
    show ?thesis
    proof (cases "job_id j \<in> set given")
      case True
      thus ?thesis using given_back_mem(1) [OF x(1) n(1)] n(2) by simp
    next
      case False
      thus ?thesis using given_back_mem(2) [OF x(1)] n(2) j by simp
    qed
  qed
  moreover have "set ?kept \<subseteq> set rows" "aborted \<longrightarrow> db \<and> ?kept = rows" using tr(3) by auto
  ultimately show ?thesis using c tr(1,2) by blast
qed

text \<open>So the whole call always answers, after any number of attempts.\<close>

lemma fetch_call_total:
  "table_ok t \<Longrightarrow> fair_peers env \<Longrightarrow>
    \<exists>t' kept aborted. fetch_call k env opt skip db t = Inr (t', kept, aborted) \<and> table_ok t'"
proof (induction k arbitrary: t)
  case 0
  obtain t1 rows where c: "claim_rows (env 0) opt skip t = Inr (t1, rows)" "table_ok t1"
    using claim_rows_total [OF 0(1)] by metis
  hence "table_ok (fe_peers (env 0) t1)" using 0(2) by (simp add: fair_peers_def)
  then obtain t2 kept gave ab where "trim_rows opt db rows (fe_peers (env 0) t1) = Inr (t2, kept, gave, ab)"
    "table_ok t2" using trim_rows_total by metis
  thus ?case using c by simp
next
  case (Suc k)
  obtain t1 rows where c: "claim_rows (env (Suc k)) opt skip t = Inr (t1, rows)" "table_ok t1"
    using claim_rows_total [OF Suc.prems(1)] by metis
  hence "table_ok (fe_peers (env (Suc k)) t1)" using Suc.prems(2) by (simp add: fair_peers_def)
  then obtain t2 kept gave ab where
    tr: "trim_rows opt db rows (fe_peers (env (Suc k)) t1) = Inr (t2, kept, gave, ab)" "table_ok t2"
    using trim_rows_total by metis
  hence "table_ok (fe_pause (env (Suc k)) t2)" using Suc.prems(2) by (simp add: fair_peers_def)
  from Suc.IH [OF this Suc.prems(2)] show ?case using c tr by auto
qed

section \<open>The limit holds after the count\<close>

definition in_group :: "str option \<Rightarrow> uuid list \<Rightarrow> job list \<Rightarrow> nat" where
  "in_group g ids rows = length (filter (\<lambda>r. group_id r = g \<and> job_id r \<in> set ids) rows)"

lemma in_group_Cons:
  "in_group g ids (r # rows) = (if group_id r = g \<and> job_id r \<in> set ids then 1 else 0) + in_group g ids rows"
  by (simp add: in_group_def)

lemma in_group_drop:
  "i \<notin> job_id ` set rows \<Longrightarrow> in_group g (i # ids) rows = in_group g ids rows"
  unfolding in_group_def by (intro arg_cong [where f = length] filter_cong) auto

text \<open>What the loop leaves of a group's count fits every row it keeps.\<close>

lemma excess_ids_fit:
  assumes "distinct (map job_id rows)" "j \<in> set rows" "job_id j \<notin> set (excess_ids gc active rows)"
  shows "active (group_id j) - int (in_group (group_id j) (excess_ids gc active rows) rows)
    \<le> group_limit gc (group_tier j)"
  using assms
proof (induction rows arbitrary: active)
  case (Cons r rows)
  have r: "job_id r \<notin> job_id ` set rows" using Cons.prems(1) by simp
  hence out: "job_id r \<notin> set (excess_ids gc a rows)" for a using excess_ids_sub [of gc a rows] by auto
  show ?case
  proof (cases "active (group_id r) > group_limit gc (group_tier r)")
    case True
    define a where "a = active(group_id r := active (group_id r) - 1)"
    have ids: "excess_ids gc active (r # rows) = job_id r # excess_ids gc a rows"
      using True by (simp add: a_def)
    hence j: "j \<in> set rows" "job_id j \<notin> set (excess_ids gc a rows)" using Cons.prems(2,3) by auto
    have "distinct (map job_id rows)" using Cons.prems(1) by simp
    from Cons.IH [OF this j] have "a (group_id j) - int (in_group (group_id j) (excess_ids gc a rows) rows)
      \<le> group_limit gc (group_tier j)" .
    moreover have "in_group (group_id j) (job_id r # excess_ids gc a rows) (r # rows) =
        (if group_id r = group_id j then 1 else 0) + in_group (group_id j) (excess_ids gc a rows) rows"
      using r by (simp add: in_group_Cons in_group_drop)
    moreover have "a (group_id j) = active (group_id j) - (if group_id r = group_id j then 1 else 0)"
      by (simp add: a_def)
    ultimately show ?thesis unfolding ids by (auto split: if_splits)
  next
    case False
    hence ids: "excess_ids gc active (r # rows) = excess_ids gc active rows" by simp
    show ?thesis
    proof (cases "j = r")
      case True
      thus ?thesis using False by simp
    next
      case neq: False
      hence j: "j \<in> set rows" using Cons.prems(2) by simp
      have "distinct (map job_id rows)" "job_id j \<notin> set (excess_ids gc active rows)"
        using Cons.prems(1,3) ids by auto
      from Cons.IH [OF this(1) j this(2)] show ?thesis using ids out by (simp add: in_group_Cons)
    qed
  qed
qed simp

lemma in_group_rev: "in_group g ids (rev rows) = in_group g ids rows"
  by (simp add: in_group_def rev_filter [symmetric])

text \<open>The policies whose indexes a restored row can run into are \<^verbatim>\<open>short\<close> and \<^verbatim>\<open>stately\<close>, which hold
  the jobs waiting in \<^verbatim>\<open>created\<close>; in any other queue a give-back is not refused.\<close>

lemma restore_gives_up:
  assumes "state j = Active" "policy j \<noteq> Some Short" "policy j \<noteq> Some Stately"
  shows "gives_up j (restore_chg j)"
  using assms by (auto simp: gives_up_def entry_le_def restore_chg_def job_key_def index_defs skey_def
      split: option.splits)

lemma restore_not_refused:
  assumes "table_ok t" "ids \<noteq> []"
    and "\<And>j. j \<in> set t \<Longrightarrow> restore_sel n ids j \<Longrightarrow>
      state j = Active \<and> policy j \<noteq> Some Short \<and> policy j \<noteq> Some Stately"
  shows "giveBack db n ids t = Inr (given_back n ids t, ids, False)"
proof -
  have "table_ok (upd_where (restore_sel n ids) restore_chg t)"
    using assms(3) restore_gives_up
    by (intro table_ok_gives_up [OF assms(1)]) (auto simp: key_check_def restore_chg_def)
  hence "restore n ids t = Inr (given_back n ids t)"
    using assms(2) by (simp add: restore_Inr_iff given_back_def)
  thus ?thesis by (simp add: giveBack_def)
qed

lemma active_after_give_back:
  assumes ok: "table_ok t" and rows: "set rows \<subseteq> set t" "distinct (map job_id rows)"
    "\<And>j. j \<in> set rows \<Longrightarrow> job_name j = n \<and> state j = Active"
    and ids: "set ids \<subseteq> set (map job_id rows)"
  shows "int (active_in_group n g (given_back n ids t)) =
    int (active_in_group n g t) - int (in_group (Some g) ids rows)"
proof -
  let ?A = "\<lambda>j. job_name j = n \<and> state j = Active \<and> group_id j = Some g"
  have row: "j \<in> set rows" if "j \<in> set t" "restore_sel n ids j" for j
  proof -
    have "job_id j \<in> set (map job_id rows)" using that(2) ids by (auto simp: restore_sel_def)
    then obtain r where "r \<in> set rows" "job_id r = job_id j" by auto
    moreover from this have "r = j"
      using rows that by (intro id_names_row [OF ok]) (auto simp: restore_sel_def)
    ultimately show ?thesis by simp
  qed
  have a: "active_in_group n g (given_back n ids t) = length (filter (\<lambda>j. ?A j \<and> \<not> restore_sel n ids j) t)"
    unfolding active_in_group_def given_back_def upd_where_def filter_map comp_def length_map
    by (intro arg_cong [where f = length] filter_cong) (auto simp: restore_chg_def)
  have b: "length (filter (\<lambda>j. ?A j \<and> restore_sel n ids j) t) = in_group (Some g) ids rows"
  proof -
    have "distinct t" "distinct rows"
      using table_ok_distinct [OF ok] rows(2) distinct_map by blast+
    moreover have "set (filter (\<lambda>j. ?A j \<and> restore_sel n ids j) t) =
        set (filter (\<lambda>r. group_id r = Some g \<and> job_id r \<in> set ids) rows)"
      using row rows(1,3) by (auto simp: restore_sel_def)
    ultimately show ?thesis unfolding in_group_def
      using distinct_card [of "filter (\<lambda>j. ?A j \<and> restore_sel n ids j) t"]
        distinct_card [of "filter (\<lambda>r. group_id r = Some g \<and> job_id r \<in> set ids) rows"] by simp
  qed
  have "length (filter ?A t) = length (filter (\<lambda>j. ?A j \<and> restore_sel n ids j) t) +
      length (filter (\<lambda>j. ?A j \<and> \<not> restore_sel n ids j) t)"
    using length_filter_split [of "restore_sel n ids" "filter ?A t"] by (simp add: conj_assoc)
  thus ?thesis using a b by (simp add: active_in_group_def)
qed

lemma active_map_counts:
  assumes "g \<in> set gs"
  shows "active_map (getActiveGroupCounts n gs t) (Some g) = int (active_in_group n g t)"
proof -
  let ?f = "\<lambda>g. length (filter (\<lambda>j. job_name j = n \<and> state j = Active \<and> group_id j = Some g) t)"
  have "map_of (filter (\<lambda>(_, c). c > 0) (map (\<lambda>g. (g, ?f g)) xs)) g =
      (if g \<in> set xs \<and> ?f g > 0 then Some (?f g) else None)" for xs
    by (induction xs) auto
  thus ?thesis using assms
    by (simp add: active_map_def getActiveGroupCounts_def active_in_group_def)
qed

lemma row_groups_mem: "j \<in> set rows \<Longrightarrow> group_id j = Some g \<Longrightarrow> g \<noteq> [] \<Longrightarrow> g \<in> set (row_groups rows)"
  by (force simp: row_groups_def)

text \<open>Queues whose policy holds no job in \<^verbatim>\<open>created\<close>.\<close>

definition frees_created :: "str \<Rightarrow> job list \<Rightarrow> bool" where
  "frees_created n t = list_all (\<lambda>j. job_name j = n \<longrightarrow>
     policy j \<noteq> Some Short \<and> policy j \<noteq> Some Stately) t"

text \<open>(C37) The count after the claim repairs races: when a fetch with \<^verbatim>\<open>groupConcurrency\<close> hands
  out a job, the jobs then active in its group, those that other sessions claimed beside it included,
  are within the limit of the job's tier.  So of two fetches that raced past a limit at least the later
  count hands out nothing over it.  Two things are needed: that no other session touches the rows this
  fetch has claimed between its claim and its count, and that the queue is neither \<^verbatim>\<open>short\<close> nor
  \<^verbatim>\<open>stately\<close>, since in those an index can refuse a job its way back, and a refused job stays active and
  runs, over the limit.\<close>

theorem fetch_gives_back_excess:
  assumes ok: "table_ok t" and gc: "fo_group_concurrency opt = Some gc"
    and peers: "fair_peers env" "keeps_claims (fe_peers (env k)) (fe_now (env k))"
    and cl: "claim_rows (env k) opt skip t = Inr (t1, rows)"
    and fr: "frees_created (fo_name opt) (fe_peers (env k) t1)"
    and tr: "trim_rows opt db rows (fe_peers (env k) t1) = Inr (t2, kept, gave, aborted)"
    and j: "j \<in> set kept" "group_id j = Some g" "g \<noteq> []"
  shows "int (active_in_group (fo_name opt) g t2) \<le> group_limit gc (group_tier j)"
proof -
  let ?t = "fe_peers (env k) t1" and ?n = "fo_name opt"
  have c: "table_ok t1" "set rows \<subseteq> set t1" "distinct (map job_id rows)"
    "\<And>j. j \<in> set rows \<Longrightarrow> job_name j = ?n \<and> state j = Active"
    by (rule claim_rows_total [OF ok, of "env k" opt skip]; use cl in simp)+
  have ok': "table_ok ?t" using peers(1) c(1) by (simp add: fair_peers_def)
  have mem: "set rows \<subseteq> set ?t"
    using peers(2) c(2,4) claimed_now [OF cl] by (auto simp: keeps_claims_def)
  define ex where "ex = excess_ids gc (active_map (getActiveGroupCounts ?n (row_groups rows) ?t)) (rev rows)"
  have sub: "set ex \<subseteq> set (map job_id rows)" using excess_ids_sub [of gc _ "rev rows"] by (auto simp: ex_def)
  have cases: "ex = [] \<and> t2 = ?t \<and> kept = rows \<or>
      ex \<noteq> [] \<and> t2 = given_back ?n ex ?t \<and> kept = filter (\<lambda>j. job_id j \<notin> set ex) rows"
  proof (cases "ex = []")
    case True
    thus ?thesis using tr gc by (auto simp: trim_rows_def ex_def Let_def split: if_splits)
  next
    case False
    have "giveBack db ?n ex ?t = Inr (given_back ?n ex ?t, ex, False)"
    proof (rule restore_not_refused [OF ok' False])
      fix x assume x: "x \<in> set ?t" "restore_sel ?n ex x"
      hence "job_id x \<in> set (map job_id rows)" using sub by (auto simp: restore_sel_def)
      then obtain r where r: "r \<in> set rows" "job_id r = job_id x" by auto
      have "r = x"
        using r x mem c(4) by (intro id_names_row [OF ok']) (auto simp: restore_sel_def)
      thus "state x = Active \<and> policy x \<noteq> Some Short \<and> policy x \<noteq> Some Stately"
        using r c(4) fr x by (auto simp: frees_created_def list_all_iff)
    qed
    moreover have "row_groups rows \<noteq> []"
    proof
      assume "row_groups rows = []"
      hence "t2 = ?t \<and> kept = rows" using tr gc by (auto simp: trim_rows_def)
      hence "g \<in> set (row_groups rows)" using j row_groups_mem by blast
      thus False using \<open>row_groups rows = []\<close> by simp
    qed
    ultimately show ?thesis using tr gc False by (auto simp: trim_rows_def ex_def [symmetric] Let_def)
  qed
  hence jr: "j \<in> set rows" "job_id j \<notin> set ex" and t2: "t2 = given_back ?n ex ?t"
    using j(1) by auto
  have "int (active_in_group ?n g t2) = int (active_in_group ?n g ?t) - int (in_group (Some g) ex rows)"
    unfolding t2 by (rule active_after_give_back [OF ok' mem c(3,4) sub])
  also have "int (active_in_group ?n g ?t) =
      active_map (getActiveGroupCounts ?n (row_groups rows) ?t) (Some g)"
    by (rule active_map_counts [symmetric]) (rule row_groups_mem [OF jr(1) j(2,3)])
  finally show ?thesis
    using excess_ids_fit [of "rev rows" j gc "active_map (getActiveGroupCounts ?n (row_groups rows) ?t)"]
      c(3) jr j(2) by (simp add: ex_def [symmetric] in_group_rev rev_map [symmetric])
qed

text \<open>A race: two jobs of a group with a limit of two, both claimed here, while another session's
  claim of a third, made at the same time, commits before the count.\<close>

definition racer :: "nat \<Rightarrow> job" where
  "racer i = sample_job i ''q'' 5 \<lparr>group_id := Some ''g''\<rparr>"

definition race_env :: "nat \<Rightarrow> fetch_env" where
  "race_env k = \<lparr>fe_now = 9, fe_locked = (\<lambda>_. False),
     fe_peers = (\<lambda>t. if table_ok (t @ [claim_row 8 (racer 3)]) then t @ [claim_row 8 (racer 3)] else t),
     fe_pause = (\<lambda>t. t)\<rparr>"

definition race_fetch :: fetch_options where
  "race_fetch = sample_fetch ''q'' Standard 2 \<lparr>fo_group_concurrency := Some \<lparr>gc_default = 2, gc_tiers = []\<rparr>\<rparr>"

lemma race_fair: "fair_peers race_env" "keeps_claims (fe_peers (race_env k)) (fe_now (race_env k))"
  by (auto simp: fair_peers_def keeps_claims_def race_env_def)

lemma race_start: "table_ok [racer 1, racer 2]"
  by (simp add: racer_def eval_defs)

lemma race_claim:
  "claim_rows (race_env 2) race_fetch False [racer 1, racer 2] =
     Inr ([claim_row 9 (racer 1), claim_row 9 (racer 2)], [claim_row 9 (racer 1), claim_row 9 (racer 2)])"
  by (simp add: claim_rows_def race_env_def race_fetch_def racer_def eval_defs fetch_eval run_update_def
      check_table_def and_then_def single_group_concurrency_def active_group_counts_def
      active_in_group_def group_rn_def group_limit_def)

lemma race_peers:
  "fe_peers (race_env 2) [claim_row 9 (racer 1), claim_row 9 (racer 2)] =
     [claim_row 9 (racer 1), claim_row 9 (racer 2), claim_row 8 (racer 3)]"
  by (simp add: race_env_def racer_def eval_defs claim_row_def)

lemma race_trim:
  "trim_rows race_fetch False [claim_row 9 (racer 1), claim_row 9 (racer 2)]
     [claim_row 9 (racer 1), claim_row 9 (racer 2), claim_row 8 (racer 3)] =
   Inr ([claim_row 9 (racer 1), restore_chg (claim_row 9 (racer 2)), claim_row 8 (racer 3)],
     [claim_row 9 (racer 1)], True, False)"
  by (simp add: trim_rows_def race_fetch_def racer_def eval_defs claim_row_def row_groups_def
      getActiveGroupCounts_def active_map_def group_limit_def giveBack_def restore_def mapCompletionIdArg_def
      restoreJobs_def run_update_def check_table_def restore_sel_def restore_chg_def and_then_def)

lemma fetch_strands_nothing_witness:
  "restore_chg (claim_row 9 (racer 2)) \<in>
     set [claim_row 9 (racer 1), restore_chg (claim_row 9 (racer 2)), claim_row 8 (racer 3)]"
proof -
  have k: "claim_row 9 (racer 2) \<notin> set [claim_row 9 (racer 1)]"
    by (simp add: racer_def claim_row_def sample_job_def job_defaults_def)
  show ?thesis
    using fetch_strands_nothing [OF race_start race_fair(1), of 2 race_fetch False False] k
    unfolding race_claim sum.inject prod.inject
    by (simp add: race_peers race_trim)
qed

lemma fetch_gives_back_excess_witness:
  "int (active_in_group ''q'' ''g''
     [claim_row 9 (racer 1), restore_chg (claim_row 9 (racer 2)), claim_row 8 (racer 3)]) \<le> 2"
proof -
  let ?j = "claim_row 9 (racer 1)"
  have "frees_created ''q'' [?j, claim_row 9 (racer 2), claim_row 8 (racer 3)]"
    by (simp add: frees_created_def racer_def eval_defs claim_row_def)
  hence fr: "frees_created (fo_name race_fetch) (fe_peers (race_env 2) [?j, claim_row 9 (racer 2)])"
    unfolding race_peers by (simp add: race_fetch_def sample_fetch_def)
  have "fo_group_concurrency race_fetch = Some \<lparr>gc_default = 2, gc_tiers = []\<rparr>" "fo_name race_fetch = ''q''"
    by (simp_all add: race_fetch_def sample_fetch_def)
  moreover have "group_id ?j = Some ''g''" "group_tier ?j = None"
    by (simp_all add: racer_def claim_row_def sample_job_def job_defaults_def)
  ultimately show ?thesis
    using fetch_gives_back_excess [OF race_start _ race_fair race_claim fr race_trim [folded race_peers],
        of "\<lparr>gc_default = 2, gc_tiers = []\<rparr>" ?j "''g''"]
    by (simp add: group_limit_def del: One_nat_def)
qed

section \<open>Local group limits\<close>

text \<open>The counts \<^verbatim>\<open>localGroupConcurrency\<close> keeps in the process: the jobs each group of a queue has in
  handlers, the configuration of each queue and the largest of its limits.\<close>

record local_config =
  lc_default :: int
  lc_tiers :: "(str \<times> int) list option"

record local_groups =
  lg_active :: "(str \<times> (str \<times> nat) list) list"
  lg_config :: "(str \<times> local_config) list"
  lg_max :: "(str \<times> int) list"

definition no_groups :: local_groups where
  "no_groups = \<lparr>lg_active = [], lg_config = [], lg_max = []\<rparr>"

definition lg_count :: "local_groups \<Rightarrow> str \<Rightarrow> str \<Rightarrow> nat" where
  "lg_count st n g = (case map_of (lg_active st) n of None \<Rightarrow> 0
     | Some gs \<Rightarrow> coalesce (map_of gs g) 0)"

text \<open>A limit is a number, or \<^verbatim>\<open>Infinity\<close>, or what \<^verbatim>\<open>in\<close> finds under a tier named like a property
  every object inherits, which no count is below.\<close>

datatype local_limit = Unlimited | Limit int | NoNumber

definition inherited :: "str \<Rightarrow> bool" where
  "inherited t = (t \<in> set [''constructor'', ''toString'', ''toLocaleString'', ''valueOf'',
     ''hasOwnProperty'', ''isPrototypeOf'', ''propertyIsEnumerable'', ''__proto__'',
     ''__defineGetter__'', ''__defineSetter__'', ''__lookupGetter__'', ''__lookupSetter__''])"

definition getLocalGroupLimit :: "local_groups \<Rightarrow> str \<Rightarrow> str option \<Rightarrow> local_limit" where
  "getLocalGroupLimit st n tier = (case map_of (lg_config st) n of
     None \<Rightarrow> Unlimited
   | Some c \<Rightarrow> (case (tier, lc_tiers c) of
       (Some t, Some ts) \<Rightarrow> if t = [] then Limit (lc_default c)
         else (case map_of ts t of Some l \<Rightarrow> Limit l
           | None \<Rightarrow> if inherited t then NoNumber else Limit (lc_default c))
     | _ \<Rightarrow> Limit (lc_default c)))"

fun below_limit :: "nat \<Rightarrow> local_limit \<Rightarrow> bool" where
  "below_limit k Unlimited = True"
| "below_limit k (Limit l) = (int k < l)"
| "below_limit k NoNumber = False"

definition getGroupsAtLocalCapacity :: "local_groups \<Rightarrow> str \<Rightarrow> str list" where
  "getGroupsAtLocalCapacity st n = (case (map_of (lg_config st) n, map_of (lg_active st) n) of
     (Some c, Some gs) \<Rightarrow>
       map fst (filter (\<lambda>(g, k). int k \<ge> coalesce (map_of (lg_max st) n) (lc_default c)) gs)
   | _ \<Rightarrow> [])"

definition incrementLocalGroupCount :: "str \<Rightarrow> str \<Rightarrow> local_groups \<Rightarrow> local_groups" where
  "incrementLocalGroupCount n g st = (
     let gs = coalesce (map_of (lg_active st) n) []
     in st\<lparr>lg_active := AList.update n (AList.update g (coalesce (map_of gs g) 0 + 1) gs) (lg_active st)\<rparr>)"

definition decrementLocalGroupCount :: "str \<Rightarrow> str \<Rightarrow> local_groups \<Rightarrow> local_groups" where
  "decrementLocalGroupCount n g st = (case map_of (lg_active st) n of
     None \<Rightarrow> st
   | Some gs \<Rightarrow>
       let current = coalesce (map_of gs g) 0
       in if current \<le> 1
          then let gs' = AList.delete g gs
               in if gs' = [] then st\<lparr>lg_active := AList.delete n (lg_active st)\<rparr>
                  else st\<lparr>lg_active := AList.update n gs' (lg_active st)\<rparr>
          else st\<lparr>lg_active := AList.update n (AList.update g (current - 1) gs) (lg_active st)\<rparr>)"

definition max_limit :: "local_config \<Rightarrow> int" where
  "max_limit c = (case lc_tiers c of None \<Rightarrow> lc_default c
     | Some ts \<Rightarrow> foldl max (lc_default c) (map snd ts))"

definition storeLocalGroupConfig :: "str \<Rightarrow> local_config \<Rightarrow> local_groups \<Rightarrow> local_groups" where
  "storeLocalGroupConfig n c st = st\<lparr>lg_config := AList.update n c (lg_config st),
     lg_max := AList.update n (max_limit c) (lg_max st)\<rparr>"

text \<open>\<^verbatim>\<open>#cleanupLocalGroupTracking\<close>, given whether a worker of the queue is neither stopping nor
  stopped, and what \<^verbatim>\<open>stop()\<close> clears.\<close>

definition cleanupLocalGroupTracking :: "bool \<Rightarrow> str \<Rightarrow> local_groups \<Rightarrow> local_groups" where
  "cleanupLocalGroupTracking hasWorkers n st = (if hasWorkers then st
     else st\<lparr>lg_config := AList.delete n (lg_config st), lg_max := AList.delete n (lg_max st)\<rparr>)"

definition clear_config :: "local_groups \<Rightarrow> local_groups" where
  "clear_config st = st\<lparr>lg_config := [], lg_max := []\<rparr>"

text \<open>\<^verbatim>\<open>#trackLocalGroupStart\<close>: the allowed jobs, the excess, and the allowed that hold a slot.\<close>

definition no_group :: "job \<Rightarrow> bool" where
  "no_group j = (group_id j = None \<or> group_id j = Some [])"

fun trackLocalGroupStart ::
  "str \<Rightarrow> job list \<Rightarrow> local_groups \<Rightarrow> local_groups \<times> job list \<times> job list \<times> job list" where
  "trackLocalGroupStart n [] st = (st, [], [], [])"
| "trackLocalGroupStart n (j # js) st = (
     if no_group j
     then (case trackLocalGroupStart n js st of (st', al, ex, gr) \<Rightarrow> (st', j # al, ex, gr))
     else if below_limit (lg_count st n (the (group_id j))) (getLocalGroupLimit st n (group_tier j))
     then (case trackLocalGroupStart n js (incrementLocalGroupCount n (the (group_id j)) st) of
       (st', al, ex, gr) \<Rightarrow> (st', j # al, ex, j # gr))
     else (case trackLocalGroupStart n js st of (st', al, ex, gr) \<Rightarrow> (st', al, j # ex, gr)))"

definition trackLocalGroupEnd :: "str \<Rightarrow> job list \<Rightarrow> local_groups \<Rightarrow> local_groups" where
  "trackLocalGroupEnd n grouped st = fold (\<lambda>j st. if no_group j then st
     else decrementLocalGroupCount n (the (group_id j)) st) grouped st"

text \<open>\<^verbatim>\<open>onFetch\<close> for a batch, step by step.  A batch of a worker without a limit is not tracked.  One
  with a limit first restores its excess, if it has any; then its allowed jobs are with the handler; a
  handler that outran its timeout holds the batch until it settles; and one that \<^verbatim>\<open>stop()\<close> leaves behind
  still runs, and has the end of its slots put on its promise.\<close>

datatype stage = Untracked | Restoring "uuid list" | Handling | Overrun | Abandoned

record running_batch =
  rb_queue :: str
  rb_stage :: stage
  rb_allowed :: "job list"
  rb_grouped :: "job list"

definition onFetch_begin ::
  "bool \<Rightarrow> str \<Rightarrow> job list \<Rightarrow> local_groups \<Rightarrow> local_groups \<times> running_batch list" where
  "onFetch_begin tracks n jobs st = (
     if jobs = [] then (st, [])
     else if \<not> tracks
     then (st, [\<lparr>rb_queue = n, rb_stage = Untracked, rb_allowed = jobs, rb_grouped = []\<rparr>])
     else (case trackLocalGroupStart n jobs st of (st', allowed, excess, grouped) \<Rightarrow>
       (st', [\<lparr>rb_queue = n,
         rb_stage = (if excess \<noteq> [] then Restoring (map job_id excess) else Handling),
         rb_allowed = allowed, rb_grouped = grouped\<rparr>])))"

text \<open>The \<^verbatim>\<open>finally\<close>: what is left of the batch.\<close>

definition onFetch_finally ::
  "bool \<Rightarrow> running_batch \<Rightarrow> local_groups \<Rightarrow> local_groups \<times> running_batch list" where
  "onFetch_finally abandoned b st = (if abandoned then (st, [b\<lparr>rb_stage := Abandoned\<rparr>])
     else (trackLocalGroupEnd (rb_queue b) (rb_grouped b) st, []))"

definition onFetch_restore ::
  "uuid list \<Rightarrow> running_batch \<Rightarrow> local_groups \<Rightarrow> job list \<Rightarrow> (local_groups \<times> running_batch list) \<times> job list" where
  "onFetch_restore ids b st t = (case restore (rb_queue b) ids t of
     Inl e \<Rightarrow> (onFetch_finally False b st, t)
   | Inr t' \<Rightarrow> (if rb_allowed b = [] then onFetch_finally False b st
       else (st, [b\<lparr>rb_stage := Handling\<rparr>]), t'))"

text \<open>What happens to a batch: its restore runs, its handler outruns the timeout, its handler settles, a
  stop gives up waiting for it.\<close>

datatype batch_event = RestoreRuns | TimesOut | HandlerSettles | StopLeaves

definition onFetch_next ::
  "batch_event \<Rightarrow> running_batch \<Rightarrow> local_groups \<Rightarrow> job list \<Rightarrow>
   (local_groups \<times> running_batch list) \<times> job list" where
  "onFetch_next ev b st t = (case (rb_stage b, ev) of
     (Restoring ids, RestoreRuns) \<Rightarrow> onFetch_restore ids b st t
   | (Handling, TimesOut) \<Rightarrow> ((st, [b\<lparr>rb_stage := Overrun\<rparr>]), t)
   | (Handling, HandlerSettles) \<Rightarrow> (onFetch_finally False b st, t)
   | (Overrun, HandlerSettles) \<Rightarrow> (onFetch_finally False b st, t)
   | (Handling, StopLeaves) \<Rightarrow> (onFetch_finally True b st, t)
   | (Overrun, StopLeaves) \<Rightarrow> (onFetch_finally True b st, t)
   | (Abandoned, HandlerSettles) \<Rightarrow> ((trackLocalGroupEnd (rb_queue b) (rb_grouped b) st, []), t)
   | (Untracked, HandlerSettles) \<Rightarrow> ((st, []), t)
   | _ \<Rightarrow> ((st, [b]), t))"

subsection \<open>Counting\<close>

lemma lg_count_increment:
  "lg_count (incrementLocalGroupCount n g st) n' g' =
     lg_count st n' g' + (if n' = n \<and> g' = g then 1 else 0)"
  by (auto simp: lg_count_def incrementLocalGroupCount_def Let_def update_conv' coalesce_def
      split: option.splits)

definition groups_of :: "local_groups \<Rightarrow> str \<Rightarrow> (str \<times> nat) list" where
  "groups_of st n = coalesce (map_of (lg_active st) n) []"

lemma lg_count_groups: "lg_count st n g = coalesce (map_of (groups_of st n) g) 0"
  by (simp add: lg_count_def groups_of_def split: option.splits)

lemma decrement_groups:
  "groups_of (decrementLocalGroupCount n g st) n' = (if n' = n \<and> map_of (lg_active st) n \<noteq> None
     then (if lg_count st n g \<le> 1 then AList.delete g (groups_of st n)
           else AList.update g (lg_count st n g - 1) (groups_of st n))
     else groups_of st n')"
proof (cases "map_of (lg_active st) n")
  case None
  thus ?thesis by (simp add: decrementLocalGroupCount_def)
next
  case (Some gs)
  hence gs: "groups_of st n = gs" "lg_count st n g = coalesce (map_of gs g) 0"
    by (simp_all add: groups_of_def lg_count_def)
  show ?thesis
  proof (cases "lg_count st n g \<le> 1 \<and> AList.delete g gs = []")
    case True
    hence "decrementLocalGroupCount n g st = st\<lparr>lg_active := AList.delete n (lg_active st)\<rparr>"
      using Some gs by (simp add: decrementLocalGroupCount_def Let_def)
    thus ?thesis using True Some gs by (simp add: groups_of_def delete_conv')
  next
    case False
    hence "decrementLocalGroupCount n g st = st\<lparr>lg_active := AList.update n
        (if lg_count st n g \<le> 1 then AList.delete g gs else AList.update g (lg_count st n g - 1) gs)
        (lg_active st)\<rparr>"
      using Some gs by (simp add: decrementLocalGroupCount_def Let_def)
    thus ?thesis using Some gs by (simp add: groups_of_def update_conv')
  qed
qed

lemma lg_count_decrement:
  "lg_count (decrementLocalGroupCount n g st) n' g' =
     lg_count st n' g' - (if n' = n \<and> g' = g then 1 else 0)"
proof (cases "n' = n \<and> map_of (lg_active st) n \<noteq> None")
  case True
  have "lg_count st n g = coalesce (map_of (groups_of st n) g) 0" by (rule lg_count_groups)
  thus ?thesis using True
    by (simp add: lg_count_groups [of "decrementLocalGroupCount n g st"] decrement_groups update_conv'
        delete_conv') (simp add: lg_count_groups)
next
  case False
  hence "lg_count st n' g' = 0" if "n' = n" using that by (simp add: lg_count_def)
  thus ?thesis using False
    by (auto simp: lg_count_groups [of "decrementLocalGroupCount n g st"] decrement_groups)
      (simp_all add: lg_count_groups)
qed

lemma lg_count_config [simp]:
  "lg_count (storeLocalGroupConfig m c st) n g = lg_count st n g"
  "lg_count (cleanupLocalGroupTracking b m st) n g = lg_count st n g"
  "lg_count (clear_config st) n g = lg_count st n g"
  by (simp_all add: lg_count_def storeLocalGroupConfig_def cleanupLocalGroupTracking_def clear_config_def)

lemma increment_config [simp]:
  "lg_config (incrementLocalGroupCount n g st) = lg_config st"
  "lg_max (incrementLocalGroupCount n g st) = lg_max st"
  "getLocalGroupLimit (incrementLocalGroupCount n g st) = getLocalGroupLimit st"
  by (simp_all add: incrementLocalGroupCount_def getLocalGroupLimit_def Let_def fun_eq_iff)

lemma decrement_config [simp]:
  "lg_config (decrementLocalGroupCount n g st) = lg_config st"
  by (simp add: decrementLocalGroupCount_def Let_def split: option.splits)

definition of_group :: "str \<Rightarrow> job list \<Rightarrow> nat" where
  "of_group g js = length (filter (\<lambda>j. group_id j = Some g) js)"

lemma of_group_simps [simp]:
  "of_group g [] = 0"
  "of_group g (j # js) = (if group_id j = Some g then 1 else 0) + of_group g js"
  by (simp_all add: of_group_def)

lemma start_effect:
  assumes "trackLocalGroupStart n js st = (st', al, ex, gr)"
  shows "lg_count st' n' g = lg_count st n' g + (if n' = n then of_group g gr else 0)"
    "lg_config st' = lg_config st" "list_all (\<lambda>j. \<not> no_group j) gr" "list_all (\<lambda>j. \<not> no_group j) ex"
    "set al \<union> set ex = set js" "gr = filter (\<lambda>j. \<not> no_group j) al"
proof -
  have "lg_count st' n' g = lg_count st n' g + (if n' = n then of_group g gr else 0) \<and>
    lg_config st' = lg_config st \<and> list_all (\<lambda>j. \<not> no_group j) gr \<and> list_all (\<lambda>j. \<not> no_group j) ex \<and>
    set al \<union> set ex = set js \<and> gr = filter (\<lambda>j. \<not> no_group j) al"
    using assms
  proof (induction js arbitrary: st al ex gr)
    case (Cons j js)
    let ?s = "if no_group j \<or> \<not> below_limit (lg_count st n (the (group_id j)))
        (getLocalGroupLimit st n (group_tier j)) then st
      else incrementLocalGroupCount n (the (group_id j)) st"
    obtain al0 ex0 gr0 where r: "trackLocalGroupStart n js ?s = (st', al0, ex0, gr0)"
      using Cons.prems by (simp split: if_splits prod.splits)
    note IH = Cons.IH [OF r]
    show ?case
    proof (cases "no_group j")
      case True
      thus ?thesis using Cons.prems r IH by auto
    next
      case grouped: False
      then obtain x where x: "group_id j = Some x" by (auto simp: no_group_def)
      show ?thesis
      proof (cases "below_limit (lg_count st n x) (getLocalGroupLimit st n (group_tier j))")
        case True
        hence "al = j # al0" "ex = ex0" "gr = j # gr0" "?s = incrementLocalGroupCount n x st"
          using Cons.prems r grouped x by auto
        thus ?thesis using IH grouped x lg_count_increment [of n x st n' g] by auto
      next
        case False
        hence "al = al0" "ex = j # ex0" "gr = gr0" "?s = st" using Cons.prems r grouped x by auto
        thus ?thesis using IH grouped by auto
      qed
    qed
  qed simp
  thus "lg_count st' n' g = lg_count st n' g + (if n' = n then of_group g gr else 0)"
    "lg_config st' = lg_config st" "list_all (\<lambda>j. \<not> no_group j) gr" "list_all (\<lambda>j. \<not> no_group j) ex"
    "set al \<union> set ex = set js" "gr = filter (\<lambda>j. \<not> no_group j) al" by blast+
qed

lemma end_effect:
  assumes "list_all (\<lambda>j. \<not> no_group j) gr"
  shows "lg_count (trackLocalGroupEnd n gr st) n' g = lg_count st n' g - (if n' = n then of_group g gr else 0)"
    "lg_config (trackLocalGroupEnd n gr st) = lg_config st"
  using assms
  by (induction gr arbitrary: st)
    (auto simp: trackLocalGroupEnd_def lg_count_decrement no_group_def)

subsection \<open>Runs\<close>

text \<open>What happens to the limits of an instance: a \<^verbatim>\<open>work()\<close> call stores a configuration, a worker
  with or without a limit fetches a batch, something happens to one of the batches, other code changes the
  table, a cleanup, and the manager's \<^verbatim>\<open>stop()\<close>.\<close>

datatype lg_op =
    StoreConfig str local_config
  | OnFetch bool str "job list"
  | BatchEvent nat batch_event
  | Elsewhere "job list \<Rightarrow> job list"
  | Cleanup bool str
  | StopAll

record lg_world =
  w_groups :: local_groups
  w_batches :: "running_batch list"
  w_table :: "job list"

fun lg_step :: "lg_op \<Rightarrow> lg_world \<Rightarrow> lg_world" where
  "lg_step (StoreConfig n c) w = w\<lparr>w_groups := storeLocalGroupConfig n c (w_groups w)\<rparr>"
| "lg_step (OnFetch tracks n js) w = (case onFetch_begin tracks n js (w_groups w) of
     (st', bs) \<Rightarrow> w\<lparr>w_groups := st', w_batches := bs @ w_batches w\<rparr>)"
| "lg_step (BatchEvent k ev) w = (if k < length (w_batches w)
     then (case onFetch_next ev (w_batches w ! k) (w_groups w) (w_table w) of ((st', bs), t') \<Rightarrow>
       \<lparr>w_groups = st', w_batches = take k (w_batches w) @ bs @ drop (Suc k) (w_batches w), w_table = t'\<rparr>)
     else w)"
| "lg_step (Elsewhere f) w = w\<lparr>w_table := f (w_table w)\<rparr>"
| "lg_step (Cleanup hasWorkers n) w = w\<lparr>w_groups := cleanupLocalGroupTracking hasWorkers n (w_groups w)\<rparr>"
| "lg_step StopAll w = w\<lparr>w_groups := clear_config (w_groups w)\<rparr>"

definition lg_run :: "lg_op list \<Rightarrow> job list \<Rightarrow> lg_world" where
  "lg_run ops t = fold lg_step ops \<lparr>w_groups = no_groups, w_batches = [], w_table = t\<rparr>"

text \<open>The slots the batches hold, and the jobs of a group that tracking workers have let through: they
  wait for the restore of the excess, or their handler runs, or may still run.\<close>

definition slots :: "str \<Rightarrow> str \<Rightarrow> running_batch list \<Rightarrow> nat" where
  "slots n g bs = sum_list (map (\<lambda>b. if rb_queue b = n then of_group g (rb_grouped b) else 0) bs)"

definition let_through :: "str \<Rightarrow> str \<Rightarrow> running_batch list \<Rightarrow> nat" where
  "let_through n g bs = sum_list (map (\<lambda>b. if rb_queue b = n \<and> rb_stage b \<noteq> Untracked
     then of_group g (rb_allowed b) else 0) bs)"

lemma slots_simps [simp]:
  "slots n g [] = 0"
  "slots n g (b # bs) = (if rb_queue b = n then of_group g (rb_grouped b) else 0) + slots n g bs"
  "slots n g (bs @ cs) = slots n g bs + slots n g cs"
  by (simp_all add: slots_def)

definition batch_ok :: "running_batch \<Rightarrow> bool" where
  "batch_ok b = (rb_grouped b = (if rb_stage b = Untracked then []
     else filter (\<lambda>j. \<not> no_group j) (rb_allowed b)))"

definition lg_ok :: "lg_world \<Rightarrow> bool" where
  "lg_ok w = ((\<forall>n g. lg_count (w_groups w) n g = slots n g (w_batches w)) \<and>
     list_all batch_ok (w_batches w))"

lemma batch_grouped: "batch_ok b \<Longrightarrow> list_all (\<lambda>j. \<not> no_group j) (rb_grouped b)"
  by (auto simp: batch_ok_def list_all_iff)

lemma slots_split:
  "k < length bs \<Longrightarrow> slots n g bs = slots n g [bs ! k] + slots n g (take k bs @ drop (Suc k) bs)"
proof -
  assume "k < length bs"
  hence "slots n g bs = slots n g (take k bs @ bs ! k # drop (Suc k) bs)" by (simp add: id_take_nth_drop [symmetric])
  thus ?thesis by simp
qed

text \<open>Every step of a batch keeps its slots or frees exactly them.\<close>

lemma begin_counts:
  assumes "onFetch_begin tracks n js st = (st', bs)"
  shows "lg_count st' m g = lg_count st m g + slots m g bs" "list_all batch_ok bs" "lg_config st' = lg_config st"
proof -
  obtain st1 al ex gr where t: "trackLocalGroupStart n js st = (st1, al, ex, gr)" by (metis prod_cases4)
  show "lg_count st' m g = lg_count st m g + slots m g bs" "list_all batch_ok bs" "lg_config st' = lg_config st"
    using assms start_effect [OF t] t by (auto simp: onFetch_begin_def batch_ok_def split: if_splits)
qed

definition moves :: "local_groups \<Rightarrow> running_batch list \<Rightarrow> local_groups \<Rightarrow> running_batch list \<Rightarrow> bool" where
  "moves st bs st' bs' = (lg_config st' = lg_config st \<and> list_all batch_ok bs' \<and>
     (\<forall>m g. lg_count st' m g + slots m g bs = lg_count st m g + slots m g bs' \<and>
        lg_count st' m g \<le> lg_count st m g))"

lemma finally_moves:
  assumes b: "batch_ok b" "rb_stage b \<noteq> Untracked" and le: "\<And>m g. slots m g [b] \<le> lg_count st m g"
    and f: "onFetch_finally abandoned b st = (st', bs)"
  shows "moves st [b] st' bs"
proof -
  note e = end_effect [OF batch_grouped [OF b(1)], of "rb_queue b" st]
  have "lg_count (trackLocalGroupEnd (rb_queue b) (rb_grouped b) st) m g + slots m g [b] = lg_count st m g" for m g
    using e(1) [of m g] le [of m g] by auto
  moreover have "lg_count (trackLocalGroupEnd (rb_queue b) (rb_grouped b) st) m g \<le> lg_count st m g" for m g
    using e(1) [of m g] by simp
  ultimately show ?thesis
    using b f e(2) by (cases abandoned) (auto simp: onFetch_finally_def moves_def batch_ok_def)
qed

lemma stage_moves:
  "batch_ok b \<Longrightarrow> rb_stage b \<noteq> Untracked \<Longrightarrow> s \<noteq> Untracked \<Longrightarrow> moves st [b] st [b\<lparr>rb_stage := s\<rparr>]"
  by (simp add: moves_def batch_ok_def)

lemma next_moves:
  assumes b: "batch_ok b" and le: "\<And>m g. slots m g [b] \<le> lg_count st m g"
    and f: "onFetch_next ev b st t = ((st', bs), t')"
  shows "moves st [b] st' bs"
proof -
  have fin: "moves st [b] st' bs" if "rb_stage b \<noteq> Untracked" "onFetch_finally x b st = (st', bs)" for x
    by (rule finally_moves [OF b that(1) le that(2)])
  have same: "moves st [b] st [b]" using b by (simp add: moves_def)
  show ?thesis
  proof (cases "rb_stage b")
    case Untracked
    hence "rb_grouped b = []" using b by (simp add: batch_ok_def)
    thus ?thesis using f Untracked same
      by (cases ev) (auto simp: onFetch_next_def moves_def)
  next
    case (Restoring ids)
    have "moves st [b] st' bs" if "onFetch_restore ids b st t = ((st', bs), t')"
      using that fin [of False] Restoring stage_moves [OF b, of Handling st]
      by (auto simp: onFetch_restore_def split: sum.splits if_splits)
    thus ?thesis using f Restoring same by (cases ev) (auto simp: onFetch_next_def)
  next
    case Handling
    thus ?thesis using f fin same stage_moves [OF b, of Overrun st]
      by (cases ev) (auto simp: onFetch_next_def)
  next
    case Overrun
    thus ?thesis using f fin same by (cases ev) (auto simp: onFetch_next_def)
  next
    case Abandoned
    thus ?thesis using f fin [of False] same
      by (cases ev) (auto simp: onFetch_next_def onFetch_finally_def)
  qed
qed

lemma lg_ok_event:
  assumes ok: "lg_ok w" and k: "k < length (w_batches w)"
    and f: "onFetch_next ev (w_batches w ! k) (w_groups w) (w_table w) = ((st', bs), t')"
  shows "moves (w_groups w) [w_batches w ! k] st' bs"
    "lg_ok \<lparr>w_groups = st', w_batches = take k (w_batches w) @ bs @ drop (Suc k) (w_batches w), w_table = t'\<rparr>"
proof -
  let ?bs = "w_batches w" and ?b = "w_batches w ! k"
  have cnt: "lg_count (w_groups w) m g = slots m g [?b] + slots m g (take k ?bs @ drop (Suc k) ?bs)" for m g
    using ok slots_split [OF k, of m g] by (simp add: lg_ok_def)
  have bok: "batch_ok ?b" using ok k by (simp add: lg_ok_def list_all_length)
  show mv: "moves (w_groups w) [?b] st' bs" by (rule next_moves [OF bok _ f]) (simp only: cnt le_add1)
  have "lg_count st' m g = slots m g (take k ?bs @ bs @ drop (Suc k) ?bs)" for m g
  proof -
    have "lg_count st' m g + slots m g [?b] = lg_count (w_groups w) m g + slots m g bs"
      using mv by (simp add: moves_def)
    thus ?thesis unfolding cnt by simp
  qed
  moreover have "list_all batch_ok (take k ?bs @ bs @ drop (Suc k) ?bs)"
  proof -
    have "list_all batch_ok bs" using mv by (simp add: moves_def)
    moreover have "\<forall>b\<in>set ?bs. batch_ok b" using ok by (simp add: lg_ok_def list_all_iff)
    ultimately show ?thesis by (auto simp: list_all_iff dest: in_set_takeD in_set_dropD)
  qed
  ultimately show "lg_ok \<lparr>w_groups = st', w_batches = take k ?bs @ bs @ drop (Suc k) ?bs, w_table = t'\<rparr>"
    by (simp add: lg_ok_def)
qed

lemma lg_ok_step:
  assumes "lg_ok w" shows "lg_ok (lg_step op w)"
proof (cases op)
  case (OnFetch tracks n js)
  obtain st' bs where f: "onFetch_begin tracks n js (w_groups w) = (st', bs)" by fastforce
  show ?thesis using OnFetch f assms begin_counts(1,2) [OF f] by (simp add: lg_ok_def)
next
  case (BatchEvent k ev)
  show ?thesis
  proof (cases "k < length (w_batches w)")
    case True
    obtain st' bs t' where f: "onFetch_next ev (w_batches w ! k) (w_groups w) (w_table w) = ((st', bs), t')"
      by (metis prod.collapse)
    show ?thesis using BatchEvent True f lg_ok_event(2) [OF assms True f] by simp
  qed (use BatchEvent assms in simp)
qed (use assms in \<open>simp_all add: lg_ok_def\<close>)

lemma lg_ok_fold: "lg_ok w \<Longrightarrow> lg_ok (fold lg_step ops w)"
proof (induction ops arbitrary: w)
  case (Cons op ops)
  thus ?case using lg_ok_step [of w op] by simp
qed simp

lemma lg_ok_run: "lg_ok (lg_run ops t)"
  unfolding lg_run_def by (rule lg_ok_fold) (simp add: lg_ok_def no_groups_def lg_count_def)

lemma of_group_filter: "of_group g (filter (\<lambda>j. \<not> no_group j) js) = (if g = [] then 0 else of_group g js)"
  by (induction js) (auto simp: no_group_def)

lemma slots_let_through:
  "list_all batch_ok bs \<Longrightarrow> slots n g bs = (if g = [] then 0 else let_through n g bs)"
  by (induction bs) (auto simp: let_through_def batch_ok_def of_group_filter)

text \<open>(C38) The slots of \<^verbatim>\<open>localGroupConcurrency\<close> are accounted for: at every moment of every run,
  the count of a group is the number of its jobs that workers with a limit have let through and whose
  handler has not settled, an overrun handler and one that \<^verbatim>\<open>stop()\<close> left behind included, whatever is
  configured, cleaned up or stopped meanwhile and whether or not the excess could be restored.  So no slot
  leaks: when no such batch is left, every count is zero.  The jobs of a worker without a limit, and jobs
  without a group, are not counted.\<close>

theorem local_slots_accounted:
  "lg_count (w_groups (lg_run ops t)) n g =
    (if g = [] then 0 else let_through n g (w_batches (lg_run ops t)))"
  using lg_ok_run [of ops t] by (simp add: lg_ok_def slots_let_through)

section \<open>The local limit\<close>

text \<open>A queue configured one way, with limits that are not negative, and never cleared.\<close>

definition keeps_config :: "str \<Rightarrow> local_config \<Rightarrow> lg_op \<Rightarrow> bool" where
  "keeps_config n c op = (case op of StoreConfig m d \<Rightarrow> m = n \<longrightarrow> d = c
     | Cleanup w m \<Rightarrow> m = n \<longrightarrow> w | StopAll \<Rightarrow> False | _ \<Rightarrow> True)"

lemma foldl_max: "(a::int) \<le> foldl max a xs \<and> (\<forall>x\<in>set xs. x \<le> foldl max a xs)"
proof (induction xs arbitrary: a)
  case (Cons x xs)
  from Cons.IH [of "max a x"] show ?case by auto
qed simp

lemma limit_le_max:
  assumes "map_of (lg_config st) n = Some c" "below_limit k (getLocalGroupLimit st n tier)"
  shows "int k < max_limit c"
proof (cases "lc_tiers c")
  case None
  thus ?thesis using assms by (auto simp: getLocalGroupLimit_def max_limit_def split: option.splits)
next
  case (Some ts)
  have d: "lc_default c \<le> max_limit c" and t: "\<And>l. l \<in> set (map snd ts) \<Longrightarrow> l \<le> max_limit c"
    using foldl_max [of "lc_default c" "map snd ts"] Some by (auto simp: max_limit_def)
  have "l \<le> max_limit c" if "map_of ts x = Some l" for x l
    using t map_of_SomeD [OF that] by force
  hence "int k < lc_default c \<or> (\<exists>l. int k < l \<and> l \<le> max_limit c)"
    using assms Some by (auto simp: getLocalGroupLimit_def split: option.splits if_splits)
  thus ?thesis using d by auto
qed

lemma start_within:
  assumes "trackLocalGroupStart n js st = (st', al, ex, gr)" "map_of (lg_config st) n = Some c"
    and "int (lg_count st n g) \<le> max 0 (max_limit c)"
  shows "int (lg_count st' n g) \<le> max 0 (max_limit c)"
  using assms
proof (induction js arbitrary: st al ex gr)
  case (Cons j js)
  let ?s = "if no_group j \<or> \<not> below_limit (lg_count st n (the (group_id j)))
      (getLocalGroupLimit st n (group_tier j)) then st
    else incrementLocalGroupCount n (the (group_id j)) st"
  obtain al0 ex0 gr0 where r: "trackLocalGroupStart n js ?s = (st', al0, ex0, gr0)"
    using Cons.prems(1) by (simp split: if_splits prod.splits)
  have "map_of (lg_config ?s) n = Some c" using Cons.prems(2) by simp
  moreover have "int (lg_count ?s n g) \<le> max 0 (max_limit c)"
    using Cons.prems(3) limit_le_max [OF Cons.prems(2), of "lg_count st n g" "group_tier j"]
    by (auto simp: lg_count_increment)
  ultimately show ?case by (rule Cons.IH [OF r])
qed simp

lemma begin_within:
  assumes "onFetch_begin tracks m js st = (st', bs)" "map_of (lg_config st) n = Some c"
    and "int (lg_count st n g) \<le> max 0 (max_limit c)"
  shows "int (lg_count st' n g) \<le> max 0 (max_limit c)"
proof -
  obtain st1 al ex gr where t: "trackLocalGroupStart m js st = (st1, al, ex, gr)" by (metis prod_cases4)
  have "int (lg_count st1 n g) \<le> max 0 (max_limit c)"
  proof (cases "m = n")
    case True
    thus ?thesis using start_within [of n js st st1 al ex gr c g] t assms by simp
  next
    case False
    thus ?thesis using start_effect(1) [OF t, of n g] assms(3) by simp
  qed
  thus ?thesis using assms t by (auto simp: onFetch_begin_def split: if_splits)
qed

lemma limit_step:
  assumes ok: "lg_ok w" and k: "keeps_config n c op" and cf: "map_of (lg_config (w_groups w)) n = Some c"
    and le: "int (lg_count (w_groups w) n g) \<le> max 0 (max_limit c)"
  shows "map_of (lg_config (w_groups (lg_step op w))) n = Some c \<and>
    int (lg_count (w_groups (lg_step op w)) n g) \<le> max 0 (max_limit c)"
proof (cases op)
  case (OnFetch tracks m js)
  obtain st' bs where f: "onFetch_begin tracks m js (w_groups w) = (st', bs)" by fastforce
  show ?thesis using OnFetch f cf begin_counts(3) [OF f] begin_within [OF f cf le] by simp
next
  case (BatchEvent i ev)
  show ?thesis
  proof (cases "i < length (w_batches w)")
    case True
    obtain st' bs t' where f: "onFetch_next ev (w_batches w ! i) (w_groups w) (w_table w) = ((st', bs), t')"
      by (metis prod.collapse)
    have "lg_config st' = lg_config (w_groups w)" "lg_count st' n g \<le> lg_count (w_groups w) n g"
      using lg_ok_event(1) [OF ok True f] by (simp_all add: moves_def)
    thus ?thesis using BatchEvent True f cf le by simp
  qed (use BatchEvent cf le in simp)
qed (use cf le k in \<open>auto simp: keeps_config_def storeLocalGroupConfig_def cleanupLocalGroupTracking_def
      update_conv' delete_conv' lg_count_def split: if_splits\<close>)

lemma within_fold:
  assumes "lg_ok w" "map_of (lg_config (w_groups w)) n = Some c" "list_all (keeps_config n c) ops"
    and "int (lg_count (w_groups w) n g) \<le> max 0 (max_limit c)"
  shows "int (lg_count (w_groups (fold lg_step ops w)) n g) \<le> max 0 (max_limit c)"
  using assms
proof (induction ops arbitrary: w)
  case (Cons op ops)
  hence "map_of (lg_config (w_groups (lg_step op w))) n = Some c \<and>
      int (lg_count (w_groups (lg_step op w)) n g) \<le> max 0 (max_limit c)"
    by (intro limit_step) simp_all
  thus ?case using Cons.IH [OF lg_ok_step [OF Cons.prems(1)]] Cons.prems(3) by simp
qed simp

text \<open>The limit holds: from the \<^verbatim>\<open>work()\<close> call that configures a queue on, while some worker of it
  keeps the configuration alive, no group ever holds more slots than the largest limit configured, however
  batches overlap.\<close>

theorem local_limit_respected:
  assumes "list_all (keeps_config n c) ops" "0 \<le> max_limit c"
  shows "int (lg_count (w_groups (lg_run (StoreConfig n c # ops) t)) n g) \<le> max_limit c"
proof -
  let ?w = "\<lparr>w_groups = storeLocalGroupConfig n c no_groups, w_batches = [], w_table = t\<rparr>"
  have "lg_ok ?w" "map_of (lg_config (w_groups ?w)) n = Some c" "lg_count (w_groups ?w) n g = 0"
    by (simp_all add: lg_ok_def no_groups_def storeLocalGroupConfig_def lg_count_def)
  hence "int (lg_count (w_groups (fold lg_step ops ?w)) n g) \<le> max 0 (max_limit c)"
    using within_fold assms(1) by simp
  thus ?thesis using assms(2) by (simp add: lg_run_def)
qed

definition one_each :: local_config where
  "one_each = \<lparr>lc_default = 1, lc_tiers = None\<rparr>"

definition two_of_group :: "job list" where
  "two_of_group = [claim_row 9 (racer 1), claim_row 9 (racer 2)]"

lemma local_limit_respected_witness:
  "int (lg_count (w_groups (lg_run [StoreConfig ''q'' one_each, OnFetch True ''q'' two_of_group,
     OnFetch True ''q'' two_of_group] [])) ''q'' ''g'') \<le> 1"
  using local_limit_respected [of "''q''" one_each
      "[OnFetch True ''q'' two_of_group, OnFetch True ''q'' two_of_group]" "[]" "''g''"]
  by (simp add: keeps_config_def one_each_def max_limit_def)

text \<open>It does not hold through a shutdown: the manager's \<^verbatim>\<open>stop()\<close> clears the configuration while
  a fetch may be in flight, and the batch that fetch returns then starts with no limit at all, though the
  counts are kept for exactly this case.\<close>

theorem stop_lifts_local_limit:
  "let_through ''q'' ''g'' (w_batches (lg_run [StoreConfig ''q'' one_each, StopAll,
     OnFetch True ''q'' two_of_group] [])) = 2 \<and> 2 > max_limit one_each"
  by (simp add: lg_run_def one_each_def max_limit_def two_of_group_def racer_def claim_row_def sample_job_def
      job_defaults_def no_group_def clear_config_def storeLocalGroupConfig_def no_groups_def
      getLocalGroupLimit_def incrementLocalGroupCount_def onFetch_begin_def let_through_def Let_def)

section \<open>Excess that cannot go back\<close>

text \<open>A group is left out of a fetch exactly when no job of it could be let through: none of any tier is
  below the largest limit.\<close>

lemma capacity_exact:
  assumes "map_of (lg_config st) n = Some c" "map_of (lg_max st) n = Some (max_limit c)"
    "map_of (lg_active st) n = Some gs" "distinct (map fst gs)" "g \<in> fst ` set gs"
  shows "g \<in> set (getGroupsAtLocalCapacity st n) \<longleftrightarrow> max_limit c \<le> int (lg_count st n g)"
  using assms
  by (auto simp: getGroupsAtLocalCapacity_def lg_count_def coalesce_def image_iff split: option.splits)
    (metis map_of_is_SomeI option.inject)+

text \<open>In a \<^verbatim>\<open>short\<close> or \<^verbatim>\<open>stately\<close> queue a job over the local limit may not fit back
  into \<^verbatim>\<open>created\<close>, where another job of its key waits by now.  \<^verbatim>\<open>#giveBack\<close> handles that case for
  \<^verbatim>\<open>groupConcurrency\<close>; \<^verbatim>\<open>onFetch\<close> does not: its restore fails as a whole, no handler runs, and every
  job of the batch, those within the limit included, stays active with nobody working on it until it
  expires.\<close>

theorem excess_conflict_strands:
  assumes ok: "table_ok t" and js: "\<And>j. j \<in> set jobs \<Longrightarrow> j \<in> set t \<and> job_name j = n \<and> state j = Active"
    and tr: "trackLocalGroupStart n jobs st = (st1, allowed, excess, grouped)"
    and e: "e \<in> set excess" "policy e = Some Short \<or> policy e = Some Stately"
    and x: "x \<in> set t" "job_name x = n" "state x = Created" "policy x = policy e" "skey x = skey e"
  shows "\<exists>b. onFetch_begin True n jobs st = (st1, [b]) \<and>
    onFetch_next RestoreRuns b st1 t = ((trackLocalGroupEnd n grouped st1, []), t) \<and>
    (\<forall>j\<in>set jobs. j \<in> set t \<and> state j = Active) \<and>
    (\<exists>given. giveBack False n (map job_id excess) t = Inr (given_back n given t, given, False))"
proof -
  let ?ids = "map job_id excess" and ?t = "upd_where (restore_sel n (map job_id excess)) restore_chg t"
  have sub: "set excess \<subseteq> set jobs" using start_effect(5) [OF tr] by blast
  hence et: "e \<in> set t" "job_name e = n" "state e = Active" using e(1) js by auto
  have "\<not> restore_sel n ?ids x"
  proof
    assume "restore_sel n ?ids x"
    then obtain r where "r \<in> set excess" "job_id r = job_id x" by (auto simp: restore_sel_def)
    moreover from this have "r \<in> set t" "job_name r = n" "state r = Active" using sub js by auto
    ultimately have "r = x" using x by (intro id_names_row [OF ok]) auto
    thus False using \<open>state r = Active\<close> x(3) by simp
  qed
  hence mem: "x \<in> set ?t" "restore_chg e \<in> set ?t"
    using x et e(1) by (auto simp: set_upd_where restore_sel_def)
  have "\<not> table_ok ?t"
  proof
    assume ok': "table_ok ?t"
    have "conflict x (restore_chg e)"
      using x e(2) et by (auto simp: conflict_def job_i1_def job_i3_def restore_chg_def skey_def)
    hence "x = restore_chg e" by (rule table_ok_conflict_eq [OF ok' mem])
    hence "job_key x = job_key e" by (simp add: restore_key)
    hence "x = e" using table_ok_key_eq [OF ok] x(1) et(1) by blast
    thus False using x(3) et(3) by simp
  qed
  hence "restore n ?ids t \<noteq> Inr t'" for t' by (auto simp: restore_Inr_iff)
  moreover have ne: "?ids \<noteq> []" using e(1) by auto
  ultimately have "restore n ?ids t = Inl (SqlError UniqueViolation)"
    using restore_error [OF ok ne, of n] by (cases "restore n ?ids t") auto
  moreover have "jobs \<noteq> []" using e(1) sub by auto
  ultimately have "\<exists>b. onFetch_begin True n jobs st = (st1, [b]) \<and>
      onFetch_next RestoreRuns b st1 t = ((trackLocalGroupEnd n grouped st1, []), t)"
    using tr ne by (auto simp: onFetch_begin_def onFetch_next_def onFetch_restore_def onFetch_finally_def)
  moreover obtain given where "giveBack False n ?ids t = Inr (given_back n given t, given, False)"
    using giveBack_total [OF ok ne, of False n] by metis
  ultimately show ?thesis using js by blast
qed

text \<open>Two jobs of one group in a stately queue, claimed together, and a third under the second's key sent
  meanwhile.\<close>

definition keyed :: "nat \<Rightarrow> str \<Rightarrow> job" where
  "keyed i k = racer i \<lparr>policy := Some Stately, singleton_key := Some k\<rparr>"

definition keyed_table :: "job list" where
  "keyed_table = [claim_row 9 (keyed 1 ''a''), claim_row 9 (keyed 2 ''b''), keyed 3 ''b'']"

definition limited :: local_groups where
  "limited = storeLocalGroupConfig ''q'' one_each no_groups"

lemma excess_conflict_strands_witness:
  "\<exists>st1 b st2. onFetch_begin True ''q'' [claim_row 9 (keyed 1 ''a''), claim_row 9 (keyed 2 ''b'')] limited = (st1, [b]) \<and>
    onFetch_next RestoreRuns b st1 keyed_table = ((st2, []), keyed_table)"
proof -
  let ?js = "[claim_row 9 (keyed 1 ''a''), claim_row 9 (keyed 2 ''b'')]"
  have ok: "table_ok keyed_table"
    by (simp add: keyed_table_def keyed_def racer_def eval_defs claim_row_def)
  have js: "j \<in> set keyed_table \<and> job_name j = ''q'' \<and> state j = Active" if "j \<in> set ?js" for j
    using that by (auto simp: keyed_table_def keyed_def racer_def claim_row_def sample_job_def job_defaults_def)
  obtain st1 where tr: "trackLocalGroupStart ''q'' ?js limited =
      (st1, [claim_row 9 (keyed 1 ''a'')], [claim_row 9 (keyed 2 ''b'')], [claim_row 9 (keyed 1 ''a'')])"
    by (simp add: limited_def one_each_def keyed_def racer_def claim_row_def sample_job_def
        job_defaults_def no_group_def storeLocalGroupConfig_def no_groups_def
        getLocalGroupLimit_def incrementLocalGroupCount_def lg_count_def)
  show ?thesis
    using excess_conflict_strands [OF ok js tr, of "claim_row 9 (keyed 2 ''b'')" "keyed 3 ''b''"]
    by (auto simp: keyed_table_def keyed_def racer_def claim_row_def sample_job_def job_defaults_def skey_def)
qed

end
