(* ===== verification/Batch.thy ===== *)
theory Batch
  imports Fail_Props
begin

text \<open>
  A batch and its settlement, \<^verbatim>\<open>#processJobs\<close> of \<^verbatim>\<open>src/src/manager.ts\<close>: a transactional worker
  runs the handler and the completion in one transaction, which commits only while the worker holds the
  claim of every job (\<^verbatim>\<open>#handlerAttempts\<close>, \<^verbatim>\<open>#trackHandlerSettle\<close>, \<^verbatim>\<open>#assertClaimHeld\<close>);
  a handler with \<^verbatim>\<open>perJobResults\<close> has each job settled by its own result (\<^verbatim>\<open>#settlePerJob\<close>), by
  statements that commit one by one, and when one raises the whole batch is failed.

  The transaction runs at read committed: its statements see what others have committed and what it wrote
  itself, and a row it wrote is locked until it ends.  So its state is the committed table, which other
  sessions go on changing, the table as its own statements see it, and the keys it holds locked; beside
  them the handler's own data, a value of any type.  A commit publishes what the transaction sees, a
  rollback leaves what is committed.

  A handler may also set savepoints on its transaction and roll back to the last one
  (\<^verbatim>\<open>docs/api/workers.md\<close> advises it around a statement that may raise).  That takes back what the
  transaction wrote since, in the table and in the handler's data, and the locks it took; the ids of the
  jobs the handler settled are a JavaScript set, which no rollback reaches.
\<close>

section \<open>The transaction\<close>

text \<open>A savepoint: the view, the locks and the handler's data at that point.  The settled ids are kept
  for the proofs only, no rollback reads them.\<close>

record 'u savepoint =
  sv_view :: "job list"
  sv_locked :: "(str \<times> uuid) list"
  sv_user :: 'u
  sv_settled :: "uuid list"

record 'u txn =
  tx_base :: "job list"
  tx_view :: "job list"
  tx_locked :: "(str \<times> uuid) list"
  tx_user :: 'u
  tx_settled :: "uuid list"
  tx_aborted :: bool
  tx_saves :: "'u savepoint list"

definition begin_tx :: "job list \<Rightarrow> 'u \<Rightarrow> 'u txn" where
  "begin_tx t u = \<lparr>tx_base = t, tx_view = t, tx_locked = [], tx_user = u, tx_settled = [],
     tx_aborted = False, tx_saves = []\<rparr>"

definition on_keys :: "(str \<times> uuid) list \<Rightarrow> job list \<Rightarrow> job list" where
  "on_keys ks t = filter (\<lambda>j. job_key j \<in> set ks) t"

definition off_keys :: "(str \<times> uuid) list \<Rightarrow> job list \<Rightarrow> job list" where
  "off_keys ks t = filter (\<lambda>j. job_key j \<notin> set ks) t"

text \<open>The locked rows as the transaction sees them, beside what is committed of the others.\<close>

definition overlay :: "(str \<times> uuid) list \<Rightarrow> job list \<Rightarrow> job list \<Rightarrow> job list" where
  "overlay ks base view = off_keys ks base @ on_keys ks view"

text \<open>Another session's change.  One that would touch a locked row, or take an index entry of a row the
  transaction wrote in any version it may still commit, waits for the transaction and so does not happen
  before it ends.\<close>

definition peer_step :: "(job list \<Rightarrow> job list) \<Rightarrow> 'u txn \<Rightarrow> 'u txn" where
  "peer_step f s = (
     let base = f (tx_base s); view = overlay (tx_locked s) base (tx_view s)
     in if on_keys (tx_locked s) base = on_keys (tx_locked s) (tx_base s) \<and> table_ok base \<and> table_ok view \<and>
          list_all (\<lambda>v. table_ok (overlay (sv_locked v) base (sv_view v))) (tx_saves s)
        then s\<lparr>tx_base := base, tx_view := view\<rparr> else s)"

text \<open>\<^verbatim>\<open>SAVEPOINT\<close> and \<^verbatim>\<open>ROLLBACK TO SAVEPOINT\<close> on the last one, which stays set.  The rollback is
  accepted in an aborted transaction and takes it out of that state; one without a savepoint is an
  error.\<close>

definition set_savepoint :: "'u txn \<Rightarrow> 'u txn" where
  "set_savepoint s = (if tx_aborted s then s else s\<lparr>tx_saves := \<lparr>sv_view = tx_view s,
     sv_locked = tx_locked s, sv_user = tx_user s, sv_settled = tx_settled s\<rparr> # tx_saves s\<rparr>)"

definition rollback_to :: "'u txn \<Rightarrow> 'u txn" where
  "rollback_to s = (case tx_saves s of
     [] \<Rightarrow> s\<lparr>tx_aborted := True\<rparr>
   | v # vs \<Rightarrow> s\<lparr>tx_view := overlay (sv_locked v) (tx_base s) (sv_view v), tx_locked := sv_locked v,
       tx_user := sv_user v, tx_aborted := False\<rparr>)"

definition written :: "job list \<Rightarrow> job list \<Rightarrow> (str \<times> uuid) list" where
  "written t t' = map job_key (filter (\<lambda>j. j \<notin> set t') t @ filter (\<lambda>j. j \<notin> set t) t')"

section \<open>Settling through the transaction\<close>

text \<open>A batch is its jobs' ids with the retry counts they were claimed at.\<close>

type_synonym batch = "(uuid \<times> int) list"

definition handlerAttempts :: "batch \<Rightarrow> uuid list \<Rightarrow> int list option" where
  "handlerAttempts claims ids = (if list_all (\<lambda>i. i \<in> fst ` set claims) ids
     then Some (map (\<lambda>i. the (map_of claims i)) ids) else None)"

definition landed :: "command_response \<Rightarrow> uuid list" where
  "landed r = (case cr_settled r of Some ids \<Rightarrow> ids
     | None \<Rightarrow> if cr_affected r < cr_requested r then [] else cr_jobs r)"

definition trackHandlerSettle :: "command_response \<Rightarrow> 'u txn \<Rightarrow> 'u txn" where
  "trackHandlerSettle r s = s\<lparr>tx_settled := tx_settled s @ landed r\<rparr>"

text \<open>A settle on \<^verbatim>\<open>{ db: tx }\<close>.  An error aborts the transaction: its later statements are
  refused.\<close>

definition settle_tx ::
  "(job list \<Rightarrow> manager_error + (job list \<times> command_response)) \<Rightarrow> 'u txn \<Rightarrow> 'u txn" where
  "settle_tx call s = (if tx_aborted s then s else case call (tx_view s) of
     Inl e \<Rightarrow> s\<lparr>tx_aborted := True\<rparr>
   | Inr (v, r) \<Rightarrow> trackHandlerSettle r
       (s\<lparr>tx_view := v, tx_locked := tx_locked s @ written (tx_view s) v\<rparr>))"

text \<open>What a handler does while it runs, interleaved with the others: settles through its transaction,
  writes of its own to it, a statement that raises, savepoints, and what other sessions commit
  meanwhile.\<close>

datatype 'u hop =
    HComplete str "id_item list" "json option" bool time
  | HFail str "id_item list" "json option" time "uuid \<Rightarrow> int"
  | HCancel str "id_item list" time
  | HDelete str "id_item list"
  | HWrite "'u \<Rightarrow> 'u"
  | HRaise
  | HSavepoint
  | HRollback
  | Peer "job list \<Rightarrow> job list"

record batch_env =
  be_queues :: "queue list"
  be_new_id :: "job \<Rightarrow> uuid"

definition delete_call ::
  "batch_env \<Rightarrow> batch \<Rightarrow> str \<Rightarrow> id_item list \<Rightarrow> job list \<Rightarrow> manager_error + (job list \<times> command_response)" where
  "delete_call env claims n items t =
     and_then (deleteJob True (handlerAttempts claims) n items t (be_queues env)) (\<lambda>(t', _, r). Inr (t', r))"

fun hstep :: "batch_env \<Rightarrow> batch \<Rightarrow> 'u hop \<Rightarrow> 'u txn \<Rightarrow> 'u txn" where
  "hstep env claims (HComplete n items out q now) s =
     settle_tx (complete False (handlerAttempts claims) n items out q now) s"
| "hstep env claims (HFail n items out now rnd) s =
     settle_tx (fail False (handlerAttempts claims) (be_queues env) (be_new_id env) n items out now rnd) s"
| "hstep env claims (HCancel n items now) s =
     settle_tx (cancel (handlerAttempts claims) n items now) s"
| "hstep env claims (HDelete n items) s = settle_tx (delete_call env claims n items) s"
| "hstep env claims (HWrite f) s = (if tx_aborted s then s else s\<lparr>tx_user := f (tx_user s)\<rparr>)"
| "hstep env claims HRaise s = s\<lparr>tx_aborted := True\<rparr>"
| "hstep env claims HSavepoint s = set_savepoint s"
| "hstep env claims HRollback s = rollback_to s"
| "hstep env claims (Peer f) s = peer_step f s"

definition hrun :: "batch_env \<Rightarrow> batch \<Rightarrow> 'u hop list \<Rightarrow> 'u txn \<Rightarrow> 'u txn" where
  "hrun env claims ops s = fold (hstep env claims) ops s"

section \<open>The batch\<close>

datatype batch_error =
    HeartbeatRefused
  | BeginFailed
  | ShutDown
  | HandlerThrew
  | ClaimLost
  | TransactionAborted
  | SettleFailed manager_error
  | CommitFailed

text \<open>\<^verbatim>\<open>#assertClaimHeld\<close>: how many jobs the completion and the handler account for.\<close>

definition accounted :: "batch \<Rightarrow> nat \<Rightarrow> uuid list \<Rightarrow> nat" where
  "accounted claims affected settled =
     affected + length (filter (\<lambda>i. i \<in> set settled) (map fst claims))"

definition attempt_args :: "batch \<Rightarrow> id_item list" where
  "attempt_args claims = map (\<lambda>(i, c). Attempt i c) claims"

definition complete_batch ::
  "batch \<Rightarrow> str \<Rightarrow> json option \<Rightarrow> time \<Rightarrow> 'u txn \<Rightarrow> batch_error + 'u txn" where
  "complete_batch claims n result now s = (if tx_aborted s then Inl TransactionAborted
     else case complete False (\<lambda>_. None) n (attempt_args claims)
         (if length claims = 1 then result else None) False now (tx_view s) of
       Inl e \<Rightarrow> Inl (SettleFailed e)
     | Inr (v, r) \<Rightarrow>
         if accounted claims (cr_affected r) (tx_settled s) < length claims then Inl ClaimLost
         else Inr (s\<lparr>tx_view := v\<rparr>))"

text \<open>How a batch runs.  It may be refused before its handler starts: by the assertion on the backend's
  heartbeats, by a transaction that would not begin or take its timeout, by a shutdown whose grace is
  over.  A handler that returned has a result; one that threw, or that the timeout ended, has none; a
  shutdown may have abandoned the batch while it ran.  The commit itself may fail.\<close>

record handler_run =
  hr_refused :: "batch_error option"
  hr_result :: "json option option"
  hr_aborted :: bool
  hr_commit_fails :: bool

datatype batch_outcome = Committed | RolledBack batch_error

definition process_transactional ::
  "batch_env \<Rightarrow> str \<Rightarrow> batch \<Rightarrow> 'u hop list \<Rightarrow> handler_run \<Rightarrow> json option \<Rightarrow> time \<Rightarrow> (uuid \<Rightarrow> int) \<Rightarrow>
   job list \<Rightarrow> 'u \<Rightarrow> batch_outcome \<times> 'u \<times> (manager_error + job list)" where
  "process_transactional env n claims ops h err now rnd t u = (
     let s = (if hr_refused h = None then hrun env claims ops (begin_tx t u) else begin_tx t u);
       ended = (case hr_refused h of Some e \<Rightarrow> Inl e
         | None \<Rightarrow> (case hr_result h of None \<Rightarrow> Inl HandlerThrew
           | Some result \<Rightarrow> if hr_aborted h then Inl ShutDown
               else and_then (complete_batch claims n result now s) (\<lambda>s'.
                 if hr_commit_fails h then Inl CommitFailed else Inr s')))
     in case ended of
       Inr s' \<Rightarrow> (Committed, tx_user s', Inr (tx_view s'))
     | Inl e \<Rightarrow> (RolledBack e, u,
         and_then (fail False (\<lambda>_. None) (be_queues env) (be_new_id env) n (attempt_args claims) err now rnd
           (tx_base s)) (\<lambda>(t', _). Inr t')))"

section \<open>Invariants of the transaction\<close>

text \<open>A claim is held while its row is active at the attempt.\<close>

definition held :: "str \<Rightarrow> uuid \<Rightarrow> int \<Rightarrow> job list \<Rightarrow> bool" where
  "held n i c t = list_ex (\<lambda>j. job_name j = n \<and> job_id j = i \<and> state j = Active \<and> retry_count j = c) t"

text \<open>A settle on the transaction reaches the batch only: plain ids of its jobs, or its jobs
  themselves.\<close>

definition within_batch :: "str \<Rightarrow> batch \<Rightarrow> str \<Rightarrow> id_item list \<Rightarrow> bool" where
  "within_batch n claims m items = (m = n \<and> (\<forall>x\<in>set items. case x of
     PlainId i \<Rightarrow> i \<in> fst ` set claims
   | Attempt i c \<Rightarrow> (i, c) \<in> set claims
   | OtherItem \<Rightarrow> True))"

fun settles_batch :: "str \<Rightarrow> batch \<Rightarrow> 'u hop \<Rightarrow> bool" where
  "settles_batch n claims (HComplete m items out q now) = within_batch n claims m items"
| "settles_batch n claims (HFail m items out now rnd) = within_batch n claims m items"
| "settles_batch n claims (HCancel m items now) = within_batch n claims m items"
| "settles_batch n claims (HDelete m items) = within_batch n claims m items"
| "settles_batch n claims (HWrite f) = True"
| "settles_batch n claims HRaise = True"
| "settles_batch n claims HSavepoint = True"
| "settles_batch n claims HRollback = True"
| "settles_batch n claims (Peer f) = True"

text \<open>No rollback to a savepoint undoes a settle: the handler settled nothing since it set it.\<close>

definition undoes_no_settle :: "'u txn \<Rightarrow> 'u hop \<Rightarrow> bool" where
  "undoes_no_settle s op = (case op of
     HRollback \<Rightarrow> (case tx_saves s of [] \<Rightarrow> True | v # _ \<Rightarrow> sv_settled v = tx_settled s)
   | _ \<Rightarrow> True)"

fun isolates :: "batch_env \<Rightarrow> batch \<Rightarrow> 'u hop list \<Rightarrow> 'u txn \<Rightarrow> bool" where
  "isolates env claims [] s = True"
| "isolates env claims (op # ops) s =
     (undoes_no_settle s op \<and> isolates env claims ops (hstep env claims op s))"

text \<open>A settle fenced to the claims takes rows of the batch that are active at their attempt, reports
  them, makes no row active and leaves every other row.\<close>

definition fences :: "str \<Rightarrow> batch \<Rightarrow> job list \<Rightarrow> job list \<Rightarrow> command_response \<Rightarrow> bool" where
  "fences n claims t v r = (\<exists>sel ids.
     (\<forall>j\<in>set t. sel j \<longrightarrow> job_name j = n \<and> state j = Active \<and> (job_id j, retry_count j) \<in> set claims) \<and>
     cr_settled r = Some ids \<and> set ids = job_id ` {j \<in> set t. sel j} \<and>
     (\<forall>j\<in>set v. state j = Active \<longrightarrow> j \<in> set t \<and> \<not> sel j) \<and>
     (\<forall>j\<in>set t. \<not> sel j \<longrightarrow> j \<in> set v))"

definition fenced_call ::
  "str \<Rightarrow> batch \<Rightarrow> (job list \<Rightarrow> manager_error + (job list \<times> command_response)) \<Rightarrow> bool" where
  "fenced_call n claims call = (\<forall>t v r. table_ok t \<and> call t = Inr (v, r) \<longrightarrow>
     table_ok v \<and> fences n claims t v r)"

lemma within_batch_Cons:
  "within_batch n claims m (x # items) \<longleftrightarrow> within_batch n claims m [x] \<and> within_batch n claims m items"
  by (auto simp: within_batch_def)

lemma plain_ids_within:
  "plain_ids items = Some ids \<Longrightarrow> within_batch n claims m items \<Longrightarrow> i \<in> set ids \<Longrightarrow> i \<in> fst ` set claims"
proof (induction items arbitrary: ids rule: plain_ids.induct)
  case (2 k xs)
  then obtain is' where "plain_ids xs = Some is'" "ids = k # is'" by auto
  moreover have "k \<in> fst ` set claims" "within_batch n claims m xs"
    using 2(3) unfolding within_batch_Cons [of _ _ _ _ xs] by (simp_all add: within_batch_def)
  ultimately show ?case using 2(1,4) by auto
qed simp_all

lemma attempt_items_within:
  "attempt_items items = Some ps \<Longrightarrow> within_batch n claims m items \<Longrightarrow> set ps \<subseteq> set claims"
  by (induction items arbitrary: ps rule: attempt_items.induct) (auto simp: within_batch_def split: if_splits)

lemma zip_map_sub: "set ids \<subseteq> fst ` set claims \<Longrightarrow>
    set (zip ids (map (\<lambda>i. the (map_of claims i)) ids)) \<subseteq> set claims"
proof
  fix x assume "set ids \<subseteq> fst ` set claims"
    and x: "x \<in> set (zip ids (map (\<lambda>i. the (map_of claims i)) ids))"
  then obtain i where i: "i \<in> set ids" "x = (i, the (map_of claims i))"
    by (auto simp: set_zip)
  then obtain c where "map_of claims i = Some c"
    using \<open>set ids \<subseteq> fst ` set claims\<close> by (metis image_subset_iff map_of_eq_None_iff option.exhaust subset_iff)
  thus "x \<in> set claims" using i map_of_SomeD by fastforce
qed

text \<open>Such a settle is fenced to the claims of the batch.\<close>

lemma fence_within:
  assumes "mapAttemptArg items = Inr (ids, fetched)" "within_batch n claims m items"
  obtains ps where "fence_of (handlerAttempts claims) ids fetched = Some ps" "set ps \<subseteq> set claims"
proof (cases "plain_ids items")
  case (Some xs)
  hence e: "ids = xs" "fetched = None" using assms(1) by (auto simp: mapAttemptArg_def split: if_splits)
  have sub: "set xs \<subseteq> fst ` set claims" using plain_ids_within [OF Some assms(2)] by blast
  hence "fence_of (handlerAttempts claims) ids fetched = Some (zip xs (map (\<lambda>i. the (map_of claims i)) xs))"
    using e by (auto simp: fence_of_def handlerAttempts_def list_all_iff attemptPairs_def)
  thus ?thesis using that zip_map_sub [OF sub] by blast
next
  case None
  then obtain ps where ps: "attempt_items items = Some ps" "ids = map fst ps" "fetched = Some (map snd ps)"
    using assms(1) by (auto simp: mapAttemptArg_def split: if_splits option.splits)
  hence "fence_of (handlerAttempts claims) ids fetched = Some ps"
    by (simp add: fence_of_def attemptPairs_def zip_map_fst_snd)
  thus ?thesis using that attempt_items_within [OF ps(1) assms(2)] by blast
qed

lemma fenced_sel:
  "attemptFence (Some ps) j \<Longrightarrow> set ps \<subseteq> set claims \<Longrightarrow> state j = Active \<and> (job_id j, retry_count j) \<in> set claims"
  by (auto simp: attemptFence_def)

lemma fenced_update:
  assumes "\<And>j. j \<in> set t \<Longrightarrow> sel j \<Longrightarrow> job_name j = n \<and> state j = Active \<and> (job_id j, retry_count j) \<in> set claims"
    and "\<And>j. state (chg j) \<noteq> Active" "cr_settled r = Some (map job_id (filter sel t))"
    and "v = upd_where sel chg t"
  shows "fences n claims t v r"
  unfolding fences_def using assms by (intro exI [of _ sel] exI [of _ "map job_id (filter sel t)"]) (auto simp: set_upd_where)

lemma fenced_complete:
  assumes w: "within_batch n claims m items"
  shows "fenced_call n claims (complete False (handlerAttempts claims) m items out q now)"
  unfolding fenced_call_def
proof (intro allI impI, elim conjE)
  fix t v r assume ok: "table_ok t" and call: "complete False (handlerAttempts claims) m items out q now t = Inr (v, r)"
  obtain ids fetched where arg: "mapAttemptArg items = Inr (ids, fetched)"
    using call by (auto simp: complete_def and_then_Inr_iff)
  obtain ps where f: "fence_of (handlerAttempts claims) ids fetched = Some ps" "set ps \<subseteq> set claims"
    using fence_within [OF arg w] .
  let ?sel = "complete_sel m ids q (Some ps)"
  have e: "v = upd_where ?sel (complete_chg (mapCompletionDataArg out) q now) t"
    "cr_settled r = Some (map job_id (filter ?sel t))"
    using call complete_eq [OF ok arg] f(1) by (auto simp: Let_def mapCommandResponse_def)
  have "job_name j = n \<and> state j = Active \<and> (job_id j, retry_count j) \<in> set claims" if "?sel j" for j
    using that fenced_sel [OF _ f(2)] w by (auto simp: complete_sel_def within_batch_def)
  from fenced_update [OF this _ e(2,1)] show "table_ok v \<and> fences n claims t v r"
    using complete.keeps_ok [OF ok] by (simp add: e(1) complete_chg_def)
qed

lemma fenced_cancel:
  assumes w: "within_batch n claims m items"
  shows "fenced_call n claims (cancel (handlerAttempts claims) m items now)"
  unfolding fenced_call_def
proof (intro allI impI, elim conjE)
  fix t v r assume ok: "table_ok t" and call: "cancel (handlerAttempts claims) m items now t = Inr (v, r)"
  obtain ids fetched where arg: "mapAttemptArg items = Inr (ids, fetched)"
    using call by (auto simp: cancel_def and_then_Inr_iff)
  obtain ps where f: "fence_of (handlerAttempts claims) ids fetched = Some ps" "set ps \<subseteq> set claims"
    using fence_within [OF arg w] .
  let ?sel = "cancel_sel m ids (Some ps)"
  have e: "v = upd_where ?sel (cancel_chg now) t" "cr_settled r = Some (map job_id (filter ?sel t))"
    using call cancel_eq [OF ok arg] f(1) by (auto simp: Let_def mapCommandResponse_def)
  have "job_name j = n \<and> state j = Active \<and> (job_id j, retry_count j) \<in> set claims" if "?sel j" for j
    using that fenced_sel [OF _ f(2)] w by (auto simp: cancel_sel_def within_batch_def)
  from fenced_update [OF this _ e(2,1)] show "table_ok v \<and> fences n claims t v r"
    using cancel.keeps_ok [OF ok] by (simp add: e(1) cancel_chg_def)
qed

lemma fenced_delete:
  assumes w: "within_batch n claims m items"
  shows "fenced_call n claims (delete_call env claims m items)"
  unfolding fenced_call_def
proof (intro allI impI, elim conjE)
  fix t v r assume ok: "table_ok t" and call: "delete_call env claims m items t = Inr (v, r)"
  obtain ids fetched where arg: "mapAttemptArg items = Inr (ids, fetched)"
    using call by (auto simp: delete_call_def deleteJob_def and_then_Inr_iff)
  obtain ps where f: "fence_of (handlerAttempts claims) ids fetched = Some ps" "set ps \<subseteq> set claims"
    using fence_within [OF arg w] .
  let ?sel = "delete_sel m ids (Some ps)"
  have e: "v = filter (\<lambda>j. \<not> ?sel j) t" "cr_settled r = Some (map job_id (filter ?sel t))"
    using call arg f(1)
    by (auto simp: delete_call_def deleteJob_def deleteJobsById_eq Let_def mapCommandResponse_def)
  have "job_name j = n \<and> state j = Active \<and> (job_id j, retry_count j) \<in> set claims" if "?sel j" for j
    using that fenced_sel [OF _ f(2)] w by (auto simp: delete_sel_def within_batch_def)
  thus "table_ok v \<and> fences n claims t v r"
    unfolding fences_def using e table_ok_filter [OF ok]
    by (intro conjI exI [of _ ?sel] exI [of _ "map job_id (filter ?sel t)"]) auto
qed

lemma fenced_fail:
  assumes w: "within_batch n claims m items"
  shows "fenced_call n claims (fail False (handlerAttempts claims) qs new_id m items out now rnd)"
  unfolding fenced_call_def
proof (intro allI impI, elim conjE)
  fix t v r assume ok: "table_ok t"
    and call: "fail False (handlerAttempts claims) qs new_id m items out now rnd t = Inr (v, r)"
  obtain ids fetched rs where arg: "mapAttemptArg items = Inr (ids, fetched)"
    and body: "failJobsBody qs new_id now rnd (fail_sel m ids (fence_of (handlerAttempts claims) ids fetched))
       (\<lambda>_. mapCompletionDataArg out) False t = Inr (v, rs)"
    and r: "cr_settled r = Some (map job_id rs)"
    by (rule fail_False_E [OF call])
  obtain ps where f: "fence_of (handlerAttempts claims) ids fetched = Some ps" "set ps \<subseteq> set claims"
    using fence_within [OF arg w] .
  let ?sel = "fail_sel m ids (Some ps)"
  note cons = fail_body_conserves [OF body [unfolded f(1)] fail_ids [OF ok]]
  have s: "job_name j = n \<and> state j = Active \<and> (job_id j, retry_count j) \<in> set claims" if "?sel j" for j
    using that fenced_sel [OF _ f(2)] w by (auto simp: fail_sel_def within_batch_def)
  have "j \<in> set t \<and> \<not> ?sel j" if "j \<in> set v" "state j = Active" for j
    using that cons(1,4) results_not_active dlq_rows_created by fastforce
  thus "table_ok v \<and> fences n claims t v r"
    unfolding fences_def using cons(1,2,6) r s by (intro conjI exI [of _ ?sel] exI [of _ "map job_id rs"]) auto
qed

section \<open>What a run keeps\<close>

text \<open>What the handler settled is locked and no longer held, now and at each savepoint; what the
  transaction has not locked it sees as it is committed.\<close>

definition given_up :: "str \<Rightarrow> batch \<Rightarrow> uuid list \<Rightarrow> (str \<times> uuid) list \<Rightarrow> job list \<Rightarrow> bool" where
  "given_up n claims settled locked view = (\<forall>(i, c)\<in>set claims. i \<in> set settled \<longrightarrow>
     (n, i) \<in> set locked \<and> \<not> held n i c view)"

definition save_ok :: "str \<Rightarrow> batch \<Rightarrow> job list \<Rightarrow> 'u savepoint \<Rightarrow> bool" where
  "save_ok n claims base v = (table_ok (overlay (sv_locked v) base (sv_view v)) \<and>
     given_up n claims (sv_settled v) (sv_locked v) (sv_view v))"

definition tx_ok :: "str \<Rightarrow> batch \<Rightarrow> 'u txn \<Rightarrow> bool" where
  "tx_ok n claims s = (table_ok (tx_base s) \<and> table_ok (tx_view s) \<and>
     set (off_keys (tx_locked s) (tx_view s)) = set (off_keys (tx_locked s) (tx_base s)) \<and>
     given_up n claims (tx_settled s) (tx_locked s) (tx_view s) \<and>
     list_all (save_ok n claims (tx_base s)) (tx_saves s))"

definition newly_settled :: "str \<Rightarrow> batch \<Rightarrow> 'u txn \<Rightarrow> 'u txn \<Rightarrow> bool" where
  "newly_settled n claims s s' = (\<forall>(i, c)\<in>set claims.
     i \<in> set (tx_settled s') \<longrightarrow> i \<notin> set (tx_settled s) \<longrightarrow> held n i c (tx_view s))"

lemma tx_ok_begin: "table_ok t \<Longrightarrow> tx_ok n claims (begin_tx t u)"
  by (simp add: tx_ok_def begin_tx_def given_up_def)

lemma held_iff: "held n i c t \<longleftrightarrow> (\<exists>j\<in>set t. job_name j = n \<and> job_id j = i \<and> state j = Active \<and> retry_count j = c)"
  by (simp add: held_def list_ex_iff)

lemma fences_E:
  assumes "fences n claims t v r"
  obtains sel ids where
    "\<And>j. j \<in> set t \<Longrightarrow> sel j \<Longrightarrow> job_name j = n \<and> state j = Active \<and> (job_id j, retry_count j) \<in> set claims"
    "cr_settled r = Some ids" "set ids = job_id ` {j \<in> set t. sel j}"
    "\<And>j. j \<in> set v \<Longrightarrow> state j = Active \<Longrightarrow> j \<in> set t \<and> \<not> sel j"
    "\<And>j. j \<in> set t \<Longrightarrow> \<not> sel j \<Longrightarrow> j \<in> set v"
proof -
  obtain sel ids where x:
    "\<forall>j\<in>set t. sel j \<longrightarrow> job_name j = n \<and> state j = Active \<and> (job_id j, retry_count j) \<in> set claims"
    "cr_settled r = Some ids" "set ids = job_id ` {j \<in> set t. sel j}"
    "\<forall>j\<in>set v. state j = Active \<longrightarrow> j \<in> set t \<and> \<not> sel j"
    "\<forall>j\<in>set t. \<not> sel j \<longrightarrow> j \<in> set v"
    using assms unfolding fences_def by (elim exE conjE)
  show thesis by (rule that [of sel ids]) (use x in simp_all)
qed

lemma off_overlay [simp]: "off_keys ks (overlay ks base view) = off_keys ks base"
  by (auto simp: overlay_def off_keys_def on_keys_def filter_empty_conv intro: filter_True)

lemma held_overlay: "(n, i) \<in> set ks \<Longrightarrow> held n i c (overlay ks base view) \<longleftrightarrow> held n i c view"
  by (auto simp: held_iff overlay_def off_keys_def on_keys_def job_key_def)

lemma off_written:
  assumes "set (off_keys ks t) = set (off_keys ks base)"
  shows "set (off_keys (ks @ written t v) v) = set (off_keys (ks @ written t v) base)"
proof -
  have "j \<in> set v \<longleftrightarrow> j \<in> set t" if "job_key j \<notin> set (written t v)" for j
    using that by (auto simp: written_def)
  moreover have "j \<in> set t \<longleftrightarrow> j \<in> set base" if "job_key j \<notin> set ks" for j
    using assms that by (auto simp: off_keys_def)
  ultimately show ?thesis by (auto simp: off_keys_def)
qed

text \<open>What a fresh savepoint would be rolled back to is what the transaction sees, up to the order of
  the rows.\<close>

lemma mset_off_keys:
  assumes "table_ok t" "table_ok base" "set (off_keys ks t) = set (off_keys ks base)"
  shows "mset (off_keys ks t) = mset (off_keys ks base)"
proof -
  have "distinct (off_keys ks x)" if "table_ok x" for x
    using table_ok_distinct [OF that] by (simp add: off_keys_def distinct_map)
  thus ?thesis using assms by (simp add: set_eq_iff_mset_eq_distinct)
qed

lemma overlay_self:
  assumes "table_ok t" "table_ok base" "set (off_keys ks t) = set (off_keys ks base)"
  shows "table_ok (overlay ks base t)"
proof (rule table_ok_perm [OF _ assms(1)])
  have "mset t = mset (off_keys ks t) + mset (on_keys ks t)"
    unfolding off_keys_def on_keys_def by (induction t) auto
  thus "mset t = mset (overlay ks base t)" using mset_off_keys [OF assms] by (simp add: overlay_def)
qed

lemma settle_tx_keeps:
  assumes ok: "tx_ok n claims s" and d: "distinct (map fst claims)" and f: "fenced_call n claims call"
  shows "tx_ok n claims (settle_tx call s) \<and> newly_settled n claims s (settle_tx call s)"
proof (cases "tx_aborted s")
  case True
  thus ?thesis using ok by (auto simp: settle_tx_def newly_settled_def)
next
  case no_error: False
  show ?thesis
  proof (cases "call (tx_view s)")
    case (Inl e)
    thus ?thesis using ok no_error by (auto simp: settle_tx_def newly_settled_def tx_ok_def)
  next
    case (Inr vr)
    obtain v r where call: "call (tx_view s) = Inr (v, r)" using Inr by (cases vr) auto
    let ?t = "tx_view s"
    have t: "table_ok ?t" using ok by (simp add: tx_ok_def)
    hence v: "table_ok v" and fen: "fences n claims ?t v r" using f call by (auto simp: fenced_call_def)
    obtain sel ids where
      sel: "\<And>j. j \<in> set ?t \<Longrightarrow> sel j \<Longrightarrow> job_name j = n \<and> state j = Active \<and> (job_id j, retry_count j) \<in> set claims"
      and ids: "cr_settled r = Some ids" "set ids = job_id ` {j \<in> set ?t. sel j}"
      and act: "\<And>j. j \<in> set v \<Longrightarrow> state j = Active \<Longrightarrow> j \<in> set ?t \<and> \<not> sel j"
      by (rule fences_E [OF fen]) blast
    have s': "settle_tx call s = s\<lparr>tx_view := v, tx_locked := tx_locked s @ written ?t v,
        tx_settled := tx_settled s @ ids\<rparr>"
      using no_error call ids(1) by (simp add: settle_tx_def trackHandlerSettle_def landed_def)
    have off: "set (off_keys (tx_locked s @ written ?t v) v) = set (off_keys (tx_locked s @ written ?t v) (tx_base s))"
      by (rule off_written) (use ok in \<open>simp add: tx_ok_def\<close>)
    have new: "held n i c ?t \<and> (n, i) \<in> set (written ?t v) \<and> \<not> held n i c v"
      if i: "(i, c) \<in> set claims" "i \<in> set ids" for i c
    proof -
      obtain j where j: "j \<in> set ?t" "sel j" "job_id j = i" using i(2) ids(2) by auto
      note sj = sel [OF j(1,2)]
      hence c: "retry_count j = c" using d i(1) j(3) by (metis eq_key_imp_eq_value)
      have "j \<notin> set v" using act [of j] sj j(2) by blast
      hence "(n, i) \<in> set (written ?t v)" using j sj by (force simp: written_def job_key_def)
      moreover have "\<not> held n i c v"
      proof
        assume "held n i c v"
        then obtain x where x: "x \<in> set v" "job_name x = n" "job_id x = i" "state x = Active"
          by (auto simp: held_iff)
        hence "x \<in> set ?t" "\<not> sel x" using act by blast+
        moreover from this have "x = j" using x j sj by (intro id_names_row [OF t]) auto
        ultimately show False using j(2) by simp
      qed
      ultimately show ?thesis using j sj c by (auto simp: held_iff)
    qed
    have old: "\<not> held n i c v" if "\<not> held n i c ?t" for i c
      using that act by (auto simp: held_iff)
    have "(n, i) \<in> set (tx_locked s @ written ?t v) \<and> \<not> held n i c v"
      if i: "(i, c) \<in> set claims" "i \<in> set (tx_settled s @ ids)" for i c
    proof (cases "i \<in> set ids")
      case True
      thus ?thesis using new [OF i(1)] by simp
    next
      case False
      hence "(n, i) \<in> set (tx_locked s) \<and> \<not> held n i c ?t" using ok i by (auto simp: tx_ok_def given_up_def)
      thus ?thesis using old by simp
    qed
    hence "given_up n claims (tx_settled s @ ids) (tx_locked s @ written ?t v) v"
      unfolding given_up_def by fast
    hence "tx_ok n claims (settle_tx call s)" using v ok off unfolding s' tx_ok_def by simp
    moreover have "newly_settled n claims s (settle_tx call s)"
      using new unfolding s' newly_settled_def by auto
    ultimately show ?thesis by simp
  qed
qed

lemma peer_step_keeps:
  assumes ok: "tx_ok n claims s"
  shows "tx_ok n claims (peer_step f s) \<and> newly_settled n claims s (peer_step f s)"
proof -
  let ?base = "f (tx_base s)"
  let ?view = "overlay (tx_locked s) ?base (tx_view s)"
  have g: "given_up n claims (tx_settled s) (tx_locked s) ?view"
    using ok by (auto simp: tx_ok_def given_up_def held_overlay)
  have "list_all (save_ok n claims ?base) (tx_saves s)"
    if "list_all (\<lambda>v. table_ok (overlay (sv_locked v) ?base (sv_view v))) (tx_saves s)"
    using ok that by (auto simp: tx_ok_def save_ok_def list_all_iff)
  thus ?thesis using ok g by (simp add: peer_step_def Let_def tx_ok_def newly_settled_def split_beta)
qed

lemma savepoint_keeps:
  assumes ok: "tx_ok n claims s"
  shows "tx_ok n claims (set_savepoint s) \<and> newly_settled n claims s (set_savepoint s)"
proof -
  have "table_ok (overlay (tx_locked s) (tx_base s) (tx_view s))"
    by (rule overlay_self) (use ok in \<open>simp_all add: tx_ok_def\<close>)
  thus ?thesis using ok by (simp add: set_savepoint_def tx_ok_def save_ok_def newly_settled_def split_beta)
qed

lemma rollback_keeps:
  assumes ok: "tx_ok n claims s" and w: "undoes_no_settle s HRollback"
  shows "tx_ok n claims (rollback_to s) \<and> newly_settled n claims s (rollback_to s)"
proof (cases "tx_saves s")
  case Nil
  thus ?thesis using ok by (simp add: rollback_to_def tx_ok_def newly_settled_def split_beta)
next
  case (Cons v vs)
  have v: "save_ok n claims (tx_base s) v" and e: "sv_settled v = tx_settled s"
    using ok w by (simp_all add: Cons tx_ok_def undoes_no_settle_def)
  hence "given_up n claims (tx_settled s) (sv_locked v) (overlay (sv_locked v) (tx_base s) (sv_view v))"
    by (auto simp: save_ok_def given_up_def held_overlay)
  thus ?thesis using ok v by (simp add: rollback_to_def Cons tx_ok_def save_ok_def newly_settled_def split_beta)
qed

lemma hstep_keeps:
  assumes ok: "tx_ok n claims s" and d: "distinct (map fst claims)" and w: "settles_batch n claims op"
    and i: "undoes_no_settle s op"
  shows "tx_ok n claims (hstep env claims op s) \<and> newly_settled n claims s (hstep env claims op s)"
proof (cases op)
  case (HWrite f)
  thus ?thesis using ok by (simp add: tx_ok_def newly_settled_def split_beta)
next
  case HRaise
  thus ?thesis using ok by (simp add: tx_ok_def newly_settled_def split_beta)
next
  case HSavepoint
  thus ?thesis using savepoint_keeps [OF ok] by simp
next
  case HRollback
  thus ?thesis using rollback_keeps [OF ok] i by simp
next
  case (Peer f)
  thus ?thesis using peer_step_keeps [OF ok] by simp
qed (use w in \<open>auto intro!: settle_tx_keeps [OF ok d] fenced_complete fenced_fail fenced_cancel fenced_delete\<close>)

lemma hrun_snoc: "hrun env claims (ops @ [op]) s = hstep env claims op (hrun env claims ops s)"
  by (simp add: hrun_def)

lemma isolates_snoc:
  "isolates env claims (ops @ [op]) s \<longleftrightarrow>
    isolates env claims ops s \<and> undoes_no_settle (hrun env claims ops s) op"
  by (induction ops arbitrary: s) (auto simp: hrun_def)

lemma hrun_ok:
  assumes "tx_ok n claims s" "distinct (map fst claims)" "list_all (settles_batch n claims) ops"
    "isolates env claims ops s"
  shows "tx_ok n claims (hrun env claims ops s)"
  using assms
proof (induction ops rule: rev_induct)
  case (snoc op ops)
  hence "tx_ok n claims (hrun env claims ops s)" "settles_batch n claims op"
    "undoes_no_settle (hrun env claims ops s) op" by (simp_all add: isolates_snoc)
  from hstep_keeps [OF this(1) assms(2) this(2,3), of env] show ?case by (simp add: hrun_snoc)
qed (simp add: hrun_def)

text \<open>A job the handler settled was held by this worker when it did.\<close>

lemma settled_while_held:
  assumes "tx_ok n claims s" "distinct (map fst claims)" "list_all (settles_batch n claims) ops"
    and "(i, c) \<in> set claims" "i \<in> set (tx_settled (hrun env claims ops s))" "tx_settled s = []"
    and "isolates env claims ops s"
  shows "\<exists>k<length ops. held n i c (tx_view (hrun env claims (take k ops) s)) \<and>
    i \<in> set (tx_settled (hrun env claims (take (Suc k) ops) s))"
  using assms
proof (induction ops rule: rev_induct)
  case (snoc op ops)
  have b: "list_all (settles_batch n claims) ops" "settles_batch n claims op" using snoc.prems(3) by simp_all
  have iso: "isolates env claims ops s" "undoes_no_settle (hrun env claims ops s) op"
    using snoc.prems(7) by (simp_all add: isolates_snoc)
  show ?case
  proof (cases "i \<in> set (tx_settled (hrun env claims ops s))")
    case True
    then obtain k where k: "k < length ops" "held n i c (tx_view (hrun env claims (take k ops) s))"
      "i \<in> set (tx_settled (hrun env claims (take (Suc k) ops) s))"
      using snoc.IH [OF snoc.prems(1,2) b(1) snoc.prems(4) _ snoc.prems(6) iso(1)] by blast
    thus ?thesis by (intro exI [of _ k]) simp
  next
    case False
    have "newly_settled n claims (hrun env claims ops s) (hrun env claims (ops @ [op]) s)"
      using hstep_keeps [OF hrun_ok [OF snoc.prems(1,2) b(1) iso(1)] snoc.prems(2) b(2) iso(2)]
      by (simp add: hrun_snoc)
    hence "held n i c (tx_view (hrun env claims ops s))"
      using False snoc.prems(4,5) by (auto simp: newly_settled_def)
    thus ?thesis using snoc.prems(5) by (intro exI [of _ "length ops"]) simp
  qed
qed (simp add: hrun_def)

text \<open>The writes of a handler, in order; a run that rolled nothing back and ends without an error did
  them all.\<close>

definition handler_writes :: "'u hop list \<Rightarrow> 'u \<Rightarrow> 'u" where
  "handler_writes ops u = fold (\<lambda>op u. case op of HWrite f \<Rightarrow> f u | _ \<Rightarrow> u) ops u"

lemma hstep_aborted:
  "\<not> tx_aborted (hstep env claims op s) \<Longrightarrow> op \<noteq> HRollback \<Longrightarrow> \<not> tx_aborted s \<and>
    tx_user (hstep env claims op s) = (case op of HWrite f \<Rightarrow> f (tx_user s) | _ \<Rightarrow> tx_user s)"
  by (cases op) (auto simp: settle_tx_def trackHandlerSettle_def peer_step_def set_savepoint_def Let_def
      split: if_splits sum.splits prod.splits)

lemma hrun_writes:
  "\<not> tx_aborted (hrun env claims ops s) \<Longrightarrow> HRollback \<notin> set ops \<Longrightarrow>
    \<not> tx_aborted s \<and> tx_user (hrun env claims ops s) = handler_writes ops (tx_user s)"
proof (induction ops rule: rev_induct)
  case (snoc op ops)
  from hstep_aborted [of env claims op "hrun env claims ops s"] snoc.prems
  have e: "\<not> tx_aborted (hrun env claims ops s)"
    "tx_user (hrun env claims (ops @ [op]) s) =
      (case op of HWrite f \<Rightarrow> f (tx_user (hrun env claims ops s)) | _ \<Rightarrow> tx_user (hrun env claims ops s))"
    by (auto simp: hrun_snoc)
  thus ?case using snoc.IH snoc.prems by (simp add: handler_writes_def split: hop.splits)
qed (simp add: hrun_def handler_writes_def)

section \<open>The commit\<close>

lemma attempt_args_map:
  "attempt_items (attempt_args claims) = (if list_all (\<lambda>(i, c). 0 \<le> c) claims then Some claims else None)"
  by (induction claims) (auto simp: attempt_args_def)

lemma attempt_args_arg:
  "mapAttemptArg (attempt_args claims) = Inr x \<Longrightarrow>
    mapAttemptArg (attempt_args claims) = Inr (map fst claims, Some (map snd claims))"
  by (cases claims) (auto simp: mapAttemptArg_def attempt_args_map [unfolded attempt_args_def]
      attempt_args_def split: if_splits option.splits)

lemma failed_batch_body:
  assumes f: "fail False (\<lambda>_. None) qs new_id n (attempt_args claims) err now rnd t = Inr (v, r)"
  obtains rs where "failJobsBody qs new_id now rnd (fail_sel n (map fst claims) (Some claims))
    (\<lambda>_. mapCompletionDataArg err) False t = Inr (v, rs)"
proof -
  obtain ids fetched rs where arg: "mapAttemptArg (attempt_args claims) = Inr (ids, fetched)"
    and body: "failJobsBody qs new_id now rnd (fail_sel n ids (fence_of (\<lambda>_. None) ids fetched))
       (\<lambda>_. mapCompletionDataArg err) False t = Inr (v, rs)"
    by (rule fail_False_E [OF f])
  have "ids = map fst claims" "fence_of (\<lambda>_. None) ids fetched = Some claims"
    using attempt_args_arg [OF arg] arg by (auto simp: fence_of_def attemptPairs_def zip_map_fst_snd)
  thus ?thesis using that body by metis
qed

text \<open>A batch that was failed holds no claim.\<close>

lemma failed_batch_not_held:
  assumes ok: "table_ok t"
    and f: "fail False (\<lambda>_. None) qs new_id n (attempt_args claims) err now rnd t = Inr (v, r)"
    and i: "(i, c) \<in> set claims"
  shows "\<not> held n i c v"
proof
  assume "held n i c v"
  then obtain x where x: "x \<in> set v" "job_name x = n" "job_id x = i" "state x = Active" "retry_count x = c"
    by (auto simp: held_iff)
  let ?sel = "fail_sel n (map fst claims) (Some claims)"
  obtain rs where body: "failJobsBody qs new_id now rnd ?sel (\<lambda>_. mapCompletionDataArg err) False t = Inr (v, rs)"
    by (rule failed_batch_body [OF f])
  note cons = fail_body_conserves [OF body fail_ids [OF ok]]
  have "?sel x" using x i by (force simp: fail_sel_def attemptFence_def)
  hence "x \<in> set rs \<or> x \<in> set (dlq_rows qs new_id now rs)" using x(1) cons(1) by auto
  moreover have "x \<notin> set rs" using x(4) cons(4) results_not_active by metis
  moreover have "x \<notin> set (dlq_rows qs new_id now rs)" using x(4) dlq_rows_created by fastforce
  ultimately show False by simp
qed

lemma complete_batch_Inr:
  assumes ok: "table_ok (tx_view s)" and d: "distinct (map fst claims)"
    and c: "complete_batch claims n result now s = Inr s'"
  obtains k where "\<not> tx_aborted s" "tx_user s' = tx_user s" "table_ok (tx_view s')"
    "\<And>i c. (i, c) \<in> set claims \<Longrightarrow> \<not> held n i c (tx_view s')"
    "k + length (filter (\<lambda>i. i \<in> set (tx_settled s)) (map fst claims)) \<ge> length claims"
    "k = length (filter (\<lambda>(i, c). held n i c (tx_view s)) claims)"
proof -
  let ?t = "tx_view s" and ?out = "if length claims = 1 then result else None"
  obtain v r where err: "\<not> tx_aborted s"
    and call: "complete False (\<lambda>_. None) n (attempt_args claims) ?out False now ?t = Inr (v, r)"
    and acc: "accounted claims (cr_affected r) (tx_settled s) \<ge> length claims"
    and s': "s' = s\<lparr>tx_view := v\<rparr>"
    using c by (auto simp: complete_batch_def split: option.splits sum.splits if_splits)
  obtain x where "mapAttemptArg (attempt_args claims) = Inr x"
    using call by (auto simp: complete_def and_then_Inr_iff)
  note arg = attempt_args_arg [OF this]
  let ?sel = "complete_sel n (map fst claims) False (Some claims)"
  have e: "v = upd_where ?sel (complete_chg (mapCompletionDataArg ?out) False now) ?t"
    "cr_affected r = length (filter ?sel ?t)"
    using call complete_eq [OF ok arg, of False "\<lambda>_. None" n ?out False now]
    by (auto simp: Let_def mapCommandResponse_def fence_of_def attemptPairs_def zip_map_fst_snd)
  have sel: "?sel j \<longleftrightarrow> job_name j = n \<and> state j = Active \<and> (job_id j, retry_count j) \<in> set claims" for j
    by (force simp: complete_sel_def attemptFence_def)
  have "length (filter ?sel ?t) = card (job_id ` set (filter ?sel ?t))"
  proof -
    have "distinct (map job_id (filter ?sel ?t))" by (rule distinct_ids_of_queue [OF ok]) (simp add: sel)
    from distinct_card [OF this] show ?thesis by simp
  qed
  also have "job_id ` set (filter ?sel ?t) = fst ` set (filter (\<lambda>(i, c). held n i c ?t) claims)"
  proof
    show "job_id ` set (filter ?sel ?t) \<subseteq> fst ` set (filter (\<lambda>(i, c). held n i c ?t) claims)"
    proof
      fix i assume "i \<in> job_id ` set (filter ?sel ?t)"
      then obtain j where "j \<in> set ?t" "?sel j" "i = job_id j" by auto
      hence "(i, retry_count j) \<in> set (filter (\<lambda>(i, c). held n i c ?t) claims)"
        by (auto simp: sel held_iff)
      thus "i \<in> fst ` set (filter (\<lambda>(i, c). held n i c ?t) claims)" by (metis fst_conv imageI)
    qed
    show "fst ` set (filter (\<lambda>(i, c). held n i c ?t) claims) \<subseteq> job_id ` set (filter ?sel ?t)"
      by (auto simp: sel held_iff)
  qed
  also have "card (fst ` set (filter (\<lambda>(i, c). held n i c ?t) claims)) =
      length (filter (\<lambda>(i, c). held n i c ?t) claims)"
  proof -
    have "distinct (map fst (filter (\<lambda>(i, c). held n i c ?t) claims))" using d by (rule distinct_filter_map)
    from distinct_card [OF this] show ?thesis by simp
  qed
  finally have k: "cr_affected r = length (filter (\<lambda>(i, c). held n i c ?t) claims)" using e(2) by simp
  have gone: "\<not> held n i c v" if m: "(i, c) \<in> set claims" for i c
  proof
    assume "held n i c v"
    then obtain x where x: "x \<in> set v" "job_name x = n" "job_id x = i" "state x = Active" "retry_count x = c"
      by (auto simp: held_iff)
    hence "x \<in> set ?t \<and> \<not> ?sel x" unfolding e(1) set_upd_where by (auto simp: complete_chg_def)
    thus False using x m by (simp add: sel)
  qed
  have "table_ok v" using complete.keeps_ok [OF ok] by (simp add: e(1))
  hence s1: "table_ok (tx_view s')" "tx_user s' = tx_user s" by (simp_all add: s')
  have s2: "\<not> held n i c (tx_view s')" if m: "(i, c) \<in> set claims" for i c
    using gone [OF m] by (simp add: s')
  show ?thesis by (rule that [OF err s1(2,1) s2 acc [unfolded accounted_def] k])
qed

lemma two_filters_cover:
  assumes "length (filter p xs) + length (filter q xs) \<ge> length xs" "\<And>x. x \<in> set xs \<Longrightarrow> \<not> (p x \<and> q x)"
    "x \<in> set xs"
  shows "p x \<or> q x"
proof (rule ccontr)
  assume n: "\<not> (p x \<or> q x)"
  have "length (filter p xs) + length (filter q xs) = length (filter (\<lambda>x. p x \<or> q x) xs)"
    using assms(2) by (induction xs) auto
  also have "\<dots> < length xs" using n assms(3) by (intro length_filter_less) auto
  finally show False using assms(1) by simp
qed

text \<open>(C33) A transactional batch commits only on claims it held, and is failed as a whole otherwise.
  The handler settles jobs of this batch only, and rolls no settle of its own back to a savepoint.  If the
  batch commits, what the handler's data is at the end is in (all of its writes, in order, when it rolled
  nothing back), and every job of the batch was settled while this worker held its claim: by the handler
  at some step of its run, or by the completion at the end.  If it does not commit, because it was refused,
  the handler threw, the worker shut down, a claim was lost, a statement or the commit failed, then none of
  the writes is in, the whole batch is failed at its attempts on the table as the others committed it, and
  once that is done no claim of the batch is held.  So a job whose claim lapsed and that will run again
  never leaves a side effect behind.\<close>

theorem commit_only_on_held_claims:
  assumes ok: "table_ok t" and d: "distinct (map fst claims)"
    and fenced: "list_all (settles_batch n claims) ops"
    and iso: "isolates env claims ops (begin_tx t u)"
    and run: "process_transactional env n claims ops h err now rnd t u = (outcome, u', result)"
  shows "if outcome = Committed
    then u' = tx_user (hrun env claims ops (begin_tx t u)) \<and>
      (HRollback \<notin> set ops \<longrightarrow> u' = handler_writes ops u) \<and>
      (\<exists>v. result = Inr v \<and> table_ok v \<and>
      (\<forall>(i, c)\<in>set claims. \<not> held n i c v \<and>
        (\<exists>k\<le>length ops. held n i c (tx_view (hrun env claims (take k ops) (begin_tx t u))) \<and>
          (k = length ops \<or> i \<in> set (tx_settled (hrun env claims (take (Suc k) ops) (begin_tx t u)))))))
    else u' = u \<and>
      result = and_then (fail False (\<lambda>_. None) (be_queues env) (be_new_id env) n (attempt_args claims) err now rnd
        (if hr_refused h = None then tx_base (hrun env claims ops (begin_tx t u)) else t)) (\<lambda>(t', _). Inr t') \<and>
      (\<forall>v. result = Inr v \<longrightarrow> (\<forall>(i, c)\<in>set claims. \<not> held n i c v))"
proof (cases "outcome = Committed")
  case False
  let ?base = "if hr_refused h = None then tx_base (hrun env claims ops (begin_tx t u)) else t"
  have base: "table_ok ?base"
    using hrun_ok [OF tx_ok_begin [OF ok] d fenced iso] ok by (simp add: tx_ok_def)
  have u: "u' = u" and r: "result = and_then (fail False (\<lambda>_. None) (be_queues env) (be_new_id env) n
      (attempt_args claims) err now rnd ?base) (\<lambda>(t', _). Inr t')"
    using False run by (auto simp: process_transactional_def Let_def begin_tx_def split: sum.splits)
  have "\<not> held n i c v" if v: "result = Inr v" and i: "(i, c) \<in> set claims" for v i c
  proof -
    obtain x where "fail False (\<lambda>_. None) (be_queues env) (be_new_id env) n (attempt_args claims) err now rnd ?base
        = Inr (v, x)"
      using v r by (auto simp: and_then_Inr_iff)
    from failed_batch_not_held [OF base this i] show ?thesis .
  qed
  thus ?thesis using False u r by (simp add: split_beta)
next
  case True
  let ?b = "begin_tx t u"
  let ?s = "hrun env claims ops ?b"
  obtain res s' where c: "complete_batch claims n res now ?s = Inr s'" "u' = tx_user s'" "result = Inr (tx_view s')"
    using True run
    by (auto simp: process_transactional_def Let_def and_then_Inr_iff split: sum.splits if_splits option.splits)
  have tx: "tx_ok n claims ?s" by (rule hrun_ok [OF tx_ok_begin [OF ok] d fenced iso])
  hence v: "table_ok (tx_view ?s)" by (simp add: tx_ok_def)
  obtain k where k: "\<not> tx_aborted ?s" "tx_user s' = tx_user ?s" "table_ok (tx_view s')"
    "\<And>i c. (i, c) \<in> set claims \<Longrightarrow> \<not> held n i c (tx_view s')"
    "k + length (filter (\<lambda>i. i \<in> set (tx_settled ?s)) (map fst claims)) \<ge> length claims"
    "k = length (filter (\<lambda>(i, c). held n i c (tx_view ?s)) claims)"
    by (rule complete_batch_Inr [OF v d c(1)]) blast
  have "length (filter (\<lambda>(i, c). held n i c (tx_view ?s)) claims) +
      length (filter (\<lambda>(i, c). i \<in> set (tx_settled ?s)) claims) \<ge> length claims"
    using k(5,6) by (simp add: filter_map comp_def case_prod_unfold)
  hence cover: "held n i c (tx_view ?s) \<or> i \<in> set (tx_settled ?s)" if "(i, c) \<in> set claims" for i c
    using two_filters_cover [where p = "\<lambda>(i, c). held n i c (tx_view ?s)" and xs = claims and
        q = "\<lambda>(i, c). i \<in> set (tx_settled ?s)" and x = "(i, c)"] tx that
    by (auto simp: tx_ok_def given_up_def)
  have "\<exists>k\<le>length ops. held n i c (tx_view (hrun env claims (take k ops) ?b)) \<and>
      (k = length ops \<or> i \<in> set (tx_settled (hrun env claims (take (Suc k) ops) ?b)))"
    if i: "(i, c) \<in> set claims" for i c
    using cover [OF i]
  proof
    assume h: "held n i c (tx_view ?s)"
    show ?thesis by (rule exI [of _ "length ops"]) (use h in simp)
  next
    assume "i \<in> set (tx_settled ?s)"
    moreover have "tx_settled ?b = []" by (simp add: begin_tx_def)
    ultimately show ?thesis
      using settled_while_held [OF tx_ok_begin [OF ok] d fenced i _ _ iso] by (meson less_imp_le)
  qed
  moreover have "u' = handler_writes ops u" if "HRollback \<notin> set ops"
    using hrun_writes [OF k(1) that] k(2) c(2) by (simp add: begin_tx_def)
  ultimately show ?thesis using True c(2,3) k(2,3,4) by auto
qed

definition sample_batch_env :: batch_env where
  "sample_batch_env = \<lparr>be_queues = [], be_new_id = (\<lambda>_. 7)\<rparr>"

definition returned :: handler_run where
  "returned = \<lparr>hr_refused = None, hr_result = Some None, hr_aborted = False, hr_commit_fails = False\<rparr>"

definition sample_claims :: batch where
  "sample_claims = [(1, 0)]"

definition sample_ops :: "nat hop list" where
  "sample_ops = [HWrite Suc, Peer (\<lambda>t. t @ [sample_job 2 ''q'' 5])]"

lemma sample_commit:
  "process_transactional sample_batch_env ''q'' sample_claims sample_ops returned None 9 (\<lambda>_. 0)
     [sample_failing] 0 =
   (Committed, 1, Inr [complete_chg None False 9 sample_failing, sample_job 2 ''q'' 5])"
  by (simp add: process_transactional_def returned_def sample_claims_def sample_ops_def hrun_def
      begin_tx_def peer_step_def overlay_def on_keys_def off_keys_def complete_batch_def attempt_args_def complete_def
      mapAttemptArg_def completeJobs_def fence_of_def attemptPairs_def complete_sel_def attemptFence_def
      run_update_def check_table_def accounted_def settled_ids_def mapCommandResponse_def
      mapCompletionDataArg_def complete_chg_def sample_failing_def eval_defs Let_def)

lemma commit_only_on_held_claims_witness:
  "handler_writes sample_ops 0 = 1 \<and> (\<exists>k\<le>2. held ''q'' 1 0 (tx_view (hrun sample_batch_env sample_claims
     (take k sample_ops) (begin_tx [sample_failing] 0))))"
proof -
  have d: "distinct (map fst sample_claims)" by (simp add: sample_claims_def)
  have f: "list_all (settles_batch ''q'' sample_claims) sample_ops" by (simp add: sample_ops_def)
  have s: "isolates sample_batch_env sample_claims sample_ops (begin_tx [sample_failing] 0)"
    by (simp add: sample_ops_def undoes_no_settle_def)
  have "length sample_ops = 2" "HRollback \<notin> set sample_ops" "(1, 0) \<in> set sample_claims"
    by (simp_all add: sample_ops_def sample_claims_def)
  thus ?thesis
    using commit_only_on_held_claims [OF sample_failing_ok d f s sample_commit] by (auto simp: sample_claims_def)
qed

definition newer_attempt :: job where
  "newer_attempt = sample_failing \<lparr>retry_count := 1\<rparr>"

text \<open>(C40) A settle that reaches beyond the batch breaks this.  A complete call on the transaction for the
  job of the batch and some other job is not fenced, and what it settles still counts as the handler's: when
  the claim has lapsed and the job is active at another attempt, that attempt is completed, whoever runs it,
  and the batch commits with all that the handler wrote, although the claim was never held.\<close>

theorem mixed_settle_commits_lapsed_claim:
  assumes ok: "table_ok t" and j: "j \<in> set t" "job_name j = n" "job_id j = i" "state j = Active"
    and lapsed: "retry_count j \<noteq> c" and other: "k \<noteq> i" "0 \<le> c"
    and h: "hr_refused h = None" "hr_result h \<noteq> None" "\<not> hr_aborted h" "\<not> hr_commit_fails h"
  shows "\<not> held n i c t \<and> (\<exists>v.
    process_transactional env n [(i, c)] [HWrite g, HComplete n [PlainId i, PlainId k] out False now0] h err now
      rnd t u = (Committed, g u, Inr v) \<and>
    complete_chg (mapCompletionDataArg out) False now0 j \<in> set v)"
proof -
  let ?cl = "[(i, c)]"
  let ?s = "hrun env ?cl [HWrite g, HComplete n [PlainId i, PlainId k] out False now0] (begin_tx t u)"
  let ?sel = "complete_sel n [i, k] False None"
  let ?v = "upd_where ?sel (complete_chg (mapCompletionDataArg out) False now0) t"
  have settle: "complete False (handlerAttempts ?cl) n [PlainId i, PlainId k] out False now0 t = Inr (?v,
      mapCommandResponse [i, k] (length (filter ?sel t)) (Some (map job_id (filter ?sel t))))"
    using complete_eq [OF ok, of "[PlainId i, PlainId k]" "[i, k]" None] other(1)
    by (simp add: mapAttemptArg_def fence_of_def handlerAttempts_def attemptPairs_def Let_def)
  have sel: "?sel j" using j by (simp add: complete_sel_def attemptFence_def)
  hence i: "i \<in> set (map job_id (filter ?sel t))" using j by force
  have s: "tx_view ?s = ?v" "tx_user ?s = g u" "\<not> tx_aborted ?s" "i \<in> set (tx_settled ?s)"
    using i by (simp_all add: hrun_def begin_tx_def settle_tx_def settle trackHandlerSettle_def landed_def
        mapCommandResponse_def)
  have v: "table_ok ?v" by (rule complete.keeps_ok [OF ok])
  have mem: "complete_chg (mapCompletionDataArg out) False now0 j \<in> set ?v" using j(1) sel by (auto simp: set_upd_where)
  have none: "\<not> complete_sel n [i] False (Some ?cl) x" if x: "x \<in> set ?v" for x
  proof
    assume a: "complete_sel n [i] False (Some ?cl) x"
    hence "job_name x = n" "job_id x = i" "state x = Active"
      by (auto simp: complete_sel_def attemptFence_def)
    moreover from this have "x = complete_chg (mapCompletionDataArg out) False now0 j"
      using id_names_row [OF v x mem] j by (simp add: complete_chg_def)
    ultimately show False by (simp add: complete_chg_def)
  qed
  have "complete False (\<lambda>_. None) n (attempt_args ?cl) res False now ?v =
      Inr (?v, mapCommandResponse [i] 0 (Some []))" for res
    using complete_eq [OF v, of "attempt_args ?cl" "[i]" "Some [c]"] none other(2)
    by (simp add: attempt_args_def mapAttemptArg_def fence_of_def attemptPairs_def Let_def upd_where_none)
  hence "complete_batch ?cl n res now ?s = Inr (?s\<lparr>tx_view := ?v\<rparr>)" for res
    using s by (simp add: complete_batch_def accounted_def mapCommandResponse_def)
  hence "process_transactional env n [(i, c)] [HWrite g, HComplete n [PlainId i, PlainId k] out False now0] h err
      now rnd t u = (Committed, g u, Inr ?v)"
    using h s(2) by (auto simp: process_transactional_def Let_def)
  moreover have "\<not> held n i c t"
  proof
    assume "held n i c t"
    then obtain x where x: "x \<in> set t" "job_name x = n" "job_id x = i" "retry_count x = c"
      by (auto simp: held_iff)
    hence "j = x" using id_names_row [OF ok j(1) x(1)] j(2,3) by simp
    thus False using x(4) lapsed by simp
  qed
  ultimately show ?thesis using mem by blast
qed

lemma mixed_settle_commits_lapsed_claim_witness:
  "\<exists>v. process_transactional sample_batch_env ''q'' [(1, 0)]
     [HWrite Suc, HComplete ''q'' [PlainId 1, PlainId 2] None False 8] returned None 9 (\<lambda>_. 0)
     [newer_attempt] 0 = (Committed, 1, Inr v) \<and> complete_chg None False 8 newer_attempt \<in> set v"
proof -
  have ok: "table_ok [newer_attempt]" by (simp add: newer_attempt_def sample_failing_def eval_defs)
  have j: "newer_attempt \<in> set [newer_attempt]" "job_name newer_attempt = ''q''" "job_id newer_attempt = 1"
    "state newer_attempt = Active" "retry_count newer_attempt \<noteq> 0"
    by (simp_all add: newer_attempt_def sample_failing_def eval_defs)
  show ?thesis
    using mixed_settle_commits_lapsed_claim [OF ok j, of 2 returned sample_batch_env Suc None 8 None 9 "\<lambda>_. 0" 0]
    by (auto simp: returned_def mapCompletionDataArg_def)
qed

text \<open>(C39) Nor does the rest hold once a settle is rolled back.  The ids the handler settled are counted
  whatever became of the statement, so a handler that completes its job behind a savepoint and rolls back
  to it has the job counted while its row is active and unlocked again: whatever takes the claim away after
  that, an expiration, a cancel, another worker's attempt, the batch commits, with all that the handler
  wrote, beside a job whose claim was lost.\<close>

theorem rolled_back_settle_commits:
  assumes "table_ok t" "held n i c t" "0 \<le> c"
    and peer: "table_ok (f t)" "\<not> held n i c (f t)"
    and h: "hr_refused h = None" "hr_result h \<noteq> None" "\<not> hr_aborted h" "\<not> hr_commit_fails h"
  shows "process_transactional env n [(i, c)]
      [HSavepoint, HComplete n [PlainId i] out False now0, HRollback, HWrite g, Peer f] h err now rnd t u =
    (Committed, g u, Inr (f t))"
proof -
  let ?cl = "[(i, c)]"
  let ?ops = "[HSavepoint, HComplete n [PlainId i] out False now0, HRollback, HWrite g, Peer f]"
  let ?s = "hrun env ?cl ?ops (begin_tx t u)"
  let ?sel = "complete_sel n [i] False (Some ?cl)"
  have settle: "complete False (handlerAttempts ?cl) n [PlainId i] out False now0 t = Inr (
      upd_where ?sel (complete_chg (mapCompletionDataArg out) False now0) t,
      mapCommandResponse [i] (length (filter ?sel t)) (Some (map job_id (filter ?sel t))))"
    using complete_eq [OF assms(1), of "[PlainId i]" "[i]" None]
    by (simp add: mapAttemptArg_def fence_of_def handlerAttempts_def attemptPairs_def Let_def)
  have "\<exists>j\<in>set t. ?sel j \<and> job_id j = i"
    using assms(2) by (auto simp: held_iff complete_sel_def attemptFence_def)
  hence i: "i \<in> set (map job_id (filter ?sel t))" by auto
  have s: "tx_view ?s = f t" "tx_user ?s = g u" "\<not> tx_aborted ?s" "i \<in> set (tx_settled ?s)" "tx_base ?s = f t"
    using i peer(1) by (simp_all add: hrun_def begin_tx_def set_savepoint_def settle_tx_def settle trackHandlerSettle_def
        landed_def mapCommandResponse_def rollback_to_def overlay_def off_keys_def on_keys_def peer_step_def Let_def)
  have none: "\<not> complete_sel n [i] False (Some ?cl) j" if "j \<in> set (f t)" for j
    using peer(2) that by (auto simp: held_iff complete_sel_def attemptFence_def)
  have "complete False (\<lambda>_. None) n (attempt_args ?cl) out False now (f t) =
      Inr (f t, mapCommandResponse [i] 0 (Some []))" for out
    using complete_eq [OF peer(1), of "attempt_args ?cl" "[i]" "Some [c]"] none assms(3)
    by (simp add: attempt_args_def mapAttemptArg_def fence_of_def attemptPairs_def Let_def upd_where_none)
  hence "complete_batch ?cl n res now ?s = Inr (?s\<lparr>tx_view := f t\<rparr>)" for res
    using s by (simp add: complete_batch_def accounted_def mapCommandResponse_def)
  thus ?thesis using h s(2) by (auto simp: process_transactional_def Let_def)
qed

lemma rolled_back_settle_commits_witness:
  "process_transactional sample_batch_env ''q'' [(1, 0)]
     [HSavepoint, HComplete ''q'' [PlainId 1] None False 8, HRollback, HWrite Suc, Peer (\<lambda>_. [newer_attempt])]
     returned None 9 (\<lambda>_. 0) [sample_failing] 0 = (Committed, 1, Inr [newer_attempt])"
proof -
  have h: "held ''q'' 1 0 [sample_failing]" by (simp add: held_def sample_failing_def eval_defs)
  have p: "table_ok [newer_attempt]" "\<not> held ''q'' 1 0 [newer_attempt]"
    by (simp_all add: held_def newer_attempt_def sample_failing_def eval_defs)
  show ?thesis
    using rolled_back_settle_commits [where f = "\<lambda>_. [newer_attempt]", OF sample_failing_ok h _ p, of returned]
    by (simp add: returned_def)
qed

section \<open>Per-job results\<close>

text \<open>What a \<^verbatim>\<open>perJobResults\<close> handler resolves with: anything, or an array whose entries may be
  results.  \<^verbatim>\<open>None\<close> is an entry that names no job or no known status.\<close>

datatype job_status = SCompleted | SFailed | SDeadLetter

type_synonym job_result = "(uuid \<times> job_status \<times> json option) option"

definition dispositions :: "batch \<Rightarrow> job_result list \<Rightarrow> (uuid \<times> job_status \<times> json option) list" where
  "dispositions claims items = filter (\<lambda>(i, _). i \<in> fst ` set claims) (map the (filter (\<lambda>x. x \<noteq> None) items))"

text \<open>The last entry for a job wins.\<close>

definition disposition :: "batch \<Rightarrow> job_result list \<Rightarrow> uuid \<Rightarrow> (job_status \<times> json option) option" where
  "disposition claims items i = map_of (rev (dispositions claims items)) i"

definition no_disposition :: "json option" where
  "no_disposition = Some (JObj [(''message'', JStr ''no disposition returned by handler'')])"

definition status_of :: "batch \<Rightarrow> job_result list \<Rightarrow> uuid \<Rightarrow> job_status \<times> json option" where
  "status_of claims items i = (case disposition claims items i of None \<Rightarrow> (SFailed, no_disposition)
     | Some d \<Rightarrow> d)"

definition items_of :: "batch \<Rightarrow> job_result list \<Rightarrow> job_status \<Rightarrow> (uuid \<times> int \<times> json option) list" where
  "items_of claims items st = map (\<lambda>(i, c). (i, c, mapCompletionDataArg (snd (status_of claims items i))))
     (filter (\<lambda>(i, c). fst (status_of claims items i) = st) claims)"

definition completeWithOutputs ::
  "bool \<Rightarrow> str \<Rightarrow> (uuid \<times> int \<times> json option) list \<Rightarrow> time \<Rightarrow> job list \<Rightarrow>
   manager_error + (job list \<times> command_response)" where
  "completeWithOutputs noMultiMutationCte n inp now t = (if noMultiMutationCte
     then and_then (lift_sql (completeJobsWithOutputsDistributed n inp now t))
       (\<lambda>(t', settled). Inr (t', mapCommandResponse (map fst inp) (length settled) (Some settled)))
     else and_then (lift_sql (completeJobsWithOutputs n inp now t))
       (\<lambda>(t', k, settled). Inr (t', mapCommandResponse (map fst inp) k (Some settled))))"

definition failWithOutputs_call ::
  "bool \<Rightarrow> batch_env \<Rightarrow> str \<Rightarrow> (uuid \<times> int \<times> json option) list \<Rightarrow> bool \<Rightarrow> time \<Rightarrow> (uuid \<Rightarrow> int) \<Rightarrow> job list \<Rightarrow>
   manager_error + (job list \<times> command_response)" where
  "failWithOutputs_call noMultiMutationCte env n inp forceTerminal now rnd t =
     and_then (lift_sql (if noMultiMutationCte
         then failWithOutputsDistributed (be_queues env) (be_new_id env) n inp forceTerminal now rnd t
         else if forceTerminal
         then deadLetterJobsByIdWithOutputs (be_queues env) (be_new_id env) n inp now rnd t
         else failJobsByIdWithOutputs (be_queues env) (be_new_id env) n inp now rnd t))
       (\<lambda>(t', k, settled). Inr (t', mapCommandResponse (map fst inp) k (Some settled)))"

definition not_an_array :: "json option" where
  "not_an_array = Some (JObj [(''message'',
     JStr ''perJobResults handler must resolve with an array of job results'')])"

text \<open>A statement for a group that is not empty; one that raises leaves the table as it was.\<close>

definition unless_empty ::
  "'a list \<Rightarrow> (job list \<Rightarrow> manager_error + (job list \<times> command_response)) \<Rightarrow> job list \<Rightarrow>
   job list \<times> (manager_error + unit)" where
  "unless_empty xs call t = (if xs = [] then (t, Inr ())
     else case call t of Inl e \<Rightarrow> (t, Inl e) | Inr (t', _) \<Rightarrow> (t', Inr ()))"

definition after ::
  "job list \<times> (manager_error + unit) \<Rightarrow> (job list \<Rightarrow> job list \<times> (manager_error + 'a)) \<Rightarrow>
   job list \<times> (manager_error + 'a)" where
  "after first rest = (case first of (t, Inl e) \<Rightarrow> (t, Inl e) | (t, Inr _) \<Rightarrow> rest t)"

lemma after_simps [simp]:
  "after (t, Inl e) rest = (t, Inl e)" "after (t, Inr x) rest = rest t"
  by (simp_all add: after_def)

text \<open>The table it leaves, and the error it raised or whether it failed the batch as a whole.  Each
  statement commits by itself, so what came before one that raises stays.\<close>

definition settlePerJob ::
  "bool \<Rightarrow> batch_env \<Rightarrow> str \<Rightarrow> batch \<Rightarrow> job_result list option \<Rightarrow> time \<Rightarrow> (uuid \<Rightarrow> int) \<Rightarrow> job list \<Rightarrow>
   job list \<times> (manager_error + bool)" where
  "settlePerJob d env n claims result now rnd t = (case result of
     None \<Rightarrow> (case fail d (\<lambda>_. None) (be_queues env) (be_new_id env) n (attempt_args claims) not_an_array
         now rnd t of Inl e \<Rightarrow> (t, Inl e) | Inr (t', _) \<Rightarrow> (t', Inr True))
   | Some items \<Rightarrow>
       let completed = items_of claims items SCompleted; failed = items_of claims items SFailed;
         dead = items_of claims items SDeadLetter
       in after (unless_empty completed (completeWithOutputs d n completed now) t) (\<lambda>t1.
          after (unless_empty failed (failWithOutputs_call d env n failed False now rnd) t1) (\<lambda>t2.
          after (unless_empty dead (failWithOutputs_call d env n dead True now rnd) t2) (\<lambda>t3.
            (t3, Inr False)))))"

text \<open>The end of such a batch.  When a statement raised, the whole batch is failed with that error, given
  here as the output it is recorded with; an error of that escapes.\<close>

definition process_per_job ::
  "bool \<Rightarrow> batch_env \<Rightarrow> str \<Rightarrow> batch \<Rightarrow> job_result list option \<Rightarrow> json option \<Rightarrow> time \<Rightarrow> (uuid \<Rightarrow> int) \<Rightarrow>
   job list \<Rightarrow> job list \<times> manager_error option" where
  "process_per_job d env n claims result err now rnd t =
     (case settlePerJob d env n claims result now rnd t of
       (t', Inr _) \<Rightarrow> (t', None)
     | (t', Inl _) \<Rightarrow> (case fail d (\<lambda>_. None) (be_queues env) (be_new_id env) n (attempt_args claims) err
           now rnd t' of
         Inl e \<Rightarrow> (t', Some e)
       | Inr (t'', _) \<Rightarrow> (t'', None)))"

subsection \<open>Each job by its own result\<close>

definition taken :: "str \<Rightarrow> (uuid \<times> int \<times> json option) list \<Rightarrow> job \<Rightarrow> bool" where
  "taken n inp j = (job_name j = n \<and> state j = Active \<and> (\<exists>out. (job_id j, retry_count j, out) \<in> set inp))"

text \<open>How a row ends under a status: completed; failed, which sends it to be retried while it has
  retries left and no other row of the table, before or after, holds an index entry its retry would need; or dead
  lettered, which never retries it.  A job that ends failed has its copy in the dead letter queue.\<close>

definition copied :: "queue list \<Rightarrow> (job \<Rightarrow> uuid) \<Rightarrow> time \<Rightarrow> job list \<Rightarrow> job \<Rightarrow> bool" where
  "copied qs new_id now t' r = (\<forall>q\<in>set qs. dead_letter r = Some (q_name q) \<longrightarrow>
     dlq_row q (new_id r) now r \<in> set t')"

definition fails_as ::
  "batch_env \<Rightarrow> time \<Rightarrow> (uuid \<Rightarrow> int) \<Rightarrow> bool \<Rightarrow> json option \<Rightarrow> job list \<Rightarrow> job list \<Rightarrow> job \<Rightarrow> job \<Rightarrow> bool" where
  "fails_as env now rnd terminal out t t' j r = (
     r = j\<lparr>state := state r, start_after := start_after r, completed_on := completed_on r, job_output := out,
       heartbeat_on := None, upsert_by_key := None\<rparr> \<and>
     (\<not> terminal \<and> state r = Retry \<and> retry_count j < retry_limit j \<or>
      state r = Failed \<and> copied (be_queues env) (be_new_id env) now t' r \<and>
        (\<not> terminal \<and> retry_count j < retry_limit j \<longrightarrow>
          (\<exists>x\<in>set t \<union> set t'. job_key x \<noteq> job_key j \<and>
             conflict x (retried_row False out now (rnd (job_id j)) j)))))"

definition ends_as ::
  "batch_env \<Rightarrow> time \<Rightarrow> (uuid \<Rightarrow> int) \<Rightarrow> job_status \<Rightarrow> json option \<Rightarrow> job list \<Rightarrow> job list \<Rightarrow> job \<Rightarrow> job \<Rightarrow> bool" where
  "ends_as env now rnd st out t t' j r = (case st of
     SCompleted \<Rightarrow> r = j\<lparr>state := Completed, completed_on := Some now, job_output := out\<rparr>
   | SFailed \<Rightarrow> fails_as env now rnd False out t t' j r
   | SDeadLetter \<Rightarrow> fails_as env now rnd True out t t' j r)"

text \<open>Between two tables: rows that are not active stay, and none becomes active.\<close>

definition only_active :: "job list \<Rightarrow> job list \<Rightarrow> bool" where
  "only_active t t' = (table_ok t' \<and> (\<forall>x\<in>set t. state x \<noteq> Active \<longrightarrow> x \<in> set t') \<and>
     (\<forall>x\<in>set t'. state x = Active \<longrightarrow> x \<in> set t))"

text \<open>One of the statements: it takes the jobs of its input that are active at their attempt, ends each
  under the status with its output, and leaves every other row.\<close>

definition settles_each ::
  "batch_env \<Rightarrow> time \<Rightarrow> (uuid \<Rightarrow> int) \<Rightarrow> str \<Rightarrow> (uuid \<times> int \<times> json option) list \<Rightarrow> job_status \<Rightarrow>
   job list \<Rightarrow> job list \<Rightarrow> bool" where
  "settles_each env now rnd n inp st t t' = (only_active t t' \<and>
     (\<forall>j\<in>set t. \<not> taken n inp j \<longrightarrow> j \<in> set t') \<and>
     (\<forall>j\<in>set t. taken n inp j \<longrightarrow>
       (\<exists>r\<in>set t'. state r \<noteq> Active \<and> ends_as env now rnd st (output_by_id inp j) t t' j r)))"

lemma only_active_refl: "table_ok t \<Longrightarrow> only_active t t"
  by (simp add: only_active_def)

lemma only_active_trans: "only_active t t1 \<Longrightarrow> only_active t1 t2 \<Longrightarrow> only_active t t2"
  unfolding only_active_def by meson

lemma only_active_D:
  "only_active t t' \<Longrightarrow> x \<in> set t \<Longrightarrow> state x \<noteq> Active \<Longrightarrow> x \<in> set t'"
  "only_active t t' \<Longrightarrow> x \<in> set t' \<Longrightarrow> state x = Active \<Longrightarrow> x \<in> set t"
  by (simp_all add: only_active_def)

lemma settles_none: "table_ok t \<Longrightarrow> settles_each env now rnd n [] st t t"
  by (simp add: settles_each_def taken_def only_active_refl)

text \<open>How a row ended is still so after the later statements, and was so for the table before the
  earlier ones.\<close>

lemma fails_as_wider:
  assumes "fails_as env now rnd terminal out t1 t2 j r"
    and c: "only_active t t1" "only_active t1 t2" "only_active t2 t'"
  shows "fails_as env now rnd terminal out t t' j r"
proof -
  have "x \<in> set t \<union> set t'" if "x \<in> set t1 \<union> set t2" for x
  proof (cases "state x = Active")
    case True
    hence "x \<in> set t1" using that only_active_D(2) [OF c(2)] by blast
    thus ?thesis using True only_active_D(2) [OF c(1)] by blast
  next
    case False
    hence "x \<in> set t2" using that only_active_D(1) [OF c(2)] by blast
    thus ?thesis using False only_active_D(1) [OF c(3)] by blast
  qed
  moreover have "copied qs f now t' x" if "copied qs f now t2 x" for qs f x
  proof -
    have "state (dlq_row q i now x) \<noteq> Active" for q i by (simp add: dlq_row_def job_defaults_def)
    thus ?thesis using that only_active_D(1) [OF c(3)] unfolding copied_def by blast
  qed
  ultimately show ?thesis using assms(1) unfolding fails_as_def by blast
qed

lemma ends_as_wider:
  "ends_as env now rnd st out t1 t2 j r \<Longrightarrow> only_active t t1 \<Longrightarrow> only_active t1 t2 \<Longrightarrow> only_active t2 t' \<Longrightarrow>
    ends_as env now rnd st out t t' j r"
  by (cases st) (auto simp: ends_as_def intro: fails_as_wider)

text \<open>A failing statement ends each job it takes failed, and leaves the others.\<close>

lemma fail_body_ends:
  assumes body: "failJobsBody (be_queues env) (be_new_id env) now rnd sel out terminal t = Inr (t', rs)"
    and ids: "distinct (map job_id (filter sel t))" and act: "\<And>j. sel j \<Longrightarrow> state j = Active"
  shows "only_active t t'" "\<And>j. j \<in> set t \<Longrightarrow> \<not> sel j \<Longrightarrow> j \<in> set t'"
    "\<And>j. j \<in> set t \<Longrightarrow> sel j \<Longrightarrow> \<exists>r\<in>set t'. state r \<noteq> Active \<and> fails_as env now rnd terminal (out j) t t' j r"
proof -
  let ?D = "dlq_rows (be_queues env) (be_new_id env) now rs"
  note cons = fail_body_conserves [OF body ids]
  show stay: "\<And>j. j \<in> set t \<Longrightarrow> \<not> sel j \<Longrightarrow> j \<in> set t'" using cons(1) by simp
  have "x \<in> set t" if x: "x \<in> set t'" "state x = Active" for x
  proof -
    have "x \<notin> set rs" using x(2) cons(4) results_not_active by metis
    moreover have "x \<notin> set ?D" using x(2) dlq_rows_created by fastforce
    ultimately show ?thesis using x(1) cons(1) by simp
  qed
  thus "only_active t t'" using cons(2) stay act by (auto simp: only_active_def)
  fix j assume j: "j \<in> set t" "sel j"
  let ?R = "retried_row terminal (out j) now (rnd (job_id j)) j"
  have copies: "copied (be_queues env) (be_new_id env) now t' r" if "r \<in> set rs" "state r = Failed" for r
    using that cons(1) by (auto simp: copied_def dlq_rows_def)
  from cons(3) j consider "?R \<in> set rs" | "failed_row (out j) now j \<in> set rs" by blast
  thus "\<exists>r\<in>set t'. state r \<noteq> Active \<and> fails_as env now rnd terminal (out j) t t' j r"
  proof cases
    case 1
    thus ?thesis using cons(1) copies [OF 1]
      by (intro bexI [of _ ?R]) (auto simp: fails_as_def retried_row_def can_retry_def)
  next
    case 2
    have "\<exists>x\<in>set t'. job_key x \<noteq> job_key j \<and> conflict x (retried_row False (out j) now (rnd (job_id j)) j)"
      if "\<not> terminal" "retry_count j < retry_limit j"
      using cons(8) j 2 that by (simp add: can_retry_def)
    thus ?thesis using 2 cons(1) copies [OF 2]
      by (intro bexI [of _ "failed_row (out j) now j"]) (auto simp: fails_as_def failed_row_def)
  qed
qed


lemma filter_one:
  "distinct (map fst inp) \<Longrightarrow> (i, x) \<in> set inp \<Longrightarrow> filter (\<lambda>(k, _). k = i) inp = [(i, x)]"
proof (induction inp)
  case (Cons a inp)
  show ?case
  proof (cases "fst a = i")
    case True
    hence "i \<notin> fst ` set inp" using Cons.prems(1) by auto
    moreover from this have "(i, x) \<notin> set inp" by force
    ultimately show ?thesis using Cons.prems True
      by (cases a) (auto simp: filter_empty_conv image_iff)
  next
    case False
    thus ?thesis using Cons by (cases a) auto
  qed
qed simp

lemma output_by_id_eq:
  "distinct (map fst inp) \<Longrightarrow> (job_id j, c, out) \<in> set inp \<Longrightarrow> output_by_id inp j = out"
  using filter_one [of inp "job_id j" "(c, out)"] by (simp add: output_by_id_def case_prod_unfold)

lemma find_pair:
  "distinct (map fst inp) \<Longrightarrow> output_row inp j =
    (if \<exists>out. (job_id j, retry_count j, out) \<in> set inp then Some (output_by_id inp j) else None)"
proof (cases "\<exists>out. (job_id j, retry_count j, out) \<in> set inp")
  case True
  assume d: "distinct (map fst inp)"
  from True obtain out where o: "(job_id j, retry_count j, out) \<in> set inp" by blast
  have "List.find (\<lambda>(i, c, _). i = job_id j \<and> c = retry_count j) inp = Some (job_id j, retry_count j, out)"
    using d o
  proof (induction inp)
    case (Cons a inp)
    thus ?case by (cases a) (auto split: if_splits intro: rev_image_eqI)
  qed simp
  thus ?thesis using True output_by_id_eq [OF d o] by (simp add: output_row_def)
next
  case False
  hence "List.find (\<lambda>(i, c, _). i = job_id j \<and> c = retry_count j) inp = None"
    by (auto simp: find_None_iff)
  thus ?thesis using False by (simp add: output_row_def)
qed

lemma complete_settles_each:
  assumes ok: "table_ok t" and d: "distinct (map fst inp)"
    and run: "completeWithOutputs False n inp now t = Inr (t', r)"
  shows "settles_each env now rnd n inp SCompleted t t'"
proof -
  have t': "t' = upd_where (complete_out_sel n inp) (complete_out_chg inp now) t"
    using run completeJobsWithOutputs_eq [OF ok, of n inp now]
    by (auto simp: completeWithOutputs_def split: prod.splits)
  have sel: "complete_out_sel n inp j \<longleftrightarrow> taken n inp j" for j
    by (simp add: complete_out_sel_def find_pair [OF d] taken_def)
  have row: "\<exists>r\<in>set t'. state r \<noteq> Active \<and> ends_as env now rnd SCompleted (output_by_id inp j) t t' j r"
    if j: "j \<in> set t" "taken n inp j" for j
  proof (rule bexI [of _ "complete_out_chg inp now j"])
    show "complete_out_chg inp now j \<in> set t'" using j by (auto simp: t' set_upd_where sel)
    have "output_row inp j = Some (output_by_id inp j)" using j(2) by (simp add: find_pair [OF d] taken_def)
    thus "state (complete_out_chg inp now j) \<noteq> Active \<and>
      ends_as env now rnd SCompleted (output_by_id inp j) t t' j (complete_out_chg inp now j)"
      by (simp add: complete_out_chg_def ends_as_def)
  qed
  have "table_ok t'" unfolding t' by (rule complete_out.keeps_ok [OF ok])
  hence "only_active t t'" by (auto simp: only_active_def t' set_upd_where sel taken_def complete_out_chg_def)
  moreover have "j \<in> set t'" if "j \<in> set t" "\<not> taken n inp j" for j
    using that by (auto simp: t' set_upd_where sel)
  ultimately show ?thesis using row by (simp add: settles_each_def)
qed

lemma outputs_sel_taken: "outputs_sel n inp j \<longleftrightarrow> taken n inp j"
  by (force simp: outputs_sel_def taken_def list_ex_iff)

lemma fail_settles_each:
  assumes ok: "table_ok t"
    and run: "failWithOutputs_call False env n inp terminal now rnd t = Inr (t', r)"
  shows "settles_each env now rnd n inp (if terminal then SDeadLetter else SFailed) t t'"
proof -
  obtain rs where body: "failJobsBody (be_queues env) (be_new_id env) now rnd (outputs_sel n inp)
      (output_by_id inp) terminal t = Inr (t', rs)"
    using run by (auto simp: failWithOutputs_call_def failJobsByIdWithOutputs_def
        deadLetterJobsByIdWithOutputs_def failWithOutputs_def and_then_Inr_iff split: if_splits)
  have ids: "distinct (map job_id (filter (outputs_sel n inp) t))"
    by (rule distinct_ids_of_queue [OF ok]) (simp add: outputs_sel_def)
  have act: "outputs_sel n inp j \<Longrightarrow> state j = Active" for j by (simp add: outputs_sel_taken taken_def)
  note e = fail_body_ends [OF body ids act]
  show ?thesis unfolding settles_each_def ends_as_def outputs_sel_taken [symmetric]
    using e by (cases terminal) simp_all
qed

lemma unless_empty_settles:
  assumes "table_ok t" "unless_empty inp call t = (t', res)"
    "\<And>r. call t = Inr (t', r) \<Longrightarrow> settles_each env now rnd n inp st t t'"
  shows "settles_each env now rnd n (if isl res then [] else inp) st t t'"
proof (cases "inp = []")
  case True
  thus ?thesis using assms(1,2) by (auto simp: unless_empty_def settles_none)
next
  case False
  show ?thesis
  proof (cases "call t")
    case (Inl e)
    thus ?thesis using assms(1,2) False by (auto simp: unless_empty_def settles_none)
  next
    case (Inr x)
    thus ?thesis using assms(2,3) False by (cases x) (auto simp: unless_empty_def)
  qed
qed

lemma items_of_mem:
  "(i, c, out) \<in> set (items_of claims items st) \<longleftrightarrow> (i, c) \<in> set claims \<and>
    fst (status_of claims items i) = st \<and> out = mapCompletionDataArg (snd (status_of claims items i))"
  by (force simp: items_of_def)

lemma items_of_distinct: "distinct (map fst claims) \<Longrightarrow> distinct (map fst (items_of claims items st))"
proof -
  assume d: "distinct (map fst claims)"
  have "map fst (items_of claims items st) = map fst (filter (\<lambda>(i, c). fst (status_of claims items i) = st) claims)"
    by (auto simp: items_of_def)
  thus ?thesis using distinct_filter_map [OF d] by simp
qed

lemma taken_items:
  "taken n (items_of claims items st) j \<longleftrightarrow> job_name j = n \<and> state j = Active \<and>
    (job_id j, retry_count j) \<in> set claims \<and> fst (status_of claims items (job_id j)) = st"
  by (auto simp: taken_def items_of_mem)

text \<open>The three statements: the groups after one that raised do not run.\<close>

lemma settlePerJob_steps:
  assumes ok: "table_ok t" and d: "distinct (map fst claims)"
    and run: "settlePerJob False env n claims (Some items) now rnd t = (t3, res)"
  obtains t1 t2 g where
    "settles_each env now rnd n (g SCompleted) SCompleted t t1"
    "settles_each env now rnd n (g SFailed) SFailed t1 t2"
    "settles_each env now rnd n (g SDeadLetter) SDeadLetter t2 t3"
    "\<And>st. g st = [] \<and> isl res \<or> g st = items_of claims items st"
proof -
  let ?I = "items_of claims items"
  obtain t1 r1 where s1: "unless_empty (?I SCompleted) (completeWithOutputs False n (?I SCompleted) now) t = (t1, r1)"
    by fastforce
  have e1: "settles_each env now rnd n (if isl r1 then [] else ?I SCompleted) SCompleted t t1"
    by (rule unless_empty_settles [OF ok s1]) (rule complete_settles_each [OF ok items_of_distinct [OF d]])
  hence ok1: "table_ok t1" by (simp add: settles_each_def only_active_def)
  obtain t2 r2 where
    s2: "unless_empty (?I SFailed) (failWithOutputs_call False env n (?I SFailed) False now rnd) t1 = (t2, r2)"
    by fastforce
  have e2: "settles_each env now rnd n (if isl r2 then [] else ?I SFailed) SFailed t1 t2"
    by (rule unless_empty_settles [OF ok1 s2]) (use fail_settles_each [OF ok1] in fastforce)
  hence ok2: "table_ok t2" by (simp add: settles_each_def only_active_def)
  obtain t4 r3 where
    s3: "unless_empty (?I SDeadLetter) (failWithOutputs_call False env n (?I SDeadLetter) True now rnd) t2 = (t4, r3)"
    by fastforce
  have e3: "settles_each env now rnd n (if isl r3 then [] else ?I SDeadLetter) SDeadLetter t2 t4"
    by (rule unless_empty_settles [OF ok2 s3]) (use fail_settles_each [OF ok2] in fastforce)
  show ?thesis
  proof (cases "isl r1")
    case True
    hence "t3 = t1" "isl res" using run s1 by (auto simp: settlePerJob_def isl_def Let_def)
    thus ?thesis using that [of "\<lambda>_. []" t1 t1] True e1 settles_none [OF ok1] by simp
  next
    case r1: False
    hence u1: "r1 = Inr ()" by (cases r1) auto
    show ?thesis
    proof (cases "isl r2")
      case True
      hence "t3 = t2" "isl res" using run s1 s2 u1 by (auto simp: settlePerJob_def isl_def Let_def)
      thus ?thesis using that [of "\<lambda>st. if st = SCompleted then ?I st else []" t1 t2] True r1 e1 e2 settles_none [OF ok2]
        by simp
    next
      case r2: False
      hence u2: "r2 = Inr ()" by (cases r2) auto
      have "t3 = t4" "isl res = isl r3"
        using run s1 s2 s3 u1 u2 by (cases r3; auto simp: settlePerJob_def Let_def)+
      thus ?thesis using that [of "\<lambda>st. if st = SDeadLetter \<and> isl r3 then [] else ?I st" t1 t2] r1 r2 e1 e2 e3
        by auto
    qed
  qed
qed

text \<open>A job of the batch that is still claimed.\<close>

definition claimed :: "str \<Rightarrow> batch \<Rightarrow> job \<Rightarrow> bool" where
  "claimed n claims j = (job_name j = n \<and> state j = Active \<and> (job_id j, retry_count j) \<in> set claims)"

lemma settlePerJob_each:
  assumes ok: "table_ok t" and d: "distinct (map fst claims)"
    and run: "settlePerJob False env n claims (Some items) now rnd t = (t3, res)"
  shows "only_active t t3" "\<And>j. j \<in> set t \<Longrightarrow> \<not> claimed n claims j \<Longrightarrow> j \<in> set t3"
    "\<And>j. j \<in> set t \<Longrightarrow> claimed n claims j \<Longrightarrow> (\<exists>r\<in>set t3. state r \<noteq> Active \<and>
        ends_as env now rnd (fst (status_of claims items (job_id j)))
          (mapCompletionDataArg (snd (status_of claims items (job_id j)))) t t3 j r) \<or> isl res \<and> j \<in> set t3"
proof -
  obtain t1 t2 g where e1: "settles_each env now rnd n (g SCompleted) SCompleted t t1"
    and e2: "settles_each env now rnd n (g SFailed) SFailed t1 t2"
    and e3: "settles_each env now rnd n (g SDeadLetter) SDeadLetter t2 t3"
    and g: "\<And>st. g st = [] \<and> isl res \<or> g st = items_of claims items st"
    by (rule settlePerJob_steps [OF ok d run]) blast
  have c: "only_active t t1" "only_active t1 t2" "only_active t2 t3"
    using e1 e2 e3 by (simp_all add: settles_each_def)
  show "only_active t t3" by (rule only_active_trans [OF only_active_trans [OF c(1,2)] c(3)])
  note rf = only_active_refl [OF ok]
  have ok3: "table_ok t3" using c(3) by (simp add: only_active_def)
  have tk: "claimed n claims j \<and> st = fst (status_of claims items (job_id j))" if "taken n (g st) j" for st j
  proof -
    have "g st = items_of claims items st" using that g [of st] by (auto simp: taken_def)
    thus ?thesis using that by (simp add: taken_items claimed_def)
  qed
  show "\<And>j. j \<in> set t \<Longrightarrow> \<not> claimed n claims j \<Longrightarrow> j \<in> set t3"
    using e1 e2 e3 tk by (meson settles_each_def)
  fix j assume j: "j \<in> set t" "claimed n claims j"
  let ?st = "fst (status_of claims items (job_id j))"
  let ?out = "mapCompletionDataArg (snd (status_of claims items (job_id j)))"
  let ?own = "\<exists>r\<in>set t3. state r \<noteq> Active \<and> ends_as env now rnd ?st ?out t t3 j r"
  have out: "output_by_id (g st) j = ?out" if "taken n (g st) j" for st
  proof -
    have st: "st = ?st" using tk [OF that] by simp
    have "g st = items_of claims items st" using that g [of st] by (auto simp: taken_def)
    moreover have "(job_id j, retry_count j, ?out) \<in> set (items_of claims items ?st)"
      using j(2) by (simp add: items_of_mem claimed_def)
    ultimately show ?thesis using output_by_id_eq [OF items_of_distinct [OF d]] st by metis
  qed
  have up: "r \<in> set t1 \<Longrightarrow> state r \<noteq> Active \<Longrightarrow> r \<in> set t3" "r \<in> set t2 \<Longrightarrow> state r \<noteq> Active \<Longrightarrow> r \<in> set t3" for r
    using only_active_D(1) [OF c(3)] only_active_D(1) [OF c(2)] by blast+
  consider "taken n (g ?st) j" | "\<And>st. \<not> taken n (g st) j" using tk by blast
  thus "?own \<or> isl res \<and> j \<in> set t3"
  proof cases
    case 1
    have other: "\<not> taken n (g st) j" if "st \<noteq> ?st" for st using tk that by blast
    have ?own
    proof (cases ?st)
      case SCompleted
      then obtain r where r: "r \<in> set t1" "state r \<noteq> Active" "ends_as env now rnd ?st ?out t t1 j r"
        using e1 j(1) 1 out [OF 1] by (auto simp: settles_each_def)
      have "ends_as env now rnd ?st ?out t t3 j r"
        by (rule ends_as_wider [OF r(3) rf c(1) only_active_trans [OF c(2,3)]])
      thus ?thesis using up(1) [OF r(1,2)] r(2) by blast
    next
      case SFailed
      hence "j \<in> set t1" using e1 j(1) other [of SCompleted] by (simp add: settles_each_def)
      then obtain r where r: "r \<in> set t2" "state r \<noteq> Active" "ends_as env now rnd ?st ?out t1 t2 j r"
        using e2 1 out [OF 1] SFailed by (auto simp: settles_each_def)
      have "ends_as env now rnd ?st ?out t t3 j r" by (rule ends_as_wider [OF r(3) c])
      thus ?thesis using up(2) [OF r(1,2)] r(2) by blast
    next
      case SDeadLetter
      hence "j \<in> set t2" using e1 e2 j(1) other [of SCompleted] other [of SFailed] by (simp add: settles_each_def)
      then obtain r where r: "r \<in> set t3" "state r \<noteq> Active" "ends_as env now rnd ?st ?out t2 t3 j r"
        using e3 1 out [OF 1] SDeadLetter by (auto simp: settles_each_def)
      have "ends_as env now rnd ?st ?out t t3 j r"
        by (rule ends_as_wider [OF r(3) only_active_trans [OF c(1,2)] c(3) only_active_refl [OF ok3]])
      thus ?thesis using r(1,2) by blast
    qed
    thus ?thesis ..
  next
    case 2
    hence "j \<in> set t3" using e1 e2 e3 j(1) by (simp add: settles_each_def)
    moreover have "isl res" using g [of ?st] 2 [of ?st] j(2) by (auto simp: taken_items claimed_def)
    ultimately show ?thesis by simp
  qed
qed

text \<open>(C34) Per-job results settle each job of the batch by its own result: the last valid entry for
  it, a failure when there is none.  On a backend with single statements, and with no other session between
  the batch's own, every job whose claim this worker still holds ends with that result's output: completed;
  failed, which sends it to be retried while it has retries left, unless another row holds an index entry
  the retry would need; or dead lettered, which never retries it.  Each job that ends failed has its copy in
  its dead letter queue.  Only when one of the statements raised does a job end otherwise: it is failed with
  the whole batch, or left as it was when that failed as well.  Every row that is not a claimed job of the
  batch, one whose claim lapsed included, stays as it was.\<close>

theorem per_job_results_exact:
  assumes ok: "table_ok t" and d: "distinct (map fst claims)"
    and run: "process_per_job False env n claims (Some items) err now rnd t = (t', escaped)"
  shows "table_ok t' \<and>
    (\<forall>j\<in>set t. \<not> claimed n claims j \<longrightarrow> j \<in> set t') \<and>
    (\<forall>j\<in>set t. claimed n claims j \<longrightarrow>
      (\<exists>r\<in>set t'. ends_as env now rnd (fst (status_of claims items (job_id j)))
          (mapCompletionDataArg (snd (status_of claims items (job_id j)))) t t' j r) \<or>
      isl (snd (settlePerJob False env n claims (Some items) now rnd t)) \<and>
        ((\<exists>r\<in>set t'. ends_as env now rnd SFailed (mapCompletionDataArg err) t t' j r) \<or>
         escaped \<noteq> None \<and> j \<in> set t'))"
proof -
  obtain t3 res where s: "settlePerJob False env n claims (Some items) now rnd t = (t3, res)" by fastforce
  note each = settlePerJob_each [OF ok d s]
  have ok3: "table_ok t3" using each(1) by (simp add: only_active_def)
  show ?thesis
  proof (cases "t' = t3 \<and> (isl res \<longrightarrow> escaped \<noteq> None)")
    case True
    thus ?thesis using each ok3 s by fastforce
  next
    case False
    then obtain e r where res: "res = Inl e"
      and f: "fail False (\<lambda>_. None) (be_queues env) (be_new_id env) n (attempt_args claims) err now rnd t3 = Inr (t', r)"
      using run s by (auto simp: process_per_job_def split: sum.splits)
    obtain rs where body: "failJobsBody (be_queues env) (be_new_id env) now rnd (fail_sel n (map fst claims) (Some claims))
        (\<lambda>_. mapCompletionDataArg err) False t3 = Inr (t', rs)"
      by (rule failed_batch_body [OF f]) 
    have sel: "fail_sel n (map fst claims) (Some claims) j \<longleftrightarrow> claimed n claims j" for j
      by (force simp: fail_sel_def attemptFence_def claimed_def)
    note ends = fail_body_ends [OF body fail_ids [OF ok3], unfolded sel]
    have act: "\<And>j. claimed n claims j \<Longrightarrow> state j = Active" by (simp add: claimed_def)
    note fin = ends [OF act]
    have up: "r \<in> set t3 \<Longrightarrow> state r \<noteq> Active \<Longrightarrow> r \<in> set t'" for r using only_active_D(1) [OF fin(1)] by blast
    have ok': "table_ok t'" using fin(1) by (simp add: only_active_def)
    have "j \<in> set t'" if "j \<in> set t" "\<not> claimed n claims j" for j
      using each(2) fin(2) that by blast
    moreover have "(\<exists>r\<in>set t'. ends_as env now rnd (fst (status_of claims items (job_id j)))
          (mapCompletionDataArg (snd (status_of claims items (job_id j)))) t t' j r) \<or>
        (\<exists>r\<in>set t'. ends_as env now rnd SFailed (mapCompletionDataArg err) t t' j r)"
      if j: "j \<in> set t" "claimed n claims j" for j
      using each(3) [OF j]
    proof (elim disjE bexE conjE)
      fix r assume r: "r \<in> set t3" "state r \<noteq> Active"
        "ends_as env now rnd (fst (status_of claims items (job_id j)))
          (mapCompletionDataArg (snd (status_of claims items (job_id j)))) t t3 j r"
      from ends_as_wider [OF r(3) only_active_refl [OF ok] each(1) fin(1)] show ?thesis using up [OF r(1,2)] by blast
    next
      assume "j \<in> set t3"
      then obtain r where r: "r \<in> set t'" "fails_as env now rnd False (mapCompletionDataArg err) t3 t' j r"
        using fin(3) [OF _ _ j(2)] by blast
      have "fails_as env now rnd False (mapCompletionDataArg err) t t' j r"
        by (rule fails_as_wider [OF r(2) each(1) fin(1) only_active_refl [OF ok']])
      thus ?thesis using r(1) by (auto simp: ends_as_def)
    qed
    ultimately show ?thesis using ok' res s by auto
  qed
qed

definition sample_results :: "job_result list" where
  "sample_results = [Some (1, SFailed, None), None, Some (1, SCompleted, Some (JNum 5)), Some (3, SCompleted, None)]"

lemma per_job_results_exact_witness:
  "\<exists>t'. process_per_job False sample_batch_env ''q'' sample_claims (Some sample_results) None 9 (\<lambda>_. 0)
      [sample_failing] = (t', None) \<and>
    sample_failing\<lparr>state := Completed, completed_on := Some 9, job_output := Some (JObj [(''value'', JNum 5)])\<rparr>
      \<in> set t'"
proof -
  have s: "settlePerJob False sample_batch_env ''q'' sample_claims (Some sample_results) 9 (\<lambda>_. 0)
      [sample_failing] = ([complete_out_chg [(1, 0, Some (JObj [(''value'', JNum 5)]))] 9 sample_failing], Inr False)"
    by (simp add: settlePerJob_def after_def sample_results_def sample_claims_def items_of_def status_of_def
        disposition_def dispositions_def unless_empty_def completeWithOutputs_def completeJobsWithOutputs_def
        complete_out_sel_def complete_out_chg_def output_row_def run_update_def check_table_def
        settled_ids_def mapCompletionDataArg_def sample_failing_def eval_defs Let_def)
  have d: "distinct (map fst sample_claims)" by (simp add: sample_claims_def)
  have st: "status_of sample_claims sample_results (job_id sample_failing) = (SCompleted, Some (JNum 5))"
    by (simp add: status_of_def disposition_def dispositions_def sample_results_def sample_claims_def
        sample_failing_def eval_defs)
  have j: "claimed ''q'' sample_claims sample_failing"
    by (simp add: claimed_def sample_failing_def sample_claims_def eval_defs)
  obtain t' esc where run: "process_per_job False sample_batch_env ''q'' sample_claims (Some sample_results) None 9
      (\<lambda>_. 0) [sample_failing] = (t', esc)" by fastforce
  hence "esc = None" using s by (simp add: process_per_job_def)
  moreover have "\<not> isl (snd (settlePerJob False sample_batch_env ''q'' sample_claims (Some sample_results) 9 (\<lambda>_. 0)
      [sample_failing]))" by (simp add: s)
  ultimately show ?thesis
    using per_job_results_exact [OF sample_failing_ok d run] j run
    by (auto simp: st ends_as_def mapCompletionDataArg_def)
qed

section \<open>The heartbeat\<close>

text \<open>The longest expiration of a batch bounds its handler; the shortest heartbeat sets the refresh, by
  default twice in that time.\<close>

definition max_expiration :: "job list \<Rightarrow> int" where
  "max_expiration jobs = foldl max 0 (map expire_seconds jobs)"

definition heartbeat_candidates :: "job list \<Rightarrow> int list" where
  "heartbeat_candidates jobs = filter (\<lambda>s. s > 0) (map (\<lambda>j. coalesce (heartbeat_seconds j) 0) jobs)"

definition batch_heartbeat :: "job list \<Rightarrow> int" where
  "batch_heartbeat jobs = (case heartbeat_candidates jobs of [] \<Rightarrow> 0 | s # ss \<Rightarrow> foldl min s ss)"

text \<open>The refresh interval in milliseconds, none without a heartbeat; the option
  \<^verbatim>\<open>heartbeatRefreshSeconds\<close> replaces the default.\<close>

definition refresh_ms :: "rat option \<Rightarrow> job list \<Rightarrow> rat option" where
  "refresh_ms refreshSeconds jobs = (if batch_heartbeat jobs > 0
     then Some (coalesce refreshSeconds (of_int (batch_heartbeat jobs) / 2) * 1000) else None)"

text \<open>One tick: the jobs whose signal is not aborted are touched at their attempts; a touch that failed
  says nothing, and a job it did not refresh has its signal aborted.\<close>

definition heartbeat_tick ::
  "str \<Rightarrow> batch \<Rightarrow> time \<Rightarrow> job list \<times> uuid list \<Rightarrow> job list \<times> uuid list" where
  "heartbeat_tick n claims now s = (case s of (t, aborted) \<Rightarrow>
     let held_jobs = filter (\<lambda>(i, c). i \<notin> set aborted) claims
     in if held_jobs = [] then (t, aborted)
        else (case touch n (attempt_args held_jobs) now t of
          Inl e \<Rightarrow> (t, aborted)
        | Inr (t', r) \<Rightarrow> (case cr_settled r of
            None \<Rightarrow> (t', aborted)
          | Some refreshed \<Rightarrow> (t', aborted @ filter (\<lambda>i. i \<notin> set refreshed) (map fst held_jobs)))))"

lemma touch_claims:
  assumes "table_ok t" "cs \<noteq> []" "list_all (\<lambda>(i, c). 0 \<le> c) cs"
  shows "touch n (attempt_args cs) now t =
    (let sel = touch_sel n (map fst cs) (Some cs) in Inr (upd_where sel (touch_chg now) t,
       mapCommandResponse (map fst cs) (length (filter sel t)) (Some (map job_id (filter sel t)))))"
proof -
  have "plain_ids (attempt_args cs) = None" using assms(2) by (cases cs) (auto simp: attempt_args_def)
  hence "mapAttemptArg (attempt_args cs) = Inr (map fst cs, Some (map snd cs))"
    using assms(2,3) by (auto simp: mapAttemptArg_def attempt_args_map)
  from touch_eq [OF assms(1) this, of n now] show ?thesis
    by (simp add: attemptPairs_def zip_map_fst_snd)
qed

lemma touch_sel_claims:
  "touch_sel n (map fst cs) (Some cs) j \<longleftrightarrow>
    job_name j = n \<and> state j = Active \<and> (job_id j, retry_count j) \<in> set cs"
  by (force simp: touch_sel_def attemptFence_def)

lemma foldl_min: "foldl min (a::int) xs \<le> a \<and> (\<forall>x\<in>set xs. foldl min a xs \<le> x)"
proof (induction xs arbitrary: a)
  case (Cons x xs)
  from Cons.IH [of "min a x"] show ?case by auto
qed simp

lemma batch_heartbeat_least:
  assumes "j \<in> set jobs" "heartbeat_seconds j = Some s" "s > 0"
  shows "batch_heartbeat jobs \<le> s"
proof -
  have "s \<in> set (heartbeat_candidates jobs)" using assms by (force simp: heartbeat_candidates_def)
  thus ?thesis using foldl_min by (cases "heartbeat_candidates jobs") (auto simp: batch_heartbeat_def)
qed

text \<open>(C35) The heartbeat speaks for the claim of each job.  A tick aborts the signal of exactly the jobs
  whose claim this worker no longer holds, and leaves their rows alone; every job still held is
  refreshed, so until the shortest heartbeat of the batch has passed again no sweep takes it for lost,
  whatever the heartbeats of the others.\<close>

theorem heartbeat_tracks_claims:
  assumes ok: "table_ok t" and d: "distinct (map fst claims)" and pos: "list_all (\<lambda>(i, c). 0 \<le> c) claims"
    and tick: "heartbeat_tick n claims now (t, aborted) = (t', aborted')"
    and rows: "set jobs \<subseteq> set t'" "\<And>j. j \<in> set jobs \<Longrightarrow> job_name j = n \<and> (job_id j, retry_count j) \<in> set claims"
      "\<And>j h. j \<in> set jobs \<Longrightarrow> heartbeat_seconds j = Some h \<Longrightarrow> 0 < h"
    and later: "later \<le> now + batch_heartbeat jobs * second"
  shows "(\<forall>(i, c)\<in>set claims. i \<in> set aborted' \<longleftrightarrow> i \<in> set aborted \<or> \<not> held n i c t) \<and>
    (\<forall>j\<in>set t. job_name j \<noteq> n \<or> job_id j \<in> set aborted' \<longrightarrow> j \<in> set t') \<and>
    (\<forall>j\<in>set jobs. job_id j \<notin> set aborted' \<longrightarrow> \<not> heartbeatLost queues later j)"
proof -
  let ?hj = "filter (\<lambda>(i, c). i \<notin> set aborted) claims"
  let ?sel = "touch_sel n (map fst ?hj) (Some ?hj)"
  have fst_hj: "i \<in> fst ` set ?hj \<longleftrightarrow> i \<in> fst ` set claims \<and> i \<notin> set aborted" for i by force
  have step: "t' = upd_where ?sel (touch_chg now) t \<and> (\<forall>i\<in>fst ` set claims. i \<in> set aborted' \<longleftrightarrow>
      i \<in> set aborted \<or> (\<forall>j\<in>set t. ?sel j \<longrightarrow> job_id j \<noteq> i)) \<and> (\<forall>i\<in>set aborted'. i \<in> set aborted \<or> (\<forall>j\<in>set t. ?sel j \<longrightarrow> job_id j \<noteq> i))"
  proof (cases "?hj = []")
    case True
    hence "\<not> ?sel j" for j by (simp add: touch_sel_def)
    moreover have "\<forall>i\<in>fst ` set claims. i \<in> set aborted" using True fst_hj by simp
    ultimately show ?thesis using tick True by (simp add: heartbeat_tick_def upd_where_none)
  next
    case False
    have "list_all (\<lambda>(i, c). 0 \<le> c) ?hj" using pos by (auto simp: list_all_iff)
    note r = touch_claims [OF ok False this, of n now]
    have "t' = upd_where ?sel (touch_chg now) t"
      "aborted' = aborted @ filter (\<lambda>i. i \<notin> set (map job_id (filter ?sel t))) (map fst ?hj)"
      using tick False unfolding heartbeat_tick_def prod.case Let_def r by (simp_all add: mapCommandResponse_def)
    moreover have "i \<in> set aborted \<or> i \<in> fst ` set ?hj" if "i \<in> fst ` set claims" for i using that fst_hj by blast
    ultimately show ?thesis by auto
  qed
  have taken: "(\<exists>j\<in>set t. ?sel j \<and> job_id j = i) \<longleftrightarrow> held n i c t" if m: "(i, c) \<in> set claims" "i \<notin> set aborted" for i c
  proof -
    have "(job_id j, retry_count j) \<in> set claims \<and> job_id j = i \<longleftrightarrow> job_id j = i \<and> retry_count j = c" for j
      using d m(1) eq_key_imp_eq_value by fastforce
    thus ?thesis using m(2) by (auto simp: touch_sel_claims held_def list_ex_iff)
  qed
  have alive: "\<not> heartbeatLost queues later j" if j: "j \<in> set jobs" "job_id j \<notin> set aborted'" for j
  proof -
    have c: "(job_id j, retry_count j) \<in> set claims" "job_name j = n" and in': "j \<in> set t'"
      using rows j(1) by auto
    hence na: "job_id j \<notin> set aborted" using j(2) step by force
    show ?thesis
    proof (cases "state j = Active")
      case True
      have "\<not> (j \<in> set t \<and> \<not> ?sel j)" using True c na by (simp add: touch_sel_claims)
      hence on: "heartbeat_on j = Some now" using in' step by (auto simp: set_upd_where touch_chg_def)
      have "batch_heartbeat jobs \<le> h" if "heartbeat_seconds j = Some h" for h
        using batch_heartbeat_least [OF j(1) that] rows(3) [OF j(1) that] by simp
      thus ?thesis using on later by (fastforce simp: heartbeatLost_def split: option.splits)
    qed (simp add: heartbeatLost_def)
  qed
  have "\<forall>j\<in>set t. job_name j \<noteq> n \<or> job_id j \<in> set aborted' \<longrightarrow> j \<in> set t'"
  proof (intro ballI impI)
    fix j assume j: "j \<in> set t" "job_name j \<noteq> n \<or> job_id j \<in> set aborted'"
    have "\<not> ?sel j"
    proof
      assume s: "?sel j"
      hence "job_name j = n" "job_id j \<notin> set aborted" by (auto simp: touch_sel_claims)
      thus False using j s step by blast
    qed
    thus "j \<in> set t'" using j(1) step by (simp add: set_upd_where)
  qed
  moreover have "\<forall>(i, c)\<in>set claims. i \<in> set aborted' \<longleftrightarrow> i \<in> set aborted \<or> \<not> held n i c t"
  proof (clarify)
    fix i c assume m: "(i, c) \<in> set claims"
    hence "i \<in> fst ` set claims" by force
    thus "i \<in> set aborted' \<longleftrightarrow> i \<in> set aborted \<or> \<not> held n i c t" using step taken [OF m] by blast
  qed
  ultimately show ?thesis using alive by blast
qed

definition beating :: job where
  "beating = sample_failing\<lparr>heartbeat_seconds := Some 60\<rparr>"

definition retried_elsewhere :: job where
  "retried_elsewhere = beating\<lparr>job_id := 3, retry_count := 1\<rparr>"

lemma heartbeat_tracks_claims_witness:
  "heartbeat_tick ''q'' [(1, 0), (3, 0)] 9 ([beating, retried_elsewhere], []) =
     ([touch_chg 9 beating, retried_elsewhere], [3]) \<and>
   \<not> heartbeatLost [''q''] 60000009 (touch_chg 9 beating)"
proof -
  have tick: "heartbeat_tick ''q'' [(1, 0), (3, 0)] 9 ([beating, retried_elsewhere], []) =
     ([touch_chg 9 beating, retried_elsewhere], [3])" by code_simp
  have ok: "table_ok [beating, retried_elsewhere]" by code_simp
  have "job_name (touch_chg 9 beating) = ''q'' \<and> (job_id (touch_chg 9 beating), retry_count (touch_chg 9 beating)) \<in> set [(1, 0), (3, 0)]"
    "batch_heartbeat [touch_chg 9 beating] = 60" "heartbeat_seconds (touch_chg 9 beating) = Some 60"
    "job_id (touch_chg 9 beating) = 1" by code_simp+
  thus ?thesis
    using tick heartbeat_tracks_claims [OF ok _ _ tick, of "[touch_chg 9 beating]" 60000009 "[''q'']"] by simp
qed

end
