(* ===== verification/Bam.thy ===== *)
theory Bam
  imports Claims Rrule
begin

text \<open>
  Background migrations, \<^verbatim>\<open>src/src/bam.ts\<close> and the statements of \<^verbatim>\<open>src/src/plans.ts\<close> it runs: the
  queue of commands a migration leaves, most of them index builds; the claim of the next one, which many
  instances race for; the attempt, with the probe of the catalog before a second try and after a build; and
  how \<^verbatim>\<open>stop()\<close> ends a statement.

  What the database does with a command is its own: a statement is in flight until an event ends it, with
  any error and any catalog after it.  An index is in the catalog as its validity.  A concurrent index
  statement holds a lock on its table while it is in flight, which the claim reads.  Deleting a queue with
  a table of its own also deletes its commands; that step is not in this theory.
\<close>

section \<open>Recognising a command\<close>

text \<open>A regular expression is the remainders it leaves, in the order the matcher tries them.\<close>

type_synonym matcher = "str \<Rightarrow> str list"

definition m_word :: "str \<Rightarrow> matcher" where
  "m_word w s = (if map upper_ascii (take (length w) s) = w then [drop (length w) s] else [])"

fun m_many :: "(char \<Rightarrow> bool) \<Rightarrow> matcher" where
  "m_many p [] = []"
| "m_many p (c # s) = (if p c then m_many p s @ [s] else [])"

definition m_seq :: "matcher \<Rightarrow> matcher \<Rightarrow> matcher" where
  "m_seq p q s = concat (map q (p s))"

definition m_opt :: "matcher \<Rightarrow> matcher" where
  "m_opt p s = p s @ [s]"

definition m_space :: matcher where
  "m_space = m_many is_space"

definition m_spaces :: matcher where
  "m_spaces = m_opt m_space"

definition sql_char :: "char \<Rightarrow> bool" where
  "sql_char c = (is_alpha c \<or> is_num c \<or> c = CHR ''_'')"

definition name_char :: "char \<Rightarrow> bool" where
  "name_char c = (sql_char c \<or> c = CHR ''$'')"

definition m_name :: matcher where
  "m_name = m_many name_char"

fun quote_char :: matcher where
  "quote_char [] = []"
| "quote_char (c # s) = (if of_char c = (34::nat) then [s] else [])"

definition m_quote :: matcher where
  "m_quote = m_opt quote_char"

definition m_then :: "str \<Rightarrow> matcher" where
  "m_then w = m_seq (m_word w) m_space"

definition m_if_not_exists :: matcher where
  "m_if_not_exists = m_opt (m_seq (m_then ''IF'') (m_seq (m_then ''NOT'') (m_then ''EXISTS'')))"

text \<open>\<^verbatim>\<open>CREATE\s+(?:UNIQUE\s+)?INDEX\s+\<close> and what follows it up to the index name.\<close>

definition m_create_index :: matcher where
  "m_create_index = m_seq (m_then ''CREATE'') (m_seq (m_opt (m_then ''UNIQUE'')) (m_then ''INDEX''))"

definition m_create_concurrently :: matcher where
  "m_create_concurrently = m_seq m_create_index (m_seq (m_then ''CONCURRENTLY'') m_if_not_exists)"

definition m_create_any :: matcher where
  "m_create_any = m_seq m_create_index (m_seq (m_opt (m_then ''CONCURRENTLY'')) m_if_not_exists)"

text \<open>The first match of an expression and of what it captures after it, anywhere in the text.\<close>

definition captured :: "str \<Rightarrow> str \<Rightarrow> str" where
  "captured s rest = take (length s - length rest) s"

definition first_capture :: "matcher \<Rightarrow> matcher \<Rightarrow> str \<Rightarrow> str option" where
  "first_capture before capture s = (case concat (map (\<lambda>r. map (captured r) (capture r)) (before s)) of
     [] \<Rightarrow> None | c # _ \<Rightarrow> Some c)"

fun search :: "(str \<Rightarrow> str option) \<Rightarrow> str \<Rightarrow> str option" where
  "search p [] = p []"
| "search p (c # s) = (case p (c # s) of None \<Rightarrow> search p s | Some x \<Rightarrow> Some x)"

definition bamHealDrop :: "str \<Rightarrow> str \<Rightarrow> str option" where
  "bamHealDrop schema command = map_option (\<lambda>n. ''DROP INDEX CONCURRENTLY IF EXISTS '' @ schema @ ''.'' @ n)
     (search (first_capture m_create_concurrently (m_seq m_quote (m_seq m_name m_quote))) command)"

text \<open>The probe reads the catalog under the name.\<close>

definition bamHealProbe :: "str \<Rightarrow> str option" where
  "bamHealProbe command =
     search (first_capture (m_seq m_create_concurrently m_quote) m_name) command"

definition bamCommandIndexName :: "str \<Rightarrow> str option" where
  "bamCommandIndexName command = search (first_capture (m_seq m_create_any m_quote) m_name) command"

definition m_boundary :: matcher where
  "m_boundary s = (case s of [] \<Rightarrow> [s] | c # _ \<Rightarrow> if sql_char c then [] else [s])"

definition m_index_verb :: matcher where
  "m_index_verb s = m_create_index s @ m_seq (m_then ''DROP'') (m_then ''INDEX'') s"

definition isConcurrentIndexCommand :: "str \<Rightarrow> bool" where
  "isConcurrentIndexCommand command = (m_seq m_spaces (m_seq m_index_verb
     (m_seq (m_word ''CONCURRENTLY'') m_boundary)) command \<noteq> [])"

section \<open>The commands\<close>

datatype bam_status = BPending | BInProgress | BCompleted | BFailed

record bam_row =
  bm_id :: uuid
  bm_name :: str
  bm_version :: int
  bm_status :: bam_status
  bm_queue :: "str option"
  bm_table :: str
  bm_command :: str
  bm_error :: "str option"
  bm_created_on :: time
  bm_started_on :: "time option"
  bm_completed_on :: "time option"

record bam_claim =
  bc_id :: uuid
  bc_table :: str
  bc_command :: str
  bc_reattempt :: bool
  bc_prior_status :: bam_status
  bc_prior_started_on :: "time option"
  bc_claimed_on :: time

definition BAM_STALE_SECONDS :: int where
  "BAM_STALE_SECONDS = 60 * 60 * 24"

definition BAM_LIVENESS_GRACE_SECONDS :: int where
  "BAM_LIVENESS_GRACE_SECONDS = 60 * 5"

text \<open>When a row in progress may be taken again, and when it holds the queue.  A comparison with null is
  neither.\<close>

definition older :: "int \<Rightarrow> time \<Rightarrow> time option \<Rightarrow> bool option" where
  "older seconds now started = map_option (\<lambda>s. s < now - seconds * second) started"

definition bam_stale :: "bool \<Rightarrow> (str \<Rightarrow> bool) \<Rightarrow> time \<Rightarrow> bam_row \<Rightarrow> bool" where
  "bam_stale useLiveness live now r = (bm_status r = BInProgress \<and> (if useLiveness
     then older BAM_LIVENESS_GRACE_SECONDS now (bm_started_on r) = Some True \<and> \<not> live (bm_table r)
     else older BAM_STALE_SECONDS now (bm_started_on r) = Some True))"

definition bam_blocks :: "bool \<Rightarrow> (str \<Rightarrow> bool) \<Rightarrow> time \<Rightarrow> bam_row \<Rightarrow> bool" where
  "bam_blocks useLiveness live now r = (bm_status r = BInProgress \<and> (if useLiveness
     then older BAM_LIVENESS_GRACE_SECONDS now (bm_started_on r) = Some False \<or> live (bm_table r)
     else older BAM_STALE_SECONDS now (bm_started_on r) = Some False))"

definition after_predecessors :: "bam_row list \<Rightarrow> bam_row \<Rightarrow> bool" where
  "after_predecessors t c = list_all (\<lambda>p. \<not> (bm_version p = bm_version c \<and> bm_table p = bm_table c \<and>
     bm_created_on p < bm_created_on c \<and> bm_status p \<noteq> BCompleted)) t"

definition bam_candidate ::
  "bool \<Rightarrow> bool \<Rightarrow> (str \<Rightarrow> bool) \<Rightarrow> (uuid \<Rightarrow> bool) \<Rightarrow> time \<Rightarrow> bam_row list \<Rightarrow> bam_row \<Rightarrow> bool" where
  "bam_candidate useLiveness pendingOnly live rowLocked now t c = (
     (if pendingOnly then bm_status c = BPending
      else bm_status c \<in> {BPending, BFailed} \<or> bam_stale useLiveness live now c) \<and>
     after_predecessors t c \<and> \<not> list_ex (bam_blocks useLiveness live now) t \<and>
     (useLiveness \<longrightarrow> \<not> rowLocked (bm_id c)))"

definition claim_of :: "time \<Rightarrow> bam_row \<Rightarrow> bam_claim" where
  "claim_of now c = \<lparr>bc_id = bm_id c, bc_table = bm_table c, bc_command = bm_command c,
     bc_reattempt = (bm_status c \<noteq> BPending), bc_prior_status = bm_status c,
     bc_prior_started_on = bm_started_on c, bc_claimed_on = now\<rparr>"

definition getNextBamCommand ::
  "bool \<Rightarrow> bool \<Rightarrow> (str \<Rightarrow> bool) \<Rightarrow> (uuid \<Rightarrow> bool) \<Rightarrow> time \<Rightarrow> bam_row list \<Rightarrow>
   bam_row list \<times> bam_claim option" where
  "getNextBamCommand useLiveness pendingOnly live rowLocked now t =
     (case sort_key (\<lambda>c. (bm_status c \<noteq> BPending, bm_created_on c))
        (filter (bam_candidate useLiveness pendingOnly live rowLocked now t) t) of
        [] \<Rightarrow> (t, None)
      | c # _ \<Rightarrow> (upd_where (\<lambda>r. bm_id r = bm_id c \<and> bm_status r = bm_status c \<and> bm_started_on r = bm_started_on c)
           (\<lambda>r. r\<lparr>bm_status := BInProgress, bm_started_on := Some now\<rparr>) t, Some (claim_of now c)))"

definition releaseBamCommand :: "bam_claim \<Rightarrow> bam_row list \<Rightarrow> bam_row list" where
  "releaseBamCommand c t = upd_where
     (\<lambda>r. bm_id r = bc_id c \<and> bm_status r = BInProgress \<and> bm_started_on r = Some (bc_claimed_on c))
     (\<lambda>r. r\<lparr>bm_status := bc_prior_status c, bm_started_on := bc_prior_started_on c\<rparr>) t"

definition setBamCompleted :: "uuid \<Rightarrow> time \<Rightarrow> bam_row list \<Rightarrow> bam_row list" where
  "setBamCompleted i now t = upd_where (\<lambda>r. bm_id r = i)
     (\<lambda>r. r\<lparr>bm_status := BCompleted, bm_completed_on := Some now, bm_error := None\<rparr>) t"

definition setBamFailed :: "uuid \<Rightarrow> str \<Rightarrow> time \<Rightarrow> bam_row list \<Rightarrow> bam_row list" where
  "setBamFailed i err now t = upd_where (\<lambda>r. bm_id r = i)
     (\<lambda>r. r\<lparr>bm_status := BFailed, bm_error := Some err, bm_completed_on := Some now\<rparr>) t"


text \<open>The heal step exists exactly where the probe does, which the runner relies on.\<close>

lemma first_capture_None: "first_capture p q s = None \<longleftrightarrow> (\<forall>r\<in>set (p s). q r = [])"
proof -
  have "(case xs of [] \<Rightarrow> None | c # _ \<Rightarrow> Some c) = None \<longleftrightarrow> xs = []" for xs :: "str list"
    by (cases xs) auto
  thus ?thesis by (auto simp: first_capture_def)
qed

lemma search_None: "search p s = None \<longleftrightarrow> (\<forall>n\<le>length s. p (drop n s) = None)"
proof (induction s)
  case (Cons c s)
  have "(\<forall>n\<le>Suc (length s). P n) \<longleftrightarrow> P 0 \<and> (\<forall>n\<le>length s. P (Suc n))" for P
    using Nat.not0_implies_Suc by (metis Suc_le_mono le0)
  with Cons show ?case by (simp split: option.splits)
qed simp

lemma heal_iff_probe: "bamHealDrop schema command = None \<longleftrightarrow> bamHealProbe command = None"
  by (auto simp: bamHealDrop_def bamHealProbe_def search_None first_capture_None m_seq_def m_quote_def m_opt_def)

lemma heal_drop_concurrent:
  assumes "bamHealDrop schema command = Some sql"
  shows "isConcurrentIndexCommand sql"
proof -
  obtain n where "sql = ''DROP INDEX CONCURRENTLY IF EXISTS '' @ schema @ ''.'' @ n"
    using assms by (auto simp: bamHealDrop_def)
  thus ?thesis
    by (simp add: isConcurrentIndexCommand_def m_seq_def m_spaces_def m_opt_def m_space_def m_index_verb_def
        m_create_index_def m_then_def m_word_def m_boundary_def is_space_def upper_ascii_def sql_char_def
        is_alpha_def is_num_def)
qed

section \<open>The runner\<close>

text \<open>How the backend and the connection shape it.\<close>

record bam_config =
  bf_liveness :: bool
  bf_cockroach :: bool
  bf_own_pool :: bool
  bf_schema :: str

datatype ending = EAbandon | EDrop | ECancel | EWait

definition ending_of :: "bam_config \<Rightarrow> str \<Rightarrow> ending" where
  "ending_of cfg sql = (if \<not> bf_own_pool cfg then (if bf_cockroach cfg then EWait else ECancel)
     else if bf_cockroach cfg then EDrop
     else if bf_liveness cfg \<and> isConcurrentIndexCommand sql then EAbandon else ECancel)"

text \<open>Where a runner is, between two awaits: before a claim, with the claim not yet looked at, before the
  probe, before and in the two statements, before the probe after the build, before either mark.\<close>

datatype bam_point =
    BIdle
  | BClaiming bool
  | BClaimed bam_claim
  | BProbe bam_claim
  | BDropStart bam_claim
  | BDropping bam_claim
  | BRunStart bam_claim
  | BRunning bam_claim
  | BCheck bam_claim
  | BMarkDone bam_claim
  | BMarkFailed bam_claim str

fun point_claim :: "bam_point \<Rightarrow> bam_claim option" where
  "point_claim BIdle = None"
| "point_claim (BClaiming p) = None"
| "point_claim (BClaimed c) = Some c"
| "point_claim (BProbe c) = Some c"
| "point_claim (BDropStart c) = Some c"
| "point_claim (BDropping c) = Some c"
| "point_claim (BRunStart c) = Some c"
| "point_claim (BRunning c) = Some c"
| "point_claim (BCheck c) = Some c"
| "point_claim (BMarkDone c) = Some c"
| "point_claim (BMarkFailed c e) = Some c"

record bam_runner =
  br_point :: bam_point
  br_stopped :: bool
  br_row_stopped :: bool
  br_aborted :: bool
  br_ended :: bool
  br_ending :: ending

text \<open>A statement the server runs, and the runner that awaits it, if one still does.\<close>

record bam_statement =
  bs_row :: uuid
  bs_table :: str
  bs_concurrent :: bool
  bs_claimed_on :: time
  bs_owner :: "nat option"

record bam_world =
  bw_now :: time
  bw_rows :: "bam_row list"
  bw_index :: "str \<Rightarrow> bool option"
  bw_server :: "bam_statement list"
  bw_runners :: "bam_runner list"

datatype bam_event =
    Tick time
  | Enqueue bam_row
  | Polled nat
  | ClaimNext nat "str list" "uuid list" bool
  | Begin nat bool
  | Probe nat "str option"
  | Send nat
  | NeverRan nat
  | Finish nat "str option" "str \<Rightarrow> bool option"
  | Dropped nat str
  | ProbeAfter nat "str option"
  | Mark nat "str option"
  | StopRunner nat
  | Deadline nat
  | Cancelled nat bool
  | Crash nat
  | ServerEnds uuid "str \<Rightarrow> bool option"

definition set_runner :: "nat \<Rightarrow> bam_runner \<Rightarrow> bam_world \<Rightarrow> bam_world" where
  "set_runner i r w = w\<lparr>bw_runners := (bw_runners w)[i := r]\<rparr>"

definition go_to :: "nat \<Rightarrow> bam_point \<Rightarrow> bam_world \<Rightarrow> bam_world" where
  "go_to i p w = set_runner i ((bw_runners w ! i)\<lparr>br_point := p\<rparr>) w"

definition next_round :: "bam_runner \<Rightarrow> bam_runner" where
  "next_round r = r\<lparr>br_point := if br_stopped r then BIdle else BClaiming True\<rparr>"

definition fresh_row :: "bam_claim \<Rightarrow> bam_runner \<Rightarrow> bam_runner" where
  "fresh_row c r = r\<lparr>br_row_stopped := False, br_aborted := False, br_ended := False, br_ending := EWait,
     br_point := if bc_reattempt c \<and> bamHealProbe (bc_command c) \<noteq> None then BProbe c else BRunStart c\<rparr>"

definition not_started :: str where
  "not_started = ''Error: stop() ended the command before it ran''"

text \<open>A failure, as the text \<^verbatim>\<open>String(err)\<close> that is recorded, unless \<^verbatim>\<open>stop()\<close> dropped the connection under a concurrent index statement that
  the server still runs: then the row stays in progress.\<close>

definition fail_with :: "bam_claim \<Rightarrow> str \<Rightarrow> bam_runner \<Rightarrow> bam_runner" where
  "fail_with c e r = (if br_ended r \<and> br_ending r = EAbandon then next_round r
     else r\<lparr>br_point := BMarkFailed c e\<rparr>)"

definition notStarted :: "bam_claim \<Rightarrow> bam_runner \<Rightarrow> bam_runner" where
  "notStarted c r = fail_with c not_started (r\<lparr>br_ending := EWait, br_ended := True\<rparr>)"

definition probed :: "bam_claim \<Rightarrow> bam_world \<Rightarrow> bool option" where
  "probed c w = (case bamHealProbe (bc_command c) of None \<Rightarrow> None | Some n \<Rightarrow> bw_index w n)"

definition live_tables :: "bam_world \<Rightarrow> str list \<Rightarrow> str \<Rightarrow> bool" where
  "live_tables w others n = (n \<in> set others \<or> list_ex (\<lambda>s. bs_concurrent s \<and> bs_table s = n) (bw_server w))"

definition owned_by :: "nat \<Rightarrow> bam_statement \<Rightarrow> bool" where
  "owned_by i s = (bs_owner s = Some i)"

definition disown :: "nat \<Rightarrow> bam_statement \<Rightarrow> bam_statement" where
  "disown i s = (if owned_by i s then s\<lparr>bs_owner := None\<rparr> else s)"

definition statement_of :: "nat \<Rightarrow> bam_claim \<Rightarrow> str \<Rightarrow> bam_statement" where
  "statement_of i c sql = \<lparr>bs_row = bc_id c, bs_table = bc_table c,
     bs_concurrent = isConcurrentIndexCommand sql, bs_claimed_on = bc_claimed_on c, bs_owner = Some i\<rparr>"

text \<open>A poll whose interval claim won.\<close>

definition polled :: "nat \<Rightarrow> bam_world \<Rightarrow> bam_world" where
  "polled i w = (let r = bw_runners w ! i in
     if br_point r = BIdle \<and> \<not> br_stopped r then go_to i (BClaiming False) w else w)"

text \<open>The claim of the next command.  The answer may not reach the runner (\<^verbatim>\<open>seen\<close>).\<close>

definition claim_next :: "bam_config \<Rightarrow> nat \<Rightarrow> str list \<Rightarrow> uuid list \<Rightarrow> bool \<Rightarrow> bam_world \<Rightarrow> bam_world" where
  "claim_next cfg i others rowLocks seen w = (case br_point (bw_runners w ! i) of
     BClaiming pendingOnly \<Rightarrow>
       (case getNextBamCommand (bf_liveness cfg) pendingOnly (live_tables w others) (\<lambda>k. k \<in> set rowLocks)
           (bw_now w) (bw_rows w) of
         (t, None) \<Rightarrow> go_to i BIdle w
       | (t, Some c) \<Rightarrow> go_to i (if seen then BClaimed c else BIdle) (w\<lparr>bw_rows := t\<rparr>))
   | _ \<Rightarrow> w)"

text \<open>A claim that landed on the wrong side of a stop is handed back.\<close>

definition begin_claim :: "nat \<Rightarrow> bool \<Rightarrow> bam_world \<Rightarrow> bam_world" where
  "begin_claim i landed w = (let r = bw_runners w ! i in case br_point r of
     BClaimed c \<Rightarrow> if br_stopped r
       then go_to i BIdle (if landed then w\<lparr>bw_rows := releaseBamCommand c (bw_rows w)\<rparr> else w)
       else set_runner i (fresh_row c r) w
   | _ \<Rightarrow> w)"

definition probe_claim :: "bam_config \<Rightarrow> nat \<Rightarrow> str option \<Rightarrow> bam_world \<Rightarrow> bam_world" where
  "probe_claim cfg i err w = (let r = bw_runners w ! i in case br_point r of
     BProbe c \<Rightarrow> set_runner i (case err of Some e \<Rightarrow> fail_with c e r
       | None \<Rightarrow> r\<lparr>br_point := (case probed c w of None \<Rightarrow> BRunStart c | Some True \<Rightarrow> BMarkDone c
           | Some False \<Rightarrow> if bf_liveness cfg then BDropStart c else BRunStart c)\<rparr>) w
   | _ \<Rightarrow> w)"

definition send_sql :: "bam_config \<Rightarrow> nat \<Rightarrow> bam_claim \<Rightarrow> str \<Rightarrow> bam_point \<Rightarrow> bam_world \<Rightarrow> bam_world" where
  "send_sql cfg i c sql p w = (let r = bw_runners w ! i in
     if br_row_stopped r then set_runner i (notStarted c r) w
     else set_runner i (r\<lparr>br_ending := ending_of cfg sql, br_point := p\<rparr>)
       (w\<lparr>bw_server := bw_server w @ [statement_of i c sql]\<rparr>))"

definition send_claim :: "bam_config \<Rightarrow> nat \<Rightarrow> bam_world \<Rightarrow> bam_world" where
  "send_claim cfg i w = (case br_point (bw_runners w ! i) of
     BDropStart c \<Rightarrow> (case bamHealDrop (bf_schema cfg) (bc_command c) of None \<Rightarrow> w
       | Some sql \<Rightarrow> send_sql cfg i c sql (BDropping c) w)
   | BRunStart c \<Rightarrow> send_sql cfg i c (bc_command c) (BRunning c) w
   | _ \<Rightarrow> w)"

definition take_back :: "nat \<Rightarrow> bam_world \<Rightarrow> bam_world" where
  "take_back i w = w\<lparr>bw_server := filter (\<lambda>s. \<not> owned_by i s) (bw_server w)\<rparr>"

fun in_flight :: "bam_point \<Rightarrow> bool" where
  "in_flight (BDropping c) = True"
| "in_flight (BRunning c) = True"
| "in_flight _ = False"

text \<open>A statement whose signal was aborted before it reached a connection never ran.\<close>

definition never_ran :: "nat \<Rightarrow> bam_world \<Rightarrow> bam_world" where
  "never_ran i w = (let r = bw_runners w ! i in if in_flight (br_point r) \<and> br_aborted r
     then set_runner i (notStarted (the (point_claim (br_point r))) r) (take_back i w) else w)"

text \<open>The statement ends at the server, with an error or without.\<close>

definition finish_sql :: "nat \<Rightarrow> str option \<Rightarrow> (str \<Rightarrow> bool option) \<Rightarrow> bam_world \<Rightarrow> bam_world" where
  "finish_sql i err index' w = (let r = bw_runners w ! i; w' = (take_back i w)\<lparr>bw_index := index'\<rparr> in
     if \<not> in_flight (br_point r) then w
     else case err of Some e \<Rightarrow> set_runner i (fail_with (the (point_claim (br_point r))) e r) w'
     | None \<Rightarrow> set_runner i (r\<lparr>br_ending := EWait, br_point := (case br_point r of
           BDropping c \<Rightarrow> BRunStart c
         | BRunning c \<Rightarrow> if bamHealProbe (bc_command c) \<noteq> None then BCheck c else BMarkDone c
         | p \<Rightarrow> p)\<rparr>) w')"

text \<open>The connection was dropped under it: the runner has an error, the server goes on.\<close>

definition drop_sql :: "nat \<Rightarrow> str \<Rightarrow> bam_world \<Rightarrow> bam_world" where
  "drop_sql i e w = (let r = bw_runners w ! i in
     if in_flight (br_point r) \<and> br_ended r \<and> br_ending r \<in> {EAbandon, EDrop}
     then set_runner i (fail_with (the (point_claim (br_point r))) e r)
       (w\<lparr>bw_server := map (disown i) (bw_server w)\<rparr>)
     else w)"

definition not_built :: "bam_claim \<Rightarrow> bool \<Rightarrow> str" where
  "not_built c listed = ''Error: index '' @ coalesce (bamCommandIndexName (bc_command c)) ''null'' @
     (if listed then '' is invalid after the build''
      else '' does not exist after the build. An earlier build of it may still be running.'')"

definition check_built :: "bam_config \<Rightarrow> nat \<Rightarrow> str option \<Rightarrow> bam_world \<Rightarrow> bam_world" where
  "check_built cfg i err w = (let r = bw_runners w ! i in case br_point r of
     BCheck c \<Rightarrow> set_runner i (case err of Some e \<Rightarrow> fail_with c e r
       | None \<Rightarrow> (case probed c w of None \<Rightarrow> fail_with c (not_built c False) r
           | Some True \<Rightarrow> r\<lparr>br_point := BMarkDone c\<rparr>
           | Some False \<Rightarrow> if bf_liveness cfg then fail_with c (not_built c True) r
               else r\<lparr>br_point := BMarkDone c\<rparr>)) w
   | _ \<Rightarrow> w)"

text \<open>The write of the outcome, which may fail.\<close>

definition mark_row :: "nat \<Rightarrow> str option \<Rightarrow> bam_world \<Rightarrow> bam_world" where
  "mark_row i err w = (let r = bw_runners w ! i in case br_point r of
     BMarkDone c \<Rightarrow> (case err of Some e \<Rightarrow> set_runner i (fail_with c e r) w
       | None \<Rightarrow> set_runner i (next_round r) (w\<lparr>bw_rows := setBamCompleted (bc_id c) (bw_now w) (bw_rows w)\<rparr>))
   | BMarkFailed c e \<Rightarrow> set_runner i (next_round r)
       (if err \<noteq> None then w else w\<lparr>bw_rows := setBamFailed (bc_id c) e (bw_now w) (bw_rows w)\<rparr>)
   | _ \<Rightarrow> w)"

definition stop_runner :: "nat \<Rightarrow> bam_world \<Rightarrow> bam_world" where
  "stop_runner i w = set_runner i ((bw_runners w ! i)\<lparr>br_stopped := True\<rparr>) w"

text \<open>The deadline of \<^verbatim>\<open>stop()\<close>, \<^verbatim>\<open>#end\<close>, and the answer of the cancel.\<close>

definition past_deadline :: "nat \<Rightarrow> bam_world \<Rightarrow> bam_world" where
  "past_deadline i w = (let r = bw_runners w ! i in
     if br_stopped r \<and> point_claim (br_point r) \<noteq> None
     then set_runner i (if \<not> br_ended r \<and> br_ending r \<noteq> EWait
         then r\<lparr>br_row_stopped := True, br_aborted := True,
           br_ended := (br_ending r \<in> {EAbandon, EDrop})\<rparr>
         else r\<lparr>br_row_stopped := True\<rparr>) w
     else w)"

definition cancel_answered :: "nat \<Rightarrow> bool \<Rightarrow> bam_world \<Rightarrow> bam_world" where
  "cancel_answered i ok w = (let r = bw_runners w ! i in
     if br_ending r = ECancel \<and> br_aborted r
     then set_runner i (if ok then r\<lparr>br_ended := True\<rparr> else r\<lparr>br_ending := EWait\<rparr>) w else w)"

definition crash :: "nat \<Rightarrow> bam_world \<Rightarrow> bam_world" where
  "crash i w = go_to i BIdle (w\<lparr>bw_server := map (disown i) (bw_server w)\<rparr>)"

text \<open>A statement nobody awaits any more ends.\<close>

definition server_ends :: "uuid \<Rightarrow> (str \<Rightarrow> bool option) \<Rightarrow> bam_world \<Rightarrow> bam_world" where
  "server_ends k index' w = (if list_ex (\<lambda>s. bs_row s = k \<and> bs_owner s = None) (bw_server w)
     then w\<lparr>bw_server := filter (\<lambda>s. \<not> (bs_row s = k \<and> bs_owner s = None)) (bw_server w),
       bw_index := index'\<rparr>
     else w)"

fun event_runner :: "bam_event \<Rightarrow> nat option" where
  "event_runner (Tick d) = None"
| "event_runner (Enqueue r) = None"
| "event_runner (Polled i) = Some i"
| "event_runner (ClaimNext i others rowLocks seen) = Some i"
| "event_runner (Begin i landed) = Some i"
| "event_runner (Probe i err) = Some i"
| "event_runner (Send i) = Some i"
| "event_runner (NeverRan i) = Some i"
| "event_runner (Finish i err index') = Some i"
| "event_runner (Dropped i e) = Some i"
| "event_runner (ProbeAfter i err) = Some i"
| "event_runner (Mark i err) = Some i"
| "event_runner (StopRunner i) = Some i"
| "event_runner (Deadline i) = Some i"
| "event_runner (Cancelled i ok) = Some i"
| "event_runner (Crash i) = Some i"
| "event_runner (ServerEnds k index') = None"

fun bam_apply :: "bam_config \<Rightarrow> bam_event \<Rightarrow> bam_world \<Rightarrow> bam_world" where
  "bam_apply cfg (Tick d) w = w\<lparr>bw_now := bw_now w + max 0 d\<rparr>"
| "bam_apply cfg (Enqueue r) w = w\<lparr>bw_rows := bw_rows w @ [r]\<rparr>"
| "bam_apply cfg (Polled i) w = polled i w"
| "bam_apply cfg (ClaimNext i others rowLocks seen) w = claim_next cfg i others rowLocks seen w"
| "bam_apply cfg (Begin i landed) w = begin_claim i landed w"
| "bam_apply cfg (Probe i err) w = probe_claim cfg i err w"
| "bam_apply cfg (Send i) w = send_claim cfg i w"
| "bam_apply cfg (NeverRan i) w = never_ran i w"
| "bam_apply cfg (Finish i err index') w = finish_sql i err index' w"
| "bam_apply cfg (Dropped i e) w = drop_sql i e w"
| "bam_apply cfg (ProbeAfter i err) w = check_built cfg i err w"
| "bam_apply cfg (Mark i err) w = mark_row i err w"
| "bam_apply cfg (StopRunner i) w = stop_runner i w"
| "bam_apply cfg (Deadline i) w = past_deadline i w"
| "bam_apply cfg (Cancelled i ok) w = cancel_answered i ok w"
| "bam_apply cfg (Crash i) w = crash i w"
| "bam_apply cfg (ServerEnds k index') w = server_ends k index' w"

definition bam_step :: "bam_config \<Rightarrow> bam_event \<Rightarrow> bam_world \<Rightarrow> bam_world" where
  "bam_step cfg e w = (case event_runner e of
     Some i \<Rightarrow> if i < length (bw_runners w) then bam_apply cfg e w else w
   | None \<Rightarrow> bam_apply cfg e w)"

section \<open>Many runners\<close>

text \<open>A claim counts as fresh within the window after which a row may be taken again.  Runners are attended
  when at a claim each of them holds a fresh claim or has a concurrent index statement in flight, and so
  has every statement the server still runs.\<close>

definition bam_fresh :: "bam_config \<Rightarrow> time \<Rightarrow> time \<Rightarrow> bool" where
  "bam_fresh cfg now s = (now - (if bf_liveness cfg then BAM_LIVENESS_GRACE_SECONDS else BAM_STALE_SECONDS) *
     second \<le> s)"

definition bam_attended :: "bam_config \<Rightarrow> bam_world \<Rightarrow> bool" where
  "bam_attended cfg w = (
     list_all (\<lambda>r. case point_claim (br_point r) of None \<Rightarrow> True
       | Some c \<Rightarrow> bam_fresh cfg (bw_now w) (bc_claimed_on c) \<or> (bf_liveness cfg \<and>
           list_ex (\<lambda>s. bs_row s = bc_id c \<and> bs_concurrent s) (bw_server w))) (bw_runners w) \<and>
     list_all (\<lambda>s. bam_fresh cfg (bw_now w) (bs_claimed_on s) \<or> (bf_liveness cfg \<and> bs_concurrent s))
       (bw_server w))"

definition bam_allowed :: "bam_config \<Rightarrow> bam_world \<Rightarrow> bam_event \<Rightarrow> bool" where
  "bam_allowed cfg w e = (case e of
     Enqueue x \<Rightarrow> bm_status x = BPending \<and>
       list_all (\<lambda>r. bm_id r \<noteq> bm_id x \<and> bm_created_on r \<le> bm_created_on x) (bw_rows w)
   | ClaimNext i others rowLocks seen \<Rightarrow> bam_attended cfg w
   | _ \<Rightarrow> True)"

inductive bam_next :: "bam_config \<Rightarrow> bam_world \<Rightarrow> bam_world \<Rightarrow> bool" for cfg where
  "bam_allowed cfg w e \<Longrightarrow> bam_next cfg w (bam_step cfg e w)"

fun bam_trace :: "bam_config \<Rightarrow> bam_event list \<Rightarrow> bam_world \<Rightarrow> bam_world option" where
  "bam_trace cfg [] w = Some w"
| "bam_trace cfg (e # es) w = (if bam_allowed cfg w e then bam_trace cfg es (bam_step cfg e w) else None)"

lemma bam_trace_reaches: "bam_trace cfg es w = Some w' \<Longrightarrow> (bam_next cfg)\<^sup>*\<^sup>* w w'"
  by (induction es arbitrary: w) (auto split: if_splits intro: converse_rtranclp_into_rtranclp bam_next.intros)

section \<open>The invariant\<close>

definition owned_row :: "bam_row list \<Rightarrow> uuid \<Rightarrow> time \<Rightarrow> str \<Rightarrow> bam_row \<Rightarrow> bool" where
  "owned_row t k s n r = (r \<in> set t \<and> bm_id r = k \<and> bm_status r = BInProgress \<and>
     bm_started_on r = Some s \<and> bm_table r = n \<and> after_predecessors t r)"

text \<open>The row of a claim has the command the claim read, and was not completed when it was taken.\<close>

definition same_command :: "bam_row \<Rightarrow> bam_claim \<Rightarrow> bool" where
  "same_command r c = (bm_command r = bc_command c \<and> bc_prior_status c \<noteq> BCompleted)"

definition index_built :: "bam_config \<Rightarrow> str \<Rightarrow> (str \<Rightarrow> bool option) \<Rightarrow> bool" where
  "index_built cfg command index' = (case bamHealProbe command of None \<Rightarrow> True
     | Some n \<Rightarrow> index' n = Some True \<or> (\<not> bf_liveness cfg \<and> index' n = Some False))"

definition working :: "bam_world \<Rightarrow> nat \<Rightarrow> bam_claim \<Rightarrow> bool" where
  "working w i c = (i < length (bw_runners w) \<and> point_claim (br_point (bw_runners w ! i)) = Some c)"

definition bam_inv :: "bam_config \<Rightarrow> bam_world \<Rightarrow> bool" where
  "bam_inv cfg w = (
     distinct (map bm_id (bw_rows w)) \<and>
     (\<forall>i c. working w i c \<longrightarrow> (\<exists>r. owned_row (bw_rows w) (bc_id c) (bc_claimed_on c) (bc_table c) r \<and>
        same_command r c)) \<and>
     (\<forall>i j c d. working w i c \<and> working w j d \<longrightarrow> i = j) \<and>
     (\<forall>s\<in>set (bw_server w). \<exists>r. owned_row (bw_rows w) (bs_row s) (bs_claimed_on s) (bs_table s) r) \<and>
     length (bw_server w) \<le> 1 \<and>
     (\<forall>s\<in>set (bw_server w). \<forall>i c. working w i c \<longrightarrow> in_flight (br_point (bw_runners w ! i)) \<and>
        bs_row s = bc_id c \<and> bs_owner s = Some i) \<and>
     (\<forall>r\<in>set (bw_runners w). br_ending r \<noteq> EDrop) \<and>
     (\<forall>i<length (bw_runners w). \<forall>c. br_point (bw_runners w ! i) = BMarkDone c \<longrightarrow>
        index_built cfg (bc_command c) (bw_index w)))"

lemma bam_invI:
  assumes "distinct (map bm_id (bw_rows w))"
    "\<And>i c. working w i c \<Longrightarrow> \<exists>r. owned_row (bw_rows w) (bc_id c) (bc_claimed_on c) (bc_table c) r \<and>
        same_command r c"
    "\<And>i j c d. working w i c \<Longrightarrow> working w j d \<Longrightarrow> i = j"
    "\<And>s. s \<in> set (bw_server w) \<Longrightarrow> \<exists>r. owned_row (bw_rows w) (bs_row s) (bs_claimed_on s) (bs_table s) r"
    "length (bw_server w) \<le> 1"
    "\<And>s i c. s \<in> set (bw_server w) \<Longrightarrow> working w i c \<Longrightarrow> in_flight (br_point (bw_runners w ! i)) \<and>
        bs_row s = bc_id c \<and> bs_owner s = Some i"
    "\<And>r. r \<in> set (bw_runners w) \<Longrightarrow> br_ending r \<noteq> EDrop"
    "\<And>i c. i < length (bw_runners w) \<Longrightarrow> br_point (bw_runners w ! i) = BMarkDone c \<Longrightarrow>
        index_built cfg (bc_command c) (bw_index w)"
  shows "bam_inv cfg w"
  unfolding bam_inv_def using assms by blast

lemma bam_invD:
  assumes "bam_inv cfg w"
  shows "distinct (map bm_id (bw_rows w))"
    and "working w i c \<Longrightarrow> \<exists>r. owned_row (bw_rows w) (bc_id c) (bc_claimed_on c) (bc_table c) r \<and>
        same_command r c"
    and "working w i c \<Longrightarrow> working w j d \<Longrightarrow> i = j"
    and "s \<in> set (bw_server w) \<Longrightarrow> \<exists>r. owned_row (bw_rows w) (bs_row s) (bs_claimed_on s) (bs_table s) r"
    and "length (bw_server w) \<le> 1"
    and "s \<in> set (bw_server w) \<Longrightarrow> working w i c \<Longrightarrow> in_flight (br_point (bw_runners w ! i)) \<and>
        bs_row s = bc_id c \<and> bs_owner s = Some i"
    and "r \<in> set (bw_runners w) \<Longrightarrow> br_ending r \<noteq> EDrop"
    and "i < length (bw_runners w) \<Longrightarrow> br_point (bw_runners w ! i) = BMarkDone c \<Longrightarrow>
        index_built cfg (bc_command c) (bw_index w)"
  using assms unfolding bam_inv_def by blast+

lemma working_set:
  "i < length (bw_runners w) \<Longrightarrow> working (set_runner i r w) j c \<longleftrightarrow>
     (if j = i then point_claim (br_point r) = Some c else working w j c)"
  by (auto simp: working_def set_runner_def)

lemma set_runner_simps [simp]:
  "bw_rows (set_runner i r w) = bw_rows w" "bw_server (set_runner i r w) = bw_server w"
  "bw_index (set_runner i r w) = bw_index w" "bw_now (set_runner i r w) = bw_now w"
  "bw_runners (set_runner i r w) = (bw_runners w)[i := r]"
  by (simp_all add: set_runner_def)

lemma working_cong: "bw_runners w' = bw_runners w \<Longrightarrow> working w' = working w"
  by (intro ext) (simp add: working_def)

text \<open>Only one runner changes, and not what it holds.\<close>

lemma inv_runner:
  assumes inv: "bam_inv cfg w" and i: "i < length (bw_runners w)"
    and claim: "\<And>c. point_claim (br_point r) = Some c \<Longrightarrow> working w i c"
    and flight: "\<And>c s. point_claim (br_point r) = Some c \<Longrightarrow> s \<in> set (bw_server w) \<Longrightarrow> in_flight (br_point r)"
    and "br_ending r \<noteq> EDrop" and built: "\<And>c. br_point r = BMarkDone c \<Longrightarrow> index_built cfg (bc_command c) (bw_index w)"
  shows "bam_inv cfg (set_runner i r w)"
proof (rule bam_invI, goal_cases)
  case (2 j c) thus ?case using bam_invD(2) [OF inv] claim by (auto simp: working_set [OF i] split: if_splits)
next
  case (3 j k c d) thus ?case using bam_invD(3) [OF inv] claim by (auto simp: working_set [OF i] split: if_splits)
next
  case (6 s j c) thus ?case using bam_invD(6) [OF inv] claim flight i by (auto simp: working_set [OF i] split: if_splits)
next
  case (7 x) thus ?case using bam_invD(7) [OF inv] assms(5) by (auto dest!: set_update_subset_insert [THEN subsetD])
next
  case (8 j c) thus ?case using bam_invD(8) [OF inv] built i by (cases "j = i") auto
qed (use bam_invD(1,4,5) [OF inv] in auto)

text \<open>A runner at work whose statement is not in flight has the server to itself.\<close>

lemma inv_quiet:
  assumes "bam_inv cfg w" "working w i c" "\<not> in_flight (br_point (bw_runners w ! i))"
  shows "bw_server w = []"
  using bam_invD(6) [OF assms(1) _ assms(2)] assms(3) by (cases "bw_server w") auto

text \<open>Nothing is left at work: the invariant asks little.\<close>

lemma inv_idle:
  assumes "distinct (map bm_id (bw_rows w))" "\<And>i c. \<not> working w i c" "bw_server w = []"
    "\<And>r. r \<in> set (bw_runners w) \<Longrightarrow> br_ending r \<noteq> EDrop"
  shows "bam_inv cfg w"
  using assms by (intro bam_invI) (fastforce simp: working_def)+

text \<open>What the claim does to the rows: nothing while a row in progress is held, and otherwise it puts one
  row in progress, whose predecessors are completed.\<close>

lemma getNext_blocked:
  assumes "r \<in> set t" "bam_blocks useLiveness live now r"
  shows "getNextBamCommand useLiveness pendingOnly live rowLocked now t = (t, None)"
proof -
  have "filter (bam_candidate useLiveness pendingOnly live rowLocked now t) t = []"
    using assms by (auto simp: filter_empty_conv bam_candidate_def list_ex_iff)
  thus ?thesis by (simp add: getNextBamCommand_def)
qed

lemma same_bam_row: "distinct (map bm_id t) \<Longrightarrow> r \<in> set t \<Longrightarrow> r' \<in> set t \<Longrightarrow> bm_id r = bm_id r' \<Longrightarrow> r = r'"
  by (auto simp: distinct_map dest: inj_onD)

lemma getNext_claims:
  assumes g: "getNextBamCommand useLiveness pendingOnly live rowLocked now t = (t', Some c)"
    and d: "distinct (map bm_id t)"
  obtains r0 where "r0 \<in> set t" "bam_candidate useLiveness pendingOnly live rowLocked now t r0" "c = claim_of now r0"
    "t' = upd_where (\<lambda>r. bm_id r = bm_id r0) (\<lambda>r. r\<lparr>bm_status := BInProgress, bm_started_on := Some now\<rparr>) t"
proof -
  let ?cs = "sort_key (\<lambda>c. (bm_status c \<noteq> BPending, bm_created_on c))
    (filter (bam_candidate useLiveness pendingOnly live rowLocked now t) t)"
  obtain r0 rs where cs: "?cs = r0 # rs" using g by (auto simp: getNextBamCommand_def split: list.splits)
  have "r0 \<in> set ?cs" unfolding cs by simp
  hence r0: "r0 \<in> set t" "bam_candidate useLiveness pendingOnly live rowLocked now t r0" by auto
  have e: "(bm_id r = bm_id r0 \<and> bm_status r = bm_status r0 \<and> bm_started_on r = bm_started_on r0) = (bm_id r = bm_id r0)"
    if "r \<in> set t" for r
    using same_bam_row [OF d that r0(1)] by auto
  have "t' = upd_where (\<lambda>r. bm_id r = bm_id r0) (\<lambda>r. r\<lparr>bm_status := BInProgress, bm_started_on := Some now\<rparr>) t \<and>
      c = claim_of now r0"
    using g e unfolding getNextBamCommand_def cs by (auto simp: upd_where_def)
  thus ?thesis using that r0 by blast
qed

lemma claim_takes:
  assumes g: "getNextBamCommand useLiveness pendingOnly live rowLocked now t = (t', Some c)"
    and d: "distinct (map bm_id t)"
  shows "distinct (map bm_id t') \<and> (\<exists>r. owned_row t' (bc_id c) (bc_claimed_on c) (bc_table c) r \<and>
    same_command r c)"
proof -
  from getNext_claims [OF assms] obtain r0 where r0: "r0 \<in> set t"
    "bam_candidate useLiveness pendingOnly live rowLocked now t r0" "c = claim_of now r0"
    and t': "t' = upd_where (\<lambda>r. bm_id r = bm_id r0)
      (\<lambda>r. r\<lparr>bm_status := BInProgress, bm_started_on := Some now\<rparr>) t" .
  let ?r = "r0\<lparr>bm_status := BInProgress, bm_started_on := Some now\<rparr>"
  have "\<forall>p\<in>set t. \<not> (bm_version p = bm_version r0 \<and> bm_table p = bm_table r0 \<and>
      bm_created_on p < bm_created_on r0 \<and> bm_status p \<noteq> BCompleted)"
    using r0(2) by (auto simp: bam_candidate_def after_predecessors_def list_all_iff)
  moreover have "bm_id p = bm_id r0 \<Longrightarrow> p \<in> set t \<Longrightarrow> p = r0" for p
    using same_bam_row [OF d _ r0(1)] by blast
  ultimately have "after_predecessors t' ?r"
    unfolding t' after_predecessors_def list_all_iff set_upd_where by fastforce
  moreover have "?r \<in> set t'" unfolding t' set_upd_where using r0(1) by blast
  ultimately have "owned_row t' (bc_id c) (bc_claimed_on c) (bc_table c) ?r \<and> same_command ?r c"
    using r0(2,3) by (auto simp: owned_row_def claim_of_def same_command_def bam_candidate_def bam_stale_def
        split: if_splits)
  moreover have "map bm_id t' = map bm_id t" unfolding t' by (rule map_upd_where_same) simp
  ultimately show ?thesis using d by metis
qed

lemma fresh_blocks:
  "owned_row t k s n r \<Longrightarrow> bam_fresh cfg now s \<Longrightarrow> bam_blocks (bf_liveness cfg) live now r"
  by (auto simp: owned_row_def bam_fresh_def bam_blocks_def older_def split: if_splits)

lemma live_blocks:
  "owned_row t k s n r \<Longrightarrow> bf_liveness cfg \<Longrightarrow> live n \<Longrightarrow> bam_blocks (bf_liveness cfg) live now r"
  by (auto simp: owned_row_def bam_blocks_def)

text \<open>So among attended runners a claim succeeds only when nothing is at work.\<close>

lemma claim_alone:
  assumes inv: "bam_inv cfg w" and at: "bam_attended cfg w"
    and g: "getNextBamCommand (bf_liveness cfg) p (live_tables w others) locks (bw_now w) (bw_rows w) = (t, Some c)"
  shows "\<not> working w i d" and "bw_server w = []"
proof -
  have nb: "\<not> bam_blocks (bf_liveness cfg) (live_tables w others) (bw_now w) r" if "r \<in> set (bw_rows w)" for r
    using getNext_blocked [OF that] g by auto
  have own: False if o: "owned_row (bw_rows w) k s n r" and c: "bam_fresh cfg (bw_now w) s \<or>
      (bf_liveness cfg \<and> live_tables w others n)" for k s n r
    using nb [of r] fresh_blocks [OF o] live_blocks [OF o, of cfg "live_tables w others" "bw_now w"] o c
    by (auto simp: owned_row_def)
  show srv: "bw_server w = []"
  proof (rule ccontr)
    assume "bw_server w \<noteq> []"
    then obtain s where s: "s \<in> set (bw_server w)" by (cases "bw_server w") auto
    have "bam_fresh cfg (bw_now w) (bs_claimed_on s) \<or> (bf_liveness cfg \<and> bs_concurrent s)"
      using at s by (auto simp: bam_attended_def list_all_iff)
    moreover have "bs_concurrent s \<Longrightarrow> live_tables w others (bs_table s)"
      using s by (auto simp: live_tables_def list_ex_iff)
    ultimately show False using bam_invD(4) [OF inv s] own by blast
  qed
  show "\<not> working w i d"
  proof
    assume wk: "working w i d"
    have "bam_fresh cfg (bw_now w) (bc_claimed_on d)"
      using at srv wk unfolding bam_attended_def list_all_length working_def by (elim conjE) (drule spec [of _ i], simp)
    thus False using bam_invD(2) [OF inv wk] own by blast
  qed
qed

section \<open>Every event keeps it\<close>

lemma point_next [simp]: "point_claim (br_point (next_round r)) = None" "br_ending (next_round r) = br_ending r"
  "br_point (next_round r) \<noteq> BMarkDone c"
  by (simp_all add: next_round_def)

lemma point_fail [simp]:
  "point_claim (br_point (fail_with c e r)) = (if br_ended r \<and> br_ending r = EAbandon then None else Some c)"
  "br_ending (fail_with c e r) = br_ending r" "br_point (fail_with c e r) \<noteq> BMarkDone d"
  by (simp_all add: fail_with_def)

lemma point_notStarted [simp]:
  "point_claim (br_point (notStarted c r)) = Some c" "br_ending (notStarted c r) = EWait"
  "br_point (notStarted c r) \<noteq> BMarkDone d"
  by (simp_all add: notStarted_def)

lemma point_fresh [simp]:
  "point_claim (br_point (fresh_row c r)) = Some c" "br_ending (fresh_row c r) = EWait"
  "br_point (fresh_row c r) \<noteq> BMarkDone d"
  by (simp_all add: fresh_row_def)

lemma ending_of_own: "\<not> bf_cockroach cfg \<Longrightarrow> ending_of cfg sql \<noteq> EDrop"
  by (simp add: ending_of_def)

lemma working_at: "i < length (bw_runners w) \<Longrightarrow> point_claim (br_point (bw_runners w ! i)) = Some c \<Longrightarrow> working w i c"
  by (simp add: working_def)

lemma own_ending:
  assumes inv: "bam_inv cfg w" and i: "i < length (bw_runners w)"
  shows "br_ending (bw_runners w ! i) \<noteq> EDrop"
  using bam_invD(7) [OF inv nth_mem [OF i]] .

lemma inv_free:
  assumes inv: "bam_inv cfg w" and i: "i < length (bw_runners w)"
    and "point_claim (br_point r) = None" "br_ending r \<noteq> EDrop" "\<And>c. br_point r \<noteq> BMarkDone c"
  shows "bam_inv cfg (set_runner i r w)"
  using assms by (intro inv_runner [OF inv i]) auto

lemma inv_same:
  assumes inv: "bam_inv cfg w" and i: "i < length (bw_runners w)"
    and "br_point r = br_point (bw_runners w ! i)" "br_ending r \<noteq> EDrop"
  shows "bam_inv cfg (set_runner i r w)"
proof (rule inv_runner [OF inv i _ _ assms(4)])
  fix c assume "point_claim (br_point r) = Some c"
  thus "working w i c" using assms(3) i by (simp add: working_def)
next
  fix c s assume "point_claim (br_point r) = Some c" "s \<in> set (bw_server w)"
  thus "in_flight (br_point r)" using bam_invD(6) [OF inv, of s i c] assms(3) i by (simp add: working_def)
next
  fix c assume "br_point r = BMarkDone c"
  thus "index_built cfg (bc_command c) (bw_index w)" using bam_invD(8) [OF inv i] assms(3) by simp
qed

text \<open>A runner whose statement is not in flight moves on with its claim.\<close>

lemma inv_moves:
  assumes inv: "bam_inv cfg w" and i: "i < length (bw_runners w)"
    and "point_claim (br_point (bw_runners w ! i)) = Some c" "\<not> in_flight (br_point (bw_runners w ! i))"
    and "point_claim (br_point r) \<in> {None, Some c}" "br_ending r \<noteq> EDrop"
    and "\<And>d. br_point r = BMarkDone d \<Longrightarrow> index_built cfg (bc_command d) (bw_index w)"
  shows "bam_inv cfg (set_runner i r w)"
  using assms(3-) inv_quiet [OF inv working_at [OF i assms(3)] assms(4)]
  by (intro inv_runner [OF inv i]) (auto intro: working_at [OF i])

text \<open>The only runner at work gives its row up.\<close>

lemma inv_gives_up:
  assumes inv: "bam_inv cfg w" and i: "i < length (bw_runners w)"
    and "point_claim (br_point (bw_runners w ! i)) = Some c" "bw_server w = []"
    and "point_claim (br_point r) = None" "br_ending r \<noteq> EDrop" "distinct (map bm_id t)"
  shows "bam_inv cfg (set_runner i r (w\<lparr>bw_rows := t\<rparr>))"
proof (rule inv_idle)
  fix j d
  have "working w i c" using assms(3) by (rule working_at [OF i])
  thus "\<not> working (set_runner i r (w\<lparr>bw_rows := t\<rparr>)) j d"
    using bam_invD(3) [OF inv] assms(5) i by (auto simp: working_def set_runner_def nth_list_update split: if_splits)
next
  fix x assume "x \<in> set (bw_runners (set_runner i r (w\<lparr>bw_rows := t\<rparr>)))"
  thus "br_ending x \<noteq> EDrop"
    using bam_invD(7) [OF inv] assms(6) by (auto dest!: set_update_subset_insert [THEN subsetD])
qed (use assms in auto)

lemma inv_polled:
  assumes inv: "bam_inv cfg w" and i: "i < length (bw_runners w)"
  shows "bam_inv cfg (polled i w)"
  using inv inv_free [OF inv i] own_ending [OF inv i] by (simp add: polled_def go_to_def Let_def)

lemma inv_stop:
  assumes inv: "bam_inv cfg w" and i: "i < length (bw_runners w)"
  shows "bam_inv cfg (stop_runner i w)"
  unfolding stop_runner_def by (rule inv_same [OF inv i]) (simp_all add: own_ending [OF inv i])

lemma inv_deadline:
  assumes inv: "bam_inv cfg w" and i: "i < length (bw_runners w)"
  shows "bam_inv cfg (past_deadline i w)"
  using inv own_ending [OF inv i] by (auto simp: past_deadline_def Let_def intro!: inv_same [OF inv i])

lemma inv_cancel:
  assumes inv: "bam_inv cfg w" and i: "i < length (bw_runners w)"
  shows "bam_inv cfg (cancel_answered i ok w)"
  using inv own_ending [OF inv i] by (auto simp: cancel_answered_def Let_def intro!: inv_same [OF inv i])

lemma inv_claim:
  assumes inv: "bam_inv cfg w" and i: "i < length (bw_runners w)"
    and at: "bam_attended cfg w"
  shows "bam_inv cfg (claim_next cfg i others locks seen w)"
proof (cases "br_point (bw_runners w ! i)")
  case (BClaiming p)
  obtain t oc where g: "getNextBamCommand (bf_liveness cfg) p (live_tables w others) (\<lambda>k. k \<in> set locks)
      (bw_now w) (bw_rows w) = (t, oc)" by (metis surj_pair)
  show ?thesis
  proof (cases oc)
    case None
    thus ?thesis using BClaiming g inv_free [OF inv i] own_ending [OF inv i] by (simp add: claim_next_def go_to_def)
  next
    case (Some c)
    note alone = claim_alone [OF inv at g [unfolded Some]]
    note takes = claim_takes [OF g [unfolded Some] bam_invD(1) [OF inv]]
    let ?w = "go_to i (if seen then BClaimed c else BIdle) (w\<lparr>bw_rows := t\<rparr>)"
    have wk: "working ?w j d \<longleftrightarrow> j = i \<and> seen \<and> d = c" for j d
      using alone(1) i by (auto simp: go_to_def working_def set_runner_def nth_list_update)
    have "bam_inv cfg ?w"
    proof (rule bam_invI)
      fix j d assume j: "j < length (bw_runners ?w)" "br_point (bw_runners ?w ! j) = BMarkDone d"
      hence "working ?w j d" by (simp add: working_def)
      hence "j = i" unfolding wk by simp
      thus "index_built cfg (bc_command d) (bw_index ?w)" using j i by (simp add: go_to_def split: if_splits)
    next
      fix r assume "r \<in> set (bw_runners ?w)"
      thus "br_ending r \<noteq> EDrop" using bam_invD(7) [OF inv] own_ending [OF inv i]
        by (auto simp: go_to_def dest!: set_update_subset_insert [THEN subsetD])
    qed (use takes alone(2) wk [unfolded go_to_def] in \<open>auto simp: go_to_def\<close>)
    thus ?thesis using BClaiming g Some by (simp add: claim_next_def)
  qed
qed (use inv in \<open>simp_all add: claim_next_def\<close>)

lemma inv_begin:
  assumes inv: "bam_inv cfg w" and i: "i < length (bw_runners w)"
  shows "bam_inv cfg (begin_claim i landed w)"
proof (cases "br_point (bw_runners w ! i)")
  case (BClaimed c)
  have "map bm_id (releaseBamCommand c (bw_rows w)) = map bm_id (bw_rows w)"
    unfolding releaseBamCommand_def by (rule map_upd_where_same) simp
  hence d: "distinct (map bm_id (releaseBamCommand c (bw_rows w)))" using bam_invD(1) [OF inv] by simp
  have q: "bw_server w = []" using inv_quiet [OF inv working_at [OF i]] BClaimed by auto
  show ?thesis
    using inv_gives_up [OF inv i _ q _ _ d, of c "(bw_runners w ! i)\<lparr>br_point := BIdle\<rparr>"]
      inv_free [OF inv i, of "(bw_runners w ! i)\<lparr>br_point := BIdle\<rparr>"] inv_moves [OF inv i, of c "fresh_row c (bw_runners w ! i)"]
      BClaimed own_ending [OF inv i] by (simp add: begin_claim_def Let_def go_to_def)
qed (use inv in \<open>simp_all add: begin_claim_def\<close>)

lemma inv_probe:
  assumes inv: "bam_inv cfg w" and i: "i < length (bw_runners w)"
  shows "bam_inv cfg (probe_claim cfg i err w)"
proof (cases "br_point (bw_runners w ! i)")
  case (BProbe c)
  show ?thesis using BProbe own_ending [OF inv i]
    by (auto simp: probe_claim_def Let_def probed_def index_built_def intro!: inv_moves [OF inv i, of c]
        split: option.splits bool.splits if_splits)
qed (use inv in \<open>simp_all add: probe_claim_def\<close>)

lemma inv_check:
  assumes inv: "bam_inv cfg w" and i: "i < length (bw_runners w)"
  shows "bam_inv cfg (check_built cfg i err w)"
proof (cases "br_point (bw_runners w ! i)")
  case (BCheck c)
  show ?thesis using BCheck own_ending [OF inv i]
    by (auto simp: check_built_def Let_def probed_def index_built_def intro!: inv_moves [OF inv i, of c]
        split: option.splits bool.splits if_splits)
qed (use inv in \<open>simp_all add: check_built_def\<close>)

lemma inv_mark:
  assumes inv: "bam_inv cfg w" and i: "i < length (bw_runners w)"
  shows "bam_inv cfg (mark_row i err w)"
proof -
  have d: "distinct (map bm_id (setBamCompleted k n (bw_rows w)))"
      "distinct (map bm_id (setBamFailed k e n (bw_rows w)))" for k n e
    using bam_invD(1) [OF inv] unfolding setBamCompleted_def setBamFailed_def
    by (subst map_upd_where_same; simp)+
  show ?thesis
  proof (cases "br_point (bw_runners w ! i)")
    case (BMarkDone c)
    have q: "bw_server w = []" using inv_quiet [OF inv working_at [OF i]] BMarkDone by auto
    show ?thesis using BMarkDone own_ending [OF inv i] inv_gives_up [OF inv i _ q, of c] d
      by (auto simp: mark_row_def Let_def intro!: inv_moves [OF inv i, of c] split: option.splits if_splits)
  next
    case (BMarkFailed c e)
    have q: "bw_server w = []" using inv_quiet [OF inv working_at [OF i]] BMarkFailed by auto
    show ?thesis using BMarkFailed own_ending [OF inv i] inv_gives_up [OF inv i _ q, of c] inv_free [OF inv i] d
      by (auto simp: mark_row_def Let_def)
  qed (use inv in \<open>simp_all add: mark_row_def\<close>)
qed


lemma runner_ending:
  "bam_inv cfg w \<Longrightarrow> br_ending r \<noteq> EDrop \<Longrightarrow> x \<in> set ((bw_runners w)[i := r]) \<Longrightarrow> br_ending x \<noteq> EDrop"
  using bam_invD(7) by (auto dest!: set_update_subset_insert [THEN subsetD])

lemma inv_send_sql:
  assumes inv: "bam_inv cfg w" and i: "i < length (bw_runners w)" and cfg: "\<not> bf_cockroach cfg"
    and c: "point_claim (br_point (bw_runners w ! i)) = Some c" "\<not> in_flight (br_point (bw_runners w ! i))"
    and p: "point_claim p = Some c" "in_flight p"
  shows "bam_inv cfg (send_sql cfg i c sql p w)"
proof (cases "br_row_stopped (bw_runners w ! i)")
  case True
  thus ?thesis by (auto simp: send_sql_def Let_def intro!: inv_moves [OF inv i c])
next
  case False
  have wk: "working w i c" using c(1) by (rule working_at [OF i])
  have q: "bw_server w = []" by (rule inv_quiet [OF inv wk c(2)])
  let ?r = "(bw_runners w ! i)\<lparr>br_ending := ending_of cfg sql, br_point := p\<rparr>"
  let ?w = "set_runner i ?r (w\<lparr>bw_server := [statement_of i c sql]\<rparr>)"
  have same: "working ?w j d \<longleftrightarrow> working w j d" for j d
    using i c(1) p(1) by (auto simp: working_def set_runner_def nth_list_update)
  have only: "working w j d \<Longrightarrow> j = i \<and> d = c" for j d
    using bam_invD(3) [OF inv wk] wk by (fastforce simp: working_def)
  have "bam_inv cfg ?w"
  proof (rule bam_invI)
    fix j d assume j: "j < length (bw_runners ?w)" "br_point (bw_runners ?w ! j) = BMarkDone d"
    hence "working ?w j d" by (simp add: working_def)
    thus "index_built cfg (bc_command d) (bw_index ?w)" using only [of j d] j p(2) i unfolding same by auto
  next
    fix x assume "x \<in> set (bw_runners ?w)"
    thus "br_ending x \<noteq> EDrop" using runner_ending [OF inv, of ?r x i] ending_of_own [OF cfg] by simp
  next
    fix s j d assume "s \<in> set (bw_server ?w)" "working ?w j d"
    thus "in_flight (br_point (bw_runners ?w ! j)) \<and> bs_row s = bc_id d \<and> bs_owner s = Some j"
      using only [of j d] p(2) i unfolding same by (auto simp: statement_of_def)
  next
    fix j d assume "working ?w j d"
    thus "\<exists>r. owned_row (bw_rows ?w) (bc_id d) (bc_claimed_on d) (bc_table d) r \<and> same_command r d"
      using bam_invD(2) [OF inv] unfolding same by simp
  next
    fix j k d e assume "working ?w j d" "working ?w k e"
    thus "j = k" using only unfolding same by blast
  next
    fix s assume "s \<in> set (bw_server ?w)"
    thus "\<exists>r. owned_row (bw_rows ?w) (bs_row s) (bs_claimed_on s) (bs_table s) r"
      using bam_invD(2) [OF inv wk] by (auto simp: statement_of_def)
  qed (use bam_invD(1) [OF inv] in simp_all)
  thus ?thesis using False q by (simp add: send_sql_def Let_def)
qed

lemma inv_send:
  assumes inv: "bam_inv cfg w" and i: "i < length (bw_runners w)" and "\<not> bf_cockroach cfg"
  shows "bam_inv cfg (send_claim cfg i w)"
  using inv inv_send_sql [OF assms] by (auto simp: send_claim_def split: bam_point.splits option.splits)

text \<open>The statement a runner awaits is gone from the server.\<close>

lemma inv_lands:
  assumes inv: "bam_inv cfg w" and i: "i < length (bw_runners w)"
    and c: "point_claim (br_point (bw_runners w ! i)) = Some c"
    and r: "point_claim (br_point r) \<in> {None, Some c}" "br_ending r \<noteq> EDrop"
    and built: "\<And>d. br_point r = BMarkDone d \<Longrightarrow> index_built cfg (bc_command d) index'"
  shows "bam_inv cfg (set_runner i r ((take_back i w)\<lparr>bw_index := index'\<rparr>))"
proof -
  have wk: "working w i c" using c by (rule working_at [OF i])
  have q: "bw_server (take_back i w) = []"
    using bam_invD(6) [OF inv _ wk] by (auto simp: take_back_def owned_by_def filter_empty_conv)
  let ?w = "set_runner i r ((take_back i w)\<lparr>bw_index := index'\<rparr>)"
  have none: "bw_server ?w = []" using q by simp
  have same: "working ?w j d \<Longrightarrow> j = i \<and> d = c" for j d
    using bam_invD(3) [OF inv wk, of j d] i r(1)
    by (auto simp: working_def set_runner_def take_back_def nth_list_update split: if_splits)
  show ?thesis
  proof (rule bam_invI)
    fix j d assume j: "j < length (bw_runners ?w)" "br_point (bw_runners ?w ! j) = BMarkDone d"
    hence "working ?w j d" by (simp add: working_def)
    hence "j = i" using same by blast
    hence "br_point r = BMarkDone d" using j i by (simp add: take_back_def)
    thus "index_built cfg (bc_command d) (bw_index ?w)" using built by simp
  next
    fix x assume "x \<in> set (bw_runners ?w)"
    thus "br_ending x \<noteq> EDrop" using runner_ending [OF inv r(2)] by (simp add: take_back_def)
  next
    fix j d assume "working ?w j d"
    thus "\<exists>x. owned_row (bw_rows ?w) (bc_id d) (bc_claimed_on d) (bc_table d) x \<and> same_command x d"
      using same bam_invD(2) [OF inv wk] by (auto simp: take_back_def)
  next
    fix j k d e assume "working ?w j d" "working ?w k e"
    thus "j = k" using same by blast
  next
    show "distinct (map bm_id (bw_rows ?w))" using bam_invD(1) [OF inv] by (simp add: take_back_def)
  qed (auto simp del: set_runner_simps simp: none)
qed

lemma inv_never_ran:
  assumes inv: "bam_inv cfg w" and i: "i < length (bw_runners w)"
  shows "bam_inv cfg (never_ran i w)"
proof (cases "in_flight (br_point (bw_runners w ! i)) \<and> br_aborted (bw_runners w ! i)")
  case True
  then obtain c where c: "point_claim (br_point (bw_runners w ! i)) = Some c"
    by (cases "br_point (bw_runners w ! i)") auto
  have "take_back i w = (take_back i w)\<lparr>bw_index := bw_index w\<rparr>" by (simp add: take_back_def)
  thus ?thesis using True c inv_lands [OF inv i c, of "notStarted c (bw_runners w ! i)" "bw_index w"]
    by (simp add: never_ran_def Let_def)
qed (use inv in \<open>auto simp: never_ran_def Let_def\<close>)

lemma inv_finish:
  assumes inv: "bam_inv cfg w" and i: "i < length (bw_runners w)"
  shows "bam_inv cfg (finish_sql i err index' w)"
proof (cases "br_point (bw_runners w ! i)")
  case (BDropping c)
  thus ?thesis using own_ending [OF inv i]
    by (auto simp: finish_sql_def Let_def intro!: inv_lands [OF inv i, of c] split: option.splits if_splits)
next
  case (BRunning c)
  thus ?thesis using own_ending [OF inv i]
    by (auto simp: finish_sql_def Let_def index_built_def intro!: inv_lands [OF inv i, of c]
        split: option.splits if_splits)
qed (use inv in \<open>simp_all add: finish_sql_def Let_def\<close>)

lemma inv_disown:
  assumes inv: "bam_inv cfg w" and i: "i < length (bw_runners w)"
    and r: "point_claim (br_point r) = None" "br_ending r \<noteq> EDrop"
  shows "bam_inv cfg (set_runner i r (w\<lparr>bw_server := map (disown i) (bw_server w)\<rparr>))"
proof -
  let ?w = "set_runner i r (w\<lparr>bw_server := map (disown i) (bw_server w)\<rparr>)"
  have same: "working ?w j d \<Longrightarrow> working w j d \<and> j \<noteq> i" for j d
    using r(1) i by (auto simp: working_def set_runner_def nth_list_update split: if_splits)
  show ?thesis
  proof (rule bam_invI)
    fix j d assume j: "j < length (bw_runners ?w)" "br_point (bw_runners ?w ! j) = BMarkDone d"
    hence "working ?w j d" by (simp add: working_def)
    hence "j \<noteq> i" using same by blast
    thus "index_built cfg (bc_command d) (bw_index ?w)" using j bam_invD(8) [OF inv] by simp
  next
    fix x assume "x \<in> set (bw_runners ?w)"
    thus "br_ending x \<noteq> EDrop" using runner_ending [OF inv r(2)] by simp
  next
    fix s assume "s \<in> set (bw_server ?w)"
    thus "\<exists>x. owned_row (bw_rows ?w) (bs_row s) (bs_claimed_on s) (bs_table s) x"
      using bam_invD(4) [OF inv] by (auto simp: disown_def)
  next
    fix s j d assume "s \<in> set (bw_server ?w)" "working ?w j d"
    thus "in_flight (br_point (bw_runners ?w ! j)) \<and> bs_row s = bc_id d \<and> bs_owner s = Some j"
      using bam_invD(6) [OF inv, of _ j d] same [of j d] by (auto simp: disown_def owned_by_def split: if_splits)
  next
    fix j d assume "working ?w j d"
    thus "\<exists>r. owned_row (bw_rows ?w) (bc_id d) (bc_claimed_on d) (bc_table d) r \<and> same_command r d"
      using bam_invD(2) [OF inv conjunct1 [OF same]] by simp
  next
    fix j k d e assume "working ?w j d" "working ?w k e"
    thus "j = k" using bam_invD(3) [OF inv] same by blast
  qed (use bam_invD(1,5) [OF inv] in simp_all)
qed

lemma inv_drop:
  assumes inv: "bam_inv cfg w" and i: "i < length (bw_runners w)"
  shows "bam_inv cfg (drop_sql i e w)"
  using inv own_ending [OF inv i] inv_disown [OF inv i, of "next_round (bw_runners w ! i)"]
  by (auto simp: drop_sql_def Let_def fail_with_def)

lemma inv_crash:
  assumes inv: "bam_inv cfg w" and i: "i < length (bw_runners w)"
  shows "bam_inv cfg (crash i w)"
  using own_ending [OF inv i] inv_disown [OF inv i, of "(bw_runners w ! i)\<lparr>br_point := BIdle\<rparr>"]
  by (simp add: crash_def go_to_def)

lemma inv_server_ends:
  assumes inv: "bam_inv cfg w"
  shows "bam_inv cfg (server_ends k index' w)"
proof (cases "list_ex (\<lambda>s. bs_row s = k \<and> bs_owner s = None) (bw_server w)")
  case True
  then obtain s where s: "s \<in> set (bw_server w)" "bs_row s = k" "bs_owner s = None"
    by (auto simp: list_ex_iff)
  hence srv: "bw_server w = [s]" using bam_invD(5) [OF inv] by (cases "bw_server w") auto
  have "\<not> working w i c" for i c using bam_invD(6) [OF inv s(1)] s(3) by fastforce
  moreover have "server_ends k index' w = w\<lparr>bw_server := [], bw_index := index'\<rparr>"
    using s(2,3) by (simp add: server_ends_def srv)
  ultimately show ?thesis using bam_invD(1,7) [OF inv] by (intro inv_idle) (auto simp: working_def)
qed (use inv in \<open>simp add: server_ends_def\<close>)

lemma owned_row_enqueue:
  "owned_row t k s n r \<Longrightarrow> list_all (\<lambda>r. bm_created_on r \<le> bm_created_on x) t \<Longrightarrow> owned_row (t @ [x]) k s n r"
  by (auto simp: owned_row_def after_predecessors_def list_all_iff)

lemma inv_enqueue:
  assumes inv: "bam_inv cfg w"
    and x: "list_all (\<lambda>r. bm_id r \<noteq> bm_id x \<and> bm_created_on r \<le> bm_created_on x) (bw_rows w)"
  shows "bam_inv cfg (w\<lparr>bw_rows := bw_rows w @ [x]\<rparr>)"
proof -
  have later: "list_all (\<lambda>r. bm_created_on r \<le> bm_created_on x) (bw_rows w)" using x by (auto simp: list_all_iff)
  note keeps = owned_row_enqueue [OF _ later]
  have wk: "working (w\<lparr>bw_rows := bw_rows w @ [x]\<rparr>) = working w" by (rule working_cong) simp
  show ?thesis
  proof (rule bam_invI, unfold wk)
    fix j c assume "working w j c"
    thus "\<exists>r. owned_row (bw_rows (w\<lparr>bw_rows := bw_rows w @ [x]\<rparr>)) (bc_id c) (bc_claimed_on c) (bc_table c) r \<and>
        same_command r c"
      using bam_invD(2) [OF inv, of j c] keeps by (simp, blast)
  next
    fix s assume "s \<in> set (bw_server (w\<lparr>bw_rows := bw_rows w @ [x]\<rparr>))"
    thus "\<exists>r. owned_row (bw_rows (w\<lparr>bw_rows := bw_rows w @ [x]\<rparr>)) (bs_row s) (bs_claimed_on s) (bs_table s) r"
      using bam_invD(4) [OF inv, of s] keeps by (simp, blast)
  next
    show "distinct (map bm_id (bw_rows (w\<lparr>bw_rows := bw_rows w @ [x]\<rparr>)))"
      using bam_invD(1) [OF inv] x by (auto simp: list_all_iff)
  next
    fix i j c d assume "working w i c" "working w j d"
    thus "i = j" by (rule bam_invD(3) [OF inv])
  qed (use bam_invD(5-8) [OF inv] in auto)
qed

lemma inv_tick: "bam_inv cfg w \<Longrightarrow> bam_inv cfg (w\<lparr>bw_now := n\<rparr>)"
  using working_cong [of "w\<lparr>bw_now := n\<rparr>" w] by (simp add: bam_inv_def)

lemmas inv_steps = inv_tick inv_polled inv_claim inv_begin inv_probe inv_send inv_never_ran inv_finish inv_drop
  inv_check inv_mark inv_stop inv_deadline inv_cancel inv_crash inv_server_ends inv_enqueue

lemma bam_inv_step:
  assumes "bam_inv cfg w" "\<not> bf_cockroach cfg" "bam_allowed cfg w e"
  shows "bam_inv cfg (bam_step cfg e w)"
  using assms by (cases e) (auto simp: bam_step_def bam_allowed_def intro: inv_steps)

definition bam_start :: "bam_world \<Rightarrow> bool" where
  "bam_start w = (distinct (map bm_id (bw_rows w)) \<and> bw_server w = [] \<and>
     list_all (\<lambda>r. br_point r = BIdle \<and> br_ending r = EWait) (bw_runners w))"

lemma bam_start_inv: "bam_start w \<Longrightarrow> bam_inv cfg w"
  by (intro inv_idle) (auto simp: bam_start_def working_def list_all_length in_set_conv_nth)

lemma bam_reach_inv:
  "(bam_next cfg)\<^sup>*\<^sup>* w0 w \<Longrightarrow> bam_start w0 \<Longrightarrow> \<not> bf_cockroach cfg \<Longrightarrow> bam_inv cfg w"
  by (induction rule: rtranclp_induct) (auto simp: bam_start_inv bam_next.simps bam_inv_step)


lemma go_to_rows [simp]: "bw_rows (go_to i p w) = bw_rows w"
  by (simp add: go_to_def)

text \<open>Only a claim, its return, a mark and an enqueue touch the rows.\<close>

lemma rows_untouched:
  "bw_rows (polled i w) = bw_rows w" "bw_rows (probe_claim cfg i err w) = bw_rows w"
  "bw_rows (send_claim cfg i w) = bw_rows w" "bw_rows (never_ran i w) = bw_rows w"
  "bw_rows (finish_sql i err index' w) = bw_rows w" "bw_rows (drop_sql i e w) = bw_rows w"
  "bw_rows (check_built cfg i err w) = bw_rows w" "bw_rows (stop_runner i w) = bw_rows w"
  "bw_rows (past_deadline i w) = bw_rows w" "bw_rows (cancel_answered i ok w) = bw_rows w"
  "bw_rows (crash i w) = bw_rows w" "bw_rows (server_ends k index' w) = bw_rows w"
  by (simp_all add: polled_def probe_claim_def send_claim_def send_sql_def never_ran_def finish_sql_def
      drop_sql_def check_built_def stop_runner_def past_deadline_def cancel_answered_def crash_def
      server_ends_def take_back_def Let_def split: bam_point.split option.split)

lemma claimed_status:
  "getNextBamCommand lv p live locks now t = (t', Some c) \<Longrightarrow> distinct (map bm_id t) \<Longrightarrow> r \<in> set t' \<Longrightarrow>
     bm_status r = BCompleted \<Longrightarrow> r \<in> set t"
  by (erule (1) getNext_claims) (auto simp: set_upd_where)

text \<open>(C24) A row becomes completed only when its index is there.  On a backend other than CockroachDB, and
  while the runners are attended as above, whatever the database answered and however their steps
  interleave, the step that completes the row of an index build leaves a row whose index the catalog then
  has, and has valid where the backend can tell.  With an unattended claim this fails: a mark written late
  completes a row that another runner is building again, as \<^verbatim>\<open>late_mark_runs_twice\<close> below shows for a failure.\<close>

theorem bam_completes_built_only:
  assumes "bam_start w0" "\<not> bf_cockroach cfg" "(bam_next cfg)\<^sup>*\<^sup>* w0 w" "bam_allowed cfg w e"
    and r: "r \<in> set (bw_rows (bam_step cfg e w))" "bm_status r = BCompleted" "r \<notin> set (bw_rows w)"
    and "\<forall>k\<in>set (bw_rows w). bm_id k = bm_id r \<longrightarrow> bm_status k \<noteq> BCompleted"
    and n: "bamHealProbe (bm_command r) = Some n"
  shows "bw_index (bam_step cfg e w) n = Some True \<or>
    (\<not> bf_liveness cfg \<and> bw_index (bam_step cfg e w) n = Some False)"
proof -
  have inv: "bam_inv cfg w" using bam_reach_inv assms(1-3) by blast
  note d = bam_invD(1) [OF inv]
  have mark: ?thesis if e: "e = Mark i err" "i < length (bw_runners w)" for i err
  proof (cases "br_point (bw_runners w ! i)")
    case (BMarkDone c)
    have wk: "working w i c" using BMarkDone e(2) by (simp add: working_def)
    then obtain r0 where r0: "owned_row (bw_rows w) (bc_id c) (bc_claimed_on c) (bc_table c) r0" "same_command r0 c"
      using bam_invD(2) [OF inv wk] by blast
    have "bw_rows (bam_step cfg e w) = (if err = None then setBamCompleted (bc_id c) (bw_now w) (bw_rows w) else bw_rows w)"
      using e BMarkDone by (simp add: bam_step_def mark_row_def Let_def split: option.split)
    with r(1,3) have "r \<in> set (setBamCompleted (bc_id c) (bw_now w) (bw_rows w))" by (simp split: if_splits)
    then obtain k where k: "k \<in> set (bw_rows w)" "bm_id k = bc_id c"
        "r = k\<lparr>bm_status := BCompleted, bm_completed_on := Some (bw_now w), bm_error := None\<rparr>"
      using r(3) by (auto simp: setBamCompleted_def set_upd_where)
    have "k = r0" using same_bam_row [OF d k(1)] r0(1) k(2) by (simp add: owned_row_def)
    hence "bamHealProbe (bc_command c) = Some n" using n k(3) r0(2) by (simp add: same_command_def)
    moreover have "index_built cfg (bc_command c) (bw_index w)" by (rule bam_invD(8) [OF inv e(2) BMarkDone])
    moreover have "bw_index (bam_step cfg e w) = bw_index w"
      using e BMarkDone by (auto simp: bam_step_def mark_row_def Let_def split: option.splits)
    ultimately show ?thesis by (simp add: index_built_def)
  qed (use r e in \<open>auto simp: bam_step_def mark_row_def Let_def setBamFailed_def set_upd_where\<close>)
  have handed: False if e: "e = Begin i landed" "i < length (bw_runners w)" for i landed
  proof (cases "br_point (bw_runners w ! i)")
    case (BClaimed c)
    hence "bc_prior_status c \<noteq> BCompleted"
      using bam_invD(2) [OF inv, of i c] e(2) by (auto simp: working_def same_command_def)
    thus False using r e BClaimed
      by (auto simp: bam_step_def begin_claim_def Let_def go_to_def releaseBamCommand_def set_upd_where split: if_splits)
  qed (use r e in \<open>auto simp: bam_step_def begin_claim_def\<close>)
  show ?thesis
  proof (cases e)
    case (Mark i err)
    thus ?thesis using mark r by (cases "i < length (bw_runners w)") (auto simp: bam_step_def)
  next
    case (Begin i landed)
    thus ?thesis using handed r by (cases "i < length (bw_runners w)") (auto simp: bam_step_def)
  next
    case (ClaimNext i others rowLocks seen)
    thus ?thesis using r claimed_status [OF _ d]
      by (auto simp: bam_step_def claim_next_def go_to_def split: if_splits bam_point.splits prod.splits option.splits)
  next
    case (Enqueue x)
    thus ?thesis using r assms(4) by (auto simp: bam_step_def bam_allowed_def)
  qed (use r in \<open>auto simp: bam_step_def rows_untouched split: if_splits\<close>)
qed

lemma release_undoes:
  assumes "distinct (map bm_id t)"
    and "getNextBamCommand useLiveness pendingOnly live rowLocked now t = (t', Some c)"
  shows "releaseBamCommand c t' = t" "bc_claimed_on c = now"
proof -
  obtain r0 where r0: "r0 \<in> set t" "c = claim_of now r0"
    "t' = upd_where (\<lambda>r. bm_id r = bm_id r0) (\<lambda>r. r\<lparr>bm_status := BInProgress, bm_started_on := Some now\<rparr>) t"
    using getNext_claims [OF assms(2,1)] by metis
  have eq: "r = r0" if "r \<in> set t" "bm_id r = bm_id r0" for r using same_bam_row [OF assms(1) that(1) r0(1) that(2)] .
  have "releaseBamCommand c t' = map id t"
    unfolding r0(2,3) releaseBamCommand_def upd_where_def map_map
    by (intro map_cong refl) (auto simp: claim_of_def dest!: eq)
  thus "releaseBamCommand c t' = t" "bc_claimed_on c = now" by (simp_all add: r0(2) claim_of_def)
qed

text \<open>(C25) Handing a claim back undoes it: the table is exactly the one the claim found, the row's status and
  the time its last attempt started included.  Once the row was taken by another claim or has its outcome,
  handing back does nothing.\<close>

theorem bam_release_undoes_claim:
  assumes "distinct (map bm_id t)"
    and "getNextBamCommand useLiveness pendingOnly live rowLocked now t = (t', Some c)"
  shows "releaseBamCommand c t' = t \<and>
    (\<forall>u. (\<forall>r\<in>set u. bm_id r = bc_id c \<longrightarrow> bm_status r \<noteq> BInProgress \<or> bm_started_on r \<noteq> Some now) \<longrightarrow>
       releaseBamCommand c u = u)"
proof -
  note r = release_undoes [OF assms]
  have "releaseBamCommand c u = u"
    if "\<forall>r\<in>set u. bm_id r = bc_id c \<longrightarrow> bm_status r \<noteq> BInProgress \<or> bm_started_on r \<noteq> Some now" for u
    unfolding releaseBamCommand_def using that by (intro upd_where_none) (auto simp: r(2))
  thus ?thesis using r(1) by simp
qed

section \<open>A burst\<close>

text \<open>\<^verbatim>\<open>#processCommands\<close> for a runner by itself.  What it meets in each round is an input: the clock, the
  tables with a live build, whether a stop landed before the claim or after it, whether the release of a
  claim that a stop overtook succeeded, and how an attempt ends: its outcome is written, or the row stays
  in progress, because \<^verbatim>\<open>stop()\<close> abandoned the statement to the server or the write failed.\<close>

datatype attempt_end = Succeeded | FailedWith str | Unrecorded

record burst_round =
  rd_now :: time
  rd_live :: "str \<Rightarrow> bool"
  rd_stopped :: bool
  rd_stopped_after :: bool
  rd_released :: bool
  rd_end :: "bam_claim \<Rightarrow> attempt_end"

text \<open>\<^verbatim>\<open>#processNextCommand\<close> once it has a claim: the table, and whether the burst goes on.\<close>

definition run_claim :: "burst_round \<Rightarrow> bam_claim \<Rightarrow> bam_row list \<Rightarrow> bam_row list \<times> bool" where
  "run_claim r c t = (if rd_stopped_after r then (if rd_released r then releaseBamCommand c t else t, False)
     else (case rd_end r c of Succeeded \<Rightarrow> setBamCompleted (bc_id c) (rd_now r) t
       | FailedWith e \<Rightarrow> setBamFailed (bc_id c) e (rd_now r) t
       | Unrecorded \<Rightarrow> t, True))"

text \<open>The result is the table and the claims in their order.\<close>

primrec processCommands ::
  "bool \<Rightarrow> (nat \<Rightarrow> burst_round) \<Rightarrow> nat \<Rightarrow> bool \<Rightarrow> bam_row list \<Rightarrow> (bam_row list \<times> bam_claim list) option" where
  "processCommands lv rounds 0 pendingOnly t = None"
| "processCommands lv rounds (Suc n) pendingOnly t = (if rd_stopped (rounds n) then Some (t, [])
     else case getNextBamCommand lv pendingOnly (rd_live (rounds n)) (\<lambda>_. False) (rd_now (rounds n)) t of
       (t', None) \<Rightarrow> Some (t', [])
     | (t', Some c) \<Rightarrow> (case run_claim (rounds n) c t' of
         (t1, goes_on) \<Rightarrow> if goes_on
           then map_option (\<lambda>(t2, cs). (t2, c # cs)) (processCommands lv rounds n True t1)
           else Some (t1, [c])))"

definition pending_ids :: "bam_row list \<Rightarrow> uuid list" where
  "pending_ids t = map bm_id (filter (\<lambda>r. bm_status r = BPending) t)"

text \<open>No row in progress; none failed.\<close>

definition quiet :: "bam_row list \<Rightarrow> bool" where
  "quiet t = list_all (\<lambda>r. bm_status r \<noteq> BInProgress) t"

definition no_failed :: "bam_row list \<Rightarrow> bool" where
  "no_failed t = list_all (\<lambda>r. bm_status r \<noteq> BFailed) t"

text \<open>A round no stop lands in; one that leaves its row out of progress; one whose command succeeds.\<close>

definition unstopped :: "burst_round \<Rightarrow> bool" where
  "unstopped r = (\<not> rd_stopped r \<and> \<not> rd_stopped_after r)"

definition recorded :: "burst_round \<Rightarrow> bool" where
  "recorded r = ((\<forall>c. rd_end r c \<noteq> Unrecorded) \<and> (rd_stopped_after r \<longrightarrow> rd_released r))"

definition succeeds :: "burst_round \<Rightarrow> bool" where
  "succeeds r = (\<forall>c. rd_end r c = Succeeded)"

lemma quiet_no_block: "quiet t \<Longrightarrow> \<not> list_ex (bam_blocks lv live now) t"
  by (auto simp: quiet_def bam_blocks_def list_ex_iff list_all_iff)

text \<open>An attempt: one row, which is no longer pending unless a stop hands it back.\<close>

lemma run_claim_upd:
  assumes "getNextBamCommand lv p live locks (rd_now r) t = (t', Some c)" "distinct (map bm_id t)"
    "\<not> rd_stopped_after r"
  obtains f where "run_claim r c t' = (upd_where (\<lambda>x. bm_id x = bc_id c) f t, True)" "\<And>x. bm_id (f x) = bm_id x"
    "\<And>x. bm_status (f x) = (case rd_end r c of Succeeded \<Rightarrow> BCompleted | FailedWith _ \<Rightarrow> BFailed | Unrecorded \<Rightarrow> BInProgress)"
proof -
  let ?c = "\<lambda>x. x\<lparr>bm_status := BInProgress, bm_started_on := Some (rd_now r)\<rparr>"
  obtain r0 where r0: "c = claim_of (rd_now r) r0" "t' = upd_where (\<lambda>x. bm_id x = bm_id r0) ?c t"
    by (rule getNext_claims [OF assms(1,2)]) blast
  have k: "bc_id c = bm_id r0" by (simp add: r0(1) claim_of_def)
  show thesis
  proof (cases "rd_end r c")
    case Succeeded
    show ?thesis
      by (rule that [of "\<lambda>x. ?c x\<lparr>bm_status := BCompleted, bm_completed_on := Some (rd_now r), bm_error := None\<rparr>"])
        (auto simp: run_claim_def assms(3) Succeeded setBamCompleted_def k r0(2) upd_where_def)
  next
    case (FailedWith e)
    show ?thesis
      by (rule that [of "\<lambda>x. ?c x\<lparr>bm_status := BFailed, bm_error := Some e, bm_completed_on := Some (rd_now r)\<rparr>"])
        (auto simp: run_claim_def assms(3) FailedWith setBamFailed_def k r0(2) upd_where_def)
  next
    case Unrecorded
    show ?thesis by (rule that [of ?c]) (auto simp: run_claim_def assms(3) Unrecorded k r0(2) upd_where_def)
  qed
qed

lemma run_claim_facts:
  assumes g: "getNextBamCommand lv p live locks (rd_now r) t = (t', Some c)" and d: "distinct (map bm_id t)"
    and run: "run_claim r c t' = (t1, goes_on)"
  shows "map bm_id t1 = map bm_id t" "goes_on = (\<not> rd_stopped_after r)"
    "goes_on \<Longrightarrow> pending_ids t1 = filter (\<lambda>i. i \<noteq> bc_id c) (pending_ids t)"
    "p \<Longrightarrow> bc_id c \<in> set (pending_ids t) \<and> \<not> bc_reattempt c"
    "quiet t \<Longrightarrow> recorded r \<Longrightarrow> quiet t1" "no_failed t \<Longrightarrow> succeeds r \<Longrightarrow> no_failed t1"
proof -
  obtain r0 where r0: "r0 \<in> set t" "bam_candidate lv p live locks (rd_now r) t r0"
    "c = claim_of (rd_now r) r0"
    "t' = upd_where (\<lambda>x. bm_id x = bm_id r0) (\<lambda>x. x\<lparr>bm_status := BInProgress, bm_started_on := Some (rd_now r)\<rparr>) t"
    by (rule getNext_claims [OF g d]) blast
  note undone = release_undoes(1) [OF d g]
  show "p \<Longrightarrow> bc_id c \<in> set (pending_ids t) \<and> \<not> bc_reattempt c"
    using r0 by (auto simp: pending_ids_def bam_candidate_def claim_of_def)
  have claimed: "map bm_id t' = map bm_id t" unfolding r0(4) by (rule map_upd_where_same) simp
  have keeps: "no_failed t \<Longrightarrow> no_failed t'" by (auto simp: r0(4) no_failed_def list_all_iff set_upd_where)
  have all: "map bm_id t1 = map bm_id t \<and> goes_on = (\<not> rd_stopped_after r) \<and>
      (goes_on \<longrightarrow> pending_ids t1 = filter (\<lambda>i. i \<noteq> bc_id c) (pending_ids t)) \<and>
      (quiet t \<and> recorded r \<longrightarrow> quiet t1) \<and> (no_failed t \<and> succeeds r \<longrightarrow> no_failed t1)"
  proof (cases "rd_stopped_after r")
    case True
    hence "t1 = (if rd_released r then t else t') \<and> \<not> goes_on" using run undone by (auto simp: run_claim_def)
    thus ?thesis using True claimed keeps by (auto simp: recorded_def)
  next
    case False
    obtain f where f0: "run_claim r c t' = (upd_where (\<lambda>x. bm_id x = bc_id c) f t, True) \<and> (\<forall>x. bm_id (f x) = bm_id x) \<and>
      (\<forall>x. bm_status (f x) = (case rd_end r c of Succeeded \<Rightarrow> BCompleted | FailedWith _ \<Rightarrow> BFailed | Unrecorded \<Rightarrow> BInProgress))"
      by (rule run_claim_upd [OF g d False]) blast
    hence f: "run_claim r c t' = (upd_where (\<lambda>x. bm_id x = bc_id c) f t, True)" "\<And>x. bm_id (f x) = bm_id x"
      "\<And>x. bm_status (f x) = (case rd_end r c of Succeeded \<Rightarrow> BCompleted | FailedWith _ \<Rightarrow> BFailed | Unrecorded \<Rightarrow> BInProgress)"
      by blast+
    have t1: "t1 = upd_where (\<lambda>x. bm_id x = bc_id c) f t" "goes_on" using run f(1) by auto
    have out: "bm_status (f x) \<noteq> BPending" for x unfolding f(3) by (cases "rd_end r c") auto
    have "map bm_id t1 = map bm_id t" unfolding t1 using f(2) by (intro map_upd_where_same)
    moreover have "pending_ids t1 = filter (\<lambda>i. i \<noteq> bc_id c) (pending_ids t)"
      unfolding t1 pending_ids_def using f(2) out by (induction t) auto
    moreover have "recorded r \<Longrightarrow> bm_status (f x) \<noteq> BInProgress" for x
      unfolding f(3) recorded_def by (cases "rd_end r c") auto
    hence "quiet t \<and> recorded r \<longrightarrow> quiet t1" by (auto simp: t1 quiet_def list_all_iff set_upd_where)
    moreover have "no_failed t \<and> succeeds r \<longrightarrow> no_failed t1"
      using f(3) by (auto simp: t1 no_failed_def succeeds_def list_all_iff set_upd_where)
    ultimately show ?thesis using t1(2) False by blast
  qed
  thus "map bm_id t1 = map bm_id t" "goes_on = (\<not> rd_stopped_after r)"
    "goes_on \<Longrightarrow> pending_ids t1 = filter (\<lambda>i. i \<noteq> bc_id c) (pending_ids t)"
    "quiet t \<Longrightarrow> recorded r \<Longrightarrow> quiet t1" "no_failed t \<Longrightarrow> succeeds r \<Longrightarrow> no_failed t1" by blast+
qed

text \<open>Where nothing is claimable any more, each pending command waits for a failed one.\<close>

definition waits_for_failed :: "bam_row list \<Rightarrow> bool" where
  "waits_for_failed t = (\<forall>r\<in>set t. bm_status r = BPending \<longrightarrow> (\<exists>q\<in>set t. bm_version q = bm_version r \<and>
     bm_table q = bm_table r \<and> bm_created_on q < bm_created_on r \<and> bm_status q = BFailed))"

lemma none_claimable:
  assumes s: "quiet t" and g: "getNextBamCommand lv p live (\<lambda>_. False) now t = (t', None)"
    and r: "r \<in> set t" "bm_status r = BPending"
  shows "\<exists>q\<in>set t. bm_version q = bm_version r \<and> bm_table q = bm_table r \<and> bm_created_on q < bm_created_on r \<and>
    bm_status q = BFailed"
proof -
  have none: "\<not> bam_candidate lv p live (\<lambda>_. False) now t q" if "q \<in> set t" for q
  proof -
    have "sort_key f xs = [] \<longleftrightarrow> xs = []" for f :: "bam_row \<Rightarrow> bool \<times> time" and xs by (metis set_empty set_sort)
    thus ?thesis using g that by (auto simp: getNextBamCommand_def filter_empty_conv split: list.splits)
  qed
  let ?qs = "filter (\<lambda>q. bm_version q = bm_version r \<and> bm_table q = bm_table r \<and> bm_status q \<noteq> BCompleted) t"
  have "r \<in> set ?qs" using r by simp
  hence "?qs \<noteq> []" by (cases ?qs) auto
  then obtain q where q: "q \<in> set ?qs" "\<And>x. x \<in> set ?qs \<Longrightarrow> bm_created_on q \<le> bm_created_on x"
    using arg_min_list_in [of ?qs bm_created_on] f_arg_min_list_f [of ?qs bm_created_on] by fastforce
  have nb: "\<not> list_ex (bam_blocks lv live now) t" by (rule quiet_no_block [OF s])
  have "after_predecessors t q" using q by (fastforce simp: after_predecessors_def list_all_iff)
  hence "bm_status q \<noteq> BPending" using none [of q] q(1) nb by (auto simp: bam_candidate_def split: if_splits)
  moreover have "bm_status q \<noteq> BInProgress" "bm_status q \<noteq> BCompleted"
    using q(1) s by (auto simp: quiet_def list_all_iff)
  ultimately have failed: "bm_status q = BFailed" by (cases "bm_status q") auto
  have "bm_created_on q < bm_created_on r"
  proof (rule ccontr)
    assume "\<not> bm_created_on q < bm_created_on r"
    hence "after_predecessors t r" using q r by (fastforce simp: after_predecessors_def list_all_iff)
    thus False using none [OF r(1)] r(2) nb by (auto simp: bam_candidate_def split: if_splits)
  qed
  thus ?thesis using failed q(1) by auto
qed

text \<open>What a burst leaves: it claimed each row once, and unless a stop ended it or it left a row in
  progress, every pending row waits for a failed one.\<close>

definition burst_result ::
  "(nat \<Rightarrow> burst_round) \<Rightarrow> bam_row list \<Rightarrow> bam_row list \<Rightarrow> bam_claim list \<Rightarrow> bool" where
  "burst_result rounds t t' cs = (map bm_id t' = map bm_id t \<and> distinct (map bc_id cs) \<and>
     (quiet t \<and> (\<forall>n. recorded (rounds n)) \<longrightarrow> quiet t') \<and>
     (no_failed t \<and> (\<forall>n. succeeds (rounds n)) \<longrightarrow> no_failed t') \<and>
     (quiet t' \<and> (\<forall>n. unstopped (rounds n)) \<longrightarrow> waits_for_failed t'))"

lemma getNext_None: "getNextBamCommand lv p live locks now t = (t', None) \<Longrightarrow> t' = t"
  by (auto simp: getNextBamCommand_def split: list.splits)

lemma burst_none:
  assumes "getNextBamCommand lv p live (\<lambda>_. False) now t = (t', None)"
  shows "burst_result rounds t t' []"
  unfolding burst_result_def getNext_None [OF assms] waits_for_failed_def
  using none_claimable [OF _ assms] by simp

lemma burst_stop: "\<not> unstopped (rounds n) \<Longrightarrow> burst_result rounds t t []"
  by (auto simp: burst_result_def)

text \<open>One attempt, and the burst of pending rows after it.\<close>

lemma burst_step:
  assumes g: "getNextBamCommand lv p (rd_live (rounds n)) (\<lambda>_. False) (rd_now (rounds n)) t = (t', Some c)"
    and d: "distinct (map bm_id t)" and run: "run_claim (rounds n) c t' = (t1, True)"
    and rest: "burst_result rounds t1 t2 cs" "set (map bc_id cs) \<subseteq> set (pending_ids t1)"
  shows "burst_result rounds t t2 (c # cs) \<and> set (map bc_id cs) \<subseteq> set (pending_ids t)"
proof -
  note f = run_claim_facts [OF g d run]
  have "set (pending_ids t1) \<subseteq> set (pending_ids t) - {bc_id c}" using f(3) by auto
  thus ?thesis using rest f(1,5,6) by (auto simp: burst_result_def)
qed

lemma burst_cut:
  assumes g: "getNextBamCommand lv p (rd_live (rounds n)) (\<lambda>_. False) (rd_now (rounds n)) t = (t', Some c)"
    and d: "distinct (map bm_id t)" and run: "run_claim (rounds n) c t' = (t1, False)"
  shows "burst_result rounds t t1 [c]"
proof -
  note f = run_claim_facts [OF g d run]
  have "\<not> unstopped (rounds n)" using f(2) by (simp add: unstopped_def)
  thus ?thesis using f(1,5,6) by (auto simp: burst_result_def)
qed

lemma burst_pending:
  "distinct (map bm_id t) \<Longrightarrow> length (pending_ids t) < fuel \<Longrightarrow>
   \<exists>t' cs. processCommands lv rounds fuel True t = Some (t', cs) \<and>
     burst_result rounds t t' cs \<and> set (map bc_id cs) \<subseteq> set (pending_ids t) \<and> (\<forall>c\<in>set cs. \<not> bc_reattempt c)"
proof (induction fuel arbitrary: t)
  case (Suc n)
  let ?r = "rounds n"
  obtain t' oc where g: "getNextBamCommand lv True (rd_live ?r) (\<lambda>_. False) (rd_now ?r) t = (t', oc)"
    by (metis surj_pair)
  show ?case
  proof (cases "rd_stopped ?r")
    case True
    thus ?thesis using burst_stop [of rounds n t] by (simp add: unstopped_def)
  next
    case go: False
    show ?thesis
    proof (cases oc)
      case None
      thus ?thesis using g go burst_none [OF g [unfolded None]] by simp
    next
      case (Some c)
      obtain t1 on where run: "run_claim ?r c t' = (t1, on)" by (metis surj_pair)
      note f = run_claim_facts [OF g [unfolded Some] Suc.prems(1) run]
      note c = f(4) [OF TrueI]
      show ?thesis
      proof (cases on)
        case True
        have "length (pending_ids t1) < n"
          using f(3) [OF True] c Suc.prems(2) length_filter_less [of "bc_id c" "pending_ids t" "\<lambda>i. i \<noteq> bc_id c"]
          by simp
        moreover have "distinct (map bm_id t1)" using f(1) Suc.prems(1) by simp
        ultimately obtain t2 cs where b: "processCommands lv rounds n True t1 = Some (t2, cs)"
            "burst_result rounds t1 t2 cs" "set (map bc_id cs) \<subseteq> set (pending_ids t1)" "\<forall>c\<in>set cs. \<not> bc_reattempt c"
          using Suc.IH by blast
        have "processCommands lv rounds (Suc n) True t = Some (t2, c # cs)"
          using g Some b(1) go run True by simp
        moreover have "run_claim ?r c t' = (t1, True)" using run True by simp
        ultimately show ?thesis using burst_step [where rounds = rounds and n = n, OF g [unfolded Some] Suc.prems(1) _ b(2,3)] c b(4) by auto
      next
        case False
        have "processCommands lv rounds (Suc n) True t = Some (t1, [c])" using g Some go run False by simp
        moreover have "run_claim ?r c t' = (t1, False)" using run False by simp
        hence "burst_result rounds t t1 [c]"
          by (rule burst_cut [where rounds = rounds and n = n, OF g [unfolded Some] Suc.prems(1)])
        ultimately show ?thesis using c by auto
      qed
    qed
  qed
qed simp

text \<open>(C26) A burst ends and drains the queue.  Whatever its rounds meet, a runner by itself claims at most one
  command more than were pending, each command once, and only the first claim may try an earlier failure or a
  stale row again.  Where every outcome is written and every overtaken claim handed back, it leaves no row in
  progress that it did not find so; and where no stop ends it and no row is in progress afterwards, a command
  is pending only where an earlier one of its migration on its table has failed.  If moreover nothing had
  failed and every command succeeds, all of them are completed.\<close>

theorem bam_burst_drains:
  assumes "distinct (map bm_id t)" "length (pending_ids t) + 1 < fuel"
  shows "\<exists>t' cs. processCommands lv rounds fuel False t = Some (t', cs) \<and> map bm_id t' = map bm_id t \<and>
    length cs \<le> length (pending_ids t) + 1 \<and> distinct (map bc_id cs) \<and> (\<forall>c\<in>set (tl cs). \<not> bc_reattempt c) \<and>
    (quiet t \<and> (\<forall>n. recorded (rounds n)) \<longrightarrow> quiet t') \<and>
    (quiet t' \<and> (\<forall>n. unstopped (rounds n)) \<longrightarrow> waits_for_failed t') \<and>
    (quiet t \<and> no_failed t \<and> (\<forall>n. unstopped (rounds n) \<and> succeeds (rounds n)) \<longrightarrow>
       list_all (\<lambda>r. bm_status r = BCompleted) t')"
proof -
  obtain n where n: "fuel = Suc n" "length (pending_ids t) < n" using assms(2) by (cases fuel) auto
  let ?r = "rounds n"
  obtain t1 oc where g: "getNextBamCommand lv False (rd_live ?r) (\<lambda>_. False) (rd_now ?r) t = (t1, oc)"
    by (metis surj_pair)
  obtain t' cs where p: "processCommands lv rounds fuel False t = Some (t', cs)"
      "burst_result rounds t t' cs" "set (map bc_id (tl cs)) \<subseteq> set (pending_ids t)" "\<forall>c\<in>set (tl cs). \<not> bc_reattempt c"
  proof (cases "rd_stopped ?r")
    case True
    show ?thesis
      by (rule that [of t "[]"]) (use True burst_stop [of rounds n t] n(1) in \<open>simp_all add: unstopped_def\<close>)
  next
    case go: False
    show ?thesis
    proof (cases oc)
      case None
      show ?thesis by (rule that [of t1 "[]"]) (use g go None burst_none [OF g [unfolded None]] n(1) in simp_all)
    next
      case (Some c)
      obtain u on where run: "run_claim ?r c t1 = (u, on)" by (metis surj_pair)
      note f = run_claim_facts [OF g [unfolded Some] assms(1) run]
      show ?thesis
      proof (cases on)
        case True
        have "length (pending_ids u) < n" using f(3) [OF True] n(2) by (metis length_filter_le le_less_trans)
        moreover have "distinct (map bm_id u)" using f(1) assms(1) by simp
        ultimately obtain t2 cs where b: "processCommands lv rounds n True u = Some (t2, cs)"
            "burst_result rounds u t2 cs" "set (map bc_id cs) \<subseteq> set (pending_ids u)" "\<forall>c\<in>set cs. \<not> bc_reattempt c"
          using burst_pending by blast
        have run': "run_claim ?r c t1 = (u, True)" using run True by simp
        show ?thesis
          by (rule that [of t2 "c # cs"])
            (use g Some b go run' burst_step [where rounds = rounds and n = n, OF g [unfolded Some] assms(1) run' b(2,3)] n(1) in simp_all)
      next
        case False
        show ?thesis
          by (rule that [of u "[c]"])
            (use g Some go run False burst_cut [where rounds = rounds and n = n, OF g [unfolded Some] assms(1)] n(1) in simp_all)
      qed
    qed
  qed
  note res = p(2) [unfolded burst_result_def]
  have "length (tl cs) \<le> length (pending_ids t)"
    using card_mono [OF finite_set p(3)] distinct_tl res card_length [of "pending_ids t"]
    by (metis distinct_card length_map map_tl le_trans)
  hence len: "length cs \<le> length (pending_ids t) + 1" by simp
  have "list_all (\<lambda>r. bm_status r = BCompleted) t'"
    if "quiet t" "no_failed t" "\<forall>n. unstopped (rounds n) \<and> succeeds (rounds n)"
  proof -
    have "\<forall>n. recorded (rounds n)" using that(3) by (simp add: recorded_def unstopped_def succeeds_def)
    hence q: "quiet t'" "no_failed t'" "waits_for_failed t'" using res that by blast+
    have "bm_status r = BCompleted" if r: "r \<in> set t'" for r
      using q r by (cases "bm_status r") (auto simp: no_failed_def quiet_def waits_for_failed_def list_all_iff)
    thus ?thesis by (simp add: list_all_iff)
  qed
  thus ?thesis using p(1,4) len res by blast
qed

section \<open>Samples\<close>

definition pg_config :: bam_config where
  "pg_config = \<lparr>bf_liveness = True, bf_cockroach = False, bf_own_pool = True, bf_schema = ''s''\<rparr>"

definition idle_runner :: bam_runner where
  "idle_runner = \<lparr>br_point = BIdle, br_stopped = False, br_row_stopped = False, br_aborted = False,
     br_ended = False, br_ending = EWait\<rparr>"

definition build_row :: bam_row where
  "build_row = \<lparr>bm_id = 1, bm_name = ''i'', bm_version = 40, bm_status = BPending, bm_queue = None,
     bm_table = ''job'', bm_command = ''CREATE INDEX CONCURRENTLY i ON s'', bm_error = None, bm_created_on = 1,
     bm_started_on = None, bm_completed_on = None\<rparr>"

definition retire_row :: bam_row where
  "retire_row = build_row\<lparr>bm_id := 2, bm_command := ''DROP INDEX CONCURRENTLY o'', bm_created_on := 2\<rparr>"

definition fresh_bam :: bam_world where
  "fresh_bam = \<lparr>bw_now = 0, bw_rows = [build_row, retire_row], bw_index = (\<lambda>_. None), bw_server = [],
     bw_runners = [idle_runner, idle_runner, idle_runner]\<rparr>"

definition no_index :: "str \<Rightarrow> bool option" where
  "no_index n = None"

definition built_i :: "str \<Rightarrow> bool option" where
  "built_i n = (if n = ''i'' then Some True else None)"

text \<open>A build of twenty minutes, while another runner polls and finds nothing it may take.\<close>

definition long_build :: "bam_event list" where
  "long_build = [Polled 0, ClaimNext 0 [] [] True, Begin 0 True, Send 0, Tick 1200000000, Polled 1,
     ClaimNext 1 [] [] True]"

lemma fresh_bam_start: "bam_start fresh_bam"
  by code_simp


definition finished_build :: "bam_event list" where
  "finished_build = long_build @ [Finish 0 None built_i, ProbeAfter 0 None]"

definition done_row :: bam_row where
  "done_row = build_row\<lparr>bm_status := BCompleted, bm_started_on := Some 0, bm_completed_on := Some 1200000000\<rparr>"

lemma bam_completes_built_only_witness:
  "\<exists>w. bam_trace pg_config finished_build fresh_bam = Some w \<and>
     done_row \<in> set (bw_rows (bam_step pg_config (Mark 0 None) w)) \<and>
     bw_index (bam_step pg_config (Mark 0 None) w) ''i'' = Some True"
proof -
  have "case bam_trace pg_config finished_build fresh_bam of None \<Rightarrow> False
    | Some w \<Rightarrow> bw_rows (bam_step pg_config (Mark 0 None) w) = [done_row, retire_row] \<and>
        list_all (\<lambda>k. bm_status k \<noteq> BCompleted) (bw_rows w)" by code_simp
  then obtain w where w: "bam_trace pg_config finished_build fresh_bam = Some w"
    "bw_rows (bam_step pg_config (Mark 0 None) w) = [done_row, retire_row]"
    "list_all (\<lambda>k. bm_status k \<noteq> BCompleted) (bw_rows w)"
    by (auto split: option.splits)
  have "\<not> bf_cockroach pg_config" "bf_liveness pg_config" by (simp_all add: pg_config_def)
  moreover have "bamHealProbe (bm_command done_row) = Some ''i''" "bm_status done_row = BCompleted"
    by code_simp+
  moreover have "bam_allowed pg_config w (Mark 0 None)" by (simp add: bam_allowed_def)
  moreover have "done_row \<notin> set (bw_rows w)" using w(3) \<open>bm_status done_row = BCompleted\<close> by (auto simp: list_all_iff)
  ultimately show ?thesis
    using w bam_completes_built_only [OF fresh_bam_start _ bam_trace_reaches [OF w(1)], of "Mark 0 None" done_row "''i''"]
    by (auto simp: list_all_iff)
qed

lemma bam_release_undoes_claim_witness:
  "\<exists>c. snd (getNextBamCommand True False (\<lambda>_. False) (\<lambda>_. False) 7 [retire_row, build_row]) = Some c \<and>
     releaseBamCommand c [retire_row, build_row\<lparr>bm_status := BInProgress, bm_started_on := Some 7\<rparr>] =
       [retire_row, build_row]"
proof -
  have "getNextBamCommand True False (\<lambda>_. False) (\<lambda>_. False) 7 [retire_row, build_row] =
      ([retire_row, build_row\<lparr>bm_status := BInProgress, bm_started_on := Some 7\<rparr>], Some (claim_of 7 build_row))"
    by code_simp
  moreover have "distinct (map bm_id [retire_row, build_row])" by code_simp
  ultimately show ?thesis using bam_release_undoes_claim [of "[retire_row, build_row]"] by (metis snd_conv)
qed

definition smooth :: "nat \<Rightarrow> burst_round" where
  "smooth n = \<lparr>rd_now = int n, rd_live = (\<lambda>_. False), rd_stopped = False, rd_stopped_after = False,
     rd_released = True, rd_end = (\<lambda>_. Succeeded)\<rparr>"

lemma bam_burst_drains_witness:
  "\<exists>t' cs. processCommands True smooth 4 False [build_row, retire_row] = Some (t', cs) \<and>
     length cs \<le> 3 \<and> list_all (\<lambda>r. bm_status r = BCompleted) t'"
proof -
  have t: "distinct (map bm_id [build_row, retire_row])" "length (pending_ids [build_row, retire_row]) = 2"
    "no_failed [build_row, retire_row]" "quiet [build_row, retire_row]" by code_simp+
  have "\<forall>n. unstopped (smooth n) \<and> succeeds (smooth n)" by (simp add: smooth_def unstopped_def succeeds_def)
  thus ?thesis using bam_burst_drains [OF t(1), of 4 True smooth] t by fastforce
qed

text \<open>An outcome written late.  The first runner's build failed after twenty minutes; before its mark lands,
  the second takes the row, whose claim is old and whose lock is gone, and starts it again.\<close>

definition late_mark :: "bam_event list" where
  "late_mark = [Polled 0, ClaimNext 0 [] [] True, Begin 0 True, Send 0, Tick 1200000000,
     Finish 0 (Some ''deadlock'') no_index, Polled 1, ClaimNext 1 [] [] True, Begin 1 True, Probe 1 None, Send 1,
     Mark 0 None, Polled 2, ClaimNext 2 [] [] True, Begin 2 True, Probe 2 None, Send 2]"

text \<open>The marks are not fenced to the claim.  A failure written late lands on the attempt another
  runner has since begun: the row of a running build becomes failed, the liveness check no longer sees
  it, and a third runner claims it and sends the build a second time.\<close>

theorem late_mark_runs_twice:
  "map (\<lambda>s. (bs_row s, bs_concurrent s, bs_owner s))
     (bw_server (fold (bam_step pg_config) late_mark fresh_bam)) = [(1, True, Some 1), (1, True, Some 2)]"
  by code_simp

end
