(* ===== verification/Migrate.thy ===== *)
theory Migrate
  imports Bam
begin

text \<open>
  Schema migrations: \<^verbatim>\<open>src/src/migrationStore.ts\<close>, which composes the statements of a migration, and
  the start of \<^verbatim>\<open>src/src/contractor.ts\<close>, which runs them.  A script is its list of statements; what one
  of DDL does to the schema is a parameter.  A transaction takes effect as a whole, and the advisory lock
  lets one run at a time.  The list of migrations is a parameter too: its entries are DDL.

  A command that is to run on the job table of every queue names the base table and its indexes.  Two
  functions rewrite it for a table, one in SQL when the command is queued and one in JavaScript when a
  script is printed.
\<close>

section \<open>Naming a table in a command\<close>

fun at_word_end :: "str \<Rightarrow> bool" where
  "at_word_end [] = True"
| "at_word_end (c # s) = (\<not> sql_char c)"

fun digit_next :: "str \<Rightarrow> bool" where
  "digit_next [] = False"
| "digit_next (c # s) = is_num c"

text \<open>Every \<^verbatim>\<open>.job\<close> that ends a word, and every \<^verbatim>\<open>job_i\<close> that begins one and has a digit after it.\<close>

function table_ref :: "str \<Rightarrow> str \<Rightarrow> str" where
  "table_ref new [] = []"
| "table_ref new (c # s) = (if take 4 (c # s) = ''.job'' \<and> at_word_end (drop 3 s)
     then new @ table_ref new (drop 3 s) else c # table_ref new s)"
  by pat_completeness auto
termination by (relation "measure (\<lambda>(_, s). length s)") auto

function index_ref :: "str \<Rightarrow> bool \<Rightarrow> str \<Rightarrow> str" where
  "index_ref new in_word [] = []"
| "index_ref new in_word (c # s) = (if \<not> in_word \<and> take 5 (c # s) = ''job_i'' \<and> digit_next (drop 4 s)
     then new @ ''_i'' @ index_ref new True (drop 4 s) else c # index_ref new (sql_char c) s)"
  by pat_completeness auto
termination by (relation "measure (\<lambda>(_, _, s). length s)") auto

definition formatJobTable :: "str \<Rightarrow> str \<Rightarrow> str" where
  "formatJobTable command tbl = index_ref tbl False (table_ref (''.'' @ tbl) command)"

text \<open>\<^verbatim>\<open>format()\<close> with one argument, the directives that occur; another is an error.\<close>

definition ident_char :: "char \<Rightarrow> bool" where
  "ident_char c = (sql_char c \<and> (is_alpha c \<longrightarrow> upper_ascii c \<noteq> c))"

definition plain_ident :: "str \<Rightarrow> bool" where
  "plain_ident t = (t \<noteq> [] \<and> list_all ident_char t \<and> \<not> digit_next t)"

definition dquote :: char where
  "dquote = char_of (34 :: nat)"

definition quote_ident :: "str \<Rightarrow> str" where
  "quote_ident t = (if plain_ident t then t
     else dquote # concat (map (\<lambda>c. if c = dquote then [c, c] else [c]) t) @ [dquote])"

function sql_format :: "str \<Rightarrow> str \<Rightarrow> str option" where
  "sql_format t [] = Some []"
| "sql_format t (c # s) = (if c \<noteq> CHR ''%'' then map_option ((#) c) (sql_format t s)
     else if take 3 s = ''1$I'' then map_option ((@) (quote_ident t)) (sql_format t (drop 3 s))
     else if take 3 s = ''1$s'' then map_option ((@) t) (sql_format t (drop 3 s))
     else if take 1 s = ''%'' then map_option ((#) c) (sql_format t (drop 1 s))
     else None)"
  by pat_completeness auto
termination by (relation "measure (\<lambda>(_, s). length s)") auto

definition job_table_format :: "str \<Rightarrow> str \<Rightarrow> str option" where
  "job_table_format command tbl =
     sql_format tbl (index_ref ''%1$s'' False (table_ref ''.%1$I'' command))"

subsection \<open>The two agree\<close>

lemma ident_sql: "ident_char c \<Longrightarrow> sql_char c"
  by (simp add: ident_char_def)

lemma word_chars [simp]:
  "\<not> sql_char CHR ''.''" "\<not> sql_char CHR ''$''" "\<not> sql_char CHR ''%''" "sql_char CHR ''1''" "sql_char CHR ''I''"
  "\<not> is_num CHR ''.''"
  by code_simp+

lemma index_ref_word: "list_all sql_char u \<Longrightarrow> index_ref new True (u @ v) = u @ (if u = [] then index_ref new True v
    else index_ref new True v)"
  by (induction u) auto

lemma at_word_end_table_ref: "at_word_end s \<Longrightarrow> at_word_end (table_ref (CHR ''.'' # new) s)"
  by (cases s) auto

lemma digit_table_ref [simp]: "digit_next (table_ref (CHR ''.'' # new) s) = digit_next s"
  by (cases s) auto

lemma table_ref_other [simp]: "c \<noteq> CHR ''.'' \<Longrightarrow> table_ref new (c # s) = c # table_ref new s"
  by simp

lemma table_ref_hd: "table_ref (CHR ''.'' # new) s = c # r \<Longrightarrow> c \<noteq> CHR ''.'' \<Longrightarrow>
    \<exists>s'. s = c # s' \<and> r = table_ref (CHR ''.'' # new) s'"
  by (cases s) (auto split: if_splits)

lemma table_ref_index: "take 4 (table_ref (CHR ''.'' # new) s) = ''ob_i'' \<longleftrightarrow> take 4 s = ''ob_i''"
  "take 4 s = ''ob_i'' \<Longrightarrow> drop 4 (table_ref (CHR ''.'' # new) s) = table_ref (CHR ''.'' # new) (drop 4 s)"
proof -
  have split: "take 4 x = ''ob_i'' \<longleftrightarrow> (\<exists>r. x = ''ob_i'' @ r)" for x :: str
  proof
    assume "take 4 x = ''ob_i''"
    hence "x = ''ob_i'' @ drop 4 x" by (metis append_take_drop_id)
    thus "\<exists>r. x = ''ob_i'' @ r" by blast
  qed auto
  show "take 4 (table_ref (CHR ''.'' # new) s) = ''ob_i'' \<longleftrightarrow> take 4 s = ''ob_i''"
    unfolding split by (auto dest!: table_ref_hd table_ref_hd [OF sym])
  show "take 4 s = ''ob_i'' \<Longrightarrow> drop 4 (table_ref (CHR ''.'' # new) s) = table_ref (CHR ''.'' # new) (drop 4 s)"
    unfolding split by auto
qed

text \<open>A job table is the common one or has a hash for its name; after a period neither is taken for an
  index.\<close>

definition is_hex :: "char \<Rightarrow> bool" where
  "is_hex c = (is_num c \<or> c \<in> set ''abcdef'')"

definition job_table :: "str \<Rightarrow> bool" where
  "job_table t = (t = ''job_common'' \<or> (hd t = CHR ''j'' \<and> tl t \<noteq> [] \<and> list_all is_hex (tl t)))"

lemma hex_ident: "is_hex c \<Longrightarrow> ident_char c"
proof -
  assume h: "is_hex c"
  show ?thesis
  proof (cases "is_num c")
    case True
    thus ?thesis by (auto simp: ident_char_def sql_char_def is_alpha_def is_num_def upper_ascii_def Let_def split: if_splits)
  next
    case False
    hence "c \<in> set ''abcdef''" using h by (simp add: is_hex_def)
    moreover have "list_all ident_char ''abcdef''" by code_simp
    ultimately show ?thesis by (auto simp: list_all_iff)
  qed
qed

lemma job_table_cases:
  assumes "job_table t"
  obtains "t = ''job_common''" | c h where "t = CHR ''j'' # c # h" "is_hex c" "list_all is_hex h"
proof (cases "t = ''job_common''")
  case False
  with assms have "hd t = CHR ''j''" "tl t \<noteq> []" "list_all is_hex (tl t)" by (simp_all add: job_table_def)
  thus ?thesis using that(2) by (cases t; cases "tl t") auto
qed

lemma job_table_plain:
  assumes "job_table t"
  shows "plain_ident t"
  using assms
proof (cases rule: job_table_cases)
  case 1
  show ?thesis unfolding 1 by code_simp
next
  case (2 c h)
  have "ident_char CHR ''j''" "\<not> is_num CHR ''j''" by code_simp+
  thus ?thesis using 2 hex_ident by (auto simp: plain_ident_def list_all_iff)
qed

lemma index_ref_table:
  assumes "job_table t"
  shows "index_ref new False (t @ r) = t @ index_ref new True r"
  using assms
proof (cases rule: job_table_cases)
  case 1
  have "list_all sql_char ''ob_common''" by code_simp
  from index_ref_word [OF this, of new r] show ?thesis using 1 by simp
next
  case (2 c h)
  have "c \<noteq> CHR ''o''" using 2(2) by (auto simp: is_hex_def is_num_def)
  moreover have "list_all sql_char (c # h)" using 2 hex_ident ident_sql by (auto simp: list_all_iff)
  moreover have "sql_char CHR ''j''" by code_simp
  ultimately show ?thesis using 2(1) index_ref_word [of "c # h" new r] by simp
qed

lemma index_ref_positional: "index_ref new w (''.%1$I'' @ r) = ''.%1$I'' @ index_ref new True r"
  by simp

lemma formats_agree_gen:
  assumes t: "job_table t"
  shows "CHR ''%'' \<notin> set s \<Longrightarrow> sql_format t (index_ref ''%1$s'' w (table_ref ''.%1$I'' s)) =
    Some (index_ref t w (table_ref (''.'' @ t) s))"
proof (induction s arbitrary: w rule: length_induct)
  case (1 s)
  show ?case
  proof (cases s)
    case (Cons c s')
    show ?thesis
    proof (cases "take 4 (c # s') = ''.job'' \<and> at_word_end (drop 3 s')")
      case True
      have nt: "CHR ''%'' \<notin> set (drop 3 s')" using 1(2) Cons by (auto dest: in_set_dropD)
      have a: "table_ref new (c # s') = new @ table_ref new (drop 3 s')" for new using True by simp
      have q: "quote_ident t = t" using job_table_plain [OF t] by (simp add: quote_ident_def)
      have "sql_format t (''.%1$I'' @ z) = map_option ((@) (''.'' @ t)) (sql_format t z)" for z
        using job_table_plain [OF t] by (cases "sql_format t z") (simp_all add: quote_ident_def)
      moreover have "index_ref t w ((''.'' @ t) @ z) = ''.'' @ t @ index_ref t True z" for z
        using index_ref_table [OF t, of t z] by simp
      ultimately show ?thesis
        using 1(1) nt Cons q unfolding Cons a index_ref_positional by simp
    next
      case False
      have nt: "CHR ''%'' \<notin> set s'" "CHR ''%'' \<notin> set (drop 4 s')" "c \<noteq> CHR ''%''"
        using 1(2) Cons by (auto dest: in_set_dropD)
      have a: "table_ref new (c # s') = c # table_ref new s'" for new using False by auto
      let ?m = "\<not> w \<and> c = CHR ''j'' \<and> take 4 s' = ''ob_i'' \<and> digit_next (drop 4 s')"
      have m: "index_ref n w (c # table_ref (CHR ''.'' # new) s') = (if ?m
          then n @ ''_i'' @ index_ref n True (table_ref (CHR ''.'' # new) (drop 4 s'))
          else c # index_ref n (sql_char c) (table_ref (CHR ''.'' # new) s'))" for n new
        using table_ref_index(1) [of new s'] table_ref_index(2) [of s' new] by (auto simp: numeral_eq_Suc)
      have f: "sql_format t (''%1$s'' @ ''_i'' @ z) = map_option ((@) (t @ ''_i'')) (sql_format t z)" for z
        by (cases "sql_format t z") simp_all
      show ?thesis
      proof (cases ?m)
        case True
        thus ?thesis using 1(1) nt(2) f unfolding Cons a append.simps m by simp
      next
        case no: False
        show ?thesis using 1(1) nt(1,3) unfolding Cons a append.simps m if_not_P [OF no] by simp
      qed
    qed
  qed simp
qed

text \<open>A command queued for a job table is the one a printed script has for it: for every job table and
  every command without a percent sign, the function in the database and the one in JavaScript rewrite it
  to the same text.\<close>

theorem formats_agree:
  assumes "job_table t" "CHR ''%'' \<notin> set command"
  shows "job_table_format command t = Some (formatJobTable command t)"
  unfolding job_table_format_def formatJobTable_def by (rule formats_agree_gen [OF assms])

lemma formats_agree_witness:
  "job_table_format ''CREATE INDEX job_i9 ON job_intake.job (id)'' ''job_common'' =
     Some ''CREATE INDEX job_common_i9 ON job_intake.job_common (id)''"
proof -
  have "job_table ''job_common''" by code_simp
  moreover have "formatJobTable ''CREATE INDEX job_i9 ON job_intake.job (id)'' ''job_common'' =
      ''CREATE INDEX job_common_i9 ON job_intake.job_common (id)''" by code_simp
  ultimately show ?thesis
    using formats_agree [of "''job_common''" "''CREATE INDEX job_i9 ON job_intake.job (id)''"] by simp
qed

section \<open>Background commands of a migration\<close>

record async_record =
  as_name :: str
  as_command :: str
  as_policy :: "str option"
  as_table :: "str option"

datatype async_command = Legacy str | Command async_record

record mpartition =
  mp_table :: str
  mp_policy :: str

text \<open>The literal, then the longest run of a class, then what may follow: the pieces the expressions on the
  old form are made of.\<close>

definition m_literal :: "str \<Rightarrow> matcher" where
  "m_literal w s = (if take (length w) s = w then [drop (length w) s] else [])"

definition unquoted :: "char \<Rightarrow> bool" where
  "unquoted c = (of_char c \<noteq> (39 :: nat))"

definition m_quoted :: matcher where
  "m_quoted s = filter (\<lambda>r. r \<noteq> [] \<and> \<not> unquoted (hd r)) (m_many unquoted s)"

definition m_mark :: matcher where
  "m_mark = m_literal [char_of (39 :: nat)]"

fun up_to :: "str \<Rightarrow> str \<Rightarrow> str option" where
  "up_to stop [] = (if stop = [] then Some [] else None)"
| "up_to stop (c # s) = (if take (length stop) (c # s) = stop then Some [] else map_option ((#) c) (up_to stop s))"

definition m_lazy_body :: "str \<Rightarrow> str option" where
  "m_lazy_body s = (case m_literal ''$$'' s of [] \<Rightarrow> None | r # _ \<Rightarrow> up_to ''$$'' r)"

definition legacy_name :: "str \<Rightarrow> str option" where
  "legacy_name = search (first_capture (m_seq (m_literal ''job_table_run_async('') (m_seq m_spaces m_mark)) m_quoted)"

definition legacy_body :: "str \<Rightarrow> str option" where
  "legacy_body = search m_lazy_body"

definition legacy_table :: "str \<Rightarrow> str option" where
  "legacy_table = search (first_capture (m_seq (m_literal ''$$'') (m_seq m_spaces (m_seq (m_literal '','')
     (m_seq m_spaces m_mark)))) m_quoted)"

text \<open>\<^verbatim>\<open>IF NOT EXISTS\<close> after the first concurrent index build that does not have it.\<close>

definition build_prefix :: "str \<Rightarrow> str option" where
  "build_prefix s = (let is_at = (\<lambda>p. take (length p) s = p \<and> take 1 (drop (length p) s) = '' '' \<and>
       take 14 (drop (length p) s) \<noteq> '' IF NOT EXISTS'')
     in if is_at ''CREATE UNIQUE INDEX CONCURRENTLY'' then Some ''CREATE UNIQUE INDEX CONCURRENTLY''
        else if is_at ''CREATE INDEX CONCURRENTLY'' then Some ''CREATE INDEX CONCURRENTLY'' else None)"

fun reRunnable :: "str \<Rightarrow> str" where
  "reRunnable [] = []"
| "reRunnable (c # s) = (case build_prefix (c # s) of
     Some p \<Rightarrow> p @ '' IF NOT EXISTS '' @ drop (Suc (length p)) (c # s)
   | None \<Rightarrow> c # reRunnable s)"

definition inlined_from :: "str \<Rightarrow> str \<Rightarrow> int \<Rightarrow> str \<Rightarrow> str" where
  "inlined_from schema source version name = ''-- inlined from '' @ schema @ source @ '' (migration v'' @
     show_int version @ '', command: '' @ name @ '')'' @ [CHR 0x0A]"

definition eligible :: "str option \<Rightarrow> mpartition list \<Rightarrow> str list" where
  "eligible pol ps = map mp_table (filter (\<lambda>p. pol = None \<or> pol = Some [] \<or> pol = Some (mp_policy p)) ps)"

definition common_table :: str where
  "common_table = ''job_common''"

fun inlineAsyncCommand :: "str \<Rightarrow> async_command \<Rightarrow> int \<Rightarrow> mpartition list \<Rightarrow> str list option" where
  "inlineAsyncCommand schema (Legacy text) version ps = (case (legacy_name text, legacy_body text) of
     (Some n, Some b) \<Rightarrow> Some (map (\<lambda>tbl. inlined_from schema ''.job_table_run_async'' version n @
         reRunnable (formatJobTable (trim b) tbl))
       (case legacy_table text of Some tbl \<Rightarrow> [tbl] | None \<Rightarrow> common_table # eligible None ps))
   | _ \<Rightarrow> None)"
| "inlineAsyncCommand schema (Command a) version ps = Some (case as_table a of
     Some tbl \<Rightarrow> if tbl \<noteq> [] then [inlined_from schema ''.bam'' version (as_name a) @ reRunnable (trim (as_command a))]
       else map (\<lambda>tbl. inlined_from schema ''.job_table_run_async'' version (as_name a) @
         reRunnable (formatJobTable (trim (as_command a)) tbl)) (common_table # eligible (as_policy a) ps)
   | None \<Rightarrow> map (\<lambda>tbl. inlined_from schema ''.job_table_run_async'' version (as_name a) @
         reRunnable (formatJobTable (trim (as_command a)) tbl)) (common_table # eligible (as_policy a) ps))"

section \<open>Scripts and transactions\<close>

datatype migration_statement =
    Ddl str
  | EnqueueRow str int str str
  | RunAsync str int str "str option"
  | ClearAsync int
  | AssertMigration int
  | SetVersion int

text \<open>Text with each occurrence of a part replaced.\<close>

function replace_all :: "str \<Rightarrow> str \<Rightarrow> str \<Rightarrow> str" where
  "replace_all old new [] = []"
| "replace_all old new (c # s) = (if old \<noteq> [] \<and> take (length old) (c # s) = old
     then new @ replace_all old new (drop (length old) (c # s)) else c # replace_all old new s)"
  by pat_completeness auto
termination
proof (relation "measure (\<lambda>(_, _, s). length s)")
  fix old new :: str and c s
  assume "old \<noteq> [] \<and> take (length old) (c # s) = old"
  thus "((old, new, drop (length old) (c # s)), (old, new, c # s)) \<in> measure (\<lambda>(_, _, s). length s)"
    by (cases old) auto
qed auto

fun renderAsyncCommand :: "async_command \<Rightarrow> int \<Rightarrow> migration_statement" where
  "renderAsyncCommand (Legacy text) version = Ddl (replace_all ''$VERSION$'' (show_int version) text)"
| "renderAsyncCommand (Command a) version = (case as_table a of
     Some tbl \<Rightarrow> if tbl \<noteq> [] then EnqueueRow (as_name a) version tbl (as_command a)
       else RunAsync (as_name a) version (as_command a) (as_policy a)
   | None \<Rightarrow> RunAsync (as_name a) version (as_command a) (as_policy a))"

record mqueue =
  mq_name :: str
  mq_table :: str
  mq_policy :: str
  mq_partition :: bool

text \<open>The database: the version, the queue of background commands, and everything else.  The text of a
  statement may do anything to the latter two; that of a legacy command calls \<^verbatim>\<open>job_table_run_async\<close> itself.\<close>

record 'd mdb =
  md_version :: int
  md_bam :: "bam_row list"
  md_data :: 'd

datatype migrate_error = DivisionByZero | DdlFailed str | BadFormat

record 'd migrate_env =
  me_ddl :: "str \<Rightarrow> 'd \<times> bam_row list \<Rightarrow> migrate_error + ('d \<times> bam_row list)"
  me_queues :: "'d \<Rightarrow> mqueue list"
  me_id :: "bam_row list \<Rightarrow> uuid"
  me_clock :: "bam_row list \<Rightarrow> time"

definition new_bam_row ::
  "'d migrate_env \<Rightarrow> str \<Rightarrow> int \<Rightarrow> str option \<Rightarrow> str \<Rightarrow> str \<Rightarrow> bam_row list \<Rightarrow> bam_row list" where
  "new_bam_row env n version queue tbl command t = t @ [\<lparr>bm_id = me_id env t, bm_name = n, bm_version = version,
     bm_status = BPending, bm_queue = queue, bm_table = tbl, bm_command = command, bm_error = None,
     bm_created_on = me_clock env t, bm_started_on = None, bm_completed_on = None\<rparr>]"

text \<open>\<^verbatim>\<open>job_table_run_async\<close>: the common table and the tables of the partitioned queues, of the policy when
  there is one.\<close>

definition async_targets :: "str option \<Rightarrow> mqueue list \<Rightarrow> (str \<times> str option) list" where
  "async_targets pol qs = (common_table, None) # map (\<lambda>q. (mq_table q, Some (mq_name q)))
     (filter (\<lambda>q. mq_partition q \<and> (pol = None \<or> pol = Some [] \<or> pol = Some (mq_policy q))) qs)"

primrec enqueue_targets ::
  "'d migrate_env \<Rightarrow> str \<Rightarrow> int \<Rightarrow> str \<Rightarrow> (str \<times> str option) list \<Rightarrow> bam_row list \<Rightarrow>
   migrate_error + bam_row list" where
  "enqueue_targets env n version command [] t = Inr t"
| "enqueue_targets env n version command (x # xs) t = (case job_table_format command (fst x) of
     None \<Rightarrow> Inl BadFormat
   | Some c \<Rightarrow> enqueue_targets env n version command xs (new_bam_row env n version (snd x) (fst x) c t))"

fun run_statement :: "'d migrate_env \<Rightarrow> migration_statement \<Rightarrow> 'd mdb \<Rightarrow> migrate_error + 'd mdb" where
  "run_statement env (Ddl text) db =
     and_then (me_ddl env text (md_data db, md_bam db)) (\<lambda>(d, t). Inr (db\<lparr>md_data := d, md_bam := t\<rparr>))"
| "run_statement env (EnqueueRow n version tbl command) db =
     Inr (db\<lparr>md_bam := new_bam_row env n version None tbl command (md_bam db)\<rparr>)"
| "run_statement env (RunAsync n version command pol) db =
     and_then (enqueue_targets env n version command (async_targets pol (me_queues env (md_data db))) (md_bam db))
       (\<lambda>t. Inr (db\<lparr>md_bam := t\<rparr>))"
| "run_statement env (ClearAsync version) db =
     Inr (db\<lparr>md_bam := filter (\<lambda>r. \<not> (bm_version r = version \<and> bm_status r \<noteq> BCompleted)) (md_bam db)\<rparr>)"
| "run_statement env (AssertMigration version) db =
     (if md_version db - version = 0 then Inl DivisionByZero else Inr db)"
| "run_statement env (SetVersion version) db = Inr (db\<lparr>md_version := version\<rparr>)"

primrec run_script :: "'d migrate_env \<Rightarrow> migration_statement list \<Rightarrow> 'd mdb \<Rightarrow> migrate_error + 'd mdb" where
  "run_script env [] db = Inr db"
| "run_script env (s # ss) db = and_then (run_statement env s db) (run_script env ss)"

lemma run_script_append: "run_script env (xs @ ys) db = and_then (run_script env xs db) (run_script env ys)"
proof (induction xs arbitrary: db)
  case (Cons x xs)
  thus ?case by (cases "run_statement env x db") simp_all
qed simp

section \<open>Composing migrations\<close>

record migration =
  mg_version :: int
  mg_previous :: int
  mg_install :: "str list"
  mg_async :: "async_command list option"
  mg_uninstall :: "str list option"

datatype version_error = VersionNotFound int | BelowFloor int "int option" | NoInline

definition flatten :: "migration_statement list \<Rightarrow> int \<Rightarrow> migration_statement list" where
  "flatten commands version = AssertMigration version # commands @ [SetVersion version]"

definition rollback :: "int \<Rightarrow> migration list \<Rightarrow> version_error + migration_statement list" where
  "rollback version ms = (case find (\<lambda>i. mg_version i = version) ms of
     None \<Rightarrow> Inl (VersionNotFound version)
   | Some m \<Rightarrow> Inr (flatten ((if coalesce (mg_async m) [] \<noteq> [] then [ClearAsync (mg_version m)] else []) @
       map Ddl (coalesce (mg_uninstall m) [])) (mg_previous m)))"

definition next_migration :: "int \<Rightarrow> migration list \<Rightarrow> version_error + migration_statement list" where
  "next_migration version ms = (case find (\<lambda>i. mg_previous i = version) ms of
     None \<Rightarrow> Inl (VersionNotFound version)
   | Some m \<Rightarrow> Inr (flatten (map Ddl (mg_install m)) (mg_version m)))"

definition min_previous :: "migration list \<Rightarrow> int" where
  "min_previous ms = foldr min (map mg_previous (tl ms)) (mg_previous (hd ms))"

definition to_apply :: "int \<Rightarrow> migration list \<Rightarrow> migration list" where
  "to_apply version ms = sort_key mg_version (filter (\<lambda>i. mg_previous i \<ge> version) ms)"

definition install_of :: "bool \<Rightarrow> migration \<Rightarrow> migration_statement list" where
  "install_of inlineAsync m = map Ddl (mg_install m) @ (if inlineAsync then []
     else map (\<lambda>c. renderAsyncCommand c (mg_version m)) (coalesce (mg_async m) []))"

definition concurrent_of :: "str \<Rightarrow> mpartition list \<Rightarrow> migration \<Rightarrow> str list option" where
  "concurrent_of schema ps m = map_option concat
     (those (map (\<lambda>c. inlineAsyncCommand schema c (mg_version m) ps) (coalesce (mg_async m) [])))"

definition migrateCommands ::
  "str \<Rightarrow> int \<Rightarrow> migration list \<Rightarrow> bool \<Rightarrow> mpartition list \<Rightarrow>
   version_error + (migration_statement list \<times> str list)" where
  "migrateCommands schema version ms inlineAsync ps = (
     if version \<noteq> 0 \<and> (ms = [] \<or> version < min_previous ms)
     then Inl (BelowFloor version (if ms = [] then None else Some (min_previous ms)))
     else let chosen = to_apply version ms; install = concat (map (install_of inlineAsync) chosen) in
       case (if inlineAsync then map_option concat (those (map (concurrent_of schema ps) chosen)) else Some []) of
         None \<Rightarrow> Inl NoInline
       | Some concurrent \<Rightarrow> if install = [] then Inl (VersionNotFound version)
           else Inr (flatten install (if chosen = [] then version else mg_version (last chosen)), concurrent))"

section \<open>Queued or inlined, the same builds\<close>

lemma async_targets_eligible:
  "map fst (async_targets pol qs) = common_table # eligible pol
     (map (\<lambda>q. \<lparr>mp_table = mq_table q, mp_policy = mq_policy q\<rparr>) (filter mq_partition qs))"
proof -
  have "map mq_table (filter (\<lambda>q. mq_partition q \<and> P (mq_policy q)) qs) =
      map mp_table (filter (\<lambda>p. P (mp_policy p))
        (map (\<lambda>q. \<lparr>mp_table = mq_table q, mp_policy = mq_policy q\<rparr>) (filter mq_partition qs)))" for P
    by (induction qs) auto
  from this [of "\<lambda>p. pol = None \<or> pol = Some [] \<or> pol = Some p"] show ?thesis
    by (simp add: async_targets_def eligible_def comp_def)
qed

lemma enqueue_targets_rows:
  assumes "CHR ''%'' \<notin> set command"
  shows "list_all job_table (map fst xs) \<Longrightarrow> \<exists>rows. enqueue_targets env n version command xs t = Inr (t @ rows) \<and>
    map bm_table rows = map fst xs \<and> map bm_command rows = map (formatJobTable command) (map fst xs) \<and>
    (\<forall>r\<in>set rows. bm_status r = BPending \<and> bm_version r = version)"
proof (induction xs arbitrary: t)
  case (Cons x xs)
  hence "job_table_format command (fst x) = Some (formatJobTable command (fst x))"
    using formats_agree_gen [of "fst x" command False] assms by (simp add: job_table_format_def formatJobTable_def)
  moreover from Cons obtain rows where "enqueue_targets env n version command xs
      (new_bam_row env n version (snd x) (fst x) (formatJobTable command (fst x)) t) =
      Inr (new_bam_row env n version (snd x) (fst x) (formatJobTable command (fst x)) t @ rows)"
      "map bm_table rows = map fst xs" "map bm_command rows = map (formatJobTable command) (map fst xs)"
      "\<forall>r\<in>set rows. bm_status r = BPending \<and> bm_version r = version" by fastforce
  ultimately show ?case
    by (intro exI [of _ "last (new_bam_row env n version (snd x) (fst x) (formatJobTable command (fst x)) t) # rows"])
      (simp add: new_bam_row_def)
qed simp

text \<open>(C29) A printed script builds what a running instance would, given the partitions of its database.  For
  a command in the record form that names no table and has no percent sign, one to run on every job table or
  on those of one policy, and with the metadata of every partition, the statements the script has inlined
  are, table by table and in the same order, the commands that the migration would have queued in that
  database, each as a pending row of its version; the script only adds \<^verbatim>\<open>IF NOT EXISTS\<close> and its provenance.
  Printed without the metadata, as by default, the script has the first of them only, that of \<^verbatim>\<open>job_common\<close>.\<close>

theorem inline_matches_queued:
  assumes "as_table a = None" "CHR ''%'' \<notin> set (as_command a)" "trim (as_command a) = as_command a"
    and "list_all (\<lambda>q. job_table (mq_table q)) (me_queues env (md_data db))"
    and ps: "ps = map (\<lambda>q. \<lparr>mp_table = mq_table q, mp_policy = mq_policy q\<rparr>)
      (filter mq_partition (me_queues env (md_data db)))"
  shows "\<exists>db' rows. run_statement env (renderAsyncCommand (Command a) version) db = Inr db' \<and>
    md_bam db' = md_bam db @ rows \<and> (\<forall>r\<in>set rows. bm_status r = BPending \<and> bm_version r = version) \<and>
    map bm_table rows = common_table # eligible (as_policy a) ps \<and>
    inlineAsyncCommand schema (Command a) version ps = Some (map (\<lambda>r.
      inlined_from schema ''.job_table_run_async'' version (as_name a) @ reRunnable (bm_command r)) rows) \<and>
    inlineAsyncCommand schema (Command a) version [] = Some (map (\<lambda>r.
      inlined_from schema ''.job_table_run_async'' version (as_name a) @ reRunnable (bm_command r)) (take 1 rows))"
proof -
  let ?xs = "async_targets (as_policy a) (me_queues env (md_data db))"
  have fst_xs: "map fst ?xs = common_table # eligible (as_policy a) ps"
    unfolding ps by (rule async_targets_eligible)
  have "job_table common_table" by code_simp
  hence "list_all job_table (map fst ?xs)" using assms(4) by (auto simp: async_targets_def list_all_iff)
  from enqueue_targets_rows [OF assms(2) this, of env "as_name a" version "md_bam db"]
  obtain rows where rows: "enqueue_targets env (as_name a) version (as_command a) ?xs (md_bam db) = Inr (md_bam db @ rows)"
    "map bm_table rows = map fst ?xs" "map bm_command rows = map (formatJobTable (as_command a)) (map fst ?xs)"
    "\<forall>r\<in>set rows. bm_status r = BPending \<and> bm_version r = version" by blast
  let ?f = "\<lambda>c. inlined_from schema ''.job_table_run_async'' version (as_name a) @ reRunnable c"
  have "map (\<lambda>r. ?f (bm_command r)) rows = map ?f (map bm_command rows)" by simp
  also have "\<dots> = map (\<lambda>tbl. ?f (formatJobTable (as_command a) tbl)) (common_table # eligible (as_policy a) ps)"
    unfolding rows(3) fst_xs by simp
  finally have "inlineAsyncCommand schema (Command a) version ps = Some (map (\<lambda>r. ?f (bm_command r)) rows)"
    using assms(1,3) by simp
  moreover have "inlineAsyncCommand schema (Command a) version [] = Some (map (\<lambda>r. ?f (bm_command r)) (take 1 rows))"
  proof -
    have "map (\<lambda>r. ?f (bm_command r)) (take 1 rows) = take 1 (map ?f (map bm_command rows))" by (simp add: take_map comp_def)
    also have "\<dots> = [?f (formatJobTable (as_command a) common_table)]" unfolding rows(3) fst_xs by simp
    finally show ?thesis using assms(1,3) by (simp add: eligible_def)
  qed
  ultimately show ?thesis using rows(1,2,4) fst_xs assms(1) by (intro exI [of _ "db\<lparr>md_bam := md_bam db @ rows\<rparr>"] exI [of _ rows]) simp
qed

section \<open>Any path to a version\<close>

text \<open>A chain of migrations: each starts at the version the one before it reaches.\<close>

fun linked :: "int \<Rightarrow> migration list \<Rightarrow> bool" where
  "linked v [] = True"
| "linked v (m # ms) = (mg_previous m = v \<and> v < mg_version m \<and> linked (mg_version m) ms)"

definition reached :: "int \<Rightarrow> migration list \<Rightarrow> int" where
  "reached v ms = (if ms = [] then v else mg_version (last ms))"

lemma reached_simps [simp]: "reached v [] = v" "reached v (m # ms) = reached (mg_version m) ms"
  by (simp_all add: reached_def)

lemma reached_append: "reached v (xs @ ys) = reached (reached v xs) ys"
  by (induction xs arbitrary: v) simp_all

lemma linked_append: "linked v (xs @ ys) \<longleftrightarrow> linked v xs \<and> linked (reached v xs) ys"
  by (induction xs arbitrary: v) auto

lemma linked_bounds: "linked v ms \<Longrightarrow> m \<in> set ms \<Longrightarrow> v \<le> mg_previous m \<and> mg_previous m < mg_version m"
  by (induction ms arbitrary: v) fastforce+

lemma reached_ge: "linked v ms \<Longrightarrow> v \<le> reached v ms \<and> (ms \<noteq> [] \<longrightarrow> v < reached v ms)"
proof (induction ms arbitrary: v)
  case (Cons m ms)
  from Cons.IH [of "mg_version m"] Cons.prems show ?case by simp
qed simp

lemma linked_reached: "linked v ms \<Longrightarrow> m \<in> set ms \<Longrightarrow> mg_version m \<le> reached v ms"
  using reached_ge by (induction ms arbitrary: v) fastforce+

lemma linked_sorted: "linked v ms \<Longrightarrow> sorted (map mg_version ms)"
proof (induction ms arbitrary: v)
  case (Cons m ms)
  thus ?case using linked_bounds [of "mg_version m" ms] by fastforce
qed simp

lemma to_apply_suffix:
  assumes "linked v (xs @ ys)"
  shows "to_apply (reached v xs) (xs @ ys) = ys"
proof -
  have l: "linked v xs" "linked (reached v xs) ys" using assms by (simp_all add: linked_append)
  have "mg_previous m < reached v xs" if "m \<in> set xs" for m
    using linked_bounds [OF l(1) that] linked_reached [OF l(1) that] by simp
  hence "filter (\<lambda>i. mg_previous i \<ge> reached v xs) xs = []" by (auto simp: filter_empty_conv not_le)
  moreover have "filter (\<lambda>i. mg_previous i \<ge> reached v xs) ys = ys"
    using linked_bounds [OF l(2)] by (intro filter_True) blast
  ultimately show ?thesis using sorted_sort_id [OF linked_sorted [OF l(2)]] by (simp add: to_apply_def sort_key_id_if_sorted linked_sorted [OF l(2)])
qed

lemma min_previous_linked: "linked v (m # ms) \<Longrightarrow> min_previous (m # ms) = v"
proof -
  assume l: "linked v (m # ms)"
  have "foldr min xs v = v" if "\<forall>x\<in>set xs. v \<le> x" for xs :: "int list" using that by (induction xs) auto
  moreover have "\<forall>x\<in>set (map mg_previous ms). v \<le> x" using linked_bounds [OF l] by auto
  ultimately show ?thesis using l by (simp add: min_previous_def)
qed

text \<open>\<^verbatim>\<open>Contractor.migrate\<close> up to what it does with an error.\<close>

definition upgrade ::
  "'d migrate_env \<Rightarrow> str \<Rightarrow> migration list \<Rightarrow> int \<Rightarrow> 'd mdb \<Rightarrow> (version_error + migrate_error) + 'd mdb" where
  "upgrade env schema ms version db = (case migrateCommands schema version ms False [] of
     Inl e \<Rightarrow> Inl (Inl e)
   | Inr (script, _) \<Rightarrow> (case run_script env script db of Inl e \<Rightarrow> Inl (Inr e) | Inr db' \<Rightarrow> Inr db'))"

definition installs :: "migration list \<Rightarrow> migration_statement list" where
  "installs ms = concat (map (install_of False) ms)"

lemma installs_Nil [simp]: "installs [] = []"
  by (simp add: installs_def)

lemma migrateCommands_chain:
  assumes "linked v (xs @ ys)" "installs ys \<noteq> []"
  shows "migrateCommands schema (reached v xs) (xs @ ys) False ps =
    Inr (flatten (installs ys) (reached v (xs @ ys)), [])"
proof -
  have ne: "ys \<noteq> []" using assms(2) by auto
  obtain m ms where m: "xs @ ys = m # ms" using ne by (cases "xs @ ys") auto
  have "min_previous (xs @ ys) = v" using min_previous_linked assms(1) unfolding m by blast
  moreover have "v \<le> reached v xs" using reached_ge assms(1) by (simp add: linked_append)
  moreover have "reached v (xs @ ys) = mg_version (last ys)" using ne by (simp add: reached_append) (simp add: reached_def)
  ultimately show ?thesis using to_apply_suffix [OF assms(1)] assms(2) ne
    by (auto simp: migrateCommands_def Let_def installs_def)
qed

lemma render_kind: "(\<exists>t. renderAsyncCommand c v = Ddl t) \<or> (\<exists>n k tbl d. renderAsyncCommand c v = EnqueueRow n k tbl d) \<or>
    (\<exists>n k d p. renderAsyncCommand c v = RunAsync n k d p)"
  by (cases c) (auto split: option.splits)

lemma installs_ignore_version:
  "s \<in> set (installs ms) \<Longrightarrow> run_statement env s (db\<lparr>md_version := v\<rparr>) =
     and_then (run_statement env s db) (\<lambda>db'. Inr (db'\<lparr>md_version := v\<rparr>))"
proof -
  assume "s \<in> set (installs ms)"
  then obtain m where "s \<in> set (install_of False m)" by (auto simp: installs_def)
  hence "(\<exists>t. s = Ddl t) \<or> (\<exists>c. s = renderAsyncCommand c (mg_version m))"
    by (auto simp: install_of_def)
  hence "(\<exists>t. s = Ddl t) \<or> (\<exists>n k tbl c. s = EnqueueRow n k tbl c) \<or> (\<exists>n k c p. s = RunAsync n k c p)"
    using render_kind [of _ "mg_version m"] by metis
  thus ?thesis by (auto simp: and_then_def split: sum.splits)
qed

lemma script_ignores_version:
  "set ss \<subseteq> set (installs ms) \<Longrightarrow> run_script env ss (db\<lparr>md_version := v\<rparr>) =
     and_then (run_script env ss db) (\<lambda>db'. Inr (db'\<lparr>md_version := v\<rparr>))"
proof (induction ss arbitrary: db)
  case (Cons s ss)
  hence IH: "run_script env ss (d\<lparr>md_version := v\<rparr>) = and_then (run_script env ss d) (\<lambda>db'. Inr (db'\<lparr>md_version := v\<rparr>))"
    for d by simp
  have "s \<in> set (installs ms)" using Cons.prems by simp
  from installs_ignore_version [OF this, of env v db] show ?case by (cases "run_statement env s db") (simp_all add: IH)
qed simp

lemma script_keeps_version:
  "set ss \<subseteq> set (installs ms) \<Longrightarrow> run_script env ss db = Inr db' \<Longrightarrow> md_version db' = md_version db"
proof -
  assume "set ss \<subseteq> set (installs ms)" "run_script env ss db = Inr db'"
  hence "db' = db'\<lparr>md_version := md_version db\<rparr>" using script_ignores_version [of ss ms env "md_version db" db] by simp
  from arg_cong [OF this, of md_version] show ?thesis by simp
qed

lemma upgrade_chain:
  assumes "linked v (xs @ ys)" "installs ys \<noteq> []"
  shows "upgrade env schema (xs @ ys) (reached v xs) db =
    (if md_version db = reached v (xs @ ys) then Inl (Inr DivisionByZero)
     else case run_script env (installs ys) db of Inl e \<Rightarrow> Inl (Inr e)
       | Inr db' \<Rightarrow> Inr (db'\<lparr>md_version := reached v (xs @ ys)\<rparr>))"
  unfolding upgrade_def migrateCommands_chain [OF assms] flatten_def
  by (cases "run_script env (installs ys) db") (auto simp: run_script_append)

text \<open>(C30) Within the migrations of one release every path leads to the same schema.  Upgrading in two steps,
  each of which has a statement to run, runs every statement the direct upgrade runs, in its order, and
  leaves the same database, the queued builds and the version included; where one of them fails the other
  fails alike.  A migration may have nothing to install by itself, as the ones that only concern partitions
  have on a backend without them; an upgrade that had only such ones to run is refused instead.\<close>

theorem upgrade_any_path:
  assumes "linked v (xs @ ys @ zs)" "installs ys \<noteq> []" "installs zs \<noteq> []" "md_version db = reached v xs"
  shows "upgrade env schema (xs @ ys @ zs) (md_version db) db =
    and_then (upgrade env schema (xs @ ys) (md_version db) db)
      (\<lambda>db'. upgrade env schema (xs @ ys @ zs) (md_version db') db')"
proof -
  have ne: "ys \<noteq> []" "zs \<noteq> []" using assms(2,3) by auto
  have l: "linked v (xs @ ys)" "linked (reached v xs) ys" "linked (reached v (xs @ ys)) zs"
    using assms(1) by (simp_all add: linked_append reached_def split: if_splits)
  let ?a = "reached v xs" and ?b = "reached v (xs @ ys)" and ?c = "reached v (xs @ ys @ zs)"
  have lt: "?a < ?b" "?b < ?c"
    using reached_ge [OF l(2)] reached_ge [OF l(3)] ne by (auto simp: reached_def split: if_splits)
  have direct: "upgrade env schema (xs @ ys @ zs) ?a db = (case run_script env (installs (ys @ zs)) db of
      Inl e \<Rightarrow> Inl (Inr e) | Inr db' \<Rightarrow> Inr (db'\<lparr>md_version := ?c\<rparr>))"
    using upgrade_chain [of v xs "ys @ zs" env schema db] assms(1,2,4) lt by (simp add: installs_def)
  have first: "upgrade env schema (xs @ ys) ?a db = (case run_script env (installs ys) db of
      Inl e \<Rightarrow> Inl (Inr e) | Inr db' \<Rightarrow> Inr (db'\<lparr>md_version := ?b\<rparr>))"
    using upgrade_chain [OF l(1) assms(2), of env schema db] assms(4) lt by simp
  have second: "upgrade env schema (xs @ ys @ zs) ?b (d\<lparr>md_version := ?b\<rparr>) =
      (case run_script env (installs zs) d of Inl e \<Rightarrow> Inl (Inr e) | Inr db' \<Rightarrow> Inr (db'\<lparr>md_version := ?c\<rparr>))" for d
    using upgrade_chain [of v "xs @ ys" zs env schema "d\<lparr>md_version := ?b\<rparr>"] assms(1,3) lt
      script_ignores_version [of "installs zs" zs env ?b d]
    by (cases "run_script env (installs zs) d") auto
  have "installs (ys @ zs) = installs ys @ installs zs" by (simp add: installs_def)
  thus ?thesis unfolding assms(4) direct first
    by (cases "run_script env (installs ys) db") (simp_all add: run_script_append second)
qed

section \<open>Starting\<close>

text \<open>\<^verbatim>\<open>Contractor.start()\<close> between its statements: whether it is installed, which version, and then the
  install or the migration.  The install of a release gives its own schema; where there is one already it
  raises, as another instance's would.  The probe for a schema whose name differs in case is left out: it
  only refuses an install.\<close>

datatype start_failure = NoScript version_error | FailedSql migrate_error

datatype start_point = SFresh | SInstalled | SMissing | SMigrate int | SDone | SFailed start_failure

record 'd release =
  rl_version :: int
  rl_migrations :: "migration list"
  rl_created :: "'d mdb"

record 'd boss_instance =
  bi_release :: "'d release"
  bi_point :: start_point

type_synonym 'd start_world = "'d mdb option \<times> 'd boss_instance list"

fun text_includes :: "str \<Rightarrow> str \<Rightarrow> bool" where
  "text_includes p [] = (p = [])"
| "text_includes p (c # s) = (take (length p) (c # s) = p \<or> text_includes p s)"

definition MIGRATE_RACE_MESSAGE :: str where
  "MIGRATE_RACE_MESSAGE = ''division by zero''"

fun error_message :: "migrate_error \<Rightarrow> str" where
  "error_message DivisionByZero = ''division by zero''"
| "error_message (DdlFailed text) = text"
| "error_message BadFormat = ''unrecognized format() type specifier''"

text \<open>\<^verbatim>\<open>migrate()\<close> takes the error of a lost race for a success.\<close>

definition migrate_instance ::
  "'d migrate_env \<Rightarrow> str \<Rightarrow> 'd release \<Rightarrow> int \<Rightarrow> 'd mdb \<Rightarrow> 'd mdb \<times> start_point" where
  "migrate_instance env schema rl version db = (case upgrade env schema (rl_migrations rl) version db of
     Inr db' \<Rightarrow> (db', SDone)
   | Inl (Inl e) \<Rightarrow> (db, SFailed (NoScript e))
   | Inl (Inr e) \<Rightarrow> (db, if text_includes MIGRATE_RACE_MESSAGE (error_message e) then SDone else SFailed (FailedSql e)))"

definition start_step :: "'d migrate_env \<Rightarrow> str \<Rightarrow> 'd mdb option \<Rightarrow> 'd boss_instance \<Rightarrow> 'd mdb option \<times> start_point" where
  "start_step env schema db b = (case bi_point b of
     SFresh \<Rightarrow> (db, if db = None then SMissing else SInstalled)
   | SInstalled \<Rightarrow> (case db of None \<Rightarrow> (db, SInstalled)
       | Some d \<Rightarrow> (db, if rl_version (bi_release b) > md_version d then SMigrate (md_version d) else SDone))
   | SMissing \<Rightarrow> (Some (case db of None \<Rightarrow> rl_created (bi_release b) | Some d \<Rightarrow> d), SDone)
   | SMigrate v \<Rightarrow> (case db of None \<Rightarrow> (db, SMigrate v)
       | Some d \<Rightarrow> (case migrate_instance env schema (bi_release b) v d of (d', p) \<Rightarrow> (Some d', p)))
   | p \<Rightarrow> (db, p))"

definition start_turn :: "'d migrate_env \<Rightarrow> str \<Rightarrow> nat \<Rightarrow> 'd start_world \<Rightarrow> 'd start_world" where
  "start_turn env schema i w = (case w of (db, bs) \<Rightarrow> if i < length bs
     then (case start_step env schema db (bs ! i) of (db', p) \<Rightarrow> (db', bs[i := (bs ! i)\<lparr>bi_point := p\<rparr>]))
     else w)"

definition start_run :: "'d migrate_env \<Rightarrow> str \<Rightarrow> nat list \<Rightarrow> 'd start_world \<Rightarrow> 'd start_world" where
  "start_run env schema turns w = fold (start_turn env schema) turns w"

text \<open>The statements an instance still has before it.\<close>

fun turns_left :: "start_point \<Rightarrow> nat" where
  "turns_left SFresh = 3"
| "turns_left SInstalled = 2"
| "turns_left SMissing = 1"
| "turns_left (SMigrate v) = 1"
| "turns_left SDone = 0"
| "turns_left (SFailed e) = 0"

definition start_inv :: "'d mdb option \<Rightarrow> 'd mdb \<Rightarrow> 'd release \<Rightarrow> nat list \<Rightarrow> 'd start_world \<Rightarrow> bool" where
  "start_inv before fin rl turns w = (case w of (db, bs) \<Rightarrow> (db = before \<or> db = Some fin) \<and>
     (\<forall>i<length bs. bi_release (bs ! i) = rl \<and> turns_left (bi_point (bs ! i)) \<le> 3 - count_list turns i \<and>
       (case bi_point (bs ! i) of SFresh \<Rightarrow> True | SInstalled \<Rightarrow> db \<noteq> None | SMissing \<Rightarrow> before = None
        | SMigrate v \<Rightarrow> (\<exists>d. before = Some d \<and> md_version d = v \<and> v < rl_version rl)
        | SDone \<Rightarrow> db = Some fin | SFailed e \<Rightarrow> False)))"

text \<open>What a start must end with: the created schema, the one there was, or the upgraded one.\<close>

definition start_goal ::
  "'d migrate_env \<Rightarrow> str \<Rightarrow> 'd release \<Rightarrow> 'd mdb option \<Rightarrow> 'd mdb \<Rightarrow> bool" where
  "start_goal env schema rl before fin = (md_version fin = rl_version rl \<and> (case before of
     None \<Rightarrow> fin = rl_created rl
   | Some d \<Rightarrow> if md_version d < rl_version rl
       then upgrade env schema (rl_migrations rl) (md_version d) d = Inr fin else fin = d))"

lemma upgrade_lost_race:
  assumes "upgrade env schema ms v d = Inr fin"
  shows "upgrade env schema ms v fin = Inl (Inr DivisionByZero)"
proof -
  obtain script c where s: "migrateCommands schema v ms False [] = Inr (script, c)" "run_script env script d = Inr fin"
    using assms by (auto simp: upgrade_def split: sum.splits)
  obtain install k where f: "script = flatten install k"
    using s(1) by (auto simp: migrateCommands_def Let_def split: if_splits)
  have "md_version fin = k" using s(2) unfolding f flatten_def
    by (auto simp: run_script_append and_then_Inr_iff split: if_splits)
  thus ?thesis by (simp add: upgrade_def s(1) f flatten_def)
qed

lemma race_message: "text_includes MIGRATE_RACE_MESSAGE (error_message DivisionByZero)"
  by code_simp

lemma start_inv_turn:
  assumes goal: "start_goal env schema rl before fin" and inv: "start_inv before fin rl turns w"
  shows "start_inv before fin rl (i # turns) (start_turn env schema i w)"
proof -
  obtain db bs where w: "w = (db, bs)" by (cases w)
  show ?thesis
  proof (cases "i < length bs")
    case False
    thus ?thesis using inv by (auto simp: start_inv_def start_turn_def w)
  next
    case True
    obtain db' p where st: "start_step env schema db (bs ! i) = (db', p)" by (metis surj_pair)
    have db: "db = before \<or> db = Some fin" and rl: "bi_release (bs ! i) = rl"
      and left: "turns_left (bi_point (bs ! i)) \<le> 3 - count_list turns i"
      and pt: "case bi_point (bs ! i) of SFresh \<Rightarrow> True | SInstalled \<Rightarrow> db \<noteq> None | SMissing \<Rightarrow> before = None
        | SMigrate v \<Rightarrow> (\<exists>d. before = Some d \<and> md_version d = v \<and> v < rl_version rl)
        | SDone \<Rightarrow> db = Some fin | SFailed e \<Rightarrow> False"
      using inv True by (auto simp: start_inv_def w)
    have step: "(db' = before \<or> db' = Some fin) \<and> (db = Some fin \<longrightarrow> db' = Some fin) \<and> (db \<noteq> None \<longrightarrow> db' \<noteq> None) \<and>
      turns_left p \<le> turns_left (bi_point (bs ! i)) - 1 \<and>
      (case p of SFresh \<Rightarrow> True | SInstalled \<Rightarrow> db' \<noteq> None | SMissing \<Rightarrow> before = None
        | SMigrate v \<Rightarrow> (\<exists>d. before = Some d \<and> md_version d = v \<and> v < rl_version rl)
        | SDone \<Rightarrow> db' = Some fin | SFailed e \<Rightarrow> False)"
    proof (cases "bi_point (bs ! i)")
      case (SMigrate v)
      then obtain d where d: "before = Some d" "md_version d = v" "v < rl_version rl" using pt by auto
      hence up: "upgrade env schema (rl_migrations rl) v d = Inr fin" using goal by (simp add: start_goal_def)
      have "migrate_instance env schema rl v d = (fin, SDone)" "migrate_instance env schema rl v fin = (fin, SDone)"
        using up upgrade_lost_race [OF up] race_message by (simp_all add: migrate_instance_def)
      thus ?thesis using st db d(1) rl SMigrate by (auto simp: start_step_def)
    next
      case SFresh
      thus ?thesis using st db rl pt goal by (auto simp: start_step_def start_goal_def split: option.splits if_splits)
    next
      case SInstalled
      thus ?thesis using st db rl pt goal by (auto simp: start_step_def start_goal_def split: option.splits if_splits)
    next
      case SMissing
      thus ?thesis using st db rl pt goal by (auto simp: start_step_def start_goal_def split: option.splits if_splits)
    next
      case SDone
      thus ?thesis using st db rl pt goal by (auto simp: start_step_def start_goal_def split: option.splits if_splits)
    next
      case (SFailed e)
      thus ?thesis using pt by simp
    qed
    have cnt: "count_list (i # turns) j = count_list turns j + (if j = i then 1 else 0)" for j by simp
    have turn: "start_turn env schema i w = (db', bs[i := (bs ! i)\<lparr>bi_point := p\<rparr>])"
      using True st by (simp add: start_turn_def w)
    have "turns_left p \<le> turns_left (bi_point (bs ! i)) - 1" using step by blast
    hence tp: "turns_left p \<le> 3 - count_list (i # turns) i" using left unfolding cnt by simp
    have "bi_release (bs[i := (bs ! i)\<lparr>bi_point := p\<rparr>] ! k) = rl \<and>
       turns_left (bi_point (bs[i := (bs ! i)\<lparr>bi_point := p\<rparr>] ! k)) \<le> 3 - count_list (i # turns) k \<and>
       (case bi_point (bs[i := (bs ! i)\<lparr>bi_point := p\<rparr>] ! k) of SFresh \<Rightarrow> True | SInstalled \<Rightarrow> db' \<noteq> None
        | SMissing \<Rightarrow> before = None | SMigrate v \<Rightarrow> (\<exists>d. before = Some d \<and> md_version d = v \<and> v < rl_version rl)
        | SDone \<Rightarrow> db' = Some fin | SFailed e \<Rightarrow> False)" if k: "k < length bs" for k
    proof (cases "k = i")
      case True
      thus ?thesis using step tp rl k by simp
    next
      case False
      have "bi_release (bs ! k) = rl" "turns_left (bi_point (bs ! k)) \<le> 3 - count_list turns k"
        "case bi_point (bs ! k) of SFresh \<Rightarrow> True | SInstalled \<Rightarrow> db \<noteq> None | SMissing \<Rightarrow> before = None
          | SMigrate v \<Rightarrow> (\<exists>d. before = Some d \<and> md_version d = v \<and> v < rl_version rl)
          | SDone \<Rightarrow> db = Some fin | SFailed e \<Rightarrow> False"
        using inv k by (simp_all add: start_inv_def w)
      moreover have "db = Some fin \<longrightarrow> db' = Some fin" "db \<noteq> None \<longrightarrow> db' \<noteq> None" using step by blast+
      ultimately show ?thesis using False by (cases "bi_point (bs ! k)") auto
    qed
    thus ?thesis unfolding turn using step by (simp add: start_inv_def)
  qed
qed

lemma start_inv_run:
  assumes "start_goal env schema rl before fin"
  shows "start_inv before fin rl past w \<Longrightarrow> start_inv before fin rl (rev turns @ past) (start_run env schema turns w)"
proof (induction turns arbitrary: past w)
  case (Cons i turns)
  from Cons.IH [OF start_inv_turn [OF assms Cons.prems]] show ?case by (simp add: start_run_def)
qed (simp add: start_run_def)

lemma start_inv_fresh:
  "start_inv before fin rl [] (before, replicate n \<lparr>bi_release = rl, bi_point = SFresh\<rparr>)"
  by (simp add: start_inv_def)

text \<open>(C31) However the starts of one release interleave, the schema ends where one start alone would have
  left it: created once, or upgraded once, or as it was.  At every moment it is as before or there; an
  instance that is done found it there, none fails, and an instance is done after three of its own
  statements.\<close>

theorem concurrent_starts_agree:
  assumes "start_goal env schema rl before fin"
    and "start_run env schema turns (before, replicate n \<lparr>bi_release = rl, bi_point = SFresh\<rparr>) = (db, bs)"
  shows "(db = before \<or> db = Some fin) \<and> (\<forall>b\<in>set bs. case bi_point b of SDone \<Rightarrow> db = Some fin
      | SFailed e \<Rightarrow> False | _ \<Rightarrow> True) \<and>
    (\<forall>i<length bs. count_list turns i \<ge> 3 \<longrightarrow> bi_point (bs ! i) = SDone)"
proof -
  have inv: "start_inv before fin rl (rev turns) (db, bs)"
    using start_inv_run [OF assms(1) start_inv_fresh, of turns n] assms(2) by simp
  have "bi_point (bs ! i) = SDone" if i: "i < length bs" "count_list turns i \<ge> 3" for i
  proof -
    have "turns_left (bi_point (bs ! i)) = 0" using inv i by (auto simp: start_inv_def)
    thus ?thesis using inv i(1) by (cases "bi_point (bs ! i)") (fastforce simp: start_inv_def)+
  qed
  moreover have "case bi_point b of SDone \<Rightarrow> db = Some fin | SFailed e \<Rightarrow> False | _ \<Rightarrow> True" if "b \<in> set bs" for b
    using inv that by (fastforce simp: start_inv_def in_set_conv_nth split: start_point.splits)
  ultimately show ?thesis using inv by (auto simp: start_inv_def)
qed

section \<open>Samples\<close>

text \<open>A database that records the statements it ran.\<close>

definition log_env :: "str list migrate_env" where
  "log_env = \<lparr>me_ddl = (\<lambda>text (d, t). if text = ''fail'' then Inl (DdlFailed ''syntax error'') else Inr (d @ [text], t)),
     me_queues = (\<lambda>_. [\<lparr>mq_name = ''p'', mq_table = ''j12ab'', mq_policy = ''short'', mq_partition = True\<rparr>,
       \<lparr>mq_name = ''q'', mq_table = ''job_common'', mq_policy = ''short'', mq_partition = False\<rparr>]),
     me_id = length, me_clock = (\<lambda>t. int (length t))\<rparr>"

definition build_i9 :: async_record where
  "build_i9 = \<lparr>as_name = ''flow'', as_command = ''CREATE INDEX CONCURRENTLY job_i9 ON s.job (id)'', as_policy = None,
     as_table = None\<rparr>"

definition to_44 :: migration where
  "to_44 = \<lparr>mg_version = 44, mg_previous = 43, mg_install = [''create_queue of 44''],
     mg_async = Some [Command build_i9], mg_uninstall = None\<rparr>"

definition to_45 :: migration where
  "to_45 = \<lparr>mg_version = 45, mg_previous = 44, mg_install = [''create_queue of 45''], mg_async = None,
     mg_uninstall = None\<rparr>"

definition at_43 :: "str list mdb" where
  "at_43 = \<lparr>md_version = 43, md_bam = [], md_data = [''create_queue of 43'']\<rparr>"

definition release_44 :: "str list release" where
  "release_44 = \<lparr>rl_version = 44, rl_migrations = [to_44], rl_created = at_43\<lparr>md_version := 44\<rparr>\<rparr>"

definition release_45 :: "str list release" where
  "release_45 = \<lparr>rl_version = 45, rl_migrations = [to_44, to_45], rl_created = at_43\<lparr>md_version := 45\<rparr>\<rparr>"

lemma inline_matches_queued_witness:
  "\<exists>db' rows. run_statement log_env (renderAsyncCommand (Command build_i9) 33) at_43 = Inr db' \<and>
     md_bam db' = rows \<and> map bm_table rows = [''job_common'', ''j12ab''] \<and>
     inlineAsyncCommand ''s'' (Command build_i9) 33 [\<lparr>mp_table = ''j12ab'', mp_policy = ''short''\<rparr>] = Some (map (\<lambda>r.
       inlined_from ''s'' ''.job_table_run_async'' 33 ''flow'' @ reRunnable (bm_command r)) rows)"
proof -
  have h: "as_table build_i9 = None" "CHR ''%'' \<notin> set (as_command build_i9)"
    "trim (as_command build_i9) = as_command build_i9"
    "list_all (\<lambda>q. job_table (mq_table q)) (me_queues log_env (md_data at_43))"
    "[\<lparr>mp_table = ''j12ab'', mp_policy = ''short''\<rparr>] = map (\<lambda>q. \<lparr>mp_table = mq_table q, mp_policy = mq_policy q\<rparr>)
      (filter mq_partition (me_queues log_env (md_data at_43)))" by code_simp+
  have e: "as_name build_i9 = ''flow''" "md_bam at_43 = []"
    "common_table # eligible (as_policy build_i9) [\<lparr>mp_table = ''j12ab'', mp_policy = ''short''\<rparr>] = [''job_common'', ''j12ab'']"
    by code_simp+
  show ?thesis using inline_matches_queued [OF h(1-4) h(5), of 33 "''s''"] unfolding e by auto
qed

lemma upgrade_any_path_witness:
  "upgrade log_env ''s'' [to_44, to_45] 43 at_43 =
     and_then (upgrade log_env ''s'' [to_44] 43 at_43) (\<lambda>db. upgrade log_env ''s'' [to_44, to_45] (md_version db) db)"
proof -
  have l: "linked 43 ([] @ [to_44] @ [to_45])" and v: "md_version at_43 = 43"
    and i: "installs [to_44] \<noteq> []" "installs [to_45] \<noteq> []" by code_simp+
  have "md_version at_43 = reached 43 []" using v by simp
  from upgrade_any_path [OF l i this, of log_env "''s''"] show ?thesis by (simp add: v)
qed

definition two_starts :: "nat list" where
  "two_starts = [0, 1, 0, 1, 1, 0]"

definition upgraded_44 :: "str list mdb" where
  "upgraded_44 = (case upgrade log_env ''s'' [to_44] 43 at_43 of Inr db \<Rightarrow> db | Inl e \<Rightarrow> at_43)"

lemma concurrent_starts_agree_witness:
  "\<exists>db bs. start_run log_env ''s'' two_starts
       (Some at_43, replicate 2 \<lparr>bi_release = release_44, bi_point = SFresh\<rparr>) = (db, bs) \<and>
     db \<in> {Some at_43, Some upgraded_44} \<and> (\<forall>i<length bs. i < 2 \<longrightarrow> bi_point (bs ! i) = SDone)"
proof -
  obtain db bs where r: "start_run log_env ''s'' two_starts
      (Some at_43, replicate 2 \<lparr>bi_release = release_44, bi_point = SFresh\<rparr>) = (db, bs)" by (metis surj_pair)
  have "case upgrade log_env ''s'' [to_44] 43 at_43 of Inr db \<Rightarrow> md_version db = 44 | Inl e \<Rightarrow> False" by code_simp
  hence "upgrade log_env ''s'' [to_44] 43 at_43 = Inr upgraded_44" "md_version upgraded_44 = 44"
    by (auto simp: upgraded_44_def split: sum.splits)
  hence goal: "start_goal log_env ''s'' release_44 (Some at_43) upgraded_44"
    by (simp add: start_goal_def release_44_def at_43_def)
  have "count_list two_starts i \<ge> 3" if "i < 2" for i
    using that by (cases i) (auto simp: two_starts_def less_Suc_eq)
  thus ?thesis using r concurrent_starts_agree [OF goal r] by auto
qed

text \<open>Two releases start together; the older one read the version first and migrates last.\<close>

definition mixed_turns :: "nat list" where
  "mixed_turns = [0, 0, 1, 1, 1, 0]"

text \<open>(C32) The guard of a migration refuses only its own target, so an older release can undo the version of a
  newer one.  Let two releases start together, the older read the version first, and the newer finish its
  upgrade before the older migrates.  Whatever their migrations do, if the older one's statements run over
  the newer schema, the starts end without an error in a database with those statements run once more and
  the older version stamped on it.\<close>

theorem older_release_downgrades:
  assumes "linked v (xs @ ys)" "installs ys \<noteq> []" "rl_migrations rl_old = xs @ ys" "rl_version rl_old = reached v (xs @ ys)"
    and "md_version d = reached v xs" "rl_version rl_old < rl_version rl_new"
    and "upgrade env schema (rl_migrations rl_new) (md_version d) d = Inr d1" "md_version d1 = rl_version rl_new"
    and "run_script env (installs ys) d1 = Inr d2"
  shows "start_run env schema mixed_turns (Some d, [\<lparr>bi_release = rl_old, bi_point = SFresh\<rparr>,
      \<lparr>bi_release = rl_new, bi_point = SFresh\<rparr>]) =
    (Some (d2\<lparr>md_version := rl_version rl_old\<rparr>), [\<lparr>bi_release = rl_old, bi_point = SDone\<rparr>,
      \<lparr>bi_release = rl_new, bi_point = SDone\<rparr>])"
proof -
  have "ys \<noteq> []" using assms(2) by auto
  hence lt: "md_version d < rl_version rl_old"
    using reached_ge [of "reached v xs" ys] assms(1,4,5) by (simp add: linked_append reached_append)
  have late: "upgrade env schema (rl_migrations rl_old) (md_version d) d1 = Inr (d2\<lparr>md_version := rl_version rl_old\<rparr>)"
    using upgrade_chain [OF assms(1,2), of env schema d1] assms(3-6,8,9) by simp
  show ?thesis
    using lt assms(6,7) late
    by (simp add: mixed_turns_def start_run_def start_turn_def start_step_def migrate_instance_def)
qed

lemma older_release_downgrades_witness:
  "\<exists>db. start_run log_env ''s'' mixed_turns (Some at_43, [\<lparr>bi_release = release_44, bi_point = SFresh\<rparr>,
       \<lparr>bi_release = release_45, bi_point = SFresh\<rparr>]) = (Some db, [\<lparr>bi_release = release_44, bi_point = SDone\<rparr>,
       \<lparr>bi_release = release_45, bi_point = SDone\<rparr>]) \<and> md_version db = 44"
proof -
  have pre: "linked 43 ([] @ [to_44])" "installs [to_44] \<noteq> []" "rl_migrations release_44 = [] @ [to_44]"
    "rl_version release_44 = reached 43 ([] @ [to_44])" "md_version at_43 = reached 43 []"
    "rl_version release_44 < rl_version release_45" by code_simp+
  have "case upgrade log_env ''s'' (rl_migrations release_45) (md_version at_43) at_43 of Inl e \<Rightarrow> False
    | Inr d1 \<Rightarrow> md_version d1 = rl_version release_45 \<and>
        (case run_script log_env (installs [to_44]) d1 of Inl e \<Rightarrow> False | Inr d2 \<Rightarrow> True)" by code_simp
  then obtain d1 d2 where "upgrade log_env ''s'' (rl_migrations release_45) (md_version at_43) at_43 = Inr d1"
    "md_version d1 = rl_version release_45" "run_script log_env (installs [to_44]) d1 = Inr d2"
    by (auto split: sum.splits)
  from older_release_downgrades [OF pre this] show ?thesis by (simp add: release_44_def)
qed

end
