(* ===== verification/Spec2Isabelle.thy ===== *)
theory Spec2Isabelle
  imports Maintenance Redrive Attorney Worker Delivery Batch Migrate
begin

text \<open>
  \<^bold>\<open>pg-boss\<close>, a job queue on PostgreSQL (\<^verbatim>\<open>src/src/\<close>).

  A caller sends jobs to named queues, workers fetch and settle them, and timers in every instance
  expire, retry, sweep and schedule them.  The state is the tables of one schema; the program is the SQL
  that \<^verbatim>\<open>plans.ts\<close> builds and the classes that decide which statement runs with which values.  All
  instances share the tables and nothing else, so what holds between them holds through the statements.

  \<^bold>\<open>The model.\<close>
  A table is the list of its rows; a statement is a function from the rows, with the error PostgreSQL
  would raise as the left of a sum.  Statements of one transaction are composed in their order.  A
  timestamp is an integer in microseconds, as stored; an instant in JavaScript is in milliseconds.  The
  unique indexes and the check constraint of the job table are the predicate \<^verbatim>\<open>table_ok\<close>: an insert or
  update that would break it fails, an \<^verbatim>\<open>ON CONFLICT DO NOTHING\<close> skips.  What is not the program's is
  a parameter: the clock, new ids, \<^verbatim>\<open>random()\<close>, the rows another session has locked, the casts of a
  text to a timestamp or an interval (\<^verbatim>\<open>casts\<close>), the packages \<^verbatim>\<open>cron-parser\<close> and
  \<^verbatim>\<open>rrule-temporal\<close> (\<^verbatim>\<open>cron_lib\<close>, \<^verbatim>\<open>rrule_lib\<close>), the coercions of JavaScript
  (\<^verbatim>\<open>js_lang\<close>).  Text is Latin-1.

  \<^bold>\<open>The theories and the code.\<close>
  \<^item> \<open>Prelude\<close>: results, JSON, \<^verbatim>\<open>COALESCE\<close>, updates of the rows that satisfy a predicate.
  \<^item> \<open>JobTable\<close>: the rows of \<^verbatim>\<open>job\<close> and \<^verbatim>\<open>queue\<close>, the states in their order, the policies,
    one definition per unique index (\<^verbatim>\<open>job_i1\<close> to \<^verbatim>\<open>job_i13\<close>).  \<open>Statements\<close>: insert,
    update, delete and skip on such a table; the locale \<^verbatim>\<open>settling\<close> is the contract of an update
    that only gives index entries up, which every settle, edit and claim interprets.
  \<^item> \<open>Fetch\<close>, \<open>Fetch_Props\<close>: \<^verbatim>\<open>fetchNextJob\<close> with every option: policies, groups and tiers,
    strict FIFO heads, priorities, locked rows.
  \<^item> \<open>Settle\<close>, \<open>Settle_Props\<close>: \<^verbatim>\<open>complete\<close>, \<^verbatim>\<open>cancel\<close>, \<^verbatim>\<open>touch\<close>,
    \<^verbatim>\<open>resume\<close>, \<^verbatim>\<open>retry\<close>, \<^verbatim>\<open>restore\<close>, \<^verbatim>\<open>deleteJob\<close>, the attempt fence and the
    retained count.
  \<^item> \<open>Fail\<close>, \<open>Fail_Props\<close>: the chain of \<^verbatim>\<open>failJobsBody\<close>, retries and their delay, the dead
    letter copy, the expiry sweeps, and the distributed form of a backend without multi-mutation
    statements.
  \<^item> \<open>Insert\<close>, \<open>Insert_Props\<close>: \<^verbatim>\<open>insertJobs\<close>, throttle slots, \<^verbatim>\<open>send\<close> with debounce,
    \<^verbatim>\<open>insert\<close>, \<^verbatim>\<open>updateJob\<close>, \<^verbatim>\<open>update\<close>, \<^verbatim>\<open>upsert\<close>.
  \<^item> \<open>FlowCheck\<close>, \<open>Flow\<close>, \<open>Flow_Props\<close>: \<^verbatim>\<open>validateFlowJobs\<close> with the topological sort and
    the cycle search, the insert of a flow and of its dependency rows, and the resolver of
    \<^verbatim>\<open>navigator.ts\<close> that releases children, in both forms.
  \<^item> \<open>Claims\<close>: the interval claims on the \<^verbatim>\<open>version\<close> and \<^verbatim>\<open>queue\<close> rows, which elect the
    instance that runs a pass, and the state machine of \<^verbatim>\<open>claimTimer.ts\<close>.
  \<^item> \<open>Walk\<close>: the keyset walk in batches that every bulk delete and cleanup is.
    \<open>Queues\<close>: creating, updating and deleting queues, and the bulk deletes.
    \<open>Maintenance\<close>: the retention sweep, the dependency cleanup and the expiry sweeps of
    \<^verbatim>\<open>boss.ts\<close>.  \<open>Redrive\<close>: moving dead letter jobs back, in both forms, and its preview.
  \<^item> \<open>Rrule\<close>: \<^verbatim>\<open>rrule.ts\<close>.  \<open>Dates\<close>: the calendar behind \<^verbatim>\<open>toISOString\<close> and the throttle
    slot's text.  \<open>Schedule\<close>, \<open>Schedule_Props\<close>: \<^verbatim>\<open>timekeeper.ts\<close>: the schedule table, what a
    cron pass finds due and missed, the jobs it files and what their handler records.
  \<^item> \<open>Attorney\<close>: \<^verbatim>\<open>attorney.ts\<close>: the checks and defaults on calls, names and configuration, and the
    call of \<^verbatim>\<open>schedule()\<close>.
  \<^item> \<open>Worker\<close>: \<^verbatim>\<open>worker.ts\<close>, the polling loop as a state machine, and the pool of workers of an instance.
    \<open>Delivery\<close>: what surrounds the claim of a fetch in \<^verbatim>\<open>manager.ts\<close>: the count of a group after it,
    the give-back, and the local group limits with the batches that hold their slots.  \<open>Batch\<close>:
    \<^verbatim>\<open>#processJobs\<close>: the transaction a handler may run in, with its savepoints and errors, interleaved with
    what others commit, the settles per job, and the heartbeat.
  \<^item> \<open>Bam\<close>: \<^verbatim>\<open>bam.ts\<close>: the queue of background migration commands, its claim, and many runners that
    take commands from it, crash and stop, as a step relation.
  \<^item> \<open>Migrate\<close>: the engine of \<^verbatim>\<open>migrationStore.ts\<close>, which turns migrations into scripts and background
    commands, and the start of \<^verbatim>\<open>contractor.ts\<close>, interleaved over many instances.

  A definition has the name of the function it models where Isabelle allows it.

  \<^bold>\<open>What is shown.\<close>
  \<^item> Fetching: a fetch of a queue whose jobs carry its policy and no empty singleton key cannot fail on an
    index, hands out only what may run, in the order promised, within group limits and key by key; a stale
    attempt reaches nothing.
  \<^item> Settling and failing: failing by the single statement loses and doubles no job: it ends in a retry, a
    failed row or a dead letter copy with its provenance.  The distributed form does the same where no two
    rows collide; where they do, further theorems show what is lost.
  \<^item> Inserting: only conflicts skip, upserts of a key converge, edits keep the identity of a job, but reach
    another queue's job of the same id.
  \<^item> Flows: exactly the acyclic ones are accepted, the accounting is kept by every operation but a
    delete, and the resolver releases exactly the children whose parents are all done.
  \<^item> Passes: claims are an interval apart; sweeps end and may be stopped at any batch; the bulk deletes are
    one abstract delete; queue calls keep the references valid.
  \<^item> Schedules: passes less than a minute apart find every occurrence, a gap owes its latest, each occurrence
    becomes exactly one job however many instances run, one broken row costs the others nothing.
  \<^item> Workers: a worker wakes for every notification and ends on stop; a fetch strands no row it claimed; the
    slots of local group limits are accounted for; a transactional batch whose handler settles its own jobs
    and rolls no settle back commits only on claims it holds (two theorems show what happens otherwise), and
    each job of a batch ends by its own result.
  \<^item> Background migrations, while runners are attended and not on CockroachDB: one command runs at a time and
    after its predecessors, and is recorded as done only when its index is there; a burst drains the queue.
  \<^item> Migrations: a script given the partitions does what a running instance would queue, within the
    migrations of a release any path of upgrades gives the same schema, and starts of one release agree
    however they interleave; of two releases the older may stamp its version on the newer one's schema.
  \<^item> Configuration: what is accepted is in range, and a schema name cannot break out of a statement.

  \<^bold>\<open>Loops and budgets.\<close>
  \<^verbatim>\<open>digits_of\<close> has fuel one more than the number, which bounds its digits.  The walks of maintenance
  take a budget of batches, since a pass may be stopped at any of them: \<^verbatim>\<open>maintenance_stop_safe\<close> holds
  for every budget, \<^verbatim>\<open>maintenance_completes\<close> names one that is enough.  The sort and the cycle search
  of a flow recurse on what is left to visit.  The searches backwards over occurrences are partial functions
  to an option, and are shown to return.  \<^verbatim>\<open>processCommands\<close> has fuel two more than the pending commands,
  which \<^verbatim>\<open>bam_burst_drains\<close> shows to be enough.

  \<^bold>\<open>Not modelled.\<close>
  The bodies of the migrations, from \<^verbatim>\<open>createQueueFn\<close> on in \<^verbatim>\<open>migrationStore.ts\<close>, and the upkeep of
  indexes (\<^verbatim>\<open>nurse.ts\<close>) are DDL, whose effect is not on the rows.  Connections and
  notifications are I/O (\<^verbatim>\<open>db.ts\<close>, \<^verbatim>\<open>notifier.ts\<close>).  Telemetry, warnings, statistics and the instance
  registry observe the queue and do not change it.  The dashboard, the proxy and the command line are
  programs of their own over the public class.  Statements run one after another: the isolation that makes
  concurrent ones behave so is PostgreSQL's, and enters only as the rows a lock withholds and, in \<open>Batch\<close>,
  as what a transaction at read committed sees.
\<close>

end
